(* ===== verification/Prelude.thy ===== *)
theory Prelude
  imports Main "HOL-Library.Word" "HOL-Library.Multiset"
begin

text \<open>
  Shared material of the development: the machine integer types of the sources, the
  sentinel record id, the sequential meaning of the CUDA toolkit primitives the sources
  call (exclusive scans, flagged selection, radix sort) and of kernel launches, and the
  list and word lemmas that several components use.
\<close>

unbundle bit_operations_syntax

type_synonym u8 = "8 word"
type_synonym u16 = "16 word"
type_synonym u32 = "32 word"
type_synonym u64 = "64 word"
type_synonym crid = "32 word"
type_synonym grid = "32 word"

named_theorems word_bounds \<open>bounds on unsigned values of words\<close>
named_theorems array_simps \<open>reads of device arrays after bulk updates\<close>

text \<open>The value every CRID, GRID and key array uses for "no record" (0xffffffff).\<close>

definition sentinel :: u32 where
  "sentinel = 0xffffffff"

lemma sentinel_max: "sentinel = - 1"
  by (simp add: sentinel_def)

lemma unat_sentinel [simp]: "unat sentinel = 2 ^ 32 - 1"
  by (simp add: sentinel_def)

lemma unat_u32_lt [word_bounds]: "unat (x :: u32) < 4294967296"
proof -
  have "unat x < 2 ^ LENGTH(32)" by (rule unsigned_less)
  then show ?thesis by simp
qed

lemma less_sentinel_iff: "x \<noteq> sentinel \<longleftrightarrow> unat x < 2 ^ 32 - 1"
proof -
  have "unat x < 2 ^ 32" by (simp add: unat_u32_lt)
  moreover have "x = sentinel \<longleftrightarrow> unat x = 2 ^ 32 - 1"
    by (metis unat_sentinel word_unat_eq_iff)
  ultimately show ?thesis by auto
qed

lemma unat_of_nat_u32 [word_bounds]: "n < 2 ^ 32 \<Longrightarrow> unat (of_nat n :: u32) = n"
  by (simp add: unat_of_nat)

lemma unat_widen: "unat (ucast (w :: u32) :: u64) = unat w"
proof -
  have "unat w < 2 ^ 64" using unat_u32_lt [of w] by simp
  then show ?thesis by (simp add: unsigned_ucast_eq take_bit_nat_eq_self_iff)
qed

lemma of_nat_u32_inj: "m < 2 ^ 32 \<Longrightarrow> n < 2 ^ 32 \<Longrightarrow> (of_nat m :: u32) = of_nat n \<longleftrightarrow> m = n"
  by (metis unat_of_nat_u32)

subsection \<open>Device arrays\<close>

text \<open>
  A device array is a list. A kernel launch runs its body once for every thread id; the
  order is a parameter where the result can depend on it, and the identity order elsewhere.
  A guarded store writes an element of the array.
\<close>

definition store :: "'a list \<Rightarrow> u32 \<Rightarrow> 'a \<Rightarrow> 'a list" where
  "store xs i v = xs[unat i := v]"

definition load :: "'a list \<Rightarrow> u32 \<Rightarrow> 'a" where
  "load xs i = xs ! unat i"

lemma length_store [simp]: "length (store xs i v) = length xs"
  by (simp add: store_def)

lemma load_store_same [simp]: "unat i < length xs \<Longrightarrow> load (store xs i v) i = v"
  by (simp add: store_def load_def)

lemma load_store_other [simp]: "i \<noteq> j \<Longrightarrow> load (store xs i v) j = load xs j"
  by (simp add: store_def load_def nth_list_update word_unat_eq_iff)

lemma load_store: "load (store xs i v) j = (if i = j \<and> unat i < length xs then v else load xs j)"
  by (cases "unat i < length xs") (auto simp: store_def load_def nth_list_update word_unat_eq_iff list_update_beyond)

lemma load_replicate [simp]: "unat i < n \<Longrightarrow> load (replicate n v) i = v"
  by (simp add: load_def)

text \<open>A scatter: one guarded store per index/value pair, in list order.\<close>

definition scatter :: "(u32 \<times> 'a) list \<Rightarrow> 'a list \<Rightarrow> 'a list" where
  "scatter ps xs = fold (\<lambda>(i, v) a. store a i v) ps xs"

lemma scatter_Nil [simp]: "scatter [] xs = xs"
  by (simp add: scatter_def)

lemma scatter_Cons [simp]: "scatter ((i, v) # ps) xs = scatter ps (store xs i v)"
  by (simp add: scatter_def)

lemma length_scatter [simp]: "length (scatter ps xs) = length xs"
  by (induction ps arbitrary: xs) auto

lemma load_scatter_notin [array_simps]:
  "j \<notin> fst ` set ps \<Longrightarrow> load (scatter ps xs) j = load xs j"
  by (induction ps arbitrary: xs) auto

lemma load_scatter_in [array_simps]:
  assumes "distinct (map fst ps)" and "(j, v) \<in> set ps" and "unat j < length xs"
  shows "load (scatter ps xs) j = v"
  using assms
proof (induction ps arbitrary: xs)
  case Nil
  then show ?case by simp
next
  case (Cons p ps)
  obtain i w where p: "p = (i, w)" by (cases p)
  show ?case
  proof (cases "(j, v) \<in> set ps")
    case True
    with Cons show ?thesis by (auto simp: p)
  next
    case False
    with Cons.prems p have "i = j" and "w = v" by auto
    moreover from Cons.prems p \<open>i = j\<close> have "j \<notin> fst ` set ps" by auto
    ultimately show ?thesis
      using Cons.prems(3) by (simp add: p load_scatter_notin)
  qed
qed

lemma scatter_append: "scatter (ps @ qs) xs = scatter qs (scatter ps xs)"
  by (simp add: scatter_def)

text \<open>Two scatters of the same pairs in different orders agree when the indices are distinct.\<close>

lemma list_eq_iff_load:
  assumes "length xs = length ys" and "length xs \<le> 2 ^ 32"
  shows "xs = ys \<longleftrightarrow> (\<forall>i. unat i < length xs \<longrightarrow> load xs i = load ys i)"
proof
  assume r: "\<forall>i. unat i < length xs \<longrightarrow> load xs i = load ys i"
  show "xs = ys"
  proof (rule nth_equalityI)
    show "length xs = length ys" by (rule assms(1))
  next
    fix k assume k: "k < length xs"
    with assms(2) have "unat (of_nat k :: u32) = k" by (simp add: unat_of_nat_u32)
    with r k show "xs ! k = ys ! k" unfolding load_def by metis
  qed
qed simp

lemma scatter_perm:
  assumes "mset ps = mset qs" and "distinct (map fst ps)" and "length xs \<le> 2 ^ 32"
  shows "scatter ps xs = scatter qs xs"
proof -
  have d: "distinct (map fst qs)"
    using assms(1,2) by (metis mset_eq_imp_distinct_iff mset_map)
  have s: "set ps = set qs" using assms(1) by (metis set_mset_mset)
  have "load (scatter ps xs) i = load (scatter qs xs) i" if "unat i < length xs" for i
  proof (cases "i \<in> fst ` set ps")
    case True
    then obtain v where "(i, v) \<in> set ps" by auto
    with s that assms(2) d show ?thesis by (simp add: load_scatter_in)
  next
    case False
    with s show ?thesis by (simp add: load_scatter_notin)
  qed
  with assms(3) show ?thesis by (simp add: list_eq_iff_load)
qed

subsection \<open>CUDA toolkit primitives\<close>

text \<open>\<^verbatim>\<open>cub::DeviceScan::ExclusiveSum\<close> and \<^verbatim>\<open>InclusiveSum\<close>.\<close>

fun exclusive_sum_from :: "u32 \<Rightarrow> u32 list \<Rightarrow> u32 list" where
  "exclusive_sum_from acc [] = []"
| "exclusive_sum_from acc (v # vs) = acc # exclusive_sum_from (acc + v) vs"

definition exclusive_sum :: "u32 list \<Rightarrow> u32 list" where
  "exclusive_sum vs = exclusive_sum_from 0 vs"

fun inclusive_sum_from :: "u32 \<Rightarrow> u32 list \<Rightarrow> u32 list" where
  "inclusive_sum_from acc [] = []"
| "inclusive_sum_from acc (v # vs) = (acc + v) # inclusive_sum_from (acc + v) vs"

text \<open>
  \<^verbatim>\<open>cub::DeviceScan::ExclusiveSumByKey\<close>: within each run of consecutive keys that
  compare equal, the exclusive running sum; it restarts at 0 at each run.
\<close>

fun exclusive_sum_by_key_from ::
  "('k \<Rightarrow> 'k \<Rightarrow> bool) \<Rightarrow> 'k \<Rightarrow> u32 \<Rightarrow> 'k list \<Rightarrow> u32 list \<Rightarrow> u32 list" where
  "exclusive_sum_by_key_from eq p acc (k # ks) (v # vs) =
     (let a = (if eq p k then acc else 0)
      in a # exclusive_sum_by_key_from eq k (a + v) ks vs)"
| "exclusive_sum_by_key_from eq p acc _ _ = []"

definition exclusive_sum_by_key :: "('k \<Rightarrow> 'k \<Rightarrow> bool) \<Rightarrow> 'k list \<Rightarrow> u32 list \<Rightarrow> u32 list" where
  "exclusive_sum_by_key eq ks vs =
     (case ks of [] \<Rightarrow> [] | k # _ \<Rightarrow> exclusive_sum_by_key_from eq k 0 ks vs)"

text \<open>\<^verbatim>\<open>cub::DeviceSelect::Flagged\<close> and \<^verbatim>\<open>If\<close>: the selected items, in order.\<close>

definition select_flagged :: "'a list \<Rightarrow> bool list \<Rightarrow> 'a list" where
  "select_flagged xs fs = map fst (filter snd (zip xs fs))"

text \<open>\<^verbatim>\<open>cub::DeviceSelect::Unique\<close>: one element of each run of equal elements.\<close>

fun unique_runs :: "'a list \<Rightarrow> 'a list" where
  "unique_runs [] = []"
| "unique_runs [x] = [x]"
| "unique_runs (x # y # ys) = (if x = y then unique_runs (y # ys) else x # unique_runs (y # ys))"

lemma set_unique_runs [simp]: "set (unique_runs xs) = set xs"
  by (induction xs rule: unique_runs.induct) auto

lemma sorted_unique_runs:
  "sorted xs \<Longrightarrow> sorted (unique_runs xs)"
  by (induction xs rule: unique_runs.induct) auto

lemma distinct_unique_runs:
  "sorted xs \<Longrightarrow> distinct (unique_runs xs)" for xs :: "'a::linorder list"
proof (induction xs rule: unique_runs.induct)
  case (3 x y ys)
  then show ?case by (auto dest: order_antisym)
qed auto

lemma length_unique_runs: "length (unique_runs xs) \<le> length xs"
  by (induction xs rule: unique_runs.induct) auto

lemma length_exclusive_sum_from [simp]: "length (exclusive_sum_from a vs) = length vs"
  by (induction vs arbitrary: a) auto

lemma length_exclusive_sum [simp]: "length (exclusive_sum vs) = length vs"
  by (simp add: exclusive_sum_def)

lemma length_inclusive_sum_from [simp]: "length (inclusive_sum_from a vs) = length vs"
  by (induction vs arbitrary: a) auto

lemma nth_exclusive_sum_from:
  "i < length vs \<Longrightarrow> exclusive_sum_from a vs ! i = a + sum_list (take i vs)"
  by (induction vs arbitrary: a i) (auto simp: nth_Cons take_Cons split: nat.split)

lemma nth_inclusive_sum_from:
  "i < length vs \<Longrightarrow> inclusive_sum_from a vs ! i = a + sum_list (take (Suc i) vs)"
  by (induction vs arbitrary: a i) (auto simp: nth_Cons split: nat.split)

lemma sum_list_of_bool:
  "sum_list (map (\<lambda>x. if P x then 1 else (0::u32)) xs) = of_nat (length (filter P xs))"
  by (induction xs) auto

lemma nth_exclusive_sum_count:
  "i < length xs \<Longrightarrow>
    exclusive_sum (map (\<lambda>x. if P x then 1 else 0) xs) ! i = of_nat (length (filter P (take i xs)))"
  by (simp add: exclusive_sum_def nth_exclusive_sum_from take_map sum_list_of_bool)

lemma length_exclusive_sum_by_key_from [simp]:
  "length vs = length ks \<Longrightarrow> length (exclusive_sum_by_key_from eq p a ks vs) = length ks"
  by (induction eq p a ks vs rule: exclusive_sum_by_key_from.induct) (auto simp: Let_def)

lemma length_exclusive_sum_by_key [simp]:
  "length vs = length ks \<Longrightarrow> length (exclusive_sum_by_key eq ks vs) = length ks"
  by (auto simp: exclusive_sum_by_key_def split: list.split)

lemma set_select_flagged:
  "length fs = length xs \<Longrightarrow> set (select_flagged xs fs) = {xs ! i |i. i < length xs \<and> fs ! i}"
  by (auto simp: select_flagged_def set_zip image_iff Bex_def) blast

text \<open>A list is grouped by a key when equal keys are contiguous.\<close>

fun grouped :: "('a \<Rightarrow> 'k) \<Rightarrow> 'a list \<Rightarrow> bool" where
  "grouped f [] = True"
| "grouped f [x] = True"
| "grouped f (x # y # ys) = ((f x = f y \<or> f x \<notin> f ` set (y # ys)) \<and> grouped f (y # ys))"

lemma grouped_ConsD: "grouped f (x # xs) \<Longrightarrow> grouped f xs"
  by (cases xs) auto

lemma grouped_sorted_key: "sorted (map f xs) \<Longrightarrow> grouped f xs" for f :: "'a \<Rightarrow> 'k::linorder"
  by (induction f xs rule: grouped.induct) (auto dest: order_antisym)

lemma grouped_rev_sorted_key: "sorted (rev (map f xs)) \<Longrightarrow> grouped f xs" for f :: "'a \<Rightarrow> 'k::linorder"
  by (induction f xs rule: grouped.induct) (auto simp: sorted_append dest: order_antisym)

lemma nth_exclusive_sum_by_key_from:
  assumes "grouped f (p # ks)" and "i < length ks"
  shows "exclusive_sum_by_key_from (\<lambda>a b. f a = f b) p acc ks
           (map (\<lambda>x. if P x then 1 else 0) ks) ! i =
         (if f (ks ! i) = f p then acc else 0) +
         of_nat (length (filter (\<lambda>x. P x \<and> f x = f (ks ! i)) (take i ks)))"
  using assms
proof (induction ks arbitrary: p acc i)
  case Nil
  then show ?case by simp
next
  case (Cons k ks)
  show ?case
  proof (cases i)
    case 0
    then show ?thesis by (auto simp: Let_def)
  next
    case (Suc j)
    with Cons.prems have j: "j < length ks" and g: "grouped f (k # ks)"
      by (auto dest: grouped_ConsD)
    have "f p \<noteq> f k \<Longrightarrow> f (ks ! j) \<noteq> f p"
      using Cons.prems(1) j by (auto simp: image_iff) (metis nth_mem)
    then show ?thesis
      using Cons.IH [OF g j] by (auto simp: Suc Let_def)
  qed
qed

lemma nth_exclusive_sum_by_key:
  assumes "grouped f ks" and "i < length ks"
  shows "exclusive_sum_by_key (\<lambda>a b. f a = f b) ks (map (\<lambda>x. if P x then 1 else 0) ks) ! i =
         of_nat (length (filter (\<lambda>x. P x \<and> f x = f (ks ! i)) (take i ks)))"
proof (cases ks)
  case Nil
  with assms show ?thesis by simp
next
  case (Cons k ks')
  then have "grouped f (k # ks)" using assms(1) by simp
  from nth_exclusive_sum_by_key_from [OF this assms(2), of 0 P]
  show ?thesis by (simp add: exclusive_sum_by_key_def Cons)
qed

end
