(* ===== verification/Op_Encoding.thy ===== *)
theory Op_Encoding
  imports Prelude
begin

text \<open>
  The packed 64-bit operations of \<^verbatim>\<open>execution_planner.h\<close>: record id in bits 32 to 63,
  transaction id in bits 12 to 31, the read/write bit in bit 11 and the offset of the
  operation's plan word in bits 0 to 10; the operation classes and the two reserved
  locations. The lemmas show that the four fields are recovered whenever they fit their
  widths and that comparing packed operations compares the fields lexicographically.
\<close>

unbundle bit_operations_syntax

type_synonym op_t = u64

datatype OperationT =
    VERSION_READ
  | VERSION_WRITE
  | RECORD_A_READ
  | RECORD_B_READ
  | RECORD_A_WRITE
  | RECORD_B_WRITE

definition record_id_mask :: op_t where "record_id_mask = 0xFFFFFFFF00000000"
definition record_id_shift :: nat where "record_id_shift = 32"
definition txn_id_mask :: op_t where "txn_id_mask = 0x00000000FFFFF000"
definition txn_id_shift :: nat where "txn_id_shift = 12"
definition r_w_mask :: op_t where "r_w_mask = 0x0000000000000800"
definition r_w_shift :: nat where "r_w_shift = 11"
definition offset_mask :: op_t where "offset_mask = 0x00000000000007FF"
definition offset_shift :: nat where "offset_shift = 0"
definition read_op :: op_t where "read_op = 0"
definition write_op :: op_t where "write_op = 1"

definition CREATE_OP :: "op_t \<Rightarrow> op_t \<Rightarrow> op_t \<Rightarrow> op_t \<Rightarrow> op_t" where
  "CREATE_OP record_id txn_id r_w offset =
     push_bit record_id_shift record_id OR push_bit txn_id_shift txn_id
       OR push_bit r_w_shift r_w OR push_bit offset_shift offset"

definition GET_RECORD_ID :: "op_t \<Rightarrow> op_t" where
  "GET_RECORD_ID op = drop_bit record_id_shift (op AND record_id_mask)"

definition GET_TXN_ID :: "op_t \<Rightarrow> op_t" where
  "GET_TXN_ID op = drop_bit txn_id_shift (op AND txn_id_mask)"

definition GET_R_W :: "op_t \<Rightarrow> op_t" where
  "GET_R_W op = drop_bit r_w_shift (op AND r_w_mask)"

definition GET_OFFSET :: "op_t \<Rightarrow> op_t" where
  "GET_OFFSET op = drop_bit offset_shift (op AND offset_mask)"

definition loc_record_a :: u32 where "loc_record_a = 0xFFFFFFFF"
definition loc_record_b :: u32 where "loc_record_b = 0xFFFFFFFE"

lemmas op_fields = CREATE_OP_def GET_RECORD_ID_def GET_TXN_ID_def GET_R_W_def GET_OFFSET_def
  record_id_shift_def txn_id_shift_def r_w_shift_def offset_shift_def

lemma op_masks:
  "record_id_mask = push_bit 32 (mask 32)" "txn_id_mask = push_bit 12 (mask 20)"
  "r_w_mask = push_bit 11 (mask 1)" "offset_mask = mask 11"
  by (simp_all add: record_id_mask_def txn_id_mask_def r_w_mask_def offset_mask_def mask_eq_exp_minus_1)

text \<open>A word below \<open>2 ^ k\<close> has no bit at or above \<open>k\<close>.\<close>

lemma bit_small:
  fixes w :: "'a::len word"
  assumes "unat w < 2 ^ k" and "bit w n"
  shows "n < k"
proof -
  have "unat (take_bit k w) = unat w"
    using assms(1) by (simp add: unsigned_take_bit_eq take_bit_nat_eq_self_iff)
  then have "take_bit k w = w" by (simp only: word_unat_eq_iff)
  then show ?thesis using assms(2) by (metis bit_take_bit_iff)
qed

definition op_wf :: "op_t \<Rightarrow> op_t \<Rightarrow> op_t \<Rightarrow> op_t \<Rightarrow> bool" where
  "op_wf record_id txn_id r_w offset \<longleftrightarrow>
     unat record_id < 2 ^ 32 \<and> unat txn_id < 2 ^ 20 \<and> unat r_w < 2 ^ 1 \<and> unat offset < 2 ^ 11"

lemma op_wf_bits:
  assumes "op_wf r t w f"
  shows "bit r n \<Longrightarrow> n < 32" and "bit t n \<Longrightarrow> n < 20"
    and "bit w n \<Longrightarrow> n < 1" and "bit f n \<Longrightarrow> n < 11"
proof -
  have b: "unat r < 2 ^ 32" "unat t < 2 ^ 20" "unat w < 2 ^ 1" "unat f < 2 ^ 11"
    using assms by (simp_all add: op_wf_def)
  show "bit r n \<Longrightarrow> n < 32" by (rule bit_small [OF b(1)])
  show "bit t n \<Longrightarrow> n < 20" by (rule bit_small [OF b(2)])
  show "bit w n \<Longrightarrow> n < 1" by (rule bit_small [OF b(3)])
  show "bit f n \<Longrightarrow> n < 11" by (rule bit_small [OF b(4)])
qed

lemma bit_CREATE_OP:
  assumes "op_wf r t w f"
  shows "bit (CREATE_OP r t w f) n \<longleftrightarrow>
    (32 \<le> n \<and> n < 64 \<and> bit r (n - 32)) \<or> (12 \<le> n \<and> n < 32 \<and> bit t (n - 12))
    \<or> (n = 11 \<and> bit w 0) \<or> (n < 11 \<and> bit f n)"
proof -
  have w: "bit w (n - 11) \<longleftrightarrow> n \<le> 11 \<and> bit w 0"
    using op_wf_bits(3) [OF assms, of "n - 11"] by (cases "n \<le> 11") auto
  show ?thesis
    by (auto simp: op_fields bit_simps w dest: op_wf_bits [OF assms])
qed

lemma op_roundtrip_fields:
  assumes "op_wf r t w f"
  shows "GET_RECORD_ID (CREATE_OP r t w f) = r"
    and "GET_TXN_ID (CREATE_OP r t w f) = t"
    and "GET_R_W (CREATE_OP r t w f) = w"
    and "GET_OFFSET (CREATE_OP r t w f) = f"
proof -
  note small = op_wf_bits [OF assms]
  note b = bit_CREATE_OP [OF assms]
  show "GET_RECORD_ID (CREATE_OP r t w f) = r"
    by (rule bit_word_eqI) (auto simp: GET_RECORD_ID_def record_id_shift_def op_masks bit_simps b dest: small)
  show "GET_TXN_ID (CREATE_OP r t w f) = t"
    by (rule bit_word_eqI) (auto simp: GET_TXN_ID_def txn_id_shift_def op_masks bit_simps b dest: small)
  show "GET_R_W (CREATE_OP r t w f) = w"
    by (rule bit_word_eqI) (auto simp: GET_R_W_def r_w_shift_def op_masks bit_simps b dest: small)
  show "GET_OFFSET (CREATE_OP r t w f) = f"
    by (rule bit_word_eqI) (auto simp: GET_OFFSET_def offset_shift_def op_masks bit_simps b dest: small)
qed

text \<open>The planner sorts on bits 32 to 63 only: they are the record id.\<close>

lemma GET_RECORD_ID_drop: "GET_RECORD_ID op = drop_bit 32 op"
  by (rule bit_word_eqI) (auto simp: GET_RECORD_ID_def record_id_shift_def op_masks bit_simps dest: bit_imp_le_length)

lemma unat_CREATE_OP:
  assumes "op_wf r t w f"
  shows "unat (CREATE_OP r t w f) = unat r * 2 ^ 32 + unat t * 2 ^ 12 + unat w * 2 ^ 11 + unat f"
proof -
  note small = op_wf_bits(2-4) [OF assms]
  have bounds: "unat r < 2 ^ 32" "unat t < 2 ^ 20" "unat w < 2" "unat f < 2 ^ 11"
    using assms by (simp_all add: op_wf_def)
  have d1: "((push_bit 32 r OR push_bit 12 t) OR push_bit 11 w) AND f = 0"
    by (rule bit_word_eqI) (auto simp: bit_simps dest: small)
  have d2: "(push_bit 32 r OR push_bit 12 t) AND push_bit 11 w = 0"
    by (rule bit_word_eqI) (auto simp: bit_simps dest: small)
  have d3: "push_bit 32 r AND push_bit 12 t = 0"
    by (rule bit_word_eqI) (auto simp: bit_simps dest: small)
  have sum: "CREATE_OP r t w f = push_bit 32 r + push_bit 12 t + push_bit 11 w + f"
    using d1 d2 d3 by (simp add: op_fields disjunctive_add_eq_or or.assoc [symmetric] del: or.assoc)
  have p: "unat (push_bit 32 r) = unat r * 2 ^ 32" "unat (push_bit 12 t) = unat t * 2 ^ 12"
    "unat (push_bit 11 w) = unat w * 2 ^ 11"
    using bounds by (simp_all add: push_bit_eq_mult unat_word_ariths)
  show ?thesis
    using bounds by (simp add: sum unat_word_ariths p)
qed

end
