(* ===== verification/Planner.thy ===== *)
theory Planner
  imports Op_Encoding
begin

text \<open>
  The execution planner of one table (\<^verbatim>\<open>gpu_execution_planner.cu\<close>): the submitted
  operations are radix-sorted on their record id (a stable sort, so the operations of one
  record keep their submission order), two segmented scans count the writes of the same
  record before and after each operation, every operation is classified, a scan over the
  classes numbers the intermediate versions, and the resulting location is scattered into
  the transaction's plan. The main lemma states that a read is sent to the location that
  the last earlier write of its record writes.
\<close>

unbundle bit_operations_syntax

record TableExecutionPlanner =
  curr_num_ops :: nat
  d_submitted_ops :: "op_t list"
  d_sorted_ops :: "op_t list"
  d_write_ops_before :: "u32 list"
  d_write_ops_after :: "u32 list"
  d_rw_ops_type :: "OperationT list"
  d_tver_write_ops_before :: "u32 list"
  exec_plan :: "u32 \<Rightarrow> u32 \<Rightarrow> u32"

definition SameRow :: "op_t \<Rightarrow> op_t \<Rightarrow> bool" where
  "SameRow a b \<longleftrightarrow> GET_RECORD_ID a = GET_RECORD_ID b"

definition WriteExtractor :: "op_t \<Rightarrow> u32" where
  "WriteExtractor op = (if GET_R_W op = write_op then 1 else 0)"

definition VersionWriteExtractor :: "OperationT \<Rightarrow> u32" where
  "VersionWriteExtractor t = (if t = VERSION_WRITE then 1 else 0)"

text \<open>One thread of \<^verbatim>\<open>calcOperationType\<close>.\<close>

definition calcOperationType :: "op_t \<Rightarrow> u32 \<Rightarrow> u32 \<Rightarrow> OperationT" where
  "calcOperationType op w_before w_after =
     (if GET_R_W op = write_op
      then (if w_after = 0 then RECORD_B_WRITE else VERSION_WRITE)
      else (if w_before = 0 then RECORD_A_READ
            else (if w_after = 0 then RECORD_B_READ else VERSION_READ)))"

text \<open>The switch of \<^verbatim>\<open>scatterRWLocation\<close>: the location of one operation.\<close>

fun rw_location :: "OperationT \<Rightarrow> u32 \<Rightarrow> u32" where
  "rw_location RECORD_A_READ v = loc_record_a"
| "rw_location RECORD_A_WRITE v = loc_record_a"
| "rw_location RECORD_B_READ v = loc_record_b"
| "rw_location RECORD_B_WRITE v = loc_record_b"
| "rw_location VERSION_READ v = v - 1"
| "rw_location VERSION_WRITE v = v"

text \<open>The scatter kernel: each thread stores its location at its transaction's plan word.\<close>

definition scatterRWLocation ::
  "op_t list \<Rightarrow> OperationT list \<Rightarrow> u32 list \<Rightarrow> (u32 \<Rightarrow> u32 \<Rightarrow> u32) \<Rightarrow> (u32 \<Rightarrow> u32 \<Rightarrow> u32)" where
  "scatterRWLocation sorted_ops op_types ver_writes_before plan =
     fold (\<lambda>idx p. let txn_id = ucast (GET_TXN_ID (sorted_ops ! idx)) :: u32;
                       offset = ucast (GET_OFFSET (sorted_ops ! idx)) :: u32
                   in p(txn_id := (p txn_id)(offset :=
                         rw_location (op_types ! idx) (ver_writes_before ! idx))))
       [0..<length sorted_ops] plan"

text \<open>The stages of \<^verbatim>\<open>InitializeExecutionPlan\<close> on the sorted operations.\<close>

definition sort_ops :: "op_t list \<Rightarrow> op_t list" where
  "sort_ops ops = sort_key (drop_bit 32) ops"

definition writes_before :: "op_t list \<Rightarrow> u32 list" where
  "writes_before xs = exclusive_sum_by_key SameRow xs (map WriteExtractor xs)"

definition writes_after :: "op_t list \<Rightarrow> u32 list" where
  "writes_after xs = rev (exclusive_sum_by_key SameRow (rev xs) (map WriteExtractor (rev xs)))"

definition op_types :: "op_t list \<Rightarrow> OperationT list" where
  "op_types xs = map (\<lambda>i. calcOperationType (xs ! i) (writes_before xs ! i) (writes_after xs ! i))
                   [0..<length xs]"

definition version_writes_before :: "op_t list \<Rightarrow> u32 list" where
  "version_writes_before xs = exclusive_sum (map VersionWriteExtractor (op_types xs))"

definition overwrite :: "'a list \<Rightarrow> 'a list \<Rightarrow> 'a list" where
  "overwrite new old = new @ drop (length new) old"

definition InitializeExecutionPlan :: "TableExecutionPlanner \<Rightarrow> TableExecutionPlanner" where
  "InitializeExecutionPlan p =
     (if curr_num_ops p = 0 then p
      else let xs = sort_ops (take (curr_num_ops p) (d_submitted_ops p))
           in p\<lparr>d_sorted_ops := overwrite xs (d_sorted_ops p),
                d_write_ops_before := overwrite (writes_before xs) (d_write_ops_before p),
                d_write_ops_after := overwrite (writes_after xs) (d_write_ops_after p),
                d_rw_ops_type := overwrite (op_types xs) (d_rw_ops_type p),
                d_tver_write_ops_before :=
                  overwrite (version_writes_before xs) (d_tver_write_ops_before p),
                exec_plan := scatterRWLocation xs (op_types xs) (version_writes_before xs)
                               (exec_plan p)\<rparr>)"

text \<open>The location the plan gives to the \<open>i\<close>-th sorted operation.\<close>

definition op_location :: "op_t list \<Rightarrow> nat \<Rightarrow> u32" where
  "op_location xs i = rw_location (op_types xs ! i) (version_writes_before xs ! i)"

abbreviation rid :: "op_t \<Rightarrow> op_t" where "rid \<equiv> GET_RECORD_ID"
abbreviation is_write :: "op_t \<Rightarrow> bool" where "is_write op \<equiv> GET_R_W op = write_op"

definition same_write :: "op_t \<Rightarrow> op_t \<Rightarrow> bool" where
  "same_write x y \<longleftrightarrow> is_write y \<and> rid y = rid x"

definition last_write_before :: "op_t list \<Rightarrow> nat \<Rightarrow> nat \<Rightarrow> bool" where
  "last_write_before xs i j \<longleftrightarrow>
     j < i \<and> same_write (xs ! i) (xs ! j) \<and> (\<forall>k. j < k \<longrightarrow> k < i \<longrightarrow> \<not> same_write (xs ! i) (xs ! k))"

subsection \<open>The sort\<close>

lemma sort_ops_by_rid: "sort_ops ops = sort_key rid ops"
proof -
  have "rid = drop_bit 32" by (rule ext) (rule GET_RECORD_ID_drop)
  then show ?thesis by (simp add: sort_ops_def)
qed

lemma mset_sort_ops [simp]: "mset (sort_ops ops) = mset ops"
  by (simp add: sort_ops_def)

lemma length_sort_ops [simp]: "length (sort_ops ops) = length ops"
  by (simp add: sort_ops_def)

lemma sorted_sort_ops: "sorted (map rid (sort_ops ops))"
  by (simp add: sort_ops_by_rid)

text \<open>The operations of one record keep their submission order.\<close>

lemma sort_ops_stable: "filter (\<lambda>x. rid x = r) (sort_ops ops) = filter (\<lambda>x. rid x = r) ops"
  by (simp add: sort_ops_by_rid sort_key_stable)

subsection \<open>The scans\<close>

lemma SameRow_eq: "SameRow = (\<lambda>a b. rid a = rid b)"
  by (simp add: fun_eq_iff SameRow_def)

lemma map_WriteExtractor: "map WriteExtractor xs = map (\<lambda>x. if is_write x then 1 else 0) xs"
  by (simp add: WriteExtractor_def)

lemma length_scans [simp]:
  "length (writes_before xs) = length xs" "length (writes_after xs) = length xs"
  "length (op_types xs) = length xs" "length (version_writes_before xs) = length xs"
  by (simp_all add: writes_before_def writes_after_def op_types_def version_writes_before_def)

lemma nth_writes_before:
  assumes "sorted (map rid xs)" and "i < length xs"
  shows "writes_before xs ! i = of_nat (length (filter (same_write (xs ! i)) (take i xs)))"
proof -
  have "grouped rid xs" using assms(1) by (rule grouped_sorted_key)
  from nth_exclusive_sum_by_key [OF this assms(2), of is_write] show ?thesis
    by (simp add: writes_before_def map_WriteExtractor SameRow_eq same_write_def [abs_def])
qed

lemma nth_writes_after:
  assumes "sorted (map rid xs)" and "i < length xs"
  shows "writes_after xs ! i = of_nat (length (filter (same_write (xs ! i)) (drop (Suc i) xs)))"
proof -
  let ?j = "length xs - Suc i"
  have g: "grouped rid (rev xs)"
    by (rule grouped_rev_sorted_key) (simp add: assms(1) rev_map)
  have j: "?j < length (rev xs)" using assms(2) by simp
  have at: "rev xs ! ?j = xs ! i" using assms(2) by (simp add: rev_nth)
  have "length xs - ?j = Suc i" using assms(2) by simp
  then have tk: "take ?j (rev xs) = rev (drop (Suc i) xs)" by (simp only: take_rev)
  have "writes_after xs ! i = exclusive_sum_by_key SameRow (rev xs) (map WriteExtractor (rev xs)) ! ?j"
    using assms(2) by (simp add: writes_after_def rev_nth)
  also have "\<dots> = of_nat (length (filter (\<lambda>x. is_write x \<and> rid x = rid (rev xs ! ?j)) (take ?j (rev xs))))"
    unfolding map_WriteExtractor SameRow_eq by (rule nth_exclusive_sum_by_key [OF g j])
  also have "\<dots> = of_nat (length (filter (same_write (xs ! i)) (drop (Suc i) xs)))"
    by (simp add: at tk same_write_def [abs_def] flip: rev_filter)
  finally show ?thesis .
qed

lemma count_zero_iff:
  assumes "length ys < 2 ^ 32"
  shows "(of_nat (length (filter P ys)) :: u32) = 0 \<longleftrightarrow> (\<forall>y\<in>set ys. \<not> P y)"
proof -
  have "length (filter P ys) < 2 ^ 32"
    using assms length_filter_le [of P ys] by linarith
  then have "(of_nat (length (filter P ys)) :: u32) = of_nat 0 \<longleftrightarrow> length (filter P ys) = 0"
    by (subst of_nat_u32_inj) auto
  then show ?thesis by (simp add: filter_empty_conv)
qed

subsection \<open>Classes and locations\<close>

text \<open>
  A planned table: the sorted operations of one epoch, few enough that no scan wraps and no
  version number reaches the reserved locations.
\<close>

definition planned :: "op_t list \<Rightarrow> bool" where
  "planned xs \<longleftrightarrow> sorted (map rid xs) \<and> length xs < 2 ^ 32 - 2"

lemma planned_sort_ops: "length ops < 2 ^ 32 - 2 \<Longrightarrow> planned (sort_ops ops)"
  by (simp add: planned_def sorted_sort_ops)

definition write_later :: "op_t list \<Rightarrow> nat \<Rightarrow> bool" where
  "write_later xs i \<longleftrightarrow> (\<exists>k. i < k \<and> k < length xs \<and> same_write (xs ! i) (xs ! k))"

definition write_earlier :: "op_t list \<Rightarrow> nat \<Rightarrow> bool" where
  "write_earlier xs i \<longleftrightarrow> (\<exists>k. k < i \<and> same_write (xs ! i) (xs ! k))"

lemma writes_before_zero:
  assumes "planned xs" and "i < length xs"
  shows "writes_before xs ! i = 0 \<longleftrightarrow> \<not> write_earlier xs i"
proof -
  have "length (take i xs) < 2 ^ 32" using assms by (simp add: planned_def)
  from count_zero_iff [OF this] show ?thesis
    using assms by (force simp: nth_writes_before planned_def write_earlier_def in_set_conv_nth)
qed

lemma writes_after_zero:
  assumes "planned xs" and "i < length xs"
  shows "writes_after xs ! i = 0 \<longleftrightarrow> \<not> write_later xs i"
proof -
  have s: "y \<in> set (drop (Suc i) xs) \<longleftrightarrow> (\<exists>k. i < k \<and> k < length xs \<and> y = xs ! k)" for y
  proof
    assume "y \<in> set (drop (Suc i) xs)"
    then obtain k where "k < length xs - Suc i" "y = xs ! (Suc i + k)"
      by (auto simp: in_set_conv_nth)
    then show "\<exists>k. i < k \<and> k < length xs \<and> y = xs ! k"
      by (intro exI [of _ "Suc i + k"]) auto
  next
    assume "\<exists>k. i < k \<and> k < length xs \<and> y = xs ! k"
    then obtain k where "i < k" "k < length xs" "y = xs ! k" by blast
    then show "y \<in> set (drop (Suc i) xs)"
      by (auto simp: in_set_conv_nth intro!: exI [of _ "k - Suc i"])
  qed
  have "length xs < 2 ^ 32" using assms by (simp add: planned_def)
  then have "length (drop (Suc i) xs) < 2 ^ 32"
    by (rule le_less_trans [rotated]) simp
  from count_zero_iff [OF this] show ?thesis
    using assms unfolding planned_def write_later_def Ball_def s
    by (simp add: nth_writes_after) blast
qed

lemma nth_op_types:
  assumes "planned xs" and "i < length xs"
  shows "op_types xs ! i =
    (if is_write (xs ! i) then (if write_later xs i then VERSION_WRITE else RECORD_B_WRITE)
     else if write_earlier xs i then (if write_later xs i then VERSION_READ else RECORD_B_READ)
     else RECORD_A_READ)"
  using assms
  by (simp add: op_types_def calcOperationType_def writes_before_zero writes_after_zero)

definition version_count :: "op_t list \<Rightarrow> nat \<Rightarrow> nat" where
  "version_count xs i = length (filter (\<lambda>t. t = VERSION_WRITE) (take i (op_types xs)))"

lemma version_count_le: "version_count xs i \<le> i"
  unfolding version_count_def by (rule order_trans [OF length_filter_le]) simp

lemma nth_version_writes_before:
  "i < length xs \<Longrightarrow> version_writes_before xs ! i = of_nat (version_count xs i)"
  by (simp add: version_writes_before_def VersionWriteExtractor_def [abs_def]
      nth_exclusive_sum_count version_count_def)

lemma unat_version_writes_before:
  assumes "planned xs" and "i < length xs"
  shows "unat (version_writes_before xs ! i) = version_count xs i"
  using assms version_count_le [of xs i]
  by (simp add: nth_version_writes_before unat_of_nat_u32 planned_def)

lemma version_count_Suc:
  "i < length xs \<Longrightarrow>
    version_count xs (Suc i) = version_count xs i + (if op_types xs ! i = VERSION_WRITE then 1 else 0)"
  by (simp add: version_count_def take_Suc_conv_app_nth)

lemma version_count_mono: "i \<le> j \<Longrightarrow> version_count xs i \<le> version_count xs j"
  unfolding version_count_def
  by (metis take_add le_add_diff_inverse filter_append length_append le_add1)

lemma version_count_gap:
  assumes "i \<le> j" and "j \<le> length xs" and "\<forall>k. i \<le> k \<longrightarrow> k < j \<longrightarrow> op_types xs ! k \<noteq> VERSION_WRITE"
  shows "version_count xs j = version_count xs i"
  using assms(1) assms(2,3)
proof (induction j rule: dec_induct)
  case base
  show ?case ..
next
  case (step j)
  then show ?case by (simp add: version_count_Suc)
qed

text \<open>Sorted by record id: an operation between two operations of a record is of that record.\<close>

lemma planned_between:
  assumes "planned xs" and "j \<le> k" and "k \<le> i" and "i < length xs" and "rid (xs ! j) = rid (xs ! i)"
  shows "rid (xs ! k) = rid (xs ! i)"
proof -
  have s: "sorted (map rid xs)" using assms(1) by (simp add: planned_def)
  have "rid (xs ! j) \<le> rid (xs ! k)" "rid (xs ! k) \<le> rid (xs ! i)"
    using sorted_nth_mono [OF s, of j k] sorted_nth_mono [OF s, of k i] assms by auto
  with assms(5) show ?thesis by simp
qed

lemma same_write_cong: "rid x = rid y \<Longrightarrow> same_write x = same_write y"
  by (simp add: same_write_def fun_eq_iff)

lemma last_write_later:
  assumes "last_write_before xs i j" and "\<not> is_write (xs ! i)" and "i < length xs"
  shows "write_later xs j \<longleftrightarrow> write_later xs i"
proof -
  have ji: "j < i" and same: "same_write (xs ! i) = same_write (xs ! j)"
    using assms(1) by (auto simp: last_write_before_def same_write_def fun_eq_iff)
  have none: "\<not> same_write (xs ! i) (xs ! k)" if "j < k" "k \<le> i" for k
    using that assms(1,2) by (cases "k = i") (auto simp: last_write_before_def same_write_def)
  have "j < k \<and> same_write (xs ! i) (xs ! k) \<longleftrightarrow> i < k \<and> same_write (xs ! i) (xs ! k)" for k
    using none [of k] ji by (cases "k \<le> i") auto
  then show ?thesis
    unfolding write_later_def same [symmetric] by blast
qed

lemma last_write_version_count:
  assumes "planned xs" and "i < length xs" and "last_write_before xs i j" and "write_later xs j"
  shows "version_count xs i = Suc (version_count xs j)"
proof -
  have j: "j < i" "same_write (xs ! i) (xs ! j)" using assms(3) by (auto simp: last_write_before_def)
  have "op_types xs ! k \<noteq> VERSION_WRITE" if k: "Suc j \<le> k" "k < i" for k
  proof -
    have "rid (xs ! k) = rid (xs ! i)"
      using planned_between [OF assms(1), of j k i] k j assms(2) by (simp add: same_write_def)
    moreover have "\<not> same_write (xs ! i) (xs ! k)"
      using assms(3) k by (simp add: last_write_before_def)
    ultimately have "\<not> is_write (xs ! k)" by (simp add: same_write_def)
    then show ?thesis using k assms(1,2) by (simp add: nth_op_types)
  qed
  then have "version_count xs i = version_count xs (Suc j)"
    using j assms(2) by (intro version_count_gap) auto
  also have "\<dots> = Suc (version_count xs j)"
    using j assms(1,2,4) by (simp add: version_count_Suc nth_op_types same_write_def)
  finally show ?thesis .
qed

text \<open>A read is sent to the location its last earlier write writes.\<close>

lemma read_location_last_write:
  assumes "planned xs" and "i < length xs" and "\<not> is_write (xs ! i)" and "last_write_before xs i j"
  shows "op_location xs i = op_location xs j"
proof -
  have j: "j < i" "is_write (xs ! j)" and e: "write_earlier xs i"
    using assms(4) by (auto simp: last_write_before_def same_write_def write_earlier_def)
  note later = last_write_later [OF assms(4,3,2)]
  show ?thesis
  proof (cases "write_later xs i")
    case True
    then have "version_count xs i = Suc (version_count xs j)"
      using last_write_version_count [OF assms(1,2,4)] later by simp
    then show ?thesis
      using True later j e assms(1-3)
      by (simp add: op_location_def nth_op_types nth_version_writes_before)
  next
    case False
    then show ?thesis
      using later j e assms(1-3) by (simp add: op_location_def nth_op_types)
  qed
qed

lemma first_read_location:
  assumes "planned xs" and "i < length xs" and "\<not> is_write (xs ! i)" and "\<not> write_earlier xs i"
  shows "op_location xs i = loc_record_a"
  using assms by (simp add: op_location_def nth_op_types)

lemma last_write_location:
  assumes "planned xs" and "i < length xs" and "is_write (xs ! i)" and "\<not> write_later xs i"
  shows "op_location xs i = loc_record_b"
  using assms by (simp add: op_location_def nth_op_types)

lemma version_write_location:
  assumes "planned xs" and "i < length xs" and "is_write (xs ! i)" and "write_later xs i"
  shows "unat (op_location xs i) = version_count xs i" and "unat (op_location xs i) < length xs"
    and "op_location xs i < loc_record_b"
proof -
  show *: "unat (op_location xs i) = version_count xs i"
    using assms by (simp add: op_location_def nth_op_types unat_version_writes_before)
  show l: "unat (op_location xs i) < length xs"
    using * version_count_le [of xs i] assms(2) by simp
  show "op_location xs i < loc_record_b"
    using l assms(1) by (simp add: word_less_nat_alt loc_record_b_def planned_def)
qed

text \<open>No two writes share an intermediate version.\<close>

lemma version_write_distinct:
  assumes "planned xs" and "i < j" and "j < length xs" and "is_write (xs ! i)" and "is_write (xs ! j)"
    and "write_later xs i" and "write_later xs j"
  shows "op_location xs i \<noteq> op_location xs j"
proof -
  have "version_count xs (Suc i) \<le> version_count xs j"
    using assms(2) by (intro version_count_mono) simp
  then have "version_count xs i < version_count xs j"
    using assms by (simp add: version_count_Suc nth_op_types)
  then show ?thesis
    using version_write_location(1) [of xs i] version_write_location(1) [of xs j] assms
    by (metis less_trans nat_less_le)
qed

text \<open>Every earlier write has a last one.\<close>

lemma write_earlier_last:
  "write_earlier xs i \<longleftrightarrow> (\<exists>j. last_write_before xs i j)"
proof
  assume "write_earlier xs i"
  then obtain k where k: "k < i \<and> same_write (xs ! i) (xs ! k)"
    by (auto simp: write_earlier_def)
  define m where "m = (GREATEST k. k < i \<and> same_write (xs ! i) (xs ! k))"
  have m: "m < i \<and> same_write (xs ! i) (xs ! m)"
    unfolding m_def using k by (rule GreatestI_nat [where b = i]) simp
  have "k \<le> m" if "k < i \<and> same_write (xs ! i) (xs ! k)" for k
    unfolding m_def using that by (rule Greatest_le_nat [where b = i]) simp
  with m have "last_write_before xs i m"
    by (force simp: last_write_before_def)
  then show "\<exists>j. last_write_before xs i j" ..
qed (auto simp: write_earlier_def last_write_before_def)

subsection \<open>The plan of an epoch\<close>

text \<open>The plan word of an operation: its transaction and the offset in that transaction's plan.\<close>

definition plan_key :: "op_t \<Rightarrow> u32 \<times> u32" where
  "plan_key op = (ucast (GET_TXN_ID op), ucast (GET_OFFSET op))"

definition planned_location :: "TableExecutionPlanner \<Rightarrow> op_t \<Rightarrow> u32" where
  "planned_location p op = exec_plan p (fst (plan_key op)) (snd (plan_key op))"

definition current_ops :: "TableExecutionPlanner \<Rightarrow> op_t list" where
  "current_ops p = take (curr_num_ops p) (d_submitted_ops p)"

lemma fold_plan_notin:
  assumes "\<forall>i\<in>set is. K i \<noteq> (a, b)"
  shows "fold (\<lambda>i p. p(fst (K i) := (p (fst (K i)))(snd (K i) := L i))) is plan a b = plan a b"
  using assms
  by (induction "is" arbitrary: plan) (auto simp: prod_eq_iff)

lemma fold_plan_in:
  assumes "distinct (map K is)" and "i \<in> set is"
  shows "fold (\<lambda>i p. p(fst (K i) := (p (fst (K i)))(snd (K i) := L i))) is plan (fst (K i)) (snd (K i)) = L i"
  using assms
proof (induction "is" arbitrary: plan)
  case Nil
  then show ?case by simp
next
  case (Cons k ks)
  show ?case
  proof (cases "i \<in> set ks")
    case True
    with Cons show ?thesis by simp
  next
    case False
    with Cons.prems have "k = i" and n: "\<forall>j\<in>set ks. K j \<noteq> (fst (K i), snd (K i))"
      by (auto simp: image_iff)
    then show ?thesis by (simp only: fold_simps fold_plan_notin [OF n]) simp
  qed
qed

lemma scatterRWLocation_at:
  assumes "distinct (map plan_key xs)" and "i < length xs"
  shows "scatterRWLocation xs (op_types xs) (version_writes_before xs) plan
           (fst (plan_key (xs ! i))) (snd (plan_key (xs ! i))) = op_location xs i"
proof -
  have "distinct (map (\<lambda>i. plan_key (xs ! i)) [0..<length xs])"
    using assms(1) by (metis (no_types, lifting) map_nth map_map comp_apply map_eq_conv)
  from fold_plan_in [OF this, of i "op_location xs" plan] assms(2)
  show ?thesis
    by (simp add: scatterRWLocation_def plan_key_def op_location_def Let_def)
qed

lemma planned_location_at:
  assumes "distinct (map plan_key (current_ops p))" and "i < length (current_ops p)"
  shows "planned_location (InitializeExecutionPlan p) (sort_ops (current_ops p) ! i)
           = op_location (sort_ops (current_ops p)) i"
proof -
  have "mset (map plan_key (sort_ops (current_ops p))) = mset (map plan_key (current_ops p))"
    by simp
  then have d: "distinct (map plan_key (sort_ops (current_ops p)))"
    using assms(1) by (metis mset_eq_imp_distinct_iff)
  have "curr_num_ops p \<noteq> 0" using assms(2) by (auto simp: current_ops_def)
  then show ?thesis
    using scatterRWLocation_at [OF d, of i "exec_plan p"] assms(2)
    by (simp add: planned_location_def InitializeExecutionPlan_def current_ops_def Let_def)
qed

text \<open>Positions of the sorted operations from the submission order of one record.\<close>

lemma filter_middle_ex:
  "filter P ys = us @ x # vs \<Longrightarrow> \<exists>u v. ys = u @ x # v \<and> filter P u = us \<and> filter P v = vs"
proof (induction ys arbitrary: us)
  case Nil
  then show ?case by simp
next
  case (Cons y ys)
  show ?case
  proof (cases "P y \<and> us = []")
    case True
    with Cons.prems show ?thesis by (intro exI [of _ "[]"] exI [of _ ys]) auto
  next
    case False
    then obtain us' where "filter P ys = us' @ x # vs" "us = filter P [y] @ us'"
      using Cons.prems by (cases us) (auto split: if_splits)
    with Cons.IH [of us'] obtain u v where "ys = u @ x # v" "filter P u = us'" "filter P v = vs"
      by blast
    with \<open>us = filter P [y] @ us'\<close> show ?thesis by (intro exI [of _ "y # u"] exI [of _ v]) auto
  qed
qed

lemma filter_middle:
  assumes "filter P ys = us @ x # vs"
  obtains u v where "ys = u @ x # v" "filter P u = us" "filter P v = vs"
  using filter_middle_ex [OF assms] by blast

lemma sorted_position:
  assumes "ops = as @ x # bs"
  obtains u v where "sort_ops ops = u @ x # v"
    and "filter (\<lambda>y. rid y = rid x) u = filter (\<lambda>y. rid y = rid x) as"
    and "filter (\<lambda>y. rid y = rid x) v = filter (\<lambda>y. rid y = rid x) bs"
proof -
  have "filter (\<lambda>y. rid y = rid x) (sort_ops ops) =
      filter (\<lambda>y. rid y = rid x) as @ x # filter (\<lambda>y. rid y = rid x) bs"
    by (simp add: sort_ops_stable assms)
  then show thesis by (rule filter_middle) (rule that)
qed

lemma filter_same_write:
  assumes "filter (\<lambda>y. rid y = rid x) us = filter (\<lambda>y. rid y = rid x) vs"
  shows "(\<exists>y\<in>set us. same_write x y) \<longleftrightarrow> (\<exists>y\<in>set vs. same_write x y)"
proof -
  have "{y \<in> set us. rid y = rid x} = {y \<in> set vs. rid y = rid x}"
    using arg_cong [OF assms, of set] by simp
  then show ?thesis by (auto simp: same_write_def)
qed

lemma write_earlier_split: "write_earlier (u @ x # v) (length u) \<longleftrightarrow> (\<exists>y\<in>set u. same_write x y)"
proof -
  have "write_earlier (u @ x # v) (length u) \<longleftrightarrow> (\<exists>k<length u. same_write x (u ! k))"
    by (auto simp: write_earlier_def nth_append)
  then show ?thesis by (simp add: Bex_def in_set_conv_nth) blast
qed

lemma write_later_split: "write_later (u @ x # v) (length u) \<longleftrightarrow> (\<exists>y\<in>set v. same_write x y)"
proof
  assume "write_later (u @ x # v) (length u)"
  then obtain k where k: "length u < k" "k < length (u @ x # v)" "same_write x ((u @ x # v) ! k)"
    by (auto simp: write_later_def)
  then have "(u @ x # v) ! k = v ! (k - Suc (length u))" by (simp add: nth_append)
  with k show "\<exists>y\<in>set v. same_write x y"
    by (intro bexI [of _ "v ! (k - Suc (length u))"]) auto
next
  assume "\<exists>y\<in>set v. same_write x y"
  then obtain k where "k < length v" "same_write x (v ! k)" by (auto simp: in_set_conv_nth)
  then show "write_later (u @ x # v) (length u)"
    unfolding write_later_def by (intro exI [of _ "Suc (length u) + k"]) (auto simp: nth_append)
qed

lemma last_write_split:
  assumes "same_write r w" and "\<forall>b\<in>set bs. \<not> same_write r b"
  shows "last_write_before (as @ w # bs @ r # cs) (length as + Suc (length bs)) (length as)"
proof -
  have "\<not> same_write r (bs ! m)" if "m < length bs" for m using that assms(2) by simp
  with assms(1) show ?thesis by (auto simp: last_write_before_def nth_append nth_Cons')
qed

lemma sorted_write_read:
  assumes "ops = as @ w # bs @ r # cs" and "same_write r w" and "\<forall>b\<in>set bs. \<not> same_write r b"
  obtains i j where "i < length ops" and "sort_ops ops ! i = r" and "sort_ops ops ! j = w"
    and "last_write_before (sort_ops ops) i j"
proof -
  let ?P = "\<lambda>y. rid y = rid r"
  have rw: "rid w = rid r" using assms(2) by (simp add: same_write_def)
  then have "filter ?P (sort_ops ops) = filter ?P as @ w # (filter ?P bs @ r # filter ?P cs)"
    by (simp add: sort_ops_stable assms(1))
  then obtain u v where u: "sort_ops ops = u @ w # v" "filter ?P v = filter ?P bs @ r # filter ?P cs"
    by (rule filter_middle)
  from u(2) obtain b c where b: "v = b @ r # c" "filter ?P b = filter ?P bs"
    by (rule filter_middle)
  have s: "sort_ops ops = u @ w # b @ r # c" using u(1) b(1) by simp
  have "\<forall>x\<in>set b. \<not> same_write r x"
    using filter_same_write [OF b(2)] assms(3) by blast
  from last_write_split [OF assms(2) this] s
  have l: "last_write_before (sort_ops ops) (length u + Suc (length b)) (length u)" by simp
  have "length (sort_ops ops) = length u + Suc (length b) + Suc (length c)" by (simp add: s)
  then have i: "length u + Suc (length b) < length ops" by simp
  show thesis
    by (rule that [OF i _ _ l]) (simp_all add: s nth_append)
qed

text \<open>C2: In the plan of an epoch, a read is given the location that the last write of its
  record submitted before it is given, whatever other operations stand between them.\<close>

theorem plan_read_sees_last_write:
  assumes "current_ops p = as @ w # bs @ r # cs"
    and "same_write r w" and "\<not> is_write r" and "\<forall>b\<in>set bs. \<not> same_write r b"
    and "distinct (map plan_key (current_ops p))" and "length (current_ops p) < 2 ^ 32 - 2"
  shows "planned_location (InitializeExecutionPlan p) r = planned_location (InitializeExecutionPlan p) w"
proof -
  let ?xs = "sort_ops (current_ops p)"
  obtain i j where ij: "i < length (current_ops p)" "?xs ! i = r" "?xs ! j = w"
      "last_write_before ?xs i j"
    by (rule sorted_write_read [OF assms(1,2,4)])
  have j: "j < length (current_ops p)" using ij by (auto simp: last_write_before_def)
  have "op_location ?xs i = op_location ?xs j"
    using planned_sort_ops [OF assms(6)] ij assms(3) by (intro read_location_last_write) auto
  then show ?thesis
    using planned_location_at [OF assms(5) ij(1)] planned_location_at [OF assms(5) j] ij by simp
qed

definition sample_ops :: "op_t list" where
  "sample_ops = [CREATE_OP 7 0 write_op 0, CREATE_OP 3 0 read_op 1, CREATE_OP 7 1 read_op 0,
                 CREATE_OP 7 2 write_op 0]"

definition sample_planner :: TableExecutionPlanner where
  "sample_planner = \<lparr>curr_num_ops = 4, d_submitted_ops = sample_ops, d_sorted_ops = [],
     d_write_ops_before = [], d_write_ops_after = [], d_rw_ops_type = [],
     d_tver_write_ops_before = [], exec_plan = (\<lambda>_ _. 0)\<rparr>"

lemmas sample_simps = sample_ops_def sample_planner_def current_ops_def CREATE_OP_def plan_key_def
  GET_TXN_ID_def GET_OFFSET_def GET_RECORD_ID_def GET_R_W_def same_write_def read_op_def write_op_def
  record_id_shift_def txn_id_shift_def r_w_shift_def offset_shift_def record_id_mask_def
  txn_id_mask_def r_w_mask_def offset_mask_def

theorem plan_read_sees_last_write_witness:
  "planned_location (InitializeExecutionPlan sample_planner) (CREATE_OP 7 1 read_op 0)
     = planned_location (InitializeExecutionPlan sample_planner) (CREATE_OP 7 0 write_op 0)"
  by (rule plan_read_sees_last_write [of sample_planner "[]" "CREATE_OP 7 0 write_op 0"
        "[CREATE_OP 3 0 read_op 1]" "CREATE_OP 7 1 read_op 0" "[CREATE_OP 7 2 write_op 0]"])
    (simp_all add: sample_simps)

text \<open>C10: A read with no earlier write of its record is sent to the epoch-start copy of the
  record, and a write is sent to the record itself exactly when no later operation writes
  the record; any other write gets a version slot below the number of operations.\<close>

theorem plan_ends_of_record:
  assumes "current_ops p = as @ x # bs"
    and "distinct (map plan_key (current_ops p))" and "length (current_ops p) < 2 ^ 32 - 2"
  shows "(\<not> is_write x \<and> (\<forall>a\<in>set as. \<not> same_write x a) \<longrightarrow>
            planned_location (InitializeExecutionPlan p) x = loc_record_a)
       \<and> (is_write x \<and> (\<forall>b\<in>set bs. \<not> same_write x b) \<longrightarrow>
            planned_location (InitializeExecutionPlan p) x = loc_record_b)
       \<and> (is_write x \<and> (\<exists>b\<in>set bs. same_write x b) \<longrightarrow>
            planned_location (InitializeExecutionPlan p) x < loc_record_b \<and>
            unat (planned_location (InitializeExecutionPlan p) x) < length (current_ops p))"
proof -
  let ?xs = "sort_ops (current_ops p)"
  obtain u v where uv: "?xs = u @ x # v"
      "filter (\<lambda>y. rid y = rid x) u = filter (\<lambda>y. rid y = rid x) as"
      "filter (\<lambda>y. rid y = rid x) v = filter (\<lambda>y. rid y = rid x) bs"
    by (rule sorted_position [OF assms(1)])
  have len: "length ?xs = length (current_ops p)" by simp
  then have i: "length u < length (current_ops p)" using uv(1) by simp
  have x: "?xs ! length u = x" by (simp add: uv(1))
  have e: "write_earlier ?xs (length u) \<longleftrightarrow> (\<exists>y\<in>set as. same_write x y)"
    by (simp add: uv(1) write_earlier_split filter_same_write [OF uv(2)])
  have l: "write_later ?xs (length u) \<longleftrightarrow> (\<exists>y\<in>set bs. same_write x y)"
    by (simp add: uv(1) write_later_split filter_same_write [OF uv(3)])
  note pl = planned_sort_ops [OF assms(3)]
  have loc: "planned_location (InitializeExecutionPlan p) x = op_location ?xs (length u)"
    using planned_location_at [OF assms(2) i] x by simp
  show ?thesis
    using first_read_location [OF pl, of "length u"] last_write_location [OF pl, of "length u"]
      version_write_location [OF pl, of "length u"] i x e l loc len by simp
qed

theorem plan_ends_of_record_witness:
  "planned_location (InitializeExecutionPlan sample_planner) (CREATE_OP 3 0 read_op 1) = loc_record_a"
  using plan_ends_of_record [of sample_planner "[CREATE_OP 7 0 write_op 0]" "CREATE_OP 3 0 read_op 1"
      "[CREATE_OP 7 1 read_op 0, CREATE_OP 7 2 write_op 0]"]
  by (simp add: sample_simps)

end
