(* ===== verification/Storage.thy ===== *)
theory Storage
  imports Op_Encoding
begin

text \<open>
  Dual-version records and scratch versions (\<^verbatim>\<open>storage.h\<close>, \<^verbatim>\<open>gpu_storage.cuh\<close>). A record
  keeps two (value, epoch tag) slots; the slot with the newer tag is the epoch-start copy
  (record A), the other one is overwritten by the epoch's last write of the record
  (record B); every other write of the epoch goes to a numbered scratch version. A read that
  finds its source not yet published spins; here that is the result \<open>None\<close> of a read in one
  memory, and a wait state of the step relation of theory Execution. The GPU
  functions are given per thread and per lane.
\<close>

record 'v Record =
  value1 :: 'v
  version1 :: u32
  value2 :: 'v
  version2 :: u32

record 'v Version =
  version :: u32
  vvalue :: 'v

text \<open>The memory one table access works on; a null dirty array is \<open>None\<close>.\<close>

record 'v memory =
  recs :: "u32 \<Rightarrow> 'v Record"
  vers :: "u32 \<Rightarrow> 'v Version"
  dirty_v1 :: "(u32 \<Rightarrow> bool) option"
  dirty_v2 :: "(u32 \<Rightarrow> bool) option"

text \<open>The address of a value: one of the two slots of the record, or a scratch version.\<close>

datatype slot = Slot1 | Slot2 | Scratch u32

fun slot_value :: "'v memory \<Rightarrow> u32 \<Rightarrow> slot \<Rightarrow> 'v" where
  "slot_value m r Slot1 = value1 (recs m r)"
| "slot_value m r Slot2 = value2 (recs m r)"
| "slot_value m r (Scratch l) = vvalue (vers m l)"

fun slot_tag :: "'v memory \<Rightarrow> u32 \<Rightarrow> slot \<Rightarrow> u32" where
  "slot_tag m r Slot1 = version1 (recs m r)"
| "slot_tag m r Slot2 = version2 (recs m r)"
| "slot_tag m r (Scratch l) = version (vers m l)"

fun set_slot_value :: "u32 \<Rightarrow> slot \<Rightarrow> 'v \<Rightarrow> 'v memory \<Rightarrow> 'v memory" where
  "set_slot_value r Slot1 v m = m\<lparr>recs := (recs m)(r := (recs m r)\<lparr>value1 := v\<rparr>)\<rparr>"
| "set_slot_value r Slot2 v m = m\<lparr>recs := (recs m)(r := (recs m r)\<lparr>value2 := v\<rparr>)\<rparr>"
| "set_slot_value r (Scratch l) v m = m\<lparr>vers := (vers m)(l := (vers m l)\<lparr>vvalue := v\<rparr>)\<rparr>"

fun set_slot_tag :: "u32 \<Rightarrow> slot \<Rightarrow> u32 \<Rightarrow> 'v memory \<Rightarrow> 'v memory" where
  "set_slot_tag r Slot1 e m = m\<lparr>recs := (recs m)(r := (recs m r)\<lparr>version1 := e\<rparr>)\<rparr>"
| "set_slot_tag r Slot2 e m = m\<lparr>recs := (recs m)(r := (recs m r)\<lparr>version2 := e\<rparr>)\<rparr>"
| "set_slot_tag r (Scratch l) e m = m\<lparr>vers := (vers m)(l := (vers m l)\<lparr>version := e\<rparr>)\<rparr>"

subsection \<open>Choosing the source and the target\<close>

text \<open>The record A and record B cases of a read, on the two loaded tags; the flag says
  whether the read waits for the tag of the chosen slot to become the epoch.\<close>

definition read_a_slot :: "u32 \<Rightarrow> u32 \<Rightarrow> u32 \<Rightarrow> slot" where
  "read_a_slot v1 v2 epoch =
     (if v1 = epoch then Slot2
      else if v2 = epoch then Slot1
      else if v1 < v2 then Slot2
      else Slot1)"

definition read_b_slot :: "u32 \<Rightarrow> u32 \<Rightarrow> u32 \<Rightarrow> slot \<times> bool" where
  "read_b_slot v1 v2 epoch =
     (if v1 = epoch then (Slot1, False)
      else if v2 = epoch then (Slot2, False)
      else if v1 < v2 then (Slot1, True)
      else (Slot2, True))"

definition read_choice :: "u32 \<Rightarrow> u32 \<Rightarrow> u32 \<Rightarrow> u32 \<Rightarrow> slot \<times> bool" where
  "read_choice read_loc v1 v2 epoch =
     (if read_loc = loc_record_a then (read_a_slot v1 v2 epoch, False)
      else if read_loc = loc_record_b then read_b_slot v1 v2 epoch
      else (Scratch read_loc, True))"

definition write_choice :: "u32 \<Rightarrow> u32 \<Rightarrow> u32 \<Rightarrow> slot" where
  "write_choice write_loc v1 v2 =
     (if write_loc = loc_record_b then (if v1 < v2 then Slot1 else Slot2) else Scratch write_loc)"

text \<open>\<^verbatim>\<open>readFromTable\<close>: \<open>None\<close> while the loop on the tag does not end.\<close>

definition readFromTable :: "'v memory \<Rightarrow> u32 \<Rightarrow> u32 \<Rightarrow> u32 \<Rightarrow> 'v option" where
  "readFromTable m record_id read_loc epoch =
     (let (s, wait) = read_choice read_loc (version1 (recs m record_id)) (version2 (recs m record_id)) epoch
      in if wait \<and> slot_tag m record_id s \<noteq> epoch then None else Some (slot_value m record_id s))"

text \<open>\<^verbatim>\<open>writeToTable\<close> of the host: the copy of the value of a version write is commented out
  in the source, only the tag is stored.\<close>

definition writeToTable :: "'v memory \<Rightarrow> u32 \<Rightarrow> u32 \<Rightarrow> u32 \<Rightarrow> 'v \<Rightarrow> 'v memory" where
  "writeToTable m record_id write_loc epoch source =
     (if write_loc = loc_record_b
      then (let s = (if version1 (recs m record_id) < version2 (recs m record_id) then Slot1 else Slot2)
            in set_slot_tag record_id s epoch (set_slot_value record_id s source m))
      else set_slot_tag record_id (Scratch write_loc) epoch m)"

subsection \<open>The GPU functions\<close>

type_synonym words = "u32 list"

text \<open>The result register of a thread that reads \<open>len\<close> words from \<open>offset\<close>.\<close>

definition thread_sum :: "words \<Rightarrow> nat \<Rightarrow> nat \<Rightarrow> u32" where
  "thread_sum v offset len = sum_list (map (\<lambda>i. v ! (offset + i)) [0..<len])"

definition gpuReadFromTableThread ::
  "words memory \<Rightarrow> u32 \<Rightarrow> u32 \<Rightarrow> u32 \<Rightarrow> u32 \<Rightarrow> nat \<Rightarrow> nat \<Rightarrow> u32 option" where
  "gpuReadFromTableThread m record_id read_loc epoch result offset len =
     (if record_id = sentinel then Some result
      else case readFromTable m record_id read_loc epoch of
             None \<Rightarrow> None
           | Some v \<Rightarrow> Some (result + thread_sum v offset len))"

text \<open>The bases of the loop \<^verbatim>\<open>for (base = 0; base < length; base += 32)\<close>.\<close>

definition warp_bases :: "nat \<Rightarrow> nat list" where
  "warp_bases len = map (\<lambda>k. 32 * k) [0..<(len + 31) div 32]"

definition coop_sum :: "words \<Rightarrow> nat \<Rightarrow> nat \<Rightarrow> nat \<Rightarrow> u32" where
  "coop_sum v offset len lane =
     sum_list (map (\<lambda>base. if lane + base < len then v ! (offset + base + lane) else 0) (warp_bases len))"

definition gpuReadFromTableCoop ::
  "words memory \<Rightarrow> u32 \<Rightarrow> u32 \<Rightarrow> u32 \<Rightarrow> u32 \<Rightarrow> nat \<Rightarrow> nat \<Rightarrow> nat \<Rightarrow> u32 option" where
  "gpuReadFromTableCoop m record_id read_loc epoch result lane offset len =
     (if record_id = sentinel then Some result
      else case readFromTable m record_id read_loc epoch of
             None \<Rightarrow> None
           | Some v \<Rightarrow> Some (coop_sum v offset len lane))"

text \<open>
  \<^verbatim>\<open>gpuReadMultipleFromTableCoop\<close> in one memory: every active lane chooses its own source, the
  warp then serves the ready lanes in ascending order, and a lane's register holds its word of
  the value served last. The warp does not leave the loop before every active lane is ready.
\<close>

definition gpuReadMultipleFromTableCoop ::
  "words memory \<Rightarrow> (nat \<Rightarrow> u32) \<Rightarrow> (nat \<Rightarrow> u32) \<Rightarrow> u32 \<Rightarrow> u32 \<Rightarrow> nat \<Rightarrow> nat list \<Rightarrow> nat \<Rightarrow> nat \<Rightarrow> u32 option" where
  "gpuReadMultipleFromTableCoop m record_id read_loc epoch result lane active offset len =
     (if \<forall>a\<in>set active. readFromTable m (record_id a) (read_loc a) epoch \<noteq> None
      then Some (fold (\<lambda>a res. if lane < len
                               then the (readFromTable m (record_id a) (read_loc a) epoch) ! (offset + lane)
                               else res) (sort active) result)
      else None)"

text \<open>Marking the slot of the record in the dirty array of the slot, when there is one.\<close>

fun mark_dirty :: "u32 \<Rightarrow> slot \<Rightarrow> 'v memory \<Rightarrow> 'v memory" where
  "mark_dirty r Slot1 m = m\<lparr>dirty_v1 := map_option (\<lambda>d. d(r := True)) (dirty_v1 m)\<rparr>"
| "mark_dirty r Slot2 m = m\<lparr>dirty_v2 := map_option (\<lambda>d. d(r := True)) (dirty_v2 m)\<rparr>"
| "mark_dirty r (Scratch l) m = m"

definition write_words_thread :: "u32 \<Rightarrow> nat \<Rightarrow> nat \<Rightarrow> words \<Rightarrow> words" where
  "write_words_thread data offset len v = fold (\<lambda>i w. w[offset + i := data]) [0..<len] v"

definition gpuWriteToTableThread ::
  "words memory \<Rightarrow> u32 \<Rightarrow> u32 \<Rightarrow> u32 \<Rightarrow> u32 \<Rightarrow> nat \<Rightarrow> nat \<Rightarrow> words memory" where
  "gpuWriteToTableThread m record_id write_loc epoch data offset len =
     (if record_id = sentinel then m
      else let s = write_choice write_loc (version1 (recs m record_id)) (version2 (recs m record_id));
               m1 = mark_dirty record_id s m;
               m2 = set_slot_value record_id s
                      (write_words_thread data offset len (slot_value m1 record_id s)) m1
           in set_slot_tag record_id s epoch m2)"

text \<open>The warp writes word \<open>base + lane\<close> from the register of that lane.\<close>

definition write_words_coop :: "(nat \<Rightarrow> u32) \<Rightarrow> nat \<Rightarrow> nat \<Rightarrow> words \<Rightarrow> words" where
  "write_words_coop data offset len v =
     fold (\<lambda>base w. fold (\<lambda>lane w. if lane + base < len then w[offset + base + lane := data lane] else w)
                      [0..<32] w) (warp_bases len) v"

definition gpuWriteToTableCoop ::
  "words memory \<Rightarrow> u32 \<Rightarrow> u32 \<Rightarrow> u32 \<Rightarrow> (nat \<Rightarrow> u32) \<Rightarrow> nat \<Rightarrow> nat \<Rightarrow> words memory" where
  "gpuWriteToTableCoop m record_id write_loc epoch data offset len =
     (if record_id = sentinel then m
      else let s = write_choice write_loc (version1 (recs m record_id)) (version2 (recs m record_id));
               m1 = mark_dirty record_id s m;
               m2 = set_slot_value record_id s
                      (write_words_coop data offset len (slot_value m1 record_id s)) m1
           in set_slot_tag record_id s epoch m2)"

subsection \<open>Warps and threads\<close>

lemma sum_list_upt: "sum_list (map f [0..<n]) = (\<Sum>i<n. f i)" for f :: "nat \<Rightarrow> 'a::comm_monoid_add"
  by (simp add: interv_sum_list_conv_sum_set_nat atLeast0LessThan)

lemma warp_blocks: "concat (map (\<lambda>k. [32 * k..<32 * k + 32]) [0..<q]) = [0..<32 * q]" for q :: nat
proof (induction q)
  case (Suc q)
  have "[0..<32 * Suc q] = [0..<32 * q] @ [32 * q..<32 * q + 32]"
    using upt_add_eq_append [of 0 "32 * q" 32] by (simp add: add.commute)
  with Suc show ?case by simp
qed simp

lemma fold_blocks:
  "fold (\<lambda>k. fold g [32 * k..<32 * k + 32]) [0..<q] w = fold g [0..<32 * q] w" for q :: nat
proof -
  have "fold (\<lambda>k. fold g [32 * k..<32 * k + 32]) ks w =
      fold g (concat (map (\<lambda>k. [32 * k..<32 * k + 32]) ks)) w" for ks
    by (induction ks arbitrary: w) auto
  then show ?thesis by (simp only: warp_blocks)
qed

lemma warp_cover: "n \<le> 32 * ((n + 31) div 32)" for n :: nat
  by linarith

text \<open>The registers of the 32 lanes add up to the register of the single thread.\<close>

lemma coop_sum_lanes: "(\<Sum>lane<32. coop_sum v offset len lane) = thread_sum v offset len"
proof -
  let ?q = "(len + 31) div 32"
  let ?f = "\<lambda>i. if i < len then v ! (offset + i) else 0"
  have shift: "sum g {k * 32..<k * 32 + 32} = (\<Sum>lane<32. g (k * 32 + lane))" for g :: "nat \<Rightarrow> u32" and k
    using sum.atLeastLessThan_shift_0 [of g "k * 32" "k * 32 + 32"] by (simp add: atLeast0LessThan comp_def)
  have "(\<Sum>lane<32. coop_sum v offset len lane) = (\<Sum>lane<32. \<Sum>k<?q. ?f (k * 32 + lane))"
    unfolding coop_sum_def warp_bases_def map_map comp_def sum_list_upt
    by (intro sum.cong refl) (simp add: ac_simps)
  also have "\<dots> = (\<Sum>k<?q. \<Sum>lane<32. ?f (k * 32 + lane))"
    by (rule sum.swap)
  also have "\<dots> = (\<Sum>k<?q. sum ?f {k * 32..<k * 32 + 32})"
    by (simp only: shift)
  also have "\<dots> = sum ?f {..<?q * 32}"
    by (rule sum.nat_group)
  also have "\<dots> = sum ?f {..<len}"
    by (rule sum.mono_neutral_right) (use warp_cover [of len] in auto)
  also have "\<dots> = thread_sum v offset len"
    unfolding thread_sum_def sum_list_upt by (rule sum.cong) auto
  finally show ?thesis .
qed

lemma fold_words:
  "fold (\<lambda>i w. if P i then w[offset + i := d i] else w) [0..<n] v =
     map (\<lambda>j. if offset \<le> j \<and> j < offset + n \<and> P (j - offset) then d (j - offset) else v ! j)
       [0..<length v]"
proof (induction n)
  case 0
  show ?case by (rule nth_equalityI) auto
next
  case (Suc n)
  have lu: "w[k := x] ! j = (if k = j \<and> j < length w then x else w ! j)" for w :: "'a list" and k j x
    by (cases "k < length w") (auto simp: nth_list_update list_update_beyond)
  have "fold (\<lambda>i w. if P i then w[offset + i := d i] else w) [0..<Suc n] v ! j =
      (if offset \<le> j \<and> j < offset + Suc n \<and> P (j - offset) then d (j - offset) else v ! j)"
    if "j < length v" for j
    using that by (cases "j = offset + n") (auto simp: Suc lu)
  moreover have "length (fold (\<lambda>i w. if P i then w[offset + i := d i] else w) [0..<m] v) = length v" for m
    by (induction m) auto
  ultimately show ?case by (intro nth_equalityI) (simp_all del: fold_append upt_Suc)
qed

lemma write_words_thread_nth:
  "write_words_thread data offset len v =
     map (\<lambda>j. if offset \<le> j \<and> j < offset + len then data else v ! j) [0..<length v]"
  using fold_words [of "\<lambda>_. True" offset "\<lambda>_. data" len v]
  by (simp add: write_words_thread_def)

lemma write_words_coop_nth:
  "write_words_coop data offset len v =
     map (\<lambda>j. if offset \<le> j \<and> j < offset + len then data ((j - offset) mod 32) else v ! j)
       [0..<length v]"
proof -
  let ?q = "(len + 31) div 32"
  let ?g = "\<lambda>i w. if i < len then w[offset + i := data (i mod 32)] else w"
  have blk: "fold (\<lambda>lane w. if lane + 32 * k < len then w[offset + 32 * k + lane := data lane] else w)
      [0..<32] w = fold ?g [32 * k..<32 * k + 32] w" for k w
  proof -
    have eq: "[32 * k..<32 * k + 32] = map (\<lambda>l. l + 32 * k) [0..<32]"
      by (simp add: map_add_upt add.commute)
    show ?thesis
      unfolding eq fold_map by (intro fold_cong) (auto simp: fun_eq_iff ac_simps)
  qed
  have "write_words_coop data offset len v = fold ?g [0..<32 * ?q] v"
    unfolding write_words_coop_def warp_bases_def fold_map comp_def blk fold_blocks ..
  also have "\<dots> = map (\<lambda>j. if offset \<le> j \<and> j < offset + 32 * ?q \<and> j - offset < len
      then data ((j - offset) mod 32) else v ! j) [0..<length v]"
    by (rule fold_words)
  also have "\<dots> = map (\<lambda>j. if offset \<le> j \<and> j < offset + len then data ((j - offset) mod 32) else v ! j)
      [0..<length v]"
    using warp_cover [of len] by (intro map_cong) auto
  finally show ?thesis .
qed

subsection \<open>The two slots within an epoch\<close>

text \<open>Before its epoch's record B write neither tag of a record is the epoch.\<close>

definition fresh :: "'v memory \<Rightarrow> u32 \<Rightarrow> u32 \<Rightarrow> bool" where
  "fresh m r epoch \<longleftrightarrow> version1 (recs m r) \<noteq> epoch \<and> version2 (recs m r) \<noteq> epoch"

lemma mark_dirty_recs [simp]: "recs (mark_dirty r s m) = recs m" "vers (mark_dirty r s m) = vers m"
  by (cases s; simp)+

lemma slot_mark_dirty [simp]:
  "slot_value (mark_dirty r s m) r' t = slot_value m r' t" "slot_tag (mark_dirty r s m) r' t = slot_tag m r' t"
  by (cases t; simp)+

lemma slot_value_set [simp]:
  "slot_value (set_slot_value r s v m) r s = v"
  "slot_tag (set_slot_value r s v m) r' t = slot_tag m r' t"
  "slot_tag (set_slot_tag r s e m) r s = e"
  "slot_value (set_slot_tag r s e m) r' t = slot_value m r' t"
  by (cases s; cases t; simp)+

lemma slot_value_set_other [simp]:
  "s \<noteq> t \<Longrightarrow> slot_value (set_slot_value r s v m) r t = slot_value m r t"
  "s \<noteq> t \<Longrightarrow> slot_tag (set_slot_tag r s e m) r t = slot_tag m r t"
  by (cases s; cases t; simp)+

lemma readFromTable_slots:
  "readFromTable m r loc e =
     (let (s, wait) = read_choice loc (slot_tag m r Slot1) (slot_tag m r Slot2) e
      in if wait \<and> slot_tag m r s \<noteq> e then None else Some (slot_value m r s))"
  by (simp add: readFromTable_def)

lemmas choice_defs = read_choice_def read_a_slot_def read_b_slot_def write_choice_def

lemma loc_distinct [simp]: "loc_record_a \<noteq> loc_record_b" "loc_record_b \<noteq> loc_record_a"
  by (simp_all add: loc_record_a_def loc_record_b_def)

text \<open>C17: The warp-cooperative write stores the same memory as the single-thread write when all
  lanes hold the same data word, and the registers of the 32 lanes of the cooperative read
  sum to the register of the single-thread read.\<close>

theorem coop_equals_thread:
  "gpuWriteToTableCoop m r loc e (\<lambda>_. d) offset len = gpuWriteToTableThread m r loc e d offset len \<and>
   (r \<noteq> sentinel \<and> readFromTable m r loc e \<noteq> None \<longrightarrow>
      (\<Sum>lane<32. the (gpuReadFromTableCoop m r loc e res lane offset len))
        = the (gpuReadFromTableThread m r loc e 0 offset len))"
proof -
  have "write_words_coop (\<lambda>_. d) offset len v = write_words_thread d offset len v" for v
    by (simp add: write_words_coop_nth write_words_thread_nth)
  then have "gpuWriteToTableCoop m r loc e (\<lambda>_. d) offset len = gpuWriteToTableThread m r loc e d offset len"
    by (simp add: gpuWriteToTableCoop_def gpuWriteToTableThread_def)
  then show ?thesis
    by (auto simp: gpuReadFromTableCoop_def gpuReadFromTableThread_def coop_sum_lanes)
qed

definition sample_memory :: "words memory" where
  "sample_memory = \<lparr>recs = (\<lambda>_. \<lparr>value1 = [10, 11, 12], version1 = 3, value2 = [20, 21, 22], version2 = 4\<rparr>),
     vers = (\<lambda>_. \<lparr>version = 0, vvalue = [0, 0, 0]\<rparr>), dirty_v1 = Some (\<lambda>_. False), dirty_v2 = Some (\<lambda>_. False)\<rparr>"

lemmas sample_memory_simps = sample_memory_def readFromTable_def choice_defs loc_record_a_def
  loc_record_b_def sentinel_def fresh_def

theorem coop_equals_thread_witness:
  "(\<Sum>lane<32. the (gpuReadFromTableCoop sample_memory 2 loc_record_a 5 0 lane 0 3))
     = the (gpuReadFromTableThread sample_memory 2 loc_record_a 5 0 0 3)
   \<and> (2 :: u32) \<noteq> sentinel \<and> readFromTable sample_memory 2 loc_record_a 5 \<noteq> None"
  using coop_equals_thread [of sample_memory 2 loc_record_a 5 0 0 3 0]
  by (simp add: sample_memory_simps)

text \<open>C9: Within an epoch, the record B write of a record leaves every epoch-start (record A)
  read of it unchanged, a record B read before it spins, and a record B read after it returns
  the written words; the tag it stores marks the written slot dirty.\<close>

theorem record_b_write_isolated:
  assumes "fresh m r e" and "r \<noteq> sentinel"
    and m'_def: "m' = gpuWriteToTableThread m r loc_record_b e d 0 len"
  shows "readFromTable m' r loc_record_a e = readFromTable m r loc_record_a e
       \<and> readFromTable m r loc_record_b e = None
       \<and> (\<exists>v. readFromTable m' r loc_record_b e = Some v \<and>
              (\<forall>j < min len (length v). v ! j = d))
       \<and> (dirty_v1 m \<noteq> None \<and> dirty_v2 m \<noteq> None \<longrightarrow>
            (if version1 (recs m r) < version2 (recs m r) then the (dirty_v1 m') r else the (dirty_v2 m') r))"
proof (cases "version1 (recs m r) < version2 (recs m r)")
  case True
  then show ?thesis
    using assms(1,2)
    by (auto simp: m'_def gpuWriteToTableThread_def fresh_def readFromTable_slots choice_defs
        write_words_thread_nth Let_def)
next
  case False
  then show ?thesis
    using assms(1,2)
    by (auto simp: m'_def gpuWriteToTableThread_def fresh_def readFromTable_slots choice_defs
        write_words_thread_nth Let_def)
qed

theorem record_b_write_isolated_witness:
  "readFromTable (gpuWriteToTableThread sample_memory 2 loc_record_b 5 9 0 3) 2 loc_record_a 5
     = readFromTable sample_memory 2 loc_record_a 5"
  using record_b_write_isolated [of sample_memory 2 5 _ 9 3, OF _ _ refl]
  by (simp add: sample_memory_simps)

text \<open>C18: The host's version write publishes the epoch tag without storing the value: the
  read it releases returns whatever the scratch version held before the write.\<close>

theorem host_version_write_drops_value:
  "loc \<noteq> loc_record_a \<Longrightarrow> loc \<noteq> loc_record_b \<Longrightarrow>
   readFromTable (writeToTable m r loc e v) r loc e = Some (vvalue (vers m loc))"
  by (simp add: writeToTable_def readFromTable_def read_choice_def)

theorem host_version_write_drops_value_witness:
  "readFromTable (writeToTable sample_memory 2 0 5 [7, 7, 7]) 2 0 5 = Some [0, 0, 0]"
  using host_version_write_drops_value [of 0 sample_memory 2 5 "[7, 7, 7]"]
  by (simp add: loc_record_a_def loc_record_b_def sample_memory_def)

end
