(* ===== verification/Execution.thy ===== *)
theory Execution
  imports Planner Storage
begin

text \<open>
  Concurrent execution of the planned operations of one table: a step relation in which
  every operation runs the code of \<^verbatim>\<open>gpuReadFromTableThread\<close> or
  \<^verbatim>\<open>gpuWriteToTableThread\<close> one memory access at a time (the two tag loads of
  \<^verbatim>\<open>gpuLoadVersions\<close>, the poll of the tag, each word of the value, the publishing store
  of the tag), interleaved in any order. The interface between planner and execution is
  the locale \<open>plan_contract\<close>, interpreted on the planner's \<open>op_location\<close>. The main lemma is an
  invariant of every reachable state; it gives that every read that finishes has returned
  the words of the last earlier write of its record, that no word is read while it is being
  written, and that an operation can step as soon as the write it reads from is finished. The program
  order of the operations of one warp is not imposed here, so the safety results hold for every
  order; \<open>Warp_Execution\<close> adds it, with the scheduling of the warps, for the liveness result.
\<close>

subsection \<open>The interface of the planner\<close>

locale plan_contract =
  fixes plan :: "op_t list \<Rightarrow> nat \<Rightarrow> u32"
  assumes write_b_iff: "planned xs \<Longrightarrow> i < length xs \<Longrightarrow> is_write (xs ! i) \<Longrightarrow>
      plan xs i = loc_record_b \<longleftrightarrow> \<not> write_later xs i"
    and write_not_a: "planned xs \<Longrightarrow> i < length xs \<Longrightarrow> is_write (xs ! i) \<Longrightarrow> plan xs i \<noteq> loc_record_a"
    and version_distinct: "planned xs \<Longrightarrow> i < j \<Longrightarrow> j < length xs \<Longrightarrow> is_write (xs ! i) \<Longrightarrow>
      is_write (xs ! j) \<Longrightarrow> plan xs i \<noteq> loc_record_b \<Longrightarrow> plan xs i \<noteq> plan xs j"
    and read_start: "planned xs \<Longrightarrow> i < length xs \<Longrightarrow> \<not> is_write (xs ! i) \<Longrightarrow>
      \<not> write_earlier xs i \<Longrightarrow> plan xs i = loc_record_a"
    and read_last: "planned xs \<Longrightarrow> i < length xs \<Longrightarrow> \<not> is_write (xs ! i) \<Longrightarrow>
      last_write_before xs i j \<Longrightarrow> plan xs i = plan xs j"
begin

text \<open>Two writes never share a target: not the record, not a version.\<close>

lemma write_target_unique:
  assumes "planned xs" and "i < length xs" and "j < length xs" and "is_write (xs ! i)" and "is_write (xs ! j)"
    and "plan xs i = plan xs j" and "plan xs i = loc_record_b \<Longrightarrow> rid (xs ! i) = rid (xs ! j)"
  shows "i = j"
proof (cases "plan xs i = loc_record_b")
  case True
  then have "\<not> write_later xs i" "\<not> write_later xs j" and r: "rid (xs ! i) = rid (xs ! j)"
    using write_b_iff [of xs i] write_b_iff [of xs j] assms by auto
  then have "\<not> i < j" "\<not> j < i"
    using assms(2-5) unfolding write_later_def same_write_def by auto
  then show ?thesis by simp
next
  case False
  then show ?thesis
    using version_distinct [of xs i j] version_distinct [of xs j i] assms
    by (metis linorder_neqE_nat)
qed

lemma read_not_a_has_writer:
  assumes "planned xs" and "i < length xs" and "\<not> is_write (xs ! i)" and "plan xs i \<noteq> loc_record_a"
  obtains j where "last_write_before xs i j" and "j < i" and "is_write (xs ! j)"
    and "rid (xs ! j) = rid (xs ! i)" and "plan xs j = plan xs i"
proof -
  have "write_earlier xs i" using read_start [OF assms(1-3)] assms(4) by blast
  then obtain j where j: "last_write_before xs i j" unfolding write_earlier_last ..
  have "plan xs i = plan xs j" by (rule read_last [OF assms(1-3) j])
  with j show thesis by (intro that [of j]) (auto simp: last_write_before_def same_write_def)
qed

end

interpretation planner: plan_contract op_location
proof
  fix xs i
  assume p: "planned xs" "i < length xs" "is_write (xs ! i)"
  show b: "op_location xs i = loc_record_b \<longleftrightarrow> \<not> write_later xs i"
    using last_write_location [OF p] version_write_location(3) [OF p] by auto
  show "op_location xs i \<noteq> loc_record_a"
  proof (cases "write_later xs i")
    case True
    then show ?thesis
      using version_write_location(3) [OF p] by (auto simp: loc_record_a_def loc_record_b_def)
  next
    case False
    then show ?thesis using last_write_location [OF p] by simp
  qed
next
  fix xs :: "op_t list" and i j
  assume p: "planned xs" "i < j" "j < length xs" "is_write (xs ! i)" "is_write (xs ! j)"
    and nb: "op_location xs i \<noteq> loc_record_b"
  have l: "write_later xs i" using last_write_location [of xs i] p nb by auto
  show "op_location xs i \<noteq> op_location xs j"
  proof (cases "write_later xs j")
    case True
    then show ?thesis using version_write_distinct p l by blast
  next
    case False
    then show ?thesis using last_write_location [of xs j] p nb by auto
  qed
next
  fix xs :: "op_t list" and i
  assume "planned xs" "i < length xs" "\<not> is_write (xs ! i)" "\<not> write_earlier xs i"
  then show "op_location xs i = loc_record_a" by (rule first_read_location)
next
  fix xs :: "op_t list" and i j
  assume "planned xs" "i < length xs" "\<not> is_write (xs ! i)" "last_write_before xs i j"
  then show "op_location xs i = op_location xs j" by (rule read_location_last_write)
qed

subsection \<open>The step relation\<close>

text \<open>Where an operation stands in its code.\<close>

datatype pc =
    Idle
  | Skipped
  | GotV1 u32
  | Spinning slot
  | Reading slot words
  | ReadDone words
  | Writing slot u32 nat
  | WriteDone u32

record exec_state =
  mem :: "words memory"
  pcs :: "nat \<Rightarrow> pc"

definition op_rec :: "op_t list \<Rightarrow> nat \<Rightarrow> u32" where
  "op_rec xs i = ucast (rid (xs ! i))"

text \<open>\<open>loads_tags\<close>: the operations that load both tags of the record first.\<close>

definition loads_tags :: "bool \<Rightarrow> u32 \<Rightarrow> bool" where
  "loads_tags w loc \<longleftrightarrow> loc = loc_record_b \<or> (\<not> w \<and> loc = loc_record_a)"

inductive exec_step ::
  "(op_t list \<Rightarrow> nat \<Rightarrow> u32) \<Rightarrow> op_t list \<Rightarrow> u32 \<Rightarrow> nat \<Rightarrow> exec_state \<Rightarrow> exec_state \<Rightarrow> bool"
  for plan :: "op_t list \<Rightarrow> nat \<Rightarrow> u32" and xs :: "op_t list" and epoch :: u32 and len :: nat where
  skip: "i < length xs \<Longrightarrow> op_rec xs i = sentinel \<Longrightarrow> pcs s i = Idle \<Longrightarrow>
    exec_step plan xs epoch len s (s\<lparr>pcs := (pcs s)(i := Skipped)\<rparr>)"
| load_v1: "i < length xs \<Longrightarrow> op_rec xs i \<noteq> sentinel \<Longrightarrow> pcs s i = Idle \<Longrightarrow>
    loads_tags (is_write (xs ! i)) (plan xs i) \<Longrightarrow>
    exec_step plan xs epoch len s (s\<lparr>pcs := (pcs s)(i := GotV1 (version1 (recs (mem s) (op_rec xs i))))\<rparr>)"
| read_choose: "i < length xs \<Longrightarrow> \<not> is_write (xs ! i) \<Longrightarrow> pcs s i = GotV1 v1 \<Longrightarrow>
    read_choice (plan xs i) v1 (version2 (recs (mem s) (op_rec xs i))) epoch = (sl, wait) \<Longrightarrow>
    exec_step plan xs epoch len s
      (s\<lparr>pcs := (pcs s)(i := (if wait then Spinning sl else Reading sl []))\<rparr>)"
| read_version: "i < length xs \<Longrightarrow> op_rec xs i \<noteq> sentinel \<Longrightarrow> \<not> is_write (xs ! i) \<Longrightarrow> pcs s i = Idle \<Longrightarrow>
    \<not> loads_tags False (plan xs i) \<Longrightarrow>
    exec_step plan xs epoch len s (s\<lparr>pcs := (pcs s)(i := Spinning (Scratch (plan xs i)))\<rparr>)"
| poll: "i < length xs \<Longrightarrow> pcs s i = Spinning sl \<Longrightarrow> slot_tag (mem s) (op_rec xs i) sl = epoch \<Longrightarrow>
    exec_step plan xs epoch len s (s\<lparr>pcs := (pcs s)(i := Reading sl [])\<rparr>)"
| read_word: "i < length xs \<Longrightarrow> pcs s i = Reading sl ws \<Longrightarrow> length ws < len \<Longrightarrow>
    exec_step plan xs epoch len s
      (s\<lparr>pcs := (pcs s)(i := Reading sl (ws @ [slot_value (mem s) (op_rec xs i) sl ! length ws]))\<rparr>)"
| read_end: "i < length xs \<Longrightarrow> pcs s i = Reading sl ws \<Longrightarrow> length ws = len \<Longrightarrow>
    exec_step plan xs epoch len s (s\<lparr>pcs := (pcs s)(i := ReadDone ws)\<rparr>)"
| write_choose: "i < length xs \<Longrightarrow> is_write (xs ! i) \<Longrightarrow> pcs s i = GotV1 v1 \<Longrightarrow>
    sl = write_choice (plan xs i) v1 (version2 (recs (mem s) (op_rec xs i))) \<Longrightarrow>
    exec_step plan xs epoch len s
      (s\<lparr>mem := mark_dirty (op_rec xs i) sl (mem s), pcs := (pcs s)(i := Writing sl data 0)\<rparr>)"
| write_version: "i < length xs \<Longrightarrow> op_rec xs i \<noteq> sentinel \<Longrightarrow> is_write (xs ! i) \<Longrightarrow> pcs s i = Idle \<Longrightarrow>
    \<not> loads_tags True (plan xs i) \<Longrightarrow>
    exec_step plan xs epoch len s (s\<lparr>pcs := (pcs s)(i := Writing (Scratch (plan xs i)) data 0)\<rparr>)"
| write_word: "i < length xs \<Longrightarrow> pcs s i = Writing sl data k \<Longrightarrow> k < len \<Longrightarrow>
    exec_step plan xs epoch len s
      (s\<lparr>mem := set_slot_value (op_rec xs i) sl ((slot_value (mem s) (op_rec xs i) sl)[k := data]) (mem s),
         pcs := (pcs s)(i := Writing sl data (Suc k))\<rparr>)"
| publish: "i < length xs \<Longrightarrow> pcs s i = Writing sl data k \<Longrightarrow> k = len \<Longrightarrow>
    exec_step plan xs epoch len s
      (s\<lparr>mem := set_slot_tag (op_rec xs i) sl epoch (mem s), pcs := (pcs s)(i := WriteDone data)\<rparr>)"

text \<open>The state an epoch starts in: no tag is the epoch yet, every value has \<open>len\<close> words.\<close>

definition epoch_start :: "u32 \<Rightarrow> nat \<Rightarrow> words memory \<Rightarrow> bool" where
  "epoch_start epoch len m \<longleftrightarrow>
     (\<forall>r s. slot_tag m r s \<noteq> epoch \<and> length (slot_value m r s) = len)"

definition exec_init :: "words memory \<Rightarrow> exec_state" where
  "exec_init m = \<lparr>mem = m, pcs = (\<lambda>_. Idle)\<rparr>"

definition exec_reach ::
  "(op_t list \<Rightarrow> nat \<Rightarrow> u32) \<Rightarrow> op_t list \<Rightarrow> u32 \<Rightarrow> nat \<Rightarrow> words memory \<Rightarrow> exec_state \<Rightarrow> bool" where
  "exec_reach plan xs epoch len m s \<longleftrightarrow> (exec_step plan xs epoch len)\<^sup>*\<^sup>* (exec_init m) s"

definition finished :: "pc \<Rightarrow> bool" where
  "finished p \<longleftrightarrow> (case p of Skipped \<Rightarrow> True | ReadDone _ \<Rightarrow> True | WriteDone _ \<Rightarrow> True | _ \<Rightarrow> False)"

text \<open>A step made by operation \<open>i\<close>: no other operation moves.\<close>

definition op_step ::
  "(op_t list \<Rightarrow> nat \<Rightarrow> u32) \<Rightarrow> op_t list \<Rightarrow> u32 \<Rightarrow> nat \<Rightarrow> nat \<Rightarrow> exec_state \<Rightarrow> exec_state \<Rightarrow> bool" where
  "op_step plan xs epoch len i s s' \<longleftrightarrow>
     exec_step plan xs epoch len s s' \<and> (\<exists>p. p \<noteq> pcs s i \<and> pcs s' = (pcs s)(i := p))"

lemma op_stepI:
  "exec_step plan xs e len s s' \<Longrightarrow> pcs s' = (pcs s)(i := p) \<Longrightarrow> p \<noteq> pcs s i \<Longrightarrow> \<exists>s'. op_step plan xs e len i s s'"
  by (auto simp: op_step_def)

subsection \<open>Cells\<close>

text \<open>The slot the epoch's record B write overwrites, and the slot of each operation.\<close>

definition target_slot :: "words memory \<Rightarrow> u32 \<Rightarrow> slot" where
  "target_slot m r = (if slot_tag m r Slot1 < slot_tag m r Slot2 then Slot1 else Slot2)"

definition start_slot :: "words memory \<Rightarrow> u32 \<Rightarrow> slot" where
  "start_slot m r = (if slot_tag m r Slot1 < slot_tag m r Slot2 then Slot2 else Slot1)"

definition loc_slot :: "words memory \<Rightarrow> u32 \<Rightarrow> u32 \<Rightarrow> slot" where
  "loc_slot m r loc =
     (if loc = loc_record_a then start_slot m r else if loc = loc_record_b then target_slot m r
      else Scratch loc)"

fun cell :: "u32 \<Rightarrow> slot \<Rightarrow> u32 \<times> slot" where
  "cell r (Scratch l) = (0, Scratch l)"
| "cell r s = (r, s)"

definition op_cell :: "(op_t list \<Rightarrow> nat \<Rightarrow> u32) \<Rightarrow> op_t list \<Rightarrow> words memory \<Rightarrow> nat \<Rightarrow> u32 \<times> slot" where
  "op_cell plan xs m i = cell (op_rec xs i) (loc_slot m (op_rec xs i) (plan xs i))"

lemma slot_value_cell:
  "slot_value (set_slot_value r s v m) r' t = (if cell r s = cell r' t then v else slot_value m r' t)"
  by (cases s; cases t; auto)

lemma slot_tag_cell:
  "slot_tag (set_slot_tag r s e m) r' t = (if cell r s = cell r' t then e else slot_tag m r' t)"
  by (cases s; cases t; auto)

lemma cell_value_cong: "cell r s = cell r' t \<Longrightarrow> slot_value m r s = slot_value m r' t"
  by (cases s; cases t; auto)

lemma cell_tag_cong: "cell r s = cell r' t \<Longrightarrow> slot_tag m r s = slot_tag m r' t"
  by (cases s; cases t; auto)

text \<open>From here on the memory is read through cells only.\<close>

declare slot_tag.simps [simp del] slot_value.simps [simp del]

lemmas record_tags = slot_tag.simps(1,2) [symmetric]

lemma start_target_slots:
  "(start_slot m r = Slot1 \<and> target_slot m r = Slot2) \<or> (start_slot m r = Slot2 \<and> target_slot m r = Slot1)"
  by (simp add: start_slot_def target_slot_def)

lemma rid_lt: "unat (rid op) < 2 ^ 32"
proof -
  have "unat op < 2 ^ 32 * 2 ^ 32" using unsigned_less [of op] by simp
  moreover have "unat (rid op) = unat op div 2 ^ 32"
    by (simp add: GET_RECORD_ID_drop drop_bit_eq_div unat_div_distrib)
  ultimately show ?thesis by (simp add: less_mult_imp_div_less)
qed

lemma op_rec_inj: "op_rec xs i = op_rec xs j \<longleftrightarrow> rid (xs ! i) = rid (xs ! j)"
proof -
  have "unat (op_rec xs k) = unat (rid (xs ! k))" for k
    using rid_lt [of "xs ! k"] by (simp add: op_rec_def unsigned_ucast_eq take_bit_nat_eq_self_iff)
  then show ?thesis by (metis word_unat_eq_iff)
qed

subsection \<open>The invariant\<close>

text \<open>What holds of an operation on record \<open>r\<close> with slot \<open>sl\<close>, at each point of its code.\<close>

fun op_inv :: "words memory \<Rightarrow> words memory \<Rightarrow> u32 \<Rightarrow> nat \<Rightarrow> u32 \<Rightarrow> slot \<Rightarrow> bool \<Rightarrow> u32 \<Rightarrow> pc \<Rightarrow> bool" where
  "op_inv m0 m e len r sl w loc Idle = True"
| "op_inv m0 m e len r sl w loc Skipped = (r = sentinel)"
| "op_inv m0 m e len r sl w loc (GotV1 v) =
     (r \<noteq> sentinel \<and> loads_tags w loc \<and>
      (v = slot_tag m0 r Slot1 \<or> (\<not> w \<and> v = e \<and> slot_tag m r Slot1 = e)))"
| "op_inv m0 m e len r sl w loc (Spinning s) = (r \<noteq> sentinel \<and> \<not> w \<and> s = sl \<and> loc \<noteq> loc_record_a)"
| "op_inv m0 m e len r sl w loc (Reading s ws) =
     (\<not> w \<and> s = sl \<and> (loc = loc_record_a \<or> slot_tag m r sl = e) \<and> length ws \<le> len \<and>
      ws = take (length ws) (slot_value m r sl))"
| "op_inv m0 m e len r sl w loc (ReadDone ws) =
     (\<not> w \<and> (loc = loc_record_a \<or> slot_tag m r sl = e) \<and> ws = slot_value m r sl)"
| "op_inv m0 m e len r sl w loc (Writing s d k) =
     (w \<and> s = sl \<and> k \<le> len \<and> take k (slot_value m r sl) = replicate k d)"
| "op_inv m0 m e len r sl w loc (WriteDone d) =
     (w \<and> slot_tag m r sl = e \<and> slot_value m r sl = replicate len d)"

definition written :: "(op_t list \<Rightarrow> nat \<Rightarrow> u32) \<Rightarrow> op_t list \<Rightarrow> words memory \<Rightarrow> exec_state \<Rightarrow> u32 \<times> slot \<Rightarrow> bool" where
  "written plan xs m0 s c \<longleftrightarrow>
     (\<exists>i d. i < length xs \<and> is_write (xs ! i) \<and> op_cell plan xs m0 i = c \<and> pcs s i = WriteDone d)"

definition exec_inv ::
  "(op_t list \<Rightarrow> nat \<Rightarrow> u32) \<Rightarrow> op_t list \<Rightarrow> u32 \<Rightarrow> nat \<Rightarrow> words memory \<Rightarrow> exec_state \<Rightarrow> bool" where
  "exec_inv plan xs e len m0 s \<longleftrightarrow>
     (\<forall>i < length xs. op_inv m0 (mem s) e len (op_rec xs i) (loc_slot m0 (op_rec xs i) (plan xs i))
                       (is_write (xs ! i)) (plan xs i) (pcs s i)) \<and>
     (\<forall>r sl. slot_tag (mem s) r sl = slot_tag m0 r sl \<or>
             (slot_tag (mem s) r sl = e \<and> written plan xs m0 s (cell r sl))) \<and>
     (\<forall>r sl. slot_value (mem s) r sl = slot_value m0 r sl \<or>
             (\<exists>i < length xs. is_write (xs ! i) \<and> op_cell plan xs m0 i = cell r sl)) \<and>
     (\<forall>r sl. length (slot_value (mem s) r sl) = len)"

lemma exec_invD:
  assumes "exec_inv plan xs e len m0 s"
  shows "i < length xs \<Longrightarrow> op_inv m0 (mem s) e len (op_rec xs i) (loc_slot m0 (op_rec xs i) (plan xs i))
           (is_write (xs ! i)) (plan xs i) (pcs s i)"
    and "slot_tag (mem s) r sl = slot_tag m0 r sl \<or>
           (slot_tag (mem s) r sl = e \<and> written plan xs m0 s (cell r sl))"
    and "slot_value (mem s) r sl = slot_value m0 r sl \<or>
           (\<exists>i < length xs. is_write (xs ! i) \<and> op_cell plan xs m0 i = cell r sl)"
    and "length (slot_value (mem s) r sl) = len"
  using assms unfolding exec_inv_def by blast+

lemma written_kept:
  assumes "written plan xs m0 s c" and "\<forall>d. pcs s i \<noteq> WriteDone d"
  shows "written plan xs m0 (s\<lparr>mem := m', pcs := (pcs s)(i := p)\<rparr>) c"
proof -
  from assms(1) obtain j d where "j < length xs" "is_write (xs ! j)" "op_cell plan xs m0 j = c"
      "pcs s j = WriteDone d"
    unfolding written_def by blast
  moreover from this assms(2) have "j \<noteq> i" by auto
  ultimately show ?thesis unfolding written_def by (intro exI [of _ j] exI [of _ d]) simp
qed

lemma exec_inv_init: "epoch_start e len m \<Longrightarrow> exec_inv plan xs e len m (exec_init m)"
  by (simp add: exec_inv_def exec_init_def epoch_start_def)

text \<open>The planner's contract on cells.\<close>

context plan_contract
begin

lemma writer_cell_unique:
  assumes "planned xs" and "i < length xs" and "j < length xs" and "is_write (xs ! i)" and "is_write (xs ! j)"
    and "op_cell plan xs m0 i = op_cell plan xs m0 j"
  shows "i = j"
proof (rule write_target_unique [OF assms(1-5)])
  note na = write_not_a [OF assms(1,2,4)] write_not_a [OF assms(1,3,5)]
  show "plan xs i = plan xs j"
    using assms(6) na start_target_slots [of m0 "op_rec xs i"] start_target_slots [of m0 "op_rec xs j"]
    by (auto simp: op_cell_def loc_slot_def split: if_splits)
  assume "plan xs i = loc_record_b"
  with \<open>plan xs i = plan xs j\<close> have "op_rec xs i = op_rec xs j"
    using assms(6) start_target_slots [of m0 "op_rec xs i"] start_target_slots [of m0 "op_rec xs j"]
    by (auto simp: op_cell_def loc_slot_def)
  then show "rid (xs ! i) = rid (xs ! j)" by (simp add: op_rec_inj)
qed

text \<open>No write touches the epoch-start slot of a record.\<close>

lemma start_cell_unwritten:
  assumes "planned xs" and "i < length xs" and "is_write (xs ! i)"
  shows "op_cell plan xs m0 i \<noteq> cell r (start_slot m0 r)"
  using write_not_a [OF assms] start_target_slots [of m0 r] start_target_slots [of m0 "op_rec xs i"]
  by (auto simp: op_cell_def loc_slot_def)

lemma start_tag_kept:
  assumes "planned xs" and "exec_inv plan xs e len m0 s"
  shows "slot_tag (mem s) r (start_slot m0 r) = slot_tag m0 r (start_slot m0 r)"
  using exec_invD(2) [OF assms(2), of r "start_slot m0 r"] start_cell_unwritten [OF assms(1)]
  unfolding written_def by blast

lemma start_value_kept:
  assumes "planned xs" and "exec_inv plan xs e len m0 s"
  shows "slot_value (mem s) r (start_slot m0 r) = slot_value m0 r (start_slot m0 r)"
  using exec_invD(3) [OF assms(2), of r "start_slot m0 r"] start_cell_unwritten [OF assms(1)]
  by blast

text \<open>As long as a write is not done, the tag of its cell is the epoch-start one.\<close>

lemma pending_tag_kept:
  assumes "planned xs" and "exec_inv plan xs e len m0 s" and "i < length xs" and "is_write (xs ! i)"
    and "\<forall>d. pcs s i \<noteq> WriteDone d" and "op_cell plan xs m0 i = cell r sl"
  shows "slot_tag (mem s) r sl = slot_tag m0 r sl"
proof (rule ccontr)
  assume "slot_tag (mem s) r sl \<noteq> slot_tag m0 r sl"
  then have "written plan xs m0 s (op_cell plan xs m0 i)"
    using exec_invD(2) [OF assms(2), of r sl] assms(6) by auto
  then obtain j d where "j < length xs" "is_write (xs ! j)" "op_cell plan xs m0 j = op_cell plan xs m0 i"
      "pcs s j = WriteDone d"
    unfolding written_def by blast
  with writer_cell_unique [OF assms(1) _ assms(3) _ assms(4)] assms(5) show False by blast
qed

lemma tags_of_record:
  assumes "planned xs" and "exec_inv plan xs e len m0 s" and "epoch_start e len m0"
  shows "start_slot m0 r = Slot1 \<Longrightarrow> slot_tag (mem s) r Slot1 = slot_tag m0 r Slot1"
    and "start_slot m0 r = Slot2 \<Longrightarrow> slot_tag (mem s) r Slot2 = slot_tag m0 r Slot2"
    and "slot_tag (mem s) r sl = slot_tag m0 r sl \<or> slot_tag (mem s) r sl = e"
  using start_tag_kept [OF assms(1,2), of r] exec_invD(2) [OF assms(2), of r sl] by auto

text \<open>The choice of a reader that loaded the two tags one after the other.\<close>

lemma read_choice_correct:
  assumes "planned xs" and "exec_inv plan xs e len m0 s" and "epoch_start e len m0"
    and v1: "v1 = slot_tag m0 r Slot1 \<or> (v1 = e \<and> slot_tag (mem s) r Slot1 = e)"
    and loc: "loads_tags False loc"
    and ch: "read_choice loc v1 (slot_tag (mem s) r Slot2) e = (sl, wait)"
  shows "sl = loc_slot m0 r loc \<and> (wait \<longrightarrow> loc \<noteq> loc_record_a) \<and>
    (\<not> wait \<longrightarrow> loc = loc_record_a \<or> slot_tag (mem s) r sl = e)"
proof -
  note t = tags_of_record [OF assms(1-3)]
  have ne: "slot_tag m0 r Slot1 \<noteq> e" "slot_tag m0 r Slot2 \<noteq> e"
    using assms(3) unfolding epoch_start_def by blast+
  show ?thesis
  proof (cases "slot_tag m0 r Slot1 < slot_tag m0 r Slot2")
    case True
    then have st: "start_slot m0 r = Slot2" "target_slot m0 r = Slot1"
      by (simp_all only: start_slot_def target_slot_def if_True)
    with t(2) have "slot_tag (mem s) r Slot2 = slot_tag m0 r Slot2" by blast
    with ch v1 ne True loc st show ?thesis
      by (auto simp: read_choice_def read_a_slot_def read_b_slot_def loads_tags_def loc_slot_def
          split: if_splits)
  next
    case False
    then have st: "start_slot m0 r = Slot1" "target_slot m0 r = Slot2"
      by (simp_all only: start_slot_def target_slot_def if_False)
    with t(1) have k: "slot_tag (mem s) r Slot1 = slot_tag m0 r Slot1" by blast
    have "slot_tag (mem s) r Slot2 = slot_tag m0 r Slot2 \<or> slot_tag (mem s) r Slot2 = e" by (rule t(3))
    with ch v1 ne False loc st k show ?thesis
      by (auto simp: read_choice_def read_a_slot_def read_b_slot_def loads_tags_def loc_slot_def
          split: if_splits)
  qed
qed

text \<open>The points of the code at which an operation relies on the words of its cell.\<close>

lemma pending_no_reader:
  assumes "planned xs" and "exec_inv plan xs e len m0 s" and "epoch_start e len m0"
    and "i < length xs" and "is_write (xs ! i)" and "\<forall>d. pcs s i \<noteq> WriteDone d"
    and "j < length xs" and "i \<noteq> j" and "op_cell plan xs m0 i = op_cell plan xs m0 j"
  shows "pcs s j = Idle \<or> pcs s j = Skipped \<or> (\<exists>v. pcs s j = GotV1 v) \<or> (\<exists>sl. pcs s j = Spinning sl)"
proof -
  let ?r = "op_rec xs j" and ?sl = "loc_slot m0 (op_rec xs j) (plan xs j)"
  have nw: "\<not> is_write (xs ! j)"
    using writer_cell_unique [OF assms(1,4,7,5)] assms(8,9) by blast
  have "plan xs j \<noteq> loc_record_a"
    using start_cell_unwritten [OF assms(1,4,5), of m0 ?r] assms(9) by (auto simp: op_cell_def loc_slot_def)
  moreover have "slot_tag (mem s) ?r ?sl \<noteq> e"
    using pending_tag_kept [OF assms(1,2,4,5,6), of ?r ?sl] assms(3,9)
    by (simp add: epoch_start_def op_cell_def)
  ultimately show ?thesis
    using exec_invD(1) [OF assms(2,7)] nw by (cases "pcs s j") auto
qed

lemma op_inv_cong:
  assumes "\<And>t. slot_tag m' r t = slot_tag m r t" and "slot_value m' r sl = slot_value m r sl"
  shows "op_inv m0 m' e len r sl w loc p = op_inv m0 m e len r sl w loc p"
  using assms by (cases p) auto

text \<open>A step that changes neither a tag nor a value.\<close>

lemma inv_quiet:
  assumes "exec_inv plan xs e len m0 s" and "i < length xs" and "\<forall>d. pcs s i \<noteq> WriteDone d"
    and "op_inv m0 (mem s) e len (op_rec xs i) (loc_slot m0 (op_rec xs i) (plan xs i))
           (is_write (xs ! i)) (plan xs i) p"
    and "\<And>r t. slot_tag m' r t = slot_tag (mem s) r t" and "\<And>r t. slot_value m' r t = slot_value (mem s) r t"
  shows "exec_inv plan xs e len m0 (s\<lparr>mem := m', pcs := (pcs s)(i := p)\<rparr>)"
proof -
  have w: "written plan xs m0 (s\<lparr>mem := m', pcs := (pcs s)(i := p)\<rparr>) c" if "written plan xs m0 s c" for c
    using written_kept [OF that assms(3)] .
  have "op_inv m0 m' e len (op_rec xs j) (loc_slot m0 (op_rec xs j) (plan xs j))
      (is_write (xs ! j)) (plan xs j) (((pcs s)(i := p)) j)" if "j < length xs" for j
    using exec_invD(1) [OF assms(1) that] assms(4) by (simp add: op_inv_cong [OF assms(5,6)])
  then show ?thesis
    using exec_invD(2-4) [OF assms(1)] w by (simp add: exec_inv_def assms(5,6)) blast
qed

text \<open>A word of a write.\<close>

lemma inv_write_word:
  assumes "planned xs" and "exec_inv plan xs e len m0 s" and "epoch_start e len m0"
    and "i < length xs" and pc: "pcs s i = Writing sl d k" and "k < len"
  shows "exec_inv plan xs e len m0
    (s\<lparr>mem := set_slot_value (op_rec xs i) sl ((slot_value (mem s) (op_rec xs i) sl)[k := d]) (mem s),
       pcs := (pcs s)(i := Writing sl d (Suc k))\<rparr>)" (is "exec_inv _ _ _ _ _ ?s'")
proof -
  have op: "is_write (xs ! i)" "sl = loc_slot m0 (op_rec xs i) (plan xs i)"
      "take k (slot_value (mem s) (op_rec xs i) sl) = replicate k d"
    using exec_invD(1) [OF assms(2,4)] pc by auto
  have c: "op_cell plan xs m0 i = cell (op_rec xs i) sl" by (simp add: op_cell_def op(2))
  have len: "length (slot_value (mem s) r t) = len" for r t by (rule exec_invD(4) [OF assms(2)])
  have tags: "slot_tag (mem ?s') r t = slot_tag (mem s) r t" for r t by simp
  have w: "written plan xs m0 ?s' (cell r t)" if "written plan xs m0 s (cell r t)" for r t
    using written_kept [OF that, of i] pc by simp
  have "op_inv m0 (mem ?s') e len (op_rec xs j) (loc_slot m0 (op_rec xs j) (plan xs j))
      (is_write (xs ! j)) (plan xs j) (pcs ?s' j)" if j: "j < length xs" for j
  proof (cases "j = i")
    case True
    have "take (Suc k) ((slot_value (mem s) (op_rec xs i) sl)[k := d]) = replicate k d @ [d]"
      using op(3) assms(6) len by (simp add: take_Suc_conv_app_nth)
    with True op assms(6) show ?thesis by (simp add: replicate_append_same)
  next
    case False
    note I = exec_invD(1) [OF assms(2) j]
    show ?thesis
    proof (cases "op_cell plan xs m0 i = op_cell plan xs m0 j")
      case True
      then show ?thesis
        using pending_no_reader [OF assms(1-4) op(1) _ j] pc False I by auto
    next
      case c': False
      then have "slot_value (mem ?s') (op_rec xs j) (loc_slot m0 (op_rec xs j) (plan xs j)) =
          slot_value (mem s) (op_rec xs j) (loc_slot m0 (op_rec xs j) (plan xs j))"
        using c by (simp add: slot_value_cell op_cell_def)
      from op_inv_cong [OF tags this] show ?thesis using I False by simp
    qed
  qed
  moreover have "slot_tag (mem ?s') r t = slot_tag m0 r t \<or>
      (slot_tag (mem ?s') r t = e \<and> written plan xs m0 ?s' (cell r t))" for r t
    using exec_invD(2) [OF assms(2), of r t] w by auto
  moreover have "slot_value (mem ?s') r t = slot_value m0 r t \<or>
      (\<exists>i < length xs. is_write (xs ! i) \<and> op_cell plan xs m0 i = cell r t)" for r t
    using exec_invD(3) [OF assms(2), of r t] op(1) assms(4) c by (auto simp: slot_value_cell)
  moreover have "length (slot_value (mem ?s') r t) = len" for r t
    by (simp add: slot_value_cell len)
  ultimately show ?thesis unfolding exec_inv_def by blast
qed

text \<open>The publishing store.\<close>

lemma inv_publish:
  assumes "planned xs" and "exec_inv plan xs e len m0 s" and "epoch_start e len m0"
    and "i < length xs" and pc: "pcs s i = Writing sl d len"
  shows "exec_inv plan xs e len m0
    (s\<lparr>mem := set_slot_tag (op_rec xs i) sl e (mem s), pcs := (pcs s)(i := WriteDone d)\<rparr>)"
    (is "exec_inv _ _ _ _ _ ?s'")
proof -
  have op: "is_write (xs ! i)" "sl = loc_slot m0 (op_rec xs i) (plan xs i)"
      "take len (slot_value (mem s) (op_rec xs i) sl) = replicate len d"
    using exec_invD(1) [OF assms(2,4)] pc by auto
  have c: "op_cell plan xs m0 i = cell (op_rec xs i) sl" by (simp add: op_cell_def op(2))
  have len: "length (slot_value (mem s) r t) = len" for r t by (rule exec_invD(4) [OF assms(2)])
  have w: "written plan xs m0 ?s' (cell r t)" if "written plan xs m0 s (cell r t)" for r t
    using written_kept [OF that, of i] pc by simp
  have wi: "written plan xs m0 ?s' (cell (op_rec xs i) sl)"
    using op(1) assms(4) c by (auto simp: written_def)
  have "op_inv m0 (mem ?s') e len (op_rec xs j) (loc_slot m0 (op_rec xs j) (plan xs j))
      (is_write (xs ! j)) (plan xs j) (pcs ?s' j)" if j: "j < length xs" for j
  proof (cases "j = i")
    case True
    with op len show ?thesis by simp
  next
    case False
    with exec_invD(1) [OF assms(2) j] show ?thesis
      by (cases "pcs s j") (auto simp: slot_tag_cell)
  qed
  moreover have "slot_tag (mem ?s') r t = slot_tag m0 r t \<or>
      (slot_tag (mem ?s') r t = e \<and> written plan xs m0 ?s' (cell r t))" for r t
    using exec_invD(2) [OF assms(2), of r t] w [of r t] wi by (auto simp: slot_tag_cell)
  moreover have "slot_value (mem ?s') r t = slot_value (mem s) r t" for r t by simp
  ultimately show ?thesis
    unfolding exec_inv_def using exec_invD(3,4) [OF assms(2)] by simp
qed

lemma exec_inv_step:
  assumes "exec_step plan xs e len s s'" and "planned xs" and "epoch_start e len m0"
    and "exec_inv plan xs e len m0 s"
  shows "exec_inv plan xs e len m0 s'"
  using assms(1)
proof cases
  case (skip i)
  then show ?thesis using inv_quiet [OF assms(4), of i Skipped "mem s"] by simp
next
  case (load_v1 i)
  have "slot_tag (mem s) (op_rec xs i) Slot1 = slot_tag m0 (op_rec xs i) Slot1" if "is_write (xs ! i)"
  proof (cases "start_slot m0 (op_rec xs i) = Slot1")
    case True
    then show ?thesis using start_tag_kept [OF assms(2,4), of "op_rec xs i"] by simp
  next
    case False
    then have "target_slot m0 (op_rec xs i) = Slot1" using start_target_slots by blast
    then show ?thesis
      using pending_tag_kept [OF assms(2,4), of i "op_rec xs i" Slot1] load_v1 that
      by (simp add: op_cell_def loc_slot_def loads_tags_def)
  qed
  moreover have "slot_tag (mem s) (op_rec xs i) Slot1 = slot_tag m0 (op_rec xs i) Slot1
      \<or> slot_tag (mem s) (op_rec xs i) Slot1 = e"
    using exec_invD(2) [OF assms(4), of "op_rec xs i" Slot1] by blast
  ultimately show ?thesis
    using inv_quiet [OF assms(4), of i "GotV1 (slot_tag (mem s) (op_rec xs i) Slot1)" "mem s"] load_v1
    by (auto simp: record_tags)
next
  case (read_choose i v1 sl wait)
  have I: "loads_tags False (plan xs i)" "op_rec xs i \<noteq> sentinel"
      "v1 = slot_tag m0 (op_rec xs i) Slot1 \<or> (v1 = e \<and> slot_tag (mem s) (op_rec xs i) Slot1 = e)"
    using exec_invD(1) [OF assms(4) read_choose(2)] read_choose by auto
  have "read_choice (plan xs i) v1 (slot_tag (mem s) (op_rec xs i) Slot2) e = (sl, wait)"
    using read_choose by (simp add: record_tags)
  from read_choice_correct [OF assms(2,4,3) I(3,1) this]
  have "op_inv m0 (mem s) e len (op_rec xs i) (loc_slot m0 (op_rec xs i) (plan xs i))
      (is_write (xs ! i)) (plan xs i) (if wait then Spinning sl else Reading sl [])"
    using read_choose I by auto
  then show ?thesis
    using inv_quiet [OF assms(4) read_choose(2), of _ "mem s"] read_choose by simp
next
  case (read_version i)
  then show ?thesis
    using inv_quiet [OF assms(4), of i "Spinning (Scratch (plan xs i))" "mem s"]
    by (simp add: loads_tags_def loc_slot_def)
next
  case (poll i sl)
  with exec_invD(1) [OF assms(4) poll(2)] show ?thesis
    using inv_quiet [OF assms(4), of i "Reading sl []" "mem s"] by simp
next
  case (read_word i sl ws)
  let ?v = "slot_value (mem s) (op_rec xs i) sl"
  have I: "sl = loc_slot m0 (op_rec xs i) (plan xs i)" "ws = take (length ws) ?v"
    using exec_invD(1) [OF assms(4) read_word(2)] read_word by auto
  have l: "length ?v = len" by (rule exec_invD(4) [OF assms(4)])
  then have eq: "ws @ [?v ! length ws] = take (Suc (length ws)) ?v"
    using I(2) read_word(4) by (metis take_Suc_conv_app_nth)
  have "op_inv m0 (mem s) e len (op_rec xs i) (loc_slot m0 (op_rec xs i) (plan xs i))
      (is_write (xs ! i)) (plan xs i) (Reading sl (take (Suc (length ws)) ?v))"
    using exec_invD(1) [OF assms(4) read_word(2)] read_word(3,4) I(1) l by (auto simp: min_def)
  from inv_quiet [OF assms(4) read_word(2) _ this, of "mem s"] read_word(1,3) eq
  show ?thesis by simp
next
  case (read_end i sl ws)
  have "length (slot_value (mem s) (op_rec xs i) sl) = len" by (rule exec_invD(4) [OF assms(4)])
  with read_end exec_invD(1) [OF assms(4) read_end(2)] show ?thesis
    using inv_quiet [OF assms(4), of i "ReadDone ws" "mem s"] by simp
next
  case (write_choose i v1 sl data)
  have I: "loads_tags True (plan xs i)" "v1 = slot_tag m0 (op_rec xs i) Slot1"
    using exec_invD(1) [OF assms(4) write_choose(2)] write_choose by auto
  have b: "plan xs i = loc_record_b" using I(1) by (simp add: loads_tags_def)
  have "slot_tag (mem s) (op_rec xs i) Slot2 = slot_tag m0 (op_rec xs i) Slot2"
  proof (cases "start_slot m0 (op_rec xs i) = Slot2")
    case True
    then show ?thesis using start_tag_kept [OF assms(2,4), of "op_rec xs i"] by simp
  next
    case False
    then have "target_slot m0 (op_rec xs i) = Slot2" using start_target_slots by blast
    then show ?thesis
      using pending_tag_kept [OF assms(2,4), of i "op_rec xs i" Slot2] write_choose b
      by (simp add: op_cell_def loc_slot_def)
  qed
  then have "sl = loc_slot m0 (op_rec xs i) (plan xs i)"
    using write_choose(5) I(2) b
    by (simp add: write_choice_def loc_slot_def target_slot_def record_tags)
  then show ?thesis
    using inv_quiet [OF assms(4), of i "Writing sl data 0" "mark_dirty (op_rec xs i) sl (mem s)"]
      write_choose by simp
next
  case (write_version i data)
  then show ?thesis
    using inv_quiet [OF assms(4), of i "Writing (Scratch (plan xs i)) data 0" "mem s"]
      write_not_a [OF assms(2)]
    by (simp add: loads_tags_def loc_slot_def)
next
  case (write_word i sl data k)
  then show ?thesis using inv_write_word [OF assms(2,4,3)] by simp
next
  case (publish i sl data k)
  then show ?thesis using inv_publish [OF assms(2,4,3)] by simp
qed

lemma exec_inv_reach:
  assumes "exec_reach plan xs e len m0 s" and "planned xs" and "epoch_start e len m0"
  shows "exec_inv plan xs e len m0 s"
  using assms(1) unfolding exec_reach_def
  by (induction rule: rtranclp_induct)
    (auto intro: exec_inv_init exec_inv_step assms(2,3))

text \<open>A finished read returned the words of its last earlier write.\<close>

lemma read_result:
  assumes "exec_reach plan xs e len m0 s" and "planned xs" and "epoch_start e len m0"
    and "i < length xs" and "pcs s i = ReadDone ws"
  shows "last_write_before xs i j \<Longrightarrow> \<exists>d. pcs s j = WriteDone d \<and> ws = replicate len d"
    and "\<not> write_earlier xs i \<Longrightarrow> ws = slot_value m0 (op_rec xs i) (start_slot m0 (op_rec xs i))"
proof -
  note inv = exec_inv_reach [OF assms(1-3)]
  let ?r = "op_rec xs i" and ?sl = "loc_slot m0 (op_rec xs i) (plan xs i)"
  have I: "\<not> is_write (xs ! i)" "plan xs i = loc_record_a \<or> slot_tag (mem s) ?r ?sl = e"
      "ws = slot_value (mem s) ?r ?sl"
    using exec_invD(1) [OF inv assms(4)] assms(5) by auto
  show "ws = slot_value m0 ?r (start_slot m0 ?r)" if "\<not> write_earlier xs i"
    using read_start [OF assms(2,4) I(1) that] I(3) start_value_kept [OF assms(2) inv]
    by (simp add: loc_slot_def)
  show "\<exists>d. pcs s j = WriteDone d \<and> ws = replicate len d" if l: "last_write_before xs i j"
  proof -
    have j: "j < length xs" "is_write (xs ! j)" "op_rec xs j = ?r" "plan xs j = plan xs i"
      using l assms(4) read_last [OF assms(2,4) I(1) l]
      by (auto simp: last_write_before_def same_write_def op_rec_inj)
    then have c: "op_cell plan xs m0 j = cell ?r ?sl" by (simp add: op_cell_def)
    have "slot_tag (mem s) ?r ?sl = e" using I(2) write_not_a [OF assms(2) j(1,2)] j(4) by simp
    then have "\<not> (\<forall>d. pcs s j \<noteq> WriteDone d)"
      using pending_tag_kept [OF assms(2) inv j(1,2) _ c] assms(3) unfolding epoch_start_def by metis
    then obtain d where "pcs s j = WriteDone d" by blast
    with exec_invD(1) [OF inv j(1)] j I(3) show ?thesis by auto
  qed
qed

text \<open>An operation that is not finished can make its next step as soon as the write it is planned to
  read from, if any, is finished.\<close>

lemma unfinished_op_steps:
  assumes "exec_reach plan xs e len m0 s" and "planned xs" and "epoch_start e len m0"
    and "i < length xs" and "\<not> finished (pcs s i)"
    and "\<And>j. last_write_before xs i j \<Longrightarrow> finished (pcs s j)"
  shows "\<exists>s'. op_step plan xs e len i s s'"
proof -
  note inv = exec_inv_reach [OF assms(1-3)]
  note I = exec_invD(1) [OF inv assms(4)]
  show ?thesis
  proof (cases "pcs s i")
    case Idle
    show ?thesis
    proof (cases "op_rec xs i = sentinel \<or> loads_tags (is_write (xs ! i)) (plan xs i)")
      case True
      then show ?thesis
        using op_stepI [OF exec_step.skip [of i xs s]] op_stepI [OF exec_step.load_v1 [of i xs s]] assms(4) Idle
        by fastforce
    next
      case False
      then show ?thesis
        using op_stepI [OF exec_step.read_version [of i xs s]] op_stepI [OF exec_step.write_version [of i xs s]]
          assms(4) Idle
        by (cases "is_write (xs ! i)") fastforce+
    qed
  next
    case (GotV1 v)
    obtain sl w where rc: "read_choice (plan xs i) v (version2 (recs (mem s) (op_rec xs i))) e = (sl, w)"
      by fastforce
    show ?thesis
    proof (cases "is_write (xs ! i)")
      case True
      show ?thesis
        by (rule op_stepI [OF exec_step.write_choose [OF assms(4) True GotV1 refl]]) (auto simp: GotV1)
    next
      case False
      show ?thesis
        by (rule op_stepI [OF exec_step.read_choose [where plan = plan, OF assms(4) False GotV1 rc]]) (auto simp: GotV1 split: if_splits)
    qed
  next
    case (Spinning sl)
    then have r: "\<not> is_write (xs ! i)" "sl = loc_slot m0 (op_rec xs i) (plan xs i)"
        "plan xs i \<noteq> loc_record_a" "op_rec xs i \<noteq> sentinel"
      using I by auto
    obtain j where j: "last_write_before xs i j" "j < i" "is_write (xs ! j)" "rid (xs ! j) = rid (xs ! i)"
        "plan xs j = plan xs i"
      by (rule read_not_a_has_writer [OF assms(2,4) r(1,3)])
    have rec: "op_rec xs j = op_rec xs i" using j(4) by (simp add: op_rec_inj)
    have "j < length xs" and "finished (pcs s j)" using j(1,2) assms(4,6) by auto
    with exec_invD(1) [OF inv, of j] j(3) rec r(4) obtain d where "pcs s j = WriteDone d"
      by (cases "pcs s j") (auto simp: finished_def)
    with exec_invD(1) [OF inv \<open>j < length xs\<close>] rec j(5) r(2)
    have "slot_tag (mem s) (op_rec xs i) sl = e" by simp
    then show ?thesis
      by (intro op_stepI [OF exec_step.poll [OF assms(4) Spinning]]) (auto simp: Spinning)
  next
    case (Reading sl ws)
    then have "length ws \<le> len" using I by simp
    with Reading show ?thesis
      using op_stepI [OF exec_step.read_word [OF assms(4) Reading]] op_stepI [OF exec_step.read_end [OF assms(4) Reading]]
      by (cases "length ws = len") (fastforce, simp add: le_less)
  next
    case (Writing sl d k)
    then have "k \<le> len" using I by simp
    with Writing show ?thesis
      using op_stepI [OF exec_step.write_word [OF assms(4) Writing]] op_stepI [OF exec_step.publish [OF assms(4) Writing]]
      by (cases "k = len") (fastforce, simp add: le_less)
  qed (use assms(5) in \<open>auto simp: finished_def\<close>)
qed

text \<open>When all operations are done, the newer slot of a written record holds its last write.\<close>

lemma epoch_result:
  assumes "exec_reach plan xs e len m0 s" and "planned xs" and "epoch_start e len m0"
    and "\<forall>r sl. slot_tag m0 r sl < e" and "i < length xs" and "pcs s i = WriteDone d"
    and "\<not> write_later xs i"
  shows "slot_value (mem s) (op_rec xs i) (start_slot (mem s) (op_rec xs i)) = replicate len d"
proof -
  note inv = exec_inv_reach [OF assms(1-3)]
  let ?r = "op_rec xs i"
  have w: "is_write (xs ! i)" and v: "slot_tag (mem s) ?r (loc_slot m0 ?r (plan xs i)) = e"
      "slot_value (mem s) ?r (loc_slot m0 ?r (plan xs i)) = replicate len d"
    using exec_invD(1) [OF inv assms(5)] assms(6) by auto
  have "plan xs i = loc_record_b" using write_b_iff [OF assms(2,5) w] assms(7) by simp
  then have t: "slot_tag (mem s) ?r (target_slot m0 ?r) = e" and
    tv: "slot_value (mem s) ?r (target_slot m0 ?r) = replicate len d"
    using v by (simp_all add: loc_slot_def)
  have "slot_tag (mem s) ?r (start_slot m0 ?r) < e"
    using start_tag_kept [OF assms(2) inv, of ?r] assms(4) by simp
  then have "start_slot (mem s) ?r = target_slot m0 ?r"
    using t start_target_slots [of m0 ?r] by (auto simp: start_slot_def [of "mem s"])
  with tv show ?thesis by simp
qed

lemma epoch_keeps_unwritten:
  assumes "exec_reach plan xs e len m0 s" and "planned xs" and "epoch_start e len m0"
    and "\<forall>i < length xs. is_write (xs ! i) \<longrightarrow> op_rec xs i \<noteq> r"
  shows "slot_value (mem s) r (start_slot (mem s) r) = slot_value m0 r (start_slot m0 r)"
proof -
  note inv = exec_inv_reach [OF assms(1-3)]
  have "op_cell plan xs m0 i \<noteq> cell r sl" if "i < length xs" "is_write (xs ! i)" "sl = Slot1 \<or> sl = Slot2" for i sl
    using assms(4) that by (cases "loc_slot m0 (op_rec xs i) (plan xs i)") (auto simp: op_cell_def)
  then have k: "slot_tag (mem s) r sl = slot_tag m0 r sl" if "sl = Slot1 \<or> sl = Slot2" for sl
    using exec_invD(2) [OF inv, of r sl] that unfolding written_def by blast
  then have "start_slot (mem s) r = start_slot m0 r" by (simp add: start_slot_def)
  with start_value_kept [OF assms(2) inv] show ?thesis by simp
qed

end

subsection \<open>Serializability of an epoch\<close>

lemma start_read: "epoch_start e len m \<Longrightarrow> readFromTable m r loc_record_a e = Some (slot_value m r (start_slot m r))"
  by (simp add: readFromTable_slots read_choice_def read_a_slot_def start_slot_def epoch_start_def)

text \<open>C1: In every interleaving of the planned operations of an epoch, a read that has
  finished holds exactly the words stored by the last write of its record that precedes it in
  the serial order, and that write is done; a read with no such write holds the words the
  record had when the epoch started.\<close>

theorem execution_serializable:
  assumes "planned xs" and "epoch_start e len m"
    and "exec_reach op_location xs e len m s" and "i < length xs" and "pcs s i = ReadDone ws"
  shows "(\<forall>j. last_write_before xs i j \<longrightarrow> (\<exists>d. pcs s j = WriteDone d \<and> ws = replicate len d)) \<and>
         (\<not> write_earlier xs i \<longrightarrow> readFromTable m (op_rec xs i) loc_record_a e = Some ws)"
  using planner.read_result [OF assms(3,1,2,4,5)] by (simp add: start_read [OF assms(2)])

definition two_ops :: "op_t list" where
  "two_ops = [CREATE_OP 7 0 write_op 0, CREATE_OP 7 1 read_op 0]"

definition zero_memory :: "words memory" where
  "zero_memory = \<lparr>recs = (\<lambda>_. \<lparr>value1 = [0], version1 = 0, value2 = [0], version2 = 0\<rparr>),
     vers = (\<lambda>_. \<lparr>version = 0, vvalue = [0]\<rparr>), dirty_v1 = None, dirty_v2 = None\<rparr>"

lemma epoch_start_zero: "e \<noteq> 0 \<Longrightarrow> epoch_start e 1 zero_memory"
  unfolding epoch_start_def
proof (intro allI)
  fix r s
  assume "e \<noteq> 0"
  then show "slot_tag zero_memory r s \<noteq> e \<and> length (slot_value zero_memory r s) = 1"
    by (cases s) (simp_all add: zero_memory_def slot_tag.simps slot_value.simps)
qed

lemma planned_two_ops: "planned two_ops" "length two_ops = 2"
  "is_write (two_ops ! 0)" "\<not> is_write (two_ops ! 1)" "last_write_before two_ops 1 0"
  "op_rec two_ops 0 = 7" "op_rec two_ops 1 = 7"
  by (simp_all add: planned_def two_ops_def sample_simps last_write_before_def op_rec_def)

lemma two_ops_plan: "op_location two_ops 0 = loc_record_b" "op_location two_ops 1 = loc_record_b"
proof -
  have "\<not> write_later two_ops 0"
    using planned_two_ops by (auto simp: write_later_def same_write_def less_2_cases_iff)
  then show b: "op_location two_ops 0 = loc_record_b"
    using last_write_location planned_two_ops by simp
  show "op_location two_ops 1 = loc_record_b"
    using read_location_last_write [of two_ops 1 0] planned_two_ops b by simp
qed

text \<open>A complete run of the two operations.\<close>

definition two_final :: exec_state where
  "two_final = \<lparr>mem = set_slot_tag 7 Slot2 1 (set_slot_value 7 Slot2 [5] zero_memory),
     pcs = (\<lambda>_. Idle)(0 := WriteDone 5, 1 := ReadDone [5])\<rparr>"

lemma two_run: "exec_reach op_location two_ops 1 1 zero_memory two_final"
proof -
  let ?step = "exec_step op_location two_ops 1 1"
  let ?m1 = "set_slot_value 7 Slot2 [5] zero_memory"
  let ?m2 = "set_slot_tag 7 Slot2 1 ?m1"
  let ?w = "\<lambda>m p. \<lparr>mem = m, pcs = (\<lambda>_. Idle)(0 := p)\<rparr> :: exec_state"
  let ?r = "\<lambda>p. \<lparr>mem = ?m2, pcs = (\<lambda>_. Idle)(0 := WriteDone 5, 1 := p)\<rparr> :: exec_state"
  note facts = planned_two_ops two_ops_plan
  have s1: "?step (exec_init zero_memory) (?w zero_memory (GotV1 0))"
    using exec_step.load_v1 [of 0 two_ops "exec_init zero_memory" op_location 1 1] facts
    by (simp add: exec_init_def zero_memory_def loads_tags_def sentinel_def)
  have s2: "?step (?w zero_memory (GotV1 0)) (?w zero_memory (Writing Slot2 5 0))"
    using exec_step.write_choose [of 0 two_ops "?w zero_memory (GotV1 0)" 0 Slot2 op_location 1 1 5] facts
    by (simp add: write_choice_def zero_memory_def)
  have s3: "?step (?w zero_memory (Writing Slot2 5 0)) (?w ?m1 (Writing Slot2 5 1))"
    using exec_step.write_word [of 0 two_ops "?w zero_memory (Writing Slot2 5 0)" Slot2 5 0 1 op_location 1] facts
    by (simp add: zero_memory_def slot_value.simps)
  have s4: "?step (?w ?m1 (Writing Slot2 5 1)) (?w ?m2 (WriteDone 5))"
    using exec_step.publish [of 0 two_ops "?w ?m1 (Writing Slot2 5 1)" Slot2 5 1 1 op_location 1] facts
    by simp
  have s5: "?step (?w ?m2 (WriteDone 5)) (?r (GotV1 0))"
    using exec_step.load_v1 [of 1 two_ops "?w ?m2 (WriteDone 5)" op_location 1 1] facts
    by (simp add: zero_memory_def loads_tags_def sentinel_def)
  have s6: "?step (?r (GotV1 0)) (?r (Reading Slot2 []))"
    using exec_step.read_choose [of 1 two_ops "?r (GotV1 0)" 0 op_location 1 Slot2 False 1] facts
    by (simp add: read_choice_def read_b_slot_def zero_memory_def)
  have s7: "?step (?r (Reading Slot2 [])) (?r (Reading Slot2 [5]))"
    using exec_step.read_word [of 1 two_ops "?r (Reading Slot2 [])" Slot2 "[]" 1 op_location 1] facts
    by (simp add: zero_memory_def slot_value.simps)
  have s8: "?step (?r (Reading Slot2 [5])) (?r (ReadDone [5]))"
    using exec_step.read_end [of 1 two_ops "?r (Reading Slot2 [5])" Slot2 "[5]" 1 op_location 1] facts
    by simp
  have f: "?r (ReadDone [5]) = two_final" by (simp add: two_final_def)
  note run = converse_rtranclp_into_rtranclp [where r = ?step]
  have "?step\<^sup>*\<^sup>* (exec_init zero_memory) (?r (ReadDone [5]))"
    by (rule run [OF s1] run [OF s2] run [OF s3] run [OF s4] run [OF s5] run [OF s6] run [OF s7]
        run [OF s8] rtranclp.rtrancl_refl)+
  then show ?thesis unfolding exec_reach_def f .
qed

theorem execution_serializable_witness:
  "\<exists>d. pcs two_final 0 = WriteDone d \<and> [5] = replicate 1 d"
  using execution_serializable [of two_ops 1 1 zero_memory two_final 1 "[5]"]
    planned_two_ops two_run epoch_start_zero [of 1]
  by (simp add: two_final_def)

text \<open>C8: When the last write of a record is done, the newer of the two slots, which the next
  epoch reads as the record, holds the words of that write; a record no operation writes
  keeps its words.\<close>

theorem epoch_leaves_last_writes:
  assumes "planned xs" and "epoch_start e len m" and "\<forall>r sl. slot_tag m r sl < e"
    and "exec_reach op_location xs e len m s"
  shows "(\<forall>i d. i < length xs \<and> pcs s i = WriteDone d \<and> \<not> write_later xs i \<longrightarrow>
            slot_value (mem s) (op_rec xs i) (start_slot (mem s) (op_rec xs i)) = replicate len d) \<and>
         (\<forall>r. (\<forall>i < length xs. is_write (xs ! i) \<longrightarrow> op_rec xs i \<noteq> r) \<longrightarrow>
            slot_value (mem s) r (start_slot (mem s) r) = slot_value m r (start_slot m r))"
  using planner.epoch_result [OF assms(4,1,2,3)] planner.epoch_keeps_unwritten [OF assms(4,1,2)]
  by blast

theorem epoch_leaves_last_writes_witness:
  "slot_value (mem two_final) 3 (start_slot (mem two_final) 3) = [0]"
proof -
  have "\<forall>r sl. slot_tag zero_memory r sl < 1"
  proof (intro allI)
    fix r sl show "slot_tag zero_memory r sl < 1"
      by (cases sl) (simp_all add: zero_memory_def slot_tag.simps)
  qed
  from epoch_leaves_last_writes [OF planned_two_ops(1) _ this two_run] epoch_start_zero [of 1]
  have "slot_value (mem two_final) 3 (start_slot (mem two_final) 3)
      = slot_value zero_memory 3 (start_slot zero_memory 3)"
    using planned_two_ops(2,6,7) by (auto simp: less_2_cases_iff)
  then show ?thesis by (simp add: start_slot_def zero_memory_def slot_tag.simps slot_value.simps)
qed

end
