(* ===== verification/Ycsb_Txn.thy ===== *)
theory Ycsb_Txn
  imports Op_Encoding
begin

text \<open>
  The transactions of the YCSB benchmark (\<^verbatim>\<open>ycsb_txn.h\<close>): the input transaction, the
  transaction after indexing, and the execution plan. A plan is an array of ten unions of
  21 words; a member of the union is named by its word offset inside the plan.
\<close>

datatype YcsbOpType =
    READ
  | FULL_READ
  | UPDATE
  | READ_MODIFY_WRITE
  | FULL_READ_MODIFY_WRITE
  | INSERT
  | DELETE
  | NOOP

definition kNoRecord :: u32 where "kNoRecord = 0xffffffff"

record YcsbTxn =
  txn_keys :: "u32 list"
  txn_fields :: "u8 list"
  txn_ops :: "YcsbOpType list"

record YcsbTxnParam =
  record_ids :: "u32 list"
  field_ids :: "u8 list"
  ops :: "YcsbOpType list"

text \<open>\<^verbatim>\<open>sizeof(YcsbExecPlan::Plan) / 4\<close> and the word offsets of its members.\<close>

definition plan_words :: nat where "plan_words = 21"

definition read_plan_read_loc :: "nat \<Rightarrow> nat" where "read_plan_read_loc i = plan_words * i"
definition full_read_plan_read_locs :: "nat \<Rightarrow> nat \<Rightarrow> nat" where
  "full_read_plan_read_locs i j = plan_words * i + j"
definition full_read_plan_field_grids :: "nat \<Rightarrow> nat \<Rightarrow> nat" where
  "full_read_plan_field_grids i j = plan_words * i + 10 + j"
definition update_plan_write_loc :: "nat \<Rightarrow> nat" where "update_plan_write_loc i = plan_words * i"
definition copy_update_plan_read_loc :: "nat \<Rightarrow> nat" where "copy_update_plan_read_loc i = plan_words * i"
definition copy_update_plan_write_loc :: "nat \<Rightarrow> nat" where "copy_update_plan_write_loc i = plan_words * i + 1"
definition read_modify_write_plan_read_loc :: "nat \<Rightarrow> nat" where
  "read_modify_write_plan_read_loc i = plan_words * i"
definition read_modify_write_plan_write_loc :: "nat \<Rightarrow> nat" where
  "read_modify_write_plan_write_loc i = plan_words * i + 1"
definition full_rmw_plan_read_locs :: "nat \<Rightarrow> nat \<Rightarrow> nat" where
  "full_rmw_plan_read_locs i j = plan_words * i + j"
definition full_rmw_plan_write_loc :: "nat \<Rightarrow> nat" where "full_rmw_plan_write_loc i = plan_words * i + 10"
definition full_rmw_plan_field_grids :: "nat \<Rightarrow> nat \<Rightarrow> nat" where
  "full_rmw_plan_field_grids i j = plan_words * i + 11 + j"
definition insert_plan_write_loc :: "nat \<Rightarrow> nat" where "insert_plan_write_loc i = plan_words * i"
definition insert_full_plan_write_locs :: "nat \<Rightarrow> nat \<Rightarrow> nat" where
  "insert_full_plan_write_locs i j = plan_words * i + j"
definition insert_full_plan_field_grids :: "nat \<Rightarrow> nat \<Rightarrow> nat" where
  "insert_full_plan_field_grids i j = plan_words * i + 10 + j"

lemmas plan_offset_defs = plan_words_def read_plan_read_loc_def full_read_plan_read_locs_def
  full_read_plan_field_grids_def update_plan_write_loc_def copy_update_plan_read_loc_def
  copy_update_plan_write_loc_def read_modify_write_plan_read_loc_def
  read_modify_write_plan_write_loc_def full_rmw_plan_read_locs_def full_rmw_plan_write_loc_def
  full_rmw_plan_field_grids_def insert_plan_write_loc_def insert_full_plan_write_locs_def
  insert_full_plan_field_grids_def

text \<open>A transaction parameter block has ten operations.\<close>

definition param_wf :: "YcsbTxnParam \<Rightarrow> bool" where
  "param_wf p \<longleftrightarrow> length (record_ids p) = 10 \<and> length (field_ids p) = 10 \<and> length (ops p) = 10"

end
