(* ===== verification/Submitter.thy ===== *)
theory Submitter
  imports Planner Ycsb_Txn
begin

text \<open>
  The YCSB submitter (\<^verbatim>\<open>ycsb_gpu_submitter.cu\<close>): a first kernel counts the table
  operations each transaction expands into, a scan turns the counts into offsets, a second
  kernel emits the packed operations at those offsets, and a last pass derives the key
  arrays of the stager. The lemmas show that the counts agree with what is emitted, that for
  every order in which the threads run the submitted array is the concatenation of the
  transactions' operations in transaction order, and that no two submitted operations share
  a plan word.
\<close>

text \<open>The increments of \<^verbatim>\<open>prepareSubmitYcsbTxn\<close>.\<close>

fun op_count :: "bool \<Rightarrow> YcsbOpType \<Rightarrow> u32" where
  "op_count split READ = 1"
| "op_count split UPDATE = (if split then 1 else 2)"
| "op_count split READ_MODIFY_WRITE = 2"
| "op_count split FULL_READ = (if split then 10 else 1)"
| "op_count split FULL_READ_MODIFY_WRITE = (if split then 11 else 2)"
| "op_count split INSERT = (if split then 10 else 1)"
| "op_count split DELETE = 0"
| "op_count split NOOP = 0"

definition prepareSubmitYcsbTxn :: "bool \<Rightarrow> YcsbTxnParam \<Rightarrow> u32" where
  "prepareSubmitYcsbTxn split txn =
     fold (\<lambda>i n. if record_ids txn ! i = kNoRecord then n else n + op_count split (ops txn ! i)) [0..<10] 0"

text \<open>What one call of the lambda \<^verbatim>\<open>emit\<close> is given: key, plan word, kind, insert flag.\<close>

type_synonym emission = "u32 \<times> nat \<times> op_t \<times> bool"

definition field_key :: "bool \<Rightarrow> u32 \<Rightarrow> u8 \<Rightarrow> u32" where
  "field_key split r f = (if split then r * 10 + ucast f else r)"

definition submit_op :: "bool \<Rightarrow> u32 \<Rightarrow> u32 \<Rightarrow> YcsbTxnParam \<Rightarrow> nat \<Rightarrow> emission list" where
  "submit_op split minted_begin num_minted txn i =
     (let r = record_ids txn ! i; f = field_ids txn ! i;
          is_ins = (ops txn ! i = INSERT \<and> r - minted_begin < num_minted)
      in if r = kNoRecord then []
         else case ops txn ! i of
           READ \<Rightarrow> [(field_key split r f, read_plan_read_loc i, read_op, is_ins)]
         | UPDATE \<Rightarrow>
             (if split then [(r * 10 + ucast f, update_plan_write_loc i, write_op, is_ins)]
              else [(r, copy_update_plan_read_loc i, read_op, is_ins),
                    (r, copy_update_plan_write_loc i, write_op, is_ins)])
         | READ_MODIFY_WRITE \<Rightarrow>
             [(field_key split r f, read_modify_write_plan_read_loc i, read_op, is_ins),
              (field_key split r f, read_modify_write_plan_write_loc i, write_op, is_ins)]
         | FULL_READ \<Rightarrow>
             (if split
              then map (\<lambda>j. (r * 10 + of_nat j, full_read_plan_read_locs i j, read_op, is_ins)) [0..<10]
              else [(r, read_plan_read_loc i, read_op, is_ins)])
         | FULL_READ_MODIFY_WRITE \<Rightarrow>
             (if split
              then map (\<lambda>j. (r * 10 + of_nat j, full_rmw_plan_read_locs i j, read_op, is_ins)) [0..<10]
                   @ [(r * 10 + ucast f, full_rmw_plan_write_loc i, write_op, is_ins)]
              else [(r, read_modify_write_plan_read_loc i, read_op, is_ins),
                    (r, read_modify_write_plan_write_loc i, write_op, is_ins)])
         | INSERT \<Rightarrow>
             (if split
              then map (\<lambda>j. (r * 10 + of_nat j, insert_full_plan_write_locs i j, write_op, is_ins)) [0..<10]
              else [(r, insert_plan_write_loc i, write_op, is_ins)])
         | DELETE \<Rightarrow> []
         | NOOP \<Rightarrow> [])"

definition submit_txn :: "bool \<Rightarrow> u32 \<Rightarrow> u32 \<Rightarrow> YcsbTxnParam \<Rightarrow> emission list" where
  "submit_txn split mb nm txn = concat (map (submit_op split mb nm txn) [0..<10])"

definition emit_op :: "nat \<Rightarrow> emission \<Rightarrow> op_t \<times> bool" where
  "emit_op tid em = (case em of (key, loc_off_words, kind, is_insert) \<Rightarrow>
     (CREATE_OP (ucast key) (of_nat tid) kind (of_nat loc_off_words), is_insert))"

text \<open>One thread of \<^verbatim>\<open>submitYcsbTxn\<close>: the stores it makes into the operation array (and, at the
  same indices, into the insert flags), starting at its offset.\<close>

definition submitYcsbTxn ::
  "bool \<Rightarrow> u32 \<Rightarrow> u32 \<Rightarrow> YcsbTxnParam list \<Rightarrow> u32 list \<Rightarrow> nat \<Rightarrow> (u32 \<times> (op_t \<times> bool)) list" where
  "submitYcsbTxn split mb nm txns offset tid =
     map (\<lambda>(k, em). (offset ! tid + of_nat k, emit_op tid em))
       (enumerate 0 (submit_txn split mb nm (txns ! tid)))"

text \<open>The post-pass: the four key arrays of one operation.\<close>

definition deriveStagerKeys :: "op_t \<times> bool \<Rightarrow> u32 \<times> u32 \<times> u32 \<times> u32" where
  "deriveStagerKeys x =
     (let key = ucast (GET_RECORD_ID (fst x)); is_w = (GET_R_W (fst x) = write_op)
      in (key, if is_w then sentinel else key, if is_w then key else sentinel,
          if snd x then key else sentinel))"

definition countReadWriteInsertKeys :: "u32 list \<Rightarrow> u32 list \<Rightarrow> u32 list \<Rightarrow> u32 \<times> u32 \<times> u32" where
  "countReadWriteInsertKeys rk wk ik =
     (let count = (\<lambda>ks. fold (\<lambda>k n. if k \<noteq> sentinel then n + 1 else n) ks 0)
      in (count rk, count wk, count ik))"

record TableSubmitDest =
  d_num_ops :: "u32 list"
  d_op_offsets :: "u32 list"
  dest_ops :: "(op_t \<times> bool) list"
  dest_curr_num_ops :: u32
  curr_num_read_ops :: u32
  curr_num_write_ops :: u32
  curr_num_insert_ops :: u32
  d_all_keys :: "u32 list"
  d_read_keys :: "u32 list"
  d_write_keys :: "u32 list"
  d_insert_keys :: "u32 list"

definition op_offsets :: "u32 list \<Rightarrow> u32 list" where
  "op_offsets counts = 0 # inclusive_sum_from 0 counts"

text \<open>\<^verbatim>\<open>YcsbGpuSubmitter::submit\<close>; \<open>order\<close> is the order in which the threads of the emitting
  kernel run. Entry 0 of the offsets is the zero the planner's allocation wrote.\<close>

definition submit ::
  "nat list \<Rightarrow> bool \<Rightarrow> bool \<Rightarrow> u32 \<Rightarrow> u32 \<Rightarrow> YcsbTxnParam list \<Rightarrow> TableSubmitDest \<Rightarrow> TableSubmitDest" where
  "submit order hybrid split mb nm txns d =
     (let counts = map (prepareSubmitYcsbTxn split) txns;
          offs = op_offsets counts;
          n = last offs;
          arr = scatter (concat (map (submitYcsbTxn split mb nm txns offs) order)) (dest_ops d);
          d1 = d\<lparr>d_num_ops := counts, d_op_offsets := offs, dest_ops := arr, dest_curr_num_ops := n\<rparr>
      in if hybrid
         then let ks = map deriveStagerKeys (take (unat n) arr);
                  rk = map (fst \<circ> snd) ks; wk = map (fst \<circ> snd \<circ> snd) ks; ik = map (snd \<circ> snd \<circ> snd) ks;
                  (rc, wc, ic) = countReadWriteInsertKeys rk wk ik
              in d1\<lparr>d_all_keys := map fst ks, d_read_keys := rk, d_write_keys := wk, d_insert_keys := ik,
                    curr_num_read_ops := rc, curr_num_write_ops := wc, curr_num_insert_ops := ic\<rparr>
         else d1\<lparr>curr_num_read_ops := 0, curr_num_write_ops := 0, curr_num_insert_ops := 0\<rparr>)"

text \<open>The serial submission order: the operations of the transactions, one after the other.\<close>

definition serial_ops :: "bool \<Rightarrow> u32 \<Rightarrow> u32 \<Rightarrow> YcsbTxnParam list \<Rightarrow> (op_t \<times> bool) list" where
  "serial_ops split mb nm txns =
     concat (map (\<lambda>tid. map (emit_op tid) (submit_txn split mb nm (txns ! tid))) [0..<length txns])"

subsection \<open>Counts and emissions\<close>

lemma length_submit_op:
  "of_nat (length (submit_op split mb nm txn i)) =
     (if record_ids txn ! i = kNoRecord then 0 else op_count split (ops txn ! i))"
  by (cases "ops txn ! i") (auto simp: submit_op_def Let_def)

lemma count_emitted:
  "prepareSubmitYcsbTxn split txn = of_nat (length (submit_txn split mb nm txn))"
proof -
  have "fold (\<lambda>i n. if record_ids txn ! i = kNoRecord then n else n + op_count split (ops txn ! i)) is a =
      a + of_nat (length (concat (map (submit_op split mb nm txn) is)))" for "is" a
    by (induction "is" arbitrary: a) (simp_all add: length_submit_op)
  then show ?thesis by (simp add: prepareSubmitYcsbTxn_def submit_txn_def)
qed

lemma last_inclusive_sum: "last (a # inclusive_sum_from a vs) = a + sum_list vs"
  by (induction vs arbitrary: a) (simp_all add: add.assoc)

lemma nth_op_offsets:
  "t \<le> length counts \<Longrightarrow> op_offsets counts ! t = sum_list (take t counts)"
  by (cases t) (auto simp: op_offsets_def nth_inclusive_sum_from)

text \<open>A block of consecutive stores replaces the block.\<close>

lemma scatter_block:
  assumes "a + length ys \<le> length xs" and "a + length ys \<le> 2 ^ 32"
  shows "scatter (map (\<lambda>(k, y). (of_nat a + of_nat k, y)) (enumerate 0 ys)) xs =
         take a xs @ ys @ drop (a + length ys) xs"
  using assms
proof (induction ys arbitrary: a xs)
  case (Cons y ys)
  have a: "a < length xs" "unat (of_nat a :: u32) = a" using Cons.prems by (simp_all add: unat_of_nat_u32)
  have sh: "map (\<lambda>(k, y). (of_nat a + of_nat k :: u32, y)) (enumerate (Suc 0) ys) =
      map (\<lambda>(k, y). (of_nat (Suc a) + of_nat k, y)) (enumerate 0 ys)"
    by (rule nth_equalityI) (simp_all add: nth_enumerate_eq)
  have "scatter (map (\<lambda>(k, y). (of_nat (Suc a) + of_nat k, y)) (enumerate 0 ys)) (xs[a := y]) =
      take (Suc a) (xs[a := y]) @ ys @ drop (Suc a + length ys) (xs[a := y])"
    using Cons.prems by (intro Cons.IH) auto
  then show ?case
    using a by (simp add: sh store_def take_Suc_conv_app_nth)
qed simp

text \<open>The offset of a transaction is the number of operations submitted before it.\<close>

definition ops_before :: "bool \<Rightarrow> u32 \<Rightarrow> u32 \<Rightarrow> YcsbTxnParam list \<Rightarrow> nat \<Rightarrow> nat" where
  "ops_before split mb nm txns t = sum_list (map (\<lambda>txn. length (submit_txn split mb nm txn)) (take t txns))"

lemma offset_ops_before:
  assumes "t \<le> length txns"
  shows "op_offsets (map (prepareSubmitYcsbTxn split) txns) ! t = of_nat (ops_before split mb nm txns t)"
proof -
  have "sum_list (map (prepareSubmitYcsbTxn split) ts) =
      of_nat (sum_list (map (\<lambda>txn. length (submit_txn split mb nm txn)) ts))" for ts
    by (induction ts) (simp_all add: count_emitted [of split _ mb nm])
  with assms show ?thesis by (simp add: nth_op_offsets ops_before_def take_map)
qed

lemma ops_before_Suc:
  "t < length txns \<Longrightarrow>
    ops_before split mb nm txns (Suc t) = ops_before split mb nm txns t + length (submit_txn split mb nm (txns ! t))"
  by (simp add: ops_before_def take_Suc_conv_app_nth)

lemma ops_before_mono:
  assumes "s \<le> t"
  shows "ops_before split mb nm txns s \<le> ops_before split mb nm txns t"
proof -
  have "take t txns = take s txns @ take (t - s) (drop s txns)"
    using assms by (metis le_add_diff_inverse take_add)
  then show ?thesis by (simp add: ops_before_def)
qed

lemma length_serial_prefix:
  "t \<le> length txns \<Longrightarrow>
   length (concat (map (\<lambda>tid. map (emit_op tid) (submit_txn split mb nm (txns ! tid))) [0..<t])) =
     ops_before split mb nm txns t"
proof (induction t)
  case 0
  show ?case by (simp add: ops_before_def)
next
  case (Suc t)
  then show ?case by (simp add: ops_before_Suc)
qed

lemma submitYcsbTxn_block:
  assumes "t < length txns"
  shows "submitYcsbTxn split mb nm txns (op_offsets (map (prepareSubmitYcsbTxn split) txns)) t =
    map (\<lambda>(k, y). (of_nat (ops_before split mb nm txns t) + of_nat k, y))
      (enumerate 0 (map (emit_op t) (submit_txn split mb nm (txns ! t))))"
  using assms
  by (auto simp: submitYcsbTxn_def offset_ops_before [of t txns split mb nm] nth_enumerate_eq
      intro!: nth_equalityI)

lemma submit_in_order:
  assumes "ops_before split mb nm txns (length txns) \<le> length xs"
    and "ops_before split mb nm txns (length txns) < 2 ^ 32" and "t \<le> length txns"
  shows "scatter (concat (map (submitYcsbTxn split mb nm txns
             (op_offsets (map (prepareSubmitYcsbTxn split) txns))) [0..<t])) xs =
         concat (map (\<lambda>tid. map (emit_op tid) (submit_txn split mb nm (txns ! tid))) [0..<t]) @
         drop (ops_before split mb nm txns t) xs"
  using assms(3)
proof (induction t)
  case 0
  show ?case by (simp add: ops_before_def)
next
  case (Suc t)
  let ?c = "concat (map (\<lambda>tid. map (emit_op tid) (submit_txn split mb nm (txns ! tid))) [0..<t])"
  let ?o = "ops_before split mb nm txns t"
  have t: "t < length txns" using Suc.prems by simp
  have len: "length ?c = ?o" using length_serial_prefix t by simp
  have b: "?o + length (submit_txn split mb nm (txns ! t)) \<le> ops_before split mb nm txns (length txns)"
    using ops_before_mono [of "Suc t" "length txns" split mb nm txns] t by (simp add: ops_before_Suc)
  have "scatter (submitYcsbTxn split mb nm txns (op_offsets (map (prepareSubmitYcsbTxn split) txns)) t)
      (?c @ drop ?o xs) =
      take ?o (?c @ drop ?o xs) @ map (emit_op t) (submit_txn split mb nm (txns ! t)) @
      drop (?o + length (map (emit_op t) (submit_txn split mb nm (txns ! t)))) (?c @ drop ?o xs)"
    unfolding submitYcsbTxn_block [OF t]
    by (rule scatter_block) (use b assms(1,2) len in auto)
  with Suc.IH t len show ?case
    by (simp add: scatter_append ops_before_Suc add.commute)
qed

lemma distinct_submit_indices:
  assumes "ops_before split mb nm txns (length txns) < 2 ^ 32" and "t \<le> length txns"
  shows "map fst (concat (map (submitYcsbTxn split mb nm txns
             (op_offsets (map (prepareSubmitYcsbTxn split) txns))) [0..<t])) =
         map of_nat [0..<ops_before split mb nm txns t]"
  using assms(2)
proof (induction t)
  case 0
  show ?case by (simp add: ops_before_def)
next
  case (Suc t)
  have t: "t < length txns" using Suc.prems by simp
  let ?ys = "map (emit_op t) (submit_txn split mb nm (txns ! t))"
  have "map fst (map (\<lambda>(k, y). (of_nat a + of_nat k :: u32, y)) (enumerate 0 ys)) = map of_nat [a..<a + length ys]"
    for a and ys :: "(op_t \<times> bool) list"
    by (rule nth_equalityI) (simp_all add: nth_enumerate_eq)
  from this [of "ops_before split mb nm txns t" ?ys]
  have "map fst (submitYcsbTxn split mb nm txns (op_offsets (map (prepareSubmitYcsbTxn split) txns)) t) =
      map of_nat [ops_before split mb nm txns t..<ops_before split mb nm txns (Suc t)]"
    unfolding submitYcsbTxn_block [OF t] ops_before_Suc [OF t] by (simp only: length_map)
  moreover have "[0..<ops_before split mb nm txns (Suc t)] =
      [0..<ops_before split mb nm txns t] @ [ops_before split mb nm txns t..<ops_before split mb nm txns (Suc t)]"
    unfolding ops_before_Suc [OF t] by (rule upt_add_eq_append) simp
  ultimately show ?case using Suc.IH t by simp
qed

lemma mset_concat_map_cong:
  "mset xs = mset ys \<Longrightarrow> mset (concat (map f xs)) = mset (concat (map f ys))"
proof -
  assume eq: "mset xs = mset ys"
  have "mset (concat (map f zs)) = sum_mset (image_mset (\<lambda>z. mset (f z)) (mset zs))" for zs
    by (induction zs) auto
  with eq show ?thesis by simp
qed

lemma submit_any_order:
  assumes "mset order = mset [0..<length txns]"
    and "ops_before split mb nm txns (length txns) \<le> length xs" and "length xs \<le> 2 ^ 32"
    and "ops_before split mb nm txns (length txns) < 2 ^ 32"
  shows "scatter (concat (map (submitYcsbTxn split mb nm txns
             (op_offsets (map (prepareSubmitYcsbTxn split) txns))) order)) xs =
         serial_ops split mb nm txns @ drop (ops_before split mb nm txns (length txns)) xs"
proof -
  let ?f = "submitYcsbTxn split mb nm txns (op_offsets (map (prepareSubmitYcsbTxn split) txns))"
  have "mset (concat (map ?f [0..<length txns])) = mset (concat (map ?f order))"
    by (rule mset_concat_map_cong) (simp add: assms(1))
  moreover have "distinct (map fst (concat (map ?f [0..<length txns])))"
    unfolding distinct_submit_indices [OF assms(4) order_refl] distinct_map
    using assms(4) by (auto intro!: inj_onI simp: of_nat_u32_inj)
  ultimately have "scatter (concat (map ?f [0..<length txns])) xs = scatter (concat (map ?f order)) xs"
    using assms(3) by (intro scatter_perm)
  then show ?thesis
    using submit_in_order [OF assms(2,4) order_refl] by (simp add: serial_ops_def)
qed

text \<open>C20: Whatever order the threads of the emitting kernel run in, the submitted operations
  are the operations of the transactions in transaction order, none lost, none out of its
  block, and the reported number of operations is their number.\<close>

theorem submit_serial_order:
  assumes "mset order = mset [0..<length txns]"
    and "length (serial_ops split mb nm txns) \<le> length (dest_ops d)"
    and "length (serial_ops split mb nm txns) < 2 ^ 32" and "length (dest_ops d) \<le> 2 ^ 32"
  shows "take (unat (dest_curr_num_ops (submit order hybrid split mb nm txns d)))
           (dest_ops (submit order hybrid split mb nm txns d)) = serial_ops split mb nm txns
       \<and> unat (dest_curr_num_ops (submit order hybrid split mb nm txns d)) = length (serial_ops split mb nm txns)"
proof -
  let ?offs = "op_offsets (map (prepareSubmitYcsbTxn split) txns)"
  let ?n = "ops_before split mb nm txns (length txns)"
  have n: "length (serial_ops split mb nm txns) = ?n"
    by (simp add: serial_ops_def length_serial_prefix)
  have l: "last ?offs = of_nat ?n"
    using offset_ops_before [of "length txns" txns split mb nm]
      nth_op_offsets [of "length txns" "map (prepareSubmitYcsbTxn split) txns"]
    by (simp add: op_offsets_def last_inclusive_sum del: last.simps)
  have "dest_ops (submit order hybrid split mb nm txns d) =
      serial_ops split mb nm txns @ drop ?n (dest_ops d)"
    using submit_any_order [OF assms(1), of split mb nm "dest_ops d"] assms(2-4) n
    by (simp add: submit_def Let_def split: prod.split)
  moreover have "dest_curr_num_ops (submit order hybrid split mb nm txns d) = of_nat ?n"
    using l by (simp add: submit_def Let_def split: prod.split)
  ultimately show ?thesis using n assms(3) by (simp add: unat_of_nat_u32)
qed

definition sample_txn :: YcsbTxnParam where
  "sample_txn = \<lparr>record_ids = [4, 5, 6, kNoRecord, 7, 8, 9, 1, 2, 3], field_ids = replicate 10 0,
     ops = [READ, UPDATE, INSERT, READ, DELETE, READ_MODIFY_WRITE, FULL_READ, READ, READ, FULL_READ_MODIFY_WRITE]\<rparr>"

definition sample_dest :: TableSubmitDest where
  "sample_dest = \<lparr>d_num_ops = [], d_op_offsets = [], dest_ops = replicate 80 (0, False),
     dest_curr_num_ops = 0, curr_num_read_ops = 0, curr_num_write_ops = 0, curr_num_insert_ops = 0,
     d_all_keys = [], d_read_keys = [], d_write_keys = [], d_insert_keys = []\<rparr>"

lemma length_sample_ops: "length (serial_ops True 6 1 [sample_txn, sample_txn]) = 74"
  by (simp add: serial_ops_def submit_txn_def submit_op_def sample_txn_def kNoRecord_def upt_rec)

theorem submit_serial_order_witness:
  "unat (dest_curr_num_ops (submit [1, 0] True True 6 1 [sample_txn, sample_txn] sample_dest)) = 74"
  using submit_serial_order [of "[1, 0]" "[sample_txn, sample_txn]" True 6 1 sample_dest True]
  by (simp add: length_sample_ops sample_dest_def)

subsection \<open>Plan words\<close>

lemma distinct_concat_map:
  assumes "distinct is" and "\<And>i. i \<in> set is \<Longrightarrow> distinct (f i)"
    and "\<And>i j. i \<in> set is \<Longrightarrow> j \<in> set is \<Longrightarrow> i \<noteq> j \<Longrightarrow> set (f i) \<inter> set (f j) = {}"
  shows "distinct (concat (map f is))"
  using assms
proof (induction "is")
  case (Cons k ks)
  have "set (f k) \<inter> set (concat (map f ks)) = {}"
    using Cons.prems(1,3) by fastforce
  with Cons show ?case by simp
qed simp

definition em_off :: "emission \<Rightarrow> nat" where "em_off em = fst (snd em)"

lemma submit_op_offsets:
  "distinct (map em_off (submit_op split mb nm txn i)) \<and>
   em_off ` set (submit_op split mb nm txn i) \<subseteq> {plan_words * i..<plan_words * Suc i}"
  by (cases "ops txn ! i") (auto simp: submit_op_def Let_def em_off_def plan_offset_defs upt_rec)

lemma submit_op_kind: "em \<in> set (submit_op split mb nm txn i) \<Longrightarrow> fst (snd (snd em)) \<in> {read_op, write_op}"
  by (cases "ops txn ! i") (auto simp: submit_op_def Let_def split: if_splits)

lemma submit_txn_offsets:
  "distinct (map em_off (submit_txn split mb nm txn))"
  "em \<in> set (submit_txn split mb nm txn) \<Longrightarrow> em_off em < 210 \<and> fst (snd (snd em)) \<in> {read_op, write_op}"
proof -
  have range: "em_off em \<in> {plan_words * i..<plan_words * Suc i}" if "em \<in> set (submit_op split mb nm txn i)" for em i
    using submit_op_offsets [of split mb nm txn i] that by blast
  have "map em_off (submit_txn split mb nm txn) =
      concat (map (\<lambda>i. map em_off (submit_op split mb nm txn i)) [0..<10])"
    by (simp add: submit_txn_def map_concat comp_def)
  moreover have "distinct \<dots>"
  proof (rule distinct_concat_map)
    fix i j :: nat
    assume "i \<noteq> j"
    have "{plan_words * i..<plan_words * Suc i} \<inter> {plan_words * j..<plan_words * Suc j} = {}"
      using \<open>i \<noteq> j\<close> by (auto simp: plan_words_def)
    then show "set (map em_off (submit_op split mb nm txn i)) \<inter> set (map em_off (submit_op split mb nm txn j)) = {}"
      using range [of _ i] range [of _ j] by fastforce
  qed (use submit_op_offsets in auto)
  ultimately show "distinct (map em_off (submit_txn split mb nm txn))" by simp
  assume "em \<in> set (submit_txn split mb nm txn)"
  then obtain i where "i < 10" "em \<in> set (submit_op split mb nm txn i)" by (auto simp: submit_txn_def)
  with range [of em i] submit_op_kind [of em split mb nm txn i]
  show "em_off em < 210 \<and> fst (snd (snd em)) \<in> {read_op, write_op}" by (auto simp: plan_words_def)
qed

lemma emit_op_wf:
  assumes "tid < 2 ^ 20" and "em_off em < 210" and "fst (snd (snd em)) \<in> {read_op, write_op}"
  shows "op_wf (ucast (fst em)) (of_nat tid) (fst (snd (snd em))) (of_nat (em_off em))"
proof -
  have "unat (ucast (fst em) :: op_t) = unat (fst em)"
    by (simp add: unsigned_ucast_eq take_bit_nat_eq_self_iff) (use unat_u32_lt [of "fst em"] in linarith)
  moreover have "unat (of_nat tid :: op_t) = tid" using assms(1) by (simp add: unat_of_nat)
  moreover have "unat (of_nat (em_off em) :: op_t) = em_off em" using assms(2) by (simp add: unat_of_nat)
  ultimately show ?thesis
    using assms unat_u32_lt [of "fst em"] by (auto simp: op_wf_def read_op_def write_op_def)
qed

lemma ucast_of_nat_u32:
  assumes "n < 2 ^ 32"
  shows "ucast (of_nat n :: op_t) = (of_nat n :: u32)"
proof -
  have "unat (of_nat n :: op_t) = n" using assms by (simp add: unat_of_nat)
  then have "unat (ucast (of_nat n :: op_t) :: u32) = n"
    using assms by (simp add: unsigned_ucast_eq take_bit_nat_eq_self)
  with assms show ?thesis by (metis unat_of_nat_u32 word_unat_eq_iff)
qed

lemma plan_key_emit:
  assumes "tid < 2 ^ 20" and "em_off em < 210" and "fst (snd (snd em)) \<in> {read_op, write_op}"
  shows "plan_key (fst (emit_op tid em)) = (of_nat tid, of_nat (em_off em))"
proof -
  have e: "fst (emit_op tid em) =
      CREATE_OP (ucast (fst em)) (of_nat tid) (fst (snd (snd em))) (of_nat (em_off em))"
    by (cases em) (simp add: emit_op_def em_off_def)
  have "tid < 2 ^ 32" "em_off em < 2 ^ 32" using assms(1,2) by simp_all
  then show ?thesis
    unfolding plan_key_def e op_roundtrip_fields [OF emit_op_wf [OF assms]]
    by (simp only: ucast_of_nat_u32)
qed

text \<open>No two operations an epoch submits share a plan word: each submitted operation's
  location is scattered to a word of its own, so the plan is well defined for every
  batch of at most 2^20 transactions.\<close>

lemma submit_plan_words_distinct:
  assumes "length txns \<le> 2 ^ 20"
  shows "distinct (map plan_key (map fst (serial_ops split mb nm txns)))"
proof -
  let ?f = "\<lambda>tid. map (\<lambda>em. (of_nat tid :: u32, of_nat (em_off em) :: u32)) (submit_txn split mb nm (txns ! tid))"
  have inj: "(of_nat a :: u32) = of_nat b \<longleftrightarrow> a = b" if "a < 2 ^ 20" "b < 2 ^ 20" for a b
    using that by (intro of_nat_u32_inj) auto
  have "map plan_key (map fst (serial_ops split mb nm txns)) = concat (map ?f [0..<length txns])"
    unfolding serial_ops_def map_concat map_map comp_def
    using assms by (intro arg_cong [of _ _ concat] map_cong refl) (auto intro!: plan_key_emit dest: submit_txn_offsets(2))
  moreover have "distinct (concat (map ?f [0..<length txns]))"
  proof (rule distinct_concat_map)
    fix i assume "i \<in> set [0..<length txns]"
    have "inj_on (\<lambda>n. (of_nat i :: u32, of_nat n :: u32)) (em_off ` set (submit_txn split mb nm (txns ! i)))"
    proof (rule inj_onI)
      fix a b
      assume "a \<in> em_off ` set (submit_txn split mb nm (txns ! i))" "b \<in> em_off ` set (submit_txn split mb nm (txns ! i))"
        and eq: "(of_nat i :: u32, of_nat a :: u32) = (of_nat i, of_nat b)"
      then have "a < 210" "b < 210" by (auto dest: submit_txn_offsets(2))
      then show "a = b" using eq inj [of a b] by simp
    qed
    then have "distinct (map (\<lambda>n. (of_nat i :: u32, of_nat n :: u32)) (map em_off (submit_txn split mb nm (txns ! i))))"
      using submit_txn_offsets(1) unfolding distinct_map by (simp del: map_map)
    then show "distinct (?f i)" by (simp add: comp_def)
  next
    fix i j assume "i \<in> set [0..<length txns]" "j \<in> set [0..<length txns]" "i \<noteq> j"
    then have "(of_nat i :: u32) \<noteq> of_nat j" using assms inj by auto
    then show "set (?f i) \<inter> set (?f j) = {}" by auto
  qed simp
  ultimately show ?thesis by simp
qed

lemma submit_plan_words_distinct_example:
  "distinct (map plan_key (map fst (serial_ops True 6 1 [sample_txn, sample_txn])))"
  by (rule submit_plan_words_distinct) simp

end
