(* ===== verification/Warp_Execution.thy ===== *)
theory Warp_Execution
  imports Execution Submitter
begin

text \<open>
  The launch of an execution kernel (\<^verbatim>\<open>GpuExecutor::execute\<close>, \<^verbatim>\<open>gpuPiecewiseExecKernel\<close> and
  \<^verbatim>\<open>gpuNoSplitPiecewiseExecKernel\<close> of \<^verbatim>\<open>benchmarks/ycsb_gpu_executor.cu\<close>). Blocks of four warps start
  when the device has room; the first thread of a block draws four numbers from \<^verbatim>\<open>txn_counter\<close>, each warp
  of the block draws one of them from the block's \<^verbatim>\<open>warp_counter\<close> and runs the piece of that number: the
  accesses of one operation of one transaction, in program order. The start of a block and its draw, which
  nothing can delay, are one step. A block leaves the device only when
  all its warps have returned, so a warp that spins keeps its place. The lemmas show that the pieces
  together run exactly the submitted operations and that the numbers handed out are always an initial segment;
  with the planner's contract this gives that the kernel can always go on until every operation is finished.
  \<^verbatim>\<open>HybridExecutor::execute\<close> launches the same kernels with cache slots in place of record ids.
\<close>

subsection \<open>The accesses of a piece\<close>

text \<open>Record id, word of the transaction's plan that holds the location, kind. The ten field reads of one
  \<^verbatim>\<open>gpuReadMultipleFromTableCoop\<close> are made by ten lanes.\<close>

type_synonym access = "u32 \<times> nat \<times> op_t"

definition piecewise_accesses :: "YcsbTxnParam \<Rightarrow> nat \<Rightarrow> access list" where
  "piecewise_accesses txn i =
     (let r = record_ids txn ! i * 10; f = r + ucast (field_ids txn ! i)
      in case ops txn ! i of
           READ \<Rightarrow> [(f, read_plan_read_loc i, read_op)]
         | FULL_READ \<Rightarrow> map (\<lambda>lane. (r + of_nat lane, full_read_plan_read_locs i lane, read_op)) [0..<10]
         | UPDATE \<Rightarrow> [(f, update_plan_write_loc i, write_op)]
         | READ_MODIFY_WRITE \<Rightarrow>
             [(f, read_modify_write_plan_read_loc i, read_op), (f, read_modify_write_plan_write_loc i, write_op)]
         | FULL_READ_MODIFY_WRITE \<Rightarrow>
             map (\<lambda>lane. (r + of_nat lane, full_rmw_plan_read_locs i lane, read_op)) [0..<10]
             @ [(f, full_rmw_plan_write_loc i, write_op)]
         | INSERT \<Rightarrow> map (\<lambda>j. (r + of_nat j, insert_full_plan_write_locs i j, write_op)) [0..<10]
         | DELETE \<Rightarrow> []
         | NOOP \<Rightarrow> [])"

definition nosplit_accesses :: "YcsbTxnParam \<Rightarrow> nat \<Rightarrow> access list" where
  "nosplit_accesses txn i =
     (let r = record_ids txn ! i
      in case ops txn ! i of
           READ \<Rightarrow> [(r, read_plan_read_loc i, read_op)]
         | FULL_READ \<Rightarrow> [(r, read_plan_read_loc i, read_op)]
         | UPDATE \<Rightarrow> [(r, copy_update_plan_read_loc i, read_op), (r, copy_update_plan_write_loc i, write_op)]
         | READ_MODIFY_WRITE \<Rightarrow>
             [(r, read_modify_write_plan_read_loc i, read_op), (r, read_modify_write_plan_write_loc i, write_op)]
         | FULL_READ_MODIFY_WRITE \<Rightarrow>
             [(r, read_modify_write_plan_read_loc i, read_op), (r, read_modify_write_plan_write_loc i, write_op)]
         | INSERT \<Rightarrow> [(r, insert_plan_write_loc i, write_op)]
         | DELETE \<Rightarrow> []
         | NOOP \<Rightarrow> [])"

text \<open>The accesses of piece \<open>p\<close> in program order, each as the operation word with its record, transaction, kind
  and plan word.\<close>

definition piece_ops :: "bool \<Rightarrow> YcsbTxnParam list \<Rightarrow> nat \<Rightarrow> op_t list" where
  "piece_ops split txns p =
     (let warp_txn_id = p div 10; warp_piece_id = p mod 10; txn = txns ! warp_txn_id
      in map (\<lambda>(record_id, word, kind). CREATE_OP (ucast record_id) (of_nat warp_txn_id) kind (of_nat word))
           (if split then piecewise_accesses txn warp_piece_id else nosplit_accesses txn warp_piece_id))"

subsection \<open>The launch\<close>

definition num_warps :: nat where "num_warps = 128 div 32"

definition num_blocks :: "nat \<Rightarrow> nat" where
  "num_blocks num_txns = (num_txns * 10 * 32 + 128 - 1) div 128 mod 2 ^ 32"

text \<open>\<open>warp_counter\<close>: the shared counter of a block that has started. \<open>warp_piece\<close>: the number a warp of a
  block has drawn.\<close>

record kernel_state =
  k_exec :: exec_state
  txn_counter :: nat
  warp_counter :: "nat \<Rightarrow> nat option"
  warp_piece :: "nat \<Rightarrow> nat \<Rightarrow> nat option"

text \<open>The fixed data of a launch: field split, transactions, sorted operations, epoch, words of a value, and
  the number of blocks the device holds at a time.\<close>

record launch =
  l_split :: bool
  l_txns :: "YcsbTxnParam list"
  l_xs :: "op_t list"
  l_epoch :: u32
  l_len :: nat
  l_resident :: nat

definition op_done :: "op_t list \<Rightarrow> exec_state \<Rightarrow> op_t \<Rightarrow> bool" where
  "op_done xs s x \<longleftrightarrow> (\<forall>i < length xs. xs ! i = x \<longrightarrow> finished (pcs s i))"

definition warp_returned :: "launch \<Rightarrow> kernel_state \<Rightarrow> nat \<Rightarrow> nat \<Rightarrow> bool" where
  "warp_returned L s b w \<longleftrightarrow>
     (case warp_piece s b w of
        None \<Rightarrow> False
      | Some p \<Rightarrow> length (l_txns L) * 10 \<le> p \<or> (\<forall>x \<in> set (piece_ops (l_split L) (l_txns L) p). op_done (l_xs L) (k_exec s) x))"

definition block_done :: "launch \<Rightarrow> kernel_state \<Rightarrow> nat \<Rightarrow> bool" where
  "block_done L s b \<longleftrightarrow> warp_counter s b \<noteq> None \<and> (\<forall>w < num_warps. warp_returned L s b w)"

definition resident_blocks :: "launch \<Rightarrow> kernel_state \<Rightarrow> nat set" where
  "resident_blocks L s = {b. b < num_blocks (length (l_txns L)) \<and> warp_counter s b \<noteq> None \<and> \<not> block_done L s b}"

text \<open>Access \<open>k\<close> of a piece may run when the accesses before it have finished; the field reads of one call
  run side by side.\<close>

definition may_run :: "launch \<Rightarrow> exec_state \<Rightarrow> op_t list \<Rightarrow> nat \<Rightarrow> bool" where
  "may_run L s accs k \<longleftrightarrow>
     (\<forall>k' < k. is_write (accs ! k) \<or> is_write (accs ! k') \<longrightarrow> op_done (l_xs L) s (accs ! k'))"

inductive kernel_step :: "launch \<Rightarrow> kernel_state \<Rightarrow> kernel_state \<Rightarrow> bool" for L :: launch where
  start_block: "b < num_blocks (length (l_txns L)) \<Longrightarrow> warp_counter s b = None \<Longrightarrow>
    card (resident_blocks L s) < l_resident L \<Longrightarrow>
    kernel_step L s (s\<lparr>txn_counter := txn_counter s + num_warps,
                       warp_counter := (warp_counter s)(b := Some (txn_counter s))\<rparr>)"
| claim: "warp_counter s b = Some c \<Longrightarrow> w < num_warps \<Longrightarrow> warp_piece s b w = None \<Longrightarrow>
    kernel_step L s (s\<lparr>warp_counter := (warp_counter s)(b := Some (c + 1)),
                       warp_piece := (warp_piece s)(b := (warp_piece s b)(w := Some c))\<rparr>)"
| run: "warp_piece s b w = Some p \<Longrightarrow> p < length (l_txns L) * 10 \<Longrightarrow>
    k < length (piece_ops (l_split L) (l_txns L) p) \<Longrightarrow> may_run L (k_exec s) (piece_ops (l_split L) (l_txns L) p) k \<Longrightarrow>
    i < length (l_xs L) \<Longrightarrow> l_xs L ! i = piece_ops (l_split L) (l_txns L) p ! k \<Longrightarrow>
    op_step op_location (l_xs L) (l_epoch L) (l_len L) i (k_exec s) e \<Longrightarrow>
    kernel_step L s (s\<lparr>k_exec := e\<rparr>)"

text \<open>\<^verbatim>\<open>txn_counter\<close> is reset before the launch.\<close>

definition kernel_init :: "words memory \<Rightarrow> kernel_state" where
  "kernel_init m = \<lparr>k_exec = exec_init m, txn_counter = 0, warp_counter = (\<lambda>_. None), warp_piece = (\<lambda>_ _. None)\<rparr>"

definition kernel_reach :: "launch \<Rightarrow> words memory \<Rightarrow> kernel_state \<Rightarrow> bool" where
  "kernel_reach L m s \<longleftrightarrow> (kernel_step L)\<^sup>*\<^sup>* (kernel_init m) s"

subsection \<open>Pieces and submitted operations\<close>

text \<open>What the index phase leaves: an operation without a record is a NOOP.\<close>

definition resolved :: "YcsbTxnParam \<Rightarrow> bool" where
  "resolved txn \<longleftrightarrow> (\<forall>i < 10. record_ids txn ! i = kNoRecord \<longrightarrow> ops txn ! i = NOOP)"

lemma piece_accesses_submitted:
  assumes "resolved txn" and "i < 10"
  shows "(if split then piecewise_accesses txn i else nosplit_accesses txn i) =
    map (\<lambda>(key, off, kind, ins). (key, off, kind)) (submit_op split mb nm txn i)"
  using assms
  by (cases "ops txn ! i"; cases split)
    (auto simp: piecewise_accesses_def nosplit_accesses_def submit_op_def resolved_def field_key_def Let_def algebra_simps)

lemma piece_ops_submitted:
  assumes "\<forall>txn \<in> set txns. resolved txn" and "t < length txns" and "i < 10"
  shows "piece_ops split txns (t * 10 + i) = map (fst \<circ> emit_op t) (submit_op split mb nm (txns ! t) i)"
proof -
  have "resolved (txns ! t)" using assms(1,2) by simp
  from piece_accesses_submitted [OF this assms(3), of split mb nm] show ?thesis
    using assms(3)
    by (simp only: piece_ops_def Let_def div_mult_self3 mod_mult_self3 div_less mod_less add_0_right map_map)
      (auto simp: emit_op_def)
qed

lemma concat_map_tens: "concat (map f [0..<n * 10]) = concat (map (\<lambda>t. concat (map (\<lambda>i. f (t * 10 + i)) [0..<10])) [0..<n])"
proof (induction n)
  case (Suc n)
  have "[n * 10..<n * 10 + 10] = map (\<lambda>i. i + n * 10) [0..<10]" by (simp add: map_add_upt add.commute)
  then have "map f [n * 10..<n * 10 + 10] = map (\<lambda>i. f (n * 10 + i)) [0..<10]" by (simp add: comp_def add.commute)
  moreover have "[0..<Suc n * 10] = [0..<n * 10] @ [n * 10..<n * 10 + 10]"
    using upt_add_eq_append [of 0 "n * 10" 10] by (simp add: add.commute)
  ultimately show ?case using Suc by (simp add: upt_Suc_append del: upt_Suc)
qed simp

text \<open>The pieces in the order of their numbers run the submitted operations in submission order.\<close>

lemma submitted_pieces:
  assumes "\<forall>txn \<in> set txns. resolved txn"
  shows "map fst (serial_ops split mb nm txns) = concat (map (piece_ops split txns) [0..<length txns * 10])"
proof -
  have "concat (map (\<lambda>i. piece_ops split txns (t * 10 + i)) [0..<10]) =
      map fst (map (emit_op t) (submit_txn split mb nm (txns ! t)))" if "t < length txns" for t
  proof -
    have "map (\<lambda>i. piece_ops split txns (t * 10 + i)) [0..<10] =
        map (\<lambda>i. map (fst \<circ> emit_op t) (submit_op split mb nm (txns ! t) i)) [0..<10]"
      using piece_ops_submitted [OF assms that, of _ split mb nm] by simp
    then show ?thesis by (simp only: submit_txn_def map_concat map_map comp_def)
  qed
  then show ?thesis
    unfolding concat_map_tens serial_ops_def map_concat map_map
    by (intro arg_cong [of _ _ concat] map_cong refl) (simp add: comp_def)
qed

lemma concat_position:
  assumes "q < length (concat yss)"
  obtains p k where "p < length yss" and "k < length (yss ! p)" and "concat yss ! q = yss ! p ! k" and "k \<le> q"
    and "\<And>k'. k' < length (yss ! p) \<Longrightarrow> concat yss ! (q - k + k') = yss ! p ! k'"
proof -
  have "\<exists>p k. p < length yss \<and> k < length (yss ! p) \<and> k \<le> q \<and>
      (\<forall>k' < length (yss ! p). concat yss ! (q - k + k') = yss ! p ! k')"
    using assms
  proof (induction yss arbitrary: q)
    case (Cons ys yss)
    show ?case
    proof (cases "q < length ys")
      case True
      then show ?thesis by (intro exI [of _ 0] exI [of _ q]) (auto simp: nth_append)
    next
      case False
      with Cons.prems have "q - length ys < length (concat yss)" by auto
      then obtain p k where pk: "p < length yss" "k < length (yss ! p)" "k \<le> q - length ys"
          "\<forall>k' < length (yss ! p). concat yss ! (q - length ys - k + k') = yss ! p ! k'"
        using Cons.IH by blast
      have "concat (ys # yss) ! (q - k + k') = concat yss ! (q - length ys - k + k')" for k'
        using False pk(3) by (auto simp: nth_append intro: arg_cong)
      then show ?thesis using pk False by (intro exI [of _ "Suc p"] exI [of _ k]) auto
    qed
  qed simp
  then obtain p k where pk: "p < length yss" "k < length (yss ! p)" "k \<le> q"
      "\<forall>k' < length (yss ! p). concat yss ! (q - k + k') = yss ! p ! k'" by blast
  show thesis
    by (rule that [OF pk(1,2) _ pk(3)]) (use pk(2-4) in auto)
qed

lemma concat_upt_position:
  assumes "q < length (concat (map f [0..<n]))"
  obtains p k where "p < n" and "k < length (f p)" and "concat (map f [0..<n]) ! q = f p ! k" and "k \<le> q"
    and "\<And>k'. k' < length (f p) \<Longrightarrow> concat (map f [0..<n]) ! (q - k + k') = f p ! k'"
proof -
  obtain p k where "p < length (map f [0..<n])" "k < length (map f [0..<n] ! p)"
      "concat (map f [0..<n]) ! q = map f [0..<n] ! p ! k" "k \<le> q"
      "\<And>k'. k' < length (map f [0..<n] ! p) \<Longrightarrow> concat (map f [0..<n]) ! (q - k + k') = map f [0..<n] ! p ! k'"
    using concat_position [OF assms] by metis
  then show thesis by (intro that [of p k]) simp_all
qed

subsection \<open>The numbers handed out\<close>

definition claimed :: "kernel_state \<Rightarrow> nat \<Rightarrow> bool" where
  "claimed s p \<longleftrightarrow> (\<exists>b w. w < num_warps \<and> warp_piece s b w = Some p)"

definition waiting_warps :: "kernel_state \<Rightarrow> nat \<Rightarrow> nat" where
  "waiting_warps s b = card {w. w < num_warps \<and> warp_piece s b w = None}"

text \<open>Every number below \<^verbatim>\<open>txn_counter\<close> has been drawn by a warp or is kept for a warp of a started block.\<close>

definition counters_ok :: "launch \<Rightarrow> kernel_state \<Rightarrow> bool" where
  "counters_ok L s \<longleftrightarrow>
     (\<forall>b. warp_counter s b \<noteq> None \<longrightarrow> b < num_blocks (length (l_txns L))) \<and>
     (\<forall>b w. warp_piece s b w \<noteq> None \<longrightarrow> warp_counter s b \<noteq> None) \<and>
     (\<forall>b c. warp_counter s b = Some c \<longrightarrow> c + waiting_warps s b \<le> txn_counter s) \<and>
     (\<forall>b w p. warp_piece s b w = Some p \<longrightarrow> p < txn_counter s) \<and>
     num_warps * card {b. warp_counter s b \<noteq> None} = txn_counter s \<and>
     (\<forall>p < txn_counter s. claimed s p \<or>
        (\<exists>b c. warp_counter s b = Some c \<and> c \<le> p \<and> p < c + waiting_warps s b))"

lemma counters_okD:
  assumes "counters_ok L s"
  shows "warp_counter s b = Some c \<Longrightarrow> b < num_blocks (length (l_txns L))"
    and "warp_piece s b w = Some p \<Longrightarrow> \<exists>c. warp_counter s b = Some c"
    and "warp_counter s b = Some c \<Longrightarrow> c + waiting_warps s b \<le> txn_counter s"
    and "warp_piece s b w = Some p \<Longrightarrow> p < txn_counter s"
    and "num_warps * card {b. warp_counter s b \<noteq> None} = txn_counter s"
    and "p < txn_counter s \<Longrightarrow> \<not> claimed s p \<Longrightarrow>
      \<exists>b c. warp_counter s b = Some c \<and> c \<le> p \<and> p < c + waiting_warps s b"
  using assms unfolding counters_ok_def by blast+

lemma counters_okI:
  assumes "\<And>b. warp_counter s b \<noteq> None \<Longrightarrow> b < num_blocks (length (l_txns L))"
    and "\<And>b w. warp_piece s b w \<noteq> None \<Longrightarrow> warp_counter s b \<noteq> None"
    and "\<And>b c. warp_counter s b = Some c \<Longrightarrow> c + waiting_warps s b \<le> txn_counter s"
    and "\<And>b w p. warp_piece s b w = Some p \<Longrightarrow> p < txn_counter s"
    and "num_warps * card {b. warp_counter s b \<noteq> None} = txn_counter s"
    and "\<And>p. p < txn_counter s \<Longrightarrow> claimed s p \<or>
      (\<exists>b c. warp_counter s b = Some c \<and> c \<le> p \<and> p < c + waiting_warps s b)"
  shows "counters_ok L s"
  unfolding counters_ok_def using assms by blast

lemma counters_ok_exec [simp]: "counters_ok L (s\<lparr>k_exec := e\<rparr>) = counters_ok L s"
proof -
  have "claimed (s\<lparr>k_exec := e\<rparr>) = claimed s" "waiting_warps (s\<lparr>k_exec := e\<rparr>) = waiting_warps s"
    by (simp_all add: fun_eq_iff claimed_def waiting_warps_def)
  then show ?thesis by (simp add: counters_ok_def)
qed

lemma started_finite:
  assumes "counters_ok L s"
  shows "finite {b. warp_counter s b \<noteq> None}"
  by (rule finite_subset [of _ "{..<num_blocks (length (l_txns L))}"]) (use assms in \<open>auto simp: counters_ok_def\<close>)

lemma start_block_counters:
  assumes "counters_ok L s" and "b < num_blocks (length (l_txns L))" and "warp_counter s b = None"
  shows "counters_ok L (s\<lparr>txn_counter := txn_counter s + num_warps, warp_counter := (warp_counter s)(b := Some (txn_counter s))\<rparr>)"
    (is "counters_ok L ?s")
proof -
  note ok = assms(1) [unfolded counters_ok_def]
  have no: "warp_piece s b w = None" for w using ok assms(3) by blast
  have "{a. warp_counter ?s a \<noteq> None} = insert b {a. warp_counter s a \<noteq> None}" by auto
  then have size: "card {a. warp_counter ?s a \<noteq> None} = Suc (card {a. warp_counter s a \<noteq> None})"
    using started_finite [OF assms(1)] assms(3) by simp
  have cover: "claimed ?s p \<or> (\<exists>a c. warp_counter ?s a = Some c \<and> c \<le> p \<and> p < c + waiting_warps ?s a)"
    if p: "p < txn_counter ?s" for p
  proof (cases "p < txn_counter s")
    case True
    then consider "claimed s p" | a c where "warp_counter s a = Some c" "c \<le> p" "p < c + waiting_warps s a"
      using ok by blast
    then show ?thesis
    proof cases
      case 1
      then show ?thesis by (simp add: claimed_def)
    next
      case 2
      then have "a \<noteq> b" using assms(3) by auto
      with 2 show ?thesis by (intro disjI2 exI [of _ a] exI [of _ c]) (simp add: waiting_warps_def)
    qed
  next
    case False
    moreover have "waiting_warps ?s b = num_warps" using no by (simp add: waiting_warps_def)
    ultimately show ?thesis using p by (intro disjI2 exI [of _ b] exI [of _ "txn_counter s"]) simp
  qed
  have below: "c + waiting_warps ?s a \<le> txn_counter ?s" if "warp_counter ?s a = Some c" for a c
    using that no counters_okD(3) [OF assms(1)]
    by (cases "a = b") (auto simp: waiting_warps_def intro: trans_le_add1)
  have drawn: "p < txn_counter ?s" if "warp_piece ?s a v = Some p" for a v p
    using that counters_okD(4) [OF assms(1)] by (auto intro: trans_less_add1)
  have started: "warp_counter ?s a \<noteq> None" if "warp_piece ?s a v \<noteq> None" for a v
    using that counters_okD(2) [OF assms(1), of a v] by auto
  have bound: "a < num_blocks (length (l_txns L))" if "warp_counter ?s a \<noteq> None" for a
    using that ok assms(2) by (cases "a = b") auto
  have total: "num_warps * card {a. warp_counter ?s a \<noteq> None} = txn_counter ?s"
    unfolding size using counters_okD(5) [OF assms(1)] by simp
  show ?thesis by (rule counters_okI [OF bound started below drawn total cover])
qed

lemma claim_counters:
  assumes "counters_ok L s" and "warp_counter s b = Some c" and "w < num_warps" and "warp_piece s b w = None"
  shows "counters_ok L (s\<lparr>warp_counter := (warp_counter s)(b := Some (c + 1)),
      warp_piece := (warp_piece s)(b := (warp_piece s b)(w := Some c))\<rparr>)" (is "counters_ok L ?s")
proof -
  note ok = assms(1) [unfolded counters_ok_def]
  have same: "{a. warp_counter ?s a \<noteq> None} = {a. warp_counter s a \<noteq> None}" using assms(2) by auto
  have "{v. v < num_warps \<and> warp_piece s b v = None} = insert w {v. v < num_warps \<and> warp_piece ?s b v = None}"
    using assms(3,4) by auto
  then have drop: "waiting_warps s b = Suc (waiting_warps ?s b)" by (simp add: waiting_warps_def)
  have mono: "claimed ?s p" if old: "claimed s p" for p
  proof -
    obtain a v where av: "v < num_warps" "warp_piece s a v = Some p" using old unfolding claimed_def by blast
    with assms(4) have "warp_piece ?s a v = Some p" by (cases "a = b \<and> v = w") auto
    with av(1) show ?thesis unfolding claimed_def by blast
  qed
  have new: "claimed ?s c" unfolding claimed_def using assms(3) by (intro exI [of _ b] exI [of _ w]) simp
  have cover: "claimed ?s p \<or> (\<exists>a d. warp_counter ?s a = Some d \<and> d \<le> p \<and> p < d + waiting_warps ?s a)"
    if p: "p < txn_counter ?s" for p
  proof -
    from p have "p < txn_counter s" by simp
    then consider "claimed s p" | a d where "warp_counter s a = Some d" "d \<le> p" "p < d + waiting_warps s a"
      using ok by blast
    then show ?thesis
    proof cases
      case 1
      then show ?thesis using mono by blast
    next
      case 2
      show ?thesis
      proof (cases "a = b")
        case True
        with 2 assms(2) drop have "p = c \<or> c + 1 \<le> p \<and> p < c + 1 + waiting_warps ?s b" by auto
        then show ?thesis using new by (elim disjE) (blast, intro disjI2 exI [of _ b] exI [of _ "c + 1"], simp)
      next
        case False
        with 2 show ?thesis by (intro disjI2 exI [of _ a] exI [of _ d]) (simp add: waiting_warps_def)
      qed
    qed
  qed
  have started: "warp_counter ?s a \<noteq> None" if "warp_piece ?s a v \<noteq> None" for a v
    using that counters_okD(2) [OF assms(1), of a v] by (cases "a = b") auto
  have below: "d + waiting_warps ?s a \<le> txn_counter ?s" if "warp_counter ?s a = Some d" for a d
  proof (cases "a = b")
    case True
    have "c + waiting_warps s b \<le> txn_counter s" using ok assms(2) by blast
    with drop True that show ?thesis by simp
  next
    case False
    then have "warp_counter s a = Some d" "waiting_warps ?s a = waiting_warps s a"
      using that by (simp_all add: waiting_warps_def)
    then show ?thesis using counters_okD(3) [OF assms(1)] by simp
  qed
  have drawn: "p < txn_counter ?s" if "warp_piece ?s a v = Some p" for a v p
  proof (cases "a = b \<and> v = w")
    case True
    have "c + waiting_warps s b \<le> txn_counter s" using ok assms(2) by blast
    with drop True that show ?thesis by simp
  next
    case False
    then have "warp_piece s a v = Some p" using that by (auto split: if_splits)
    then show ?thesis using counters_okD(4) [OF assms(1)] by simp
  qed
  have bound: "a < num_blocks (length (l_txns L))" if "warp_counter ?s a \<noteq> None" for a
    using that ok assms(2) by (cases "a = b") auto
  have total: "num_warps * card {a. warp_counter ?s a \<noteq> None} = txn_counter ?s"
    unfolding same using counters_okD(5) [OF assms(1)] by simp
  show ?thesis by (rule counters_okI [OF bound started below drawn total cover])
qed

lemma kernel_reach_inv:
  assumes "kernel_reach L m s"
  shows "counters_ok L s \<and> exec_reach op_location (l_xs L) (l_epoch L) (l_len L) m (k_exec s)"
  using assms unfolding kernel_reach_def
proof (induction rule: rtranclp_induct)
  case base
  show ?case by (simp add: kernel_init_def counters_ok_def exec_reach_def)
next
  case (step s t)
  from step.hyps(2) show ?case
  proof cases
    case (start_block b)
    then show ?thesis using step.IH start_block_counters by auto
  next
    case (claim b c w)
    then show ?thesis using step.IH claim_counters by auto
  next
    case (run b w p k i e)
    have "counters_ok L t" using step.IH by (simp add: run(1))
    moreover have "exec_step op_location (l_xs L) (l_epoch L) (l_len L) (k_exec s) e"
      using run by (simp add: op_step_def)
    ultimately show ?thesis
      using step.IH run(1) unfolding exec_reach_def by (auto intro: rtranclp.rtrancl_into_rtrancl)
  qed
qed

subsection \<open>Progress\<close>

text \<open>The write a read is planned to read from was submitted before it.\<close>

lemma writer_submitted_earlier:
  assumes "distinct ys" and "last_write_before (sort_ops ys) i j" and "i < length ys" and "q < length ys"
    and "sort_ops ys ! i = ys ! q"
  obtains q' where "q' < q" and "sort_ops ys ! j = ys ! q'"
proof -
  let ?xs = "sort_ops ys" and ?P = "\<lambda>y. rid y = rid (ys ! q)"
  have ji: "j < i" and rj: "?P (?xs ! j)" using assms(2,5) by (auto simp: last_write_before_def same_write_def)
  define b where "b = take (i - Suc j) (drop (Suc j) ?xs)"
  have "?xs = take j ?xs @ ?xs ! j # drop (Suc j) ?xs" using ji assms(3) by (simp add: id_take_nth_drop)
  moreover have "drop (Suc j) ?xs = b @ ?xs ! i # drop (Suc i) ?xs"
    using ji assms(3) id_take_nth_drop [of "i - Suc j" "drop (Suc j) ?xs"] by (simp add: b_def)
  ultimately have "filter ?P ?xs = filter ?P (take j ?xs) @ ?xs ! j # (filter ?P b @ ys ! q # filter ?P (drop (Suc i) ?xs))"
    using rj assms(5) by (metis (mono_tags, lifting) append_Cons filter.simps(2) filter_append)
  then have "filter ?P ys = filter ?P (take j ?xs) @ ?xs ! j # (filter ?P b @ ys ! q # filter ?P (drop (Suc i) ?xs))"
    by (simp add: sort_ops_stable)
  then obtain u v where u: "ys = u @ ?xs ! j # v" "filter ?P v = filter ?P b @ ys ! q # filter ?P (drop (Suc i) ?xs)"
    by (rule filter_middle)
  have "ys ! q \<in> set (filter ?P v)" unfolding u(2) by simp
  then have "ys ! q \<in> set v" by simp
  then obtain k where k: "k < length v" "v ! k = ys ! q" by (auto simp: in_set_conv_nth)
  have "ys ! (length u + Suc k) = ys ! q" "length u + Suc k < length ys"
    using k u(1) by (metis nth_append_length_plus nth_Cons_Suc, metis k(1) length_append length_Cons add_less_cancel_left Suc_less_eq)
  then have "length u + Suc k = q" using assms(1,4) by (simp add: nth_eq_iff_index_eq)
  moreover have "ys ! length u = ?xs ! j" by (metis u(1) nth_append_length)
  ultimately show thesis by (intro that [of "length u"]) auto
qed

text \<open>What the executor is launched with: at most \<open>2 ^ 20\<close> resolved transactions and the sorted submission.\<close>

definition launch_ok :: "u32 \<Rightarrow> u32 \<Rightarrow> launch \<Rightarrow> bool" where
  "launch_ok mb nm L \<longleftrightarrow>
     length (l_txns L) \<le> 2 ^ 20 \<and> (\<forall>txn \<in> set (l_txns L). resolved txn) \<and>
     l_xs L = sort_ops (map fst (serial_ops (l_split L) mb nm (l_txns L))) \<and> length (l_xs L) < 2 ^ 32 - 2"

lemma first_piece_op_runs:
  assumes "launch_ok mb nm L" and "epoch_start (l_epoch L) (l_len L) m" and "kernel_reach L m s"
    and M: "M \<le> length (l_txns L) * 10" "\<forall>p < M. claimed s p"
    and unfinished: "p < M" "x \<in> set (piece_ops (l_split L) (l_txns L) p)" "\<not> op_done (l_xs L) (k_exec s) x"
  shows "\<exists>t. kernel_step L s t"
proof -
  let ?f = "piece_ops (l_split L) (l_txns L)" and ?n = "length (l_txns L) * 10"
  let ?ops = "concat (map ?f [0..<?n])" and ?pre = "concat (map ?f [0..<M])"
  let ?d = "op_done (l_xs L) (k_exec s)"
  have res: "\<forall>txn \<in> set (l_txns L). resolved txn" using assms(1) by (simp add: launch_ok_def)
  have sub: "map fst (serial_ops (l_split L) mb nm (l_txns L)) = ?ops" by (rule submitted_pieces [OF res])
  have xs: "l_xs L = sort_ops ?ops" and pl: "planned (l_xs L)"
    using assms(1) sub by (auto simp: launch_ok_def sorted_sort_ops planned_def)
  have dist: "distinct ?ops"
    using submit_plan_words_distinct [of "l_txns L" "l_split L" mb nm] assms(1) unfolding sub
    by (auto simp: launch_ok_def distinct_map)
  have split: "?ops = ?pre @ concat (map ?f [M..<?n])"
    using M(1) upt_add_eq_append [of 0 M "?n - M"] by (simp flip: concat_append map_append)
  then have nth: "?ops ! q = ?pre ! q" and len: "q < length ?ops" if "q < length ?pre" for q
    using that by (simp_all add: nth_append)
  have "x \<in> set ?pre" using unfinished(1,2) by auto
  then obtain r where r: "r < length ?pre \<and> \<not> ?d (?pre ! r)" using unfinished(3) by (metis in_set_conv_nth)
  define q where "q = (LEAST q. q < length ?pre \<and> \<not> ?d (?pre ! q))"
  have q: "q < length ?pre" "\<not> ?d (?pre ! q)" unfolding q_def using LeastI [of "\<lambda>q. q < length ?pre \<and> \<not> ?d (?pre ! q)", OF r] by blast+
  have least: "?d (?pre ! q')" if "q' < q" for q'
    using not_less_Least [of q' "\<lambda>q. q < length ?pre \<and> \<not> ?d (?pre ! q)"] that q(1) unfolding q_def [symmetric]
    by (metis less_trans)
  obtain p k where pk: "p < M" "k < length (?f p)" "?pre ! q = ?f p ! k" "k \<le> q"
      "\<And>k'. k' < length (?f p) \<Longrightarrow> ?pre ! (q - k + k') = ?f p ! k'"
    using concat_upt_position [OF q(1)] by metis
  obtain b w where bw: "warp_piece s b w = Some p" using M(2) pk(1) unfolding claimed_def by blast
  have run: "may_run L (k_exec s) (?f p) k"
    unfolding may_run_def
  proof (intro allI impI)
    fix k' assume "k' < k"
    with pk(2,4) pk(5) [of k'] least [of "q - k + k'"] show "?d (?f p ! k')" by simp
  qed
  obtain i where i: "i < length (l_xs L)" "l_xs L ! i = ?f p ! k" "\<not> finished (pcs (k_exec s) i)"
    using q(2) pk(3) unfolding op_done_def by auto
  have "\<exists>e. op_step op_location (l_xs L) (l_epoch L) (l_len L) i (k_exec s) e"
  proof (rule planner.unfinished_op_steps [OF _ pl assms(2) i(1,3)])
    show "exec_reach op_location (l_xs L) (l_epoch L) (l_len L) m (k_exec s)" using kernel_reach_inv [OF assms(3)] by simp
    fix j assume l: "last_write_before (l_xs L) i j"
    have iq: "sort_ops ?ops ! i = ?ops ! q" using i(2) pk(3) nth [OF q(1)] xs by simp
    obtain q' where "q' < q" "sort_ops ?ops ! j = ?ops ! q'"
      by (rule writer_submitted_earlier [OF dist l [unfolded xs] _ len [OF q(1)] iq]) (use i(1) xs in simp)
    then have "?d (l_xs L ! j)" using least [of q'] nth [of q'] q(1) xs by simp
    moreover have "j < length (l_xs L)" using l i(1) by (auto simp: last_write_before_def)
    ultimately show "finished (pcs (k_exec s) j)" by (simp add: op_done_def)
  qed
  then obtain e where "op_step op_location (l_xs L) (l_epoch L) (l_len L) i (k_exec s) e" ..
  from kernel_step.run [OF bw _ pk(2) run i(1,2) this] pk(1) M(1) show ?thesis by auto
qed

lemma all_drawn_claimed:
  assumes "counters_ok L s" and "\<And>b c w. warp_counter s b = Some c \<Longrightarrow> w < num_warps \<Longrightarrow> warp_piece s b w \<noteq> None"
    and "p < txn_counter s"
  shows "claimed s p"
proof (rule ccontr)
  assume "\<not> claimed s p"
  then obtain b c where b: "warp_counter s b = Some c" "c \<le> p" "p < c + waiting_warps s b"
    using counters_okD(6) [OF assms(1,3)] by blast
  have "{w. w < num_warps \<and> warp_piece s b w = None} = {}" using assms(2) [OF b(1)] by blast
  then have "waiting_warps s b = 0" by (simp add: waiting_warps_def)
  then show False using b(2,3) by simp
qed

lemma kernel_progress:
  assumes "launch_ok mb nm L" and "epoch_start (l_epoch L) (l_len L) m" and "0 < l_resident L"
    and "kernel_reach L m s" and "b < num_blocks (length (l_txns L))" and "\<not> block_done L s b"
  shows "\<exists>t. kernel_step L s t"
proof -
  have ok: "counters_ok L s" using kernel_reach_inv [OF assms(4)] by simp
  let ?n = "length (l_txns L) * 10"
  consider (wait) b c w where "warp_counter s b = Some c" "w < num_warps" "warp_piece s b w = None"
    | (busy) b w where "w < num_warps" "warp_piece s b w \<noteq> None" "\<not> warp_returned L s b w"
        "\<And>b c w. warp_counter s b = Some c \<Longrightarrow> w < num_warps \<Longrightarrow> warp_piece s b w \<noteq> None"
    | (idle) "\<And>b c w. warp_counter s b = Some c \<Longrightarrow> w < num_warps \<Longrightarrow> warp_returned L s b w"
    by blast
  then show ?thesis
  proof cases
    case wait
    then show ?thesis by (blast intro: kernel_step.claim)
  next
    case busy
    then obtain p x where p: "warp_piece s b w = Some p" "p < ?n"
        "x \<in> set (piece_ops (l_split L) (l_txns L) p)" "\<not> op_done (l_xs L) (k_exec s) x"
      by (auto simp: warp_returned_def)
    have "p < min ?n (txn_counter s)" using p(2) counters_okD(4) [OF ok p(1)] by simp
    moreover have "\<forall>p < min ?n (txn_counter s). claimed s p" using all_drawn_claimed [OF ok busy(4)] by simp
    ultimately show ?thesis by (intro first_piece_op_runs [OF assms(1,2,4) _ _ _ p(3,4), of "min ?n (txn_counter s)"]) simp_all
  next
    case idle
    then have "resident_blocks L s = {}" by (auto simp: resident_blocks_def block_done_def)
    moreover have "warp_counter s b = None" using idle [of b] assms(6) by (cases "warp_counter s b") (auto simp: block_done_def)
    ultimately show ?thesis using kernel_step.start_block [OF assms(5), of s] assms(3) by (metis card.empty)
  qed
qed

lemma num_blocks_cover:
  assumes "n \<le> 2 ^ 20"
  shows "n * 10 \<le> num_warps * num_blocks n"
proof -
  have "(n * 10 * 32 + 128 - 1) div 128 < 2 ^ 32" using assms by (simp add: div_less_iff_less_mult)
  then have "num_blocks n = (n * 10 * 32 + 127) div 128" by (simp add: num_blocks_def)
  then show ?thesis by (simp add: num_warps_def)
qed

lemma blocks_done_all_finished:
  assumes "launch_ok mb nm L" and "kernel_reach L m s" and "\<forall>b < num_blocks (length (l_txns L)). block_done L s b"
    and "i < length (l_xs L)"
  shows "finished (pcs (k_exec s) i)"
proof -
  let ?n = "length (l_txns L) * 10" and ?f = "piece_ops (l_split L) (l_txns L)"
  have ok: "counters_ok L s" using kernel_reach_inv [OF assms(2)] by simp
  have L: "\<forall>txn \<in> set (l_txns L). resolved txn" "length (l_txns L) \<le> 2 ^ 20"
      "l_xs L = sort_ops (map fst (serial_ops (l_split L) mb nm (l_txns L)))"
    using assms(1) by (simp_all add: launch_ok_def)
  have "{b. warp_counter s b \<noteq> None} = {..<num_blocks (length (l_txns L))}"
    using assms(3) counters_okD(1) [OF ok] by (auto simp: block_done_def)
  then have "num_warps * num_blocks (length (l_txns L)) = txn_counter s" using counters_okD(5) [OF ok] by simp
  then have n: "?n \<le> txn_counter s" using num_blocks_cover [OF L(2)] by simp
  have returned: "warp_returned L s b w" if "warp_counter s b = Some c" "w < num_warps" for b c w
    using assms(3) counters_okD(1) [OF ok that(1)] that(2) by (simp add: block_done_def)
  have "set (l_xs L) = set (map fst (serial_ops (l_split L) mb nm (l_txns L)))"
    unfolding L(3) by (metis mset_sort_ops set_mset_mset)
  then have "l_xs L ! i \<in> set (concat (map ?f [0..<?n]))"
    using assms(4) submitted_pieces [OF L(1), of "l_split L" mb nm] by (metis nth_mem)
  then obtain p where p: "p < ?n" "l_xs L ! i \<in> set (?f p)" by auto
  have "claimed s p"
  proof (rule all_drawn_claimed [OF ok])
    fix b c w assume "warp_counter s b = Some c" "w < num_warps"
    from returned [OF this] show "warp_piece s b w \<noteq> None" by (cases "warp_piece s b w") (auto simp: warp_returned_def)
  qed (use p(1) n in simp)
  then obtain b w where bw: "w < num_warps" "warp_piece s b w = Some p" by (auto simp: claimed_def)
  obtain c where "warp_counter s b = Some c" using counters_okD(2) [OF ok bw(2)] ..
  from returned [OF this bw(1)] p bw(2) have "op_done (l_xs L) (k_exec s) (l_xs L ! i)" by (auto simp: warp_returned_def)
  then show ?thesis using assms(4) by (simp add: op_done_def)
qed

text \<open>C7: The execution kernel never gets stuck, although readers spin on tags that other warps publish, each warp runs its
  accesses in program order, and only some of the blocks are on the device at a time. In every reachable
  state of the launch in which some block has not ended, some block can start, some warp can draw its piece or some warp
  can make the next access of its piece; and when all blocks have ended, every submitted operation is finished.\<close>

theorem execution_deadlock_free:
  assumes "launch_ok mb nm L" and "epoch_start (l_epoch L) (l_len L) m" and "0 < l_resident L" and "kernel_reach L m s"
  shows "if \<forall>b < num_blocks (length (l_txns L)). block_done L s b then \<forall>i < length (l_xs L). finished (pcs (k_exec s) i)
         else \<exists>t. kernel_step L s t"
  using kernel_progress [OF assms] blocks_done_all_finished [OF assms(1,4)] by auto

definition sample_piece_txn :: YcsbTxnParam where
  "sample_piece_txn = \<lparr>record_ids = [7, 3, 7, 4, 5, 7, kNoRecord, 8, 9, 2], field_ids = replicate 10 0,
     ops = [UPDATE, READ, FULL_READ, INSERT, READ, READ_MODIFY_WRITE, NOOP, DELETE, READ, FULL_READ_MODIFY_WRITE]\<rparr>"

definition sample_launch :: launch where
  "sample_launch = \<lparr>l_split = True, l_txns = [sample_piece_txn],
     l_xs = sort_ops (map fst (serial_ops True 4 1 [sample_piece_txn])), l_epoch = 1, l_len = 1, l_resident = 1\<rparr>"

lemma sample_launch_ok: "launch_ok 4 1 sample_launch"
proof -
  have "resolved sample_piece_txn"
    unfolding resolved_def
  proof (intro allI impI)
    fix i :: nat assume "i < 10"
    then have "i = 0 \<or> i = 1 \<or> i = 2 \<or> i = 3 \<or> i = 4 \<or> i = 5 \<or> i = 6 \<or> i = 7 \<or> i = 8 \<or> i = 9" by presburger
    moreover assume "record_ids sample_piece_txn ! i = kNoRecord"
    ultimately show "ops sample_piece_txn ! i = NOOP" by (elim disjE) (simp_all add: sample_piece_txn_def kNoRecord_def)
  qed
  moreover have "length (serial_ops True 4 1 [sample_piece_txn]) = 37"
    by (simp add: serial_ops_def submit_txn_def submit_op_def sample_piece_txn_def kNoRecord_def upt_rec)
  ultimately show ?thesis by (simp add: launch_ok_def sample_launch_def)
qed

theorem execution_deadlock_free_witness:
  "\<exists>t. kernel_step sample_launch (kernel_init zero_memory) t"
proof -
  have "\<not> (\<forall>b < num_blocks (length (l_txns sample_launch)). block_done sample_launch (kernel_init zero_memory) b)"
    by (auto simp: block_done_def kernel_init_def num_blocks_def sample_launch_def intro: exI [of _ 0])
  moreover have "epoch_start (l_epoch sample_launch) (l_len sample_launch) zero_memory"
    using epoch_start_zero [of 1] by (simp add: sample_launch_def)
  moreover have "kernel_reach sample_launch zero_memory (kernel_init zero_memory)" by (simp add: kernel_reach_def)
  moreover have "0 < l_resident sample_launch" by (simp add: sample_launch_def)
  ultimately show ?thesis
    using execution_deadlock_free [OF sample_launch_ok, of zero_memory "kernel_init zero_memory"] by (simp only: if_False)
qed

end
