(* ===== verification/Recovery_Marker.thy ===== *)
theory Recovery_Marker
  imports Prelude
begin

text \<open>
  The durable recovery marker (\<^verbatim>\<open>recovery_meta.h\<close>) and its update by the YCSB benchmark
  (\<^verbatim>\<open>bumpRecoveryMarker\<close> of \<^verbatim>\<open>ycsb_recovery.cpp\<close>). The marker names the epoch to recover to and carries the
  insert and delete cursors of the last two epochs. It lives in a file that survives the process, and the
  process can die between any two stores of an update. The theorems show that a reader always finds the
  last complete update, for any number of updates and interruptions, the wrap of the 16-bit generation included.
\<close>

subsection \<open>The banked marker\<close>

definition kRecoveryMetaTag :: u16 where "kRecoveryMetaTag = 0xE6AD"

record 'c BankedRecoveryMeta =
  bank0 :: 'c
  bank1 :: 'c
  publish :: u64

definition bank_at :: "u64 \<Rightarrow> 'c BankedRecoveryMeta \<Rightarrow> 'c" where
  "bank_at i m = (if i = 0 then bank0 m else bank1 m)"

definition set_bank :: "u64 \<Rightarrow> 'c \<Rightarrow> 'c BankedRecoveryMeta \<Rightarrow> 'c BankedRecoveryMeta" where
  "set_bank i b m = (if i = 0 then m\<lparr>bank0 := b\<rparr> else m\<lparr>bank1 := b\<rparr>)"

definition meta_valid :: "u64 \<Rightarrow> bool" where
  "meta_valid w \<longleftrightarrow> (ucast (drop_bit 48 w) :: u16) = kRecoveryMetaTag"

definition meta_read :: "'c BankedRecoveryMeta \<Rightarrow> (u32 \<times> 'c) option" where
  "meta_read m =
     (let w = publish m
      in if \<not> meta_valid w then None else Some (ucast w, bank_at (drop_bit 32 w AND 1) m))"

definition next_gen :: "u64 \<Rightarrow> u16" where
  "next_gen w = (if meta_valid w then ucast (drop_bit 32 w) + 1 else 1)"

definition prepare :: "u32 \<Rightarrow> ('c option \<Rightarrow> 'c) \<Rightarrow> 'c BankedRecoveryMeta \<Rightarrow> 'c BankedRecoveryMeta \<times> u64" where
  "prepare crash_epoch fill m =
     (let w = publish m; gen = next_gen w; i = ucast gen AND 1;
          old = (if meta_valid w then Some (bank_at (i XOR 1) m) else None)
      in (set_bank i (fill old) m,
          push_bit 48 (ucast kRecoveryMetaTag) OR push_bit 32 (ucast gen) OR ucast crash_epoch))"

definition publishPrepared :: "u64 \<Rightarrow> 'c BankedRecoveryMeta \<Rightarrow> 'c BankedRecoveryMeta" where
  "publishPrepared w m = m\<lparr>publish := w\<rparr>"

record YcsbRecoveryCursors =
  free_start_p1 :: u32
  free_start_p2 :: u32
  del_p1 :: u32
  del_p2 :: u32

definition shift_cursors :: "u32 \<Rightarrow> u32 \<Rightarrow> YcsbRecoveryCursors option \<Rightarrow> YcsbRecoveryCursors" where
  "shift_cursors insert_count delete_count ob =
     \<lparr>free_start_p1 = insert_count, free_start_p2 = (case ob of None \<Rightarrow> 0 | Some b \<Rightarrow> free_start_p1 b),
      del_p1 = delete_count, del_p2 = (case ob of None \<Rightarrow> 0 | Some b \<Rightarrow> del_p1 b)\<rparr>"

text \<open>The update, as it is called; a run without a durable store has no marker.\<close>

definition bumpRecoveryMarker ::
  "u32 \<Rightarrow> u32 \<Rightarrow> u32 \<Rightarrow> YcsbRecoveryCursors BankedRecoveryMeta option \<Rightarrow> YcsbRecoveryCursors BankedRecoveryMeta option" where
  "bumpRecoveryMarker crash_epoch insert_count delete_count meta =
     (case meta of None \<Rightarrow> None
      | Some m \<Rightarrow> (case prepare crash_epoch (shift_cursors insert_count delete_count) m of
          (m', word) \<Rightarrow> Some (publishPrepared word m')))"

text \<open>An update that is cut off before its publish: the stores to the inactive bank are plain stores, so any
  of them may have landed. \<open>b\<close> is what the bank then holds.\<close>

definition cut_update :: "'c \<Rightarrow> 'c BankedRecoveryMeta \<Rightarrow> 'c BankedRecoveryMeta" where
  "cut_update b m = set_bank (ucast (next_gen (publish m)) AND 1) b m"

subsection \<open>The interface of a crash-atomic cell\<close>

text \<open>What the recovery relies on: an update that is cut off leaves what a reader sees, a complete one
  replaces it.\<close>

datatype ('b, 'u) attempt = Cut 'b | Complete 'u

fun completed :: "('b, 'u) attempt list \<Rightarrow> 'u list" where
  "completed [] = []"
| "completed (Cut b # as) = completed as"
| "completed (Complete u # as) = u # completed as"

locale crash_atomic_cell =
  fixes read :: "'m \<Rightarrow> 'r option" and cut :: "'b \<Rightarrow> 'm \<Rightarrow> 'm"
    and update :: "'u \<Rightarrow> 'm \<Rightarrow> 'm" and res :: "'u \<Rightarrow> 'r option \<Rightarrow> 'r"
  assumes cut_read: "read (cut b m) = read m"
    and update_read: "read (update u m) = Some (res u (read m))"
begin

definition attempt_step :: "('b, 'u) attempt \<Rightarrow> 'm \<Rightarrow> 'm" where
  "attempt_step a m = (case a of Cut b \<Rightarrow> cut b m | Complete u \<Rightarrow> update u m)"

lemma attempts_read: "read (fold attempt_step as m) = fold (\<lambda>u r. Some (res u r)) (completed as) (read m)"
proof (induction as arbitrary: m)
  case (Cons a as)
  then show ?case by (cases a) (simp_all add: attempt_step_def cut_read update_read)
qed simp

end

subsection \<open>The publish word\<close>

lemma publish_word_fields:
  fixes gen :: u16 and e :: u32
  defines "w \<equiv> push_bit 48 (ucast kRecoveryMetaTag) OR push_bit 32 (ucast gen) OR ucast e :: u64"
  shows "meta_valid w" and "(ucast w :: u32) = e" and "(ucast (drop_bit 32 w) :: u16) = gen"
    and "drop_bit 32 w AND 1 = ucast gen AND 1"
proof -
  have "(ucast (drop_bit 48 w) :: u16) = kRecoveryMetaTag"
    unfolding w_def by (rule bit_word_eqI) (auto simp: bit_simps dest: bit_imp_le_length)
  then show "meta_valid w" by (simp add: meta_valid_def)
  show "(ucast w :: u32) = e"
    unfolding w_def by (rule bit_word_eqI) (auto simp: bit_simps dest: bit_imp_le_length)
  show "(ucast (drop_bit 32 w) :: u16) = gen"
    unfolding w_def by (rule bit_word_eqI) (auto simp: bit_simps dest: bit_imp_le_length)
  show "drop_bit 32 w AND 1 = ucast gen AND 1"
    unfolding w_def by (rule bit_word_eqI) (auto simp: bit_simps dest: bit_imp_le_length)
qed

text \<open>The bank an update fills is never the one a reader of the old word uses.\<close>

lemma inactive_bank:
  assumes "meta_valid w"
  shows "(ucast (next_gen w) AND 1 :: u64) XOR 1 = drop_bit 32 w AND 1"
    and "(ucast (next_gen w) AND 1 :: u64) \<noteq> drop_bit 32 w AND 1"
proof -
  have "bit (ucast (drop_bit 32 w) :: u16) 0 \<longleftrightarrow> bit w 32" by (simp add: bit_simps)
  then have n: "bit (next_gen w) 0 \<longleftrightarrow> \<not> bit w 32" using assms by (simp add: next_gen_def bit_0)
  show x: "(ucast (next_gen w) AND 1 :: u64) XOR 1 = drop_bit 32 w AND 1"
    by (rule bit_word_eqI) (auto simp: bit_simps n bit_1_iff)
  show "(ucast (next_gen w) AND 1 :: u64) \<noteq> drop_bit 32 w AND 1"
    by (rule notI) (drule arg_cong [of _ _ "\<lambda>x. bit x 0"], simp add: bit_simps n)
qed

lemma bank_cases: "(x :: u64) AND 1 = 0 \<or> (x :: u64) AND 1 = 1"
  by (simp add: and_one_eq mod_2_eq_odd)

lemma bank_at_set:
  "bank_at (i AND 1) (set_bank (i AND 1) b m) = b"
  "i AND 1 \<noteq> j AND 1 \<Longrightarrow> bank_at (j AND 1) (set_bank (i AND 1) b m) = bank_at (j AND 1) m"
  "publish (set_bank i b m) = publish m"
  using bank_cases [of i] bank_cases [of j] by (auto simp: bank_at_def set_bank_def)

lemma cut_update_read: "meta_read (cut_update b m) = meta_read m"
  using inactive_bank(2) [of "publish m"]
  by (simp add: meta_read_def cut_update_def bank_at_set Let_def)

lemma publish_read:
  assumes "prepare e fill m = (m', w)"
  shows "meta_read (publishPrepared w m') = Some (e, fill (map_option snd (meta_read m)))"
proof -
  let ?g = "next_gen (publish m)"
  have m': "m' = set_bank (ucast ?g AND 1) (fill (if meta_valid (publish m) then Some (bank_at ((ucast ?g AND 1) XOR 1) m) else None)) m"
    and w: "w = push_bit 48 (ucast kRecoveryMetaTag) OR push_bit 32 (ucast ?g) OR ucast e"
    using assms by (simp_all add: prepare_def Let_def)
  have "bank_at (drop_bit 32 w AND 1) (m'\<lparr>publish := w\<rparr>) = bank_at (ucast ?g AND 1) m'"
    unfolding w publish_word_fields(4) by (simp add: bank_at_def)
  then show ?thesis
    using publish_word_fields(1,2) [of ?g e] inactive_bank(1) [of "publish m"]
    by (simp add: meta_read_def publishPrepared_def Let_def w m' bank_at_set)
qed

subsection \<open>Every reader sees the last complete update\<close>

type_synonym ycsb_meta = "YcsbRecoveryCursors BankedRecoveryMeta"

text \<open>An update of the benchmark and the snapshot it leaves.\<close>

definition bump :: "u32 \<times> u32 \<times> u32 \<Rightarrow> ycsb_meta \<Rightarrow> ycsb_meta" where
  "bump u m = (case u of (e, ins, del) \<Rightarrow> the (bumpRecoveryMarker e ins del (Some m)))"

definition bump_result :: "u32 \<times> u32 \<times> u32 \<Rightarrow> (u32 \<times> YcsbRecoveryCursors) option \<Rightarrow> u32 \<times> YcsbRecoveryCursors" where
  "bump_result u r = (case u of (e, ins, del) \<Rightarrow> (e, shift_cursors ins del (map_option snd r)))"

lemma bump_read: "meta_read (bump u m) = Some (bump_result u (meta_read m))"
  by (cases u, cases "prepare (fst u) (shift_cursors (fst (snd u)) (snd (snd u))) m")
    (simp add: bump_def bump_result_def bumpRecoveryMarker_def publish_read)

interpretation marker: crash_atomic_cell meta_read cut_update bump bump_result
  by unfold_locales (simp_all add: cut_update_read bump_read)

definition fresh_meta :: ycsb_meta where
  "fresh_meta = (let z = \<lparr>free_start_p1 = 0, free_start_p2 = 0, del_p1 = 0, del_p2 = 0\<rparr> in \<lparr>bank0 = z, bank1 = z, publish = 0\<rparr>)"

text \<open>A process that is started again and again: each entry is an update, cut off or complete.\<close>

definition marker_run :: "(YcsbRecoveryCursors, u32 \<times> u32 \<times> u32) attempt list \<Rightarrow> ycsb_meta" where
  "marker_run as = fold (\<lambda>a m. case a of Cut b \<Rightarrow> cut_update b m | Complete u \<Rightarrow> bump u m) as fresh_meta"

lemma marker_run_read: "meta_read (marker_run as) = fold (\<lambda>u r. Some (bump_result u r)) (completed as) None"
proof -
  have "meta_read fresh_meta = None" by code_simp
  moreover have "marker_run as = fold marker.attempt_step as fresh_meta"
    unfolding marker_run_def marker.attempt_step_def by simp
  ultimately show ?thesis using marker.attempts_read [of as fresh_meta] by simp
qed

text \<open>C15: The recovery marker. After any sequence of updates, each of them complete or cut off with any
  contents of the bank it was filling, a reader of the file finds nothing if no update was completed, and
  otherwise the epoch and the cursors of the last complete update together with the cursors of the complete update
  before it.\<close>

theorem marker_survives_crashes:
  "(completed as = [] \<longrightarrow> meta_read (marker_run as) = None) \<and>
   (\<forall>us e ins del. completed as = us @ [(e, ins, del)] \<longrightarrow>
      meta_read (marker_run as) = Some (e,
        \<lparr>free_start_p1 = ins, free_start_p2 = (if us = [] then 0 else fst (snd (last us))),
         del_p1 = del, del_p2 = (if us = [] then 0 else snd (snd (last us)))\<rparr>))"
proof (intro conjI allI impI)
  show "meta_read (marker_run as) = None" if "completed as = []" using that by (simp add: marker_run_read)
  fix us e ins del assume c: "completed as = us @ [(e, ins, del)]"
  show "meta_read (marker_run as) = Some (e,
        \<lparr>free_start_p1 = ins, free_start_p2 = (if us = [] then 0 else fst (snd (last us))),
         del_p1 = del, del_p2 = (if us = [] then 0 else snd (snd (last us)))\<rparr>)"
    by (cases us rule: rev_cases)
      (auto simp: marker_run_read c bump_result_def shift_cursors_def split: prod.split)
qed

theorem marker_survives_crashes_witness:
  "meta_read (marker_run [Complete (2, 7, 1), Cut \<lparr>free_start_p1 = 9, free_start_p2 = 0, del_p1 = 3, del_p2 = 4\<rparr>, Complete (3, 8, 2),
      Cut \<lparr>free_start_p1 = 9, free_start_p2 = 0, del_p1 = 3, del_p2 = 4\<rparr>]) =
     Some (3, \<lparr>free_start_p1 = 8, free_start_p2 = 7, del_p1 = 2, del_p2 = 1\<rparr>)"
  using marker_survives_crashes [of "[Complete (2, 7, 1), Cut \<lparr>free_start_p1 = 9, free_start_p2 = 0, del_p1 = 3, del_p2 = 4\<rparr>, Complete (3, 8, 2),
      Cut \<lparr>free_start_p1 = 9, free_start_p2 = 0, del_p1 = 3, del_p2 = 4\<rparr>]"]
  by simp

end
