(* ===== verification/Crid_Grid.thy ===== *)
theory Crid_Grid
  imports Ycsb_Txn
begin

text \<open>
  The cache index (\<^verbatim>\<open>crid_grid_index.h\<close>, \<^verbatim>\<open>crid_grid_index.cu\<close>): a flat array from record
  ids (CRIDs) to cache slots (GRIDs) with the sentinel for "not cached", the per-slot epoch
  and dirty flags, and the kernels that rewrite transactions and plans from CRIDs to GRIDs.
  A kernel is given the list of its threads' arguments in the order in which they run. The
  locale \<open>cache_index\<close> states what the stager relies on; its client lemmas show that the
  index and the list of residents stay inverse to each other.
\<close>

record CridGridIndex =
  d_crid_to_grid :: "u32 list"
  num_units :: u32
  grid_epoch_last :: "u32 list"
  grid_dirty_v1 :: "bool list"
  grid_dirty_v2 :: "bool list"
  idx_capacity :: u32

definition CridGridIndex_new :: "u32 \<Rightarrow> u32 \<Rightarrow> CridGridIndex" where
  "CridGridIndex_new cap units =
     \<lparr>d_crid_to_grid = replicate (unat units) sentinel, num_units = units,
      grid_epoch_last = replicate (unat cap) 0, grid_dirty_v1 = replicate (unat cap) False,
      grid_dirty_v2 = replicate (unat cap) False, idx_capacity = cap\<rparr>"

definition flat_lookup :: "u32 list \<Rightarrow> u32 \<Rightarrow> u32 \<Rightarrow> u32" where
  "flat_lookup arr units crid = (if crid < units then load arr crid else sentinel)"

text \<open>One thread of \<^verbatim>\<open>k_flat_insert\<close>, and the launch.\<close>

definition k_flat_insert :: "u32 \<Rightarrow> u32 \<times> u32 \<Rightarrow> u32 list \<Rightarrow> u32 list" where
  "k_flat_insert units p arr =
     (case p of (crid, g) \<Rightarrow> if crid \<noteq> sentinel \<and> crid < units then store arr crid g else arr)"

definition bulk_insert :: "(u32 \<times> u32) list \<Rightarrow> CridGridIndex \<Rightarrow> CridGridIndex" where
  "bulk_insert ps idx =
     (if ps = [] then idx
      else idx\<lparr>d_crid_to_grid := fold (k_flat_insert (num_units idx)) ps (d_crid_to_grid idx)\<rparr>)"

definition k_flat_lookup_and_mark_needed ::
  "u32 list \<Rightarrow> u32 \<Rightarrow> u32 \<Rightarrow> u32 \<Rightarrow> u32 list \<times> bool list \<Rightarrow> u32 list \<times> bool list" where
  "k_flat_lookup_and_mark_needed arr units cap crid s =
     (let g = flat_lookup arr units crid
      in (fst s @ [g], if g \<noteq> sentinel \<and> g < cap then store (snd s) g True else snd s))"

definition bulk_lookup_crid_to_grid_and_mark_needed ::
  "u32 list \<Rightarrow> u32 \<Rightarrow> bool list \<Rightarrow> CridGridIndex \<Rightarrow> u32 list \<times> bool list" where
  "bulk_lookup_crid_to_grid_and_mark_needed crids cap needed idx =
     fold (k_flat_lookup_and_mark_needed (d_crid_to_grid idx) (num_units idx) cap) crids ([], needed)"

definition k_flat_rename_crids :: "u32 \<Rightarrow> u32 \<times> u32 \<times> u32 \<Rightarrow> u32 list \<Rightarrow> u32 list" where
  "k_flat_rename_crids units t arr =
     (case t of (oldc, newc, g) \<Rightarrow>
       (let a1 = (if oldc \<noteq> sentinel \<and> oldc < units then store arr oldc sentinel else arr)
        in if newc \<noteq> sentinel \<and> newc < units then store a1 newc g else a1))"

definition bulk_update_crid :: "(u32 \<times> u32 \<times> u32) list \<Rightarrow> CridGridIndex \<Rightarrow> CridGridIndex" where
  "bulk_update_crid ts idx =
     idx\<lparr>d_crid_to_grid := fold (k_flat_rename_crids (num_units idx)) ts (d_crid_to_grid idx)\<rparr>"

text \<open>The rewriting of one transaction's record ids, and of its plan.\<close>

definition multi_field_op :: "YcsbOpType \<Rightarrow> bool" where
  "multi_field_op op \<longleftrightarrow> op = INSERT \<or> op = FULL_READ \<or> op = FULL_READ_MODIFY_WRITE"

definition k_flat_remap_txn_record_ids :: "u32 list \<Rightarrow> u32 \<Rightarrow> bool \<Rightarrow> YcsbTxnParam \<Rightarrow> YcsbTxnParam" where
  "k_flat_remap_txn_record_ids arr units skip_multi_field_ops p =
     fold (\<lambda>i p. if skip_multi_field_ops \<and> multi_field_op (ops p ! i) then p
                 else p\<lparr>record_ids := (record_ids p)[i := flat_lookup arr units (record_ids p ! i)]\<rparr>)
       [0..<10] p"

definition remap_txn_record_ids :: "bool \<Rightarrow> YcsbTxnParam list \<Rightarrow> CridGridIndex \<Rightarrow> YcsbTxnParam list" where
  "remap_txn_record_ids split txns idx =
     map (k_flat_remap_txn_record_ids (d_crid_to_grid idx) (num_units idx) split) txns"

definition k_flat_fill_full_read_field_grids ::
  "u32 list \<Rightarrow> u32 \<Rightarrow> YcsbTxnParam \<Rightarrow> u32 list \<Rightarrow> u32 list" where
  "k_flat_fill_full_read_field_grids arr units tp ep =
     fold (\<lambda>i ep.
       if ops tp ! i \<noteq> FULL_READ \<and> ops tp ! i \<noteq> FULL_READ_MODIFY_WRITE then ep
       else fold (\<lambda>f ep.
              let grid = flat_lookup arr units (record_ids tp ! i * 10 + of_nat f)
              in if ops tp ! i = FULL_READ then ep[full_read_plan_field_grids i f := grid]
                 else ep[full_rmw_plan_field_grids i f := grid]) [0..<10] ep) [0..<10] ep"

definition fill_full_read_field_grids ::
  "(YcsbTxnParam \<times> u32 list) list \<Rightarrow> CridGridIndex \<Rightarrow> (YcsbTxnParam \<times> u32 list) list" where
  "fill_full_read_field_grids tps idx =
     map (\<lambda>(tp, ep). (tp, k_flat_fill_full_read_field_grids (d_crid_to_grid idx) (num_units idx) tp ep)) tps"

definition k_flat_fill_insert_field_grids ::
  "u32 list \<Rightarrow> u32 \<Rightarrow> YcsbTxnParam \<Rightarrow> u32 list \<Rightarrow> u32 list" where
  "k_flat_fill_insert_field_grids arr units tp ep =
     fold (\<lambda>i ep.
       if ops tp ! i \<noteq> INSERT then ep
       else fold (\<lambda>f ep. ep[insert_full_plan_field_grids i f :=
                            flat_lookup arr units (record_ids tp ! i * 10 + of_nat f)]) [0..<10] ep) [0..<10] ep"

definition fill_insert_field_grids ::
  "(YcsbTxnParam \<times> u32 list) list \<Rightarrow> CridGridIndex \<Rightarrow> (YcsbTxnParam \<times> u32 list) list" where
  "fill_insert_field_grids tps idx =
     map (\<lambda>(tp, ep). (tp, k_flat_fill_insert_field_grids (d_crid_to_grid idx) (num_units idx) tp ep)) tps"

text \<open>Epoch stamps and dirty flags.\<close>

definition k_touch_by_grids :: "u32 \<Rightarrow> u32 \<Rightarrow> u32 \<Rightarrow> u32 list \<Rightarrow> u32 list" where
  "k_touch_by_grids epoch cap g last_epoch =
     (if g = sentinel \<or> cap \<le> g then last_epoch else store last_epoch g epoch)"

definition touch_by_grids :: "u32 list \<Rightarrow> u32 \<Rightarrow> CridGridIndex \<Rightarrow> CridGridIndex" where
  "touch_by_grids grids epoch idx =
     idx\<lparr>grid_epoch_last := fold (k_touch_by_grids epoch (idx_capacity idx)) grids (grid_epoch_last idx)\<rparr>"

definition k_clear_dirty :: "u32 \<times> u8 \<Rightarrow> bool list \<times> bool list \<Rightarrow> bool list \<times> bool list" where
  "k_clear_dirty gs d =
     (if snd gs = 0 then (store (fst d) (fst gs) False, snd d) else (fst d, store (snd d) (fst gs) False))"

definition clear_dirty_by_grids :: "(u32 \<times> u8) list \<Rightarrow> CridGridIndex \<Rightarrow> CridGridIndex" where
  "clear_dirty_by_grids gs idx =
     (let d = fold k_clear_dirty gs (grid_dirty_v1 idx, grid_dirty_v2 idx)
      in idx\<lparr>grid_dirty_v1 := fst d, grid_dirty_v2 := snd d\<rparr>)"

definition collect_dirty_grids_v1 :: "CridGridIndex \<Rightarrow> u32 list" where
  "collect_dirty_grids_v1 idx =
     (if idx_capacity idx = 0 then []
      else select_flagged (map of_nat [0..<unat (idx_capacity idx)]) (grid_dirty_v1 idx))"

definition collect_dirty_grids_v2 :: "CridGridIndex \<Rightarrow> u32 list" where
  "collect_dirty_grids_v2 idx =
     (if idx_capacity idx = 0 then []
      else select_flagged (map of_nat [0..<unat (idx_capacity idx)]) (grid_dirty_v2 idx))"

subsection \<open>The interface\<close>

locale cache_index =
  fixes lookup :: "'i \<Rightarrow> u32 \<Rightarrow> u32"
    and bind :: "(u32 \<times> u32) list \<Rightarrow> 'i \<Rightarrow> 'i"
    and rebind :: "(u32 \<times> u32 \<times> u32) list \<Rightarrow> 'i \<Rightarrow> 'i"
    and valid :: "'i \<Rightarrow> u32 \<Rightarrow> bool"
    and inv :: "'i \<Rightarrow> bool"
  assumes bind_hit: "inv i \<Longrightarrow> distinct (map fst ps) \<Longrightarrow> (c, g) \<in> set ps \<Longrightarrow> valid i c \<Longrightarrow> lookup (bind ps i) c = g"
    and bind_other: "c \<notin> fst ` set ps \<Longrightarrow> lookup (bind ps i) c = lookup i c"
    and rebind_new: "inv i \<Longrightarrow> distinct (map (fst \<circ> snd) ts) \<Longrightarrow> fst ` set ts \<inter> (fst \<circ> snd) ` set ts = {} \<Longrightarrow>
          (oldc, newc, g) \<in> set ts \<Longrightarrow> valid i newc \<Longrightarrow> lookup (rebind ts i) newc = g"
    and rebind_old: "inv i \<Longrightarrow> fst ` set ts \<inter> (fst \<circ> snd) ` set ts = {} \<Longrightarrow>
          oldc \<in> fst ` set ts \<Longrightarrow> valid i oldc \<Longrightarrow> lookup (rebind ts i) oldc = sentinel"
    and rebind_other: "c \<notin> fst ` set ts \<Longrightarrow> c \<notin> (fst \<circ> snd) ` set ts \<Longrightarrow> lookup (rebind ts i) c = lookup i c"
    and lookup_valid: "lookup i c \<noteq> sentinel \<Longrightarrow> c \<noteq> sentinel \<Longrightarrow> valid i c"
    and inv_kept: "inv i \<Longrightarrow> inv (bind ps i)" "inv i \<Longrightarrow> inv (rebind ts i)"
    and valid_kept: "valid (bind ps i) c = valid i c" "valid (rebind ts i) c = valid i c"
begin

text \<open>The index and the resident list are inverse to each other.\<close>

definition coherent :: "'i \<Rightarrow> u32 list \<Rightarrow> bool" where
  "coherent i res \<longleftrightarrow> length res < 2 ^ 32 \<and>
     (\<forall>c. c \<noteq> sentinel \<longrightarrow> lookup i c \<noteq> sentinel \<longrightarrow> unat (lookup i c) < length res \<and> load res (lookup i c) = c) \<and>
     (\<forall>g. unat g < length res \<longrightarrow> load res g \<noteq> sentinel \<longrightarrow> lookup i (load res g) = g)"

lemma coherentI:
  assumes "length res < 2 ^ 32"
    and "\<And>c. c \<noteq> sentinel \<Longrightarrow> lookup i c \<noteq> sentinel \<Longrightarrow> unat (lookup i c) < length res \<and> load res (lookup i c) = c"
    and "\<And>g. unat g < length res \<Longrightarrow> load res g \<noteq> sentinel \<Longrightarrow> lookup i (load res g) = g"
  shows "coherent i res"
  using assms by (simp add: coherent_def)

lemma coherentD:
  assumes "coherent i res"
  shows "c \<noteq> sentinel \<Longrightarrow> lookup i c \<noteq> sentinel \<Longrightarrow> unat (lookup i c) < length res"
    and "c \<noteq> sentinel \<Longrightarrow> lookup i c \<noteq> sentinel \<Longrightarrow> load res (lookup i c) = c"
    and "unat g < length res \<Longrightarrow> load res g \<noteq> sentinel \<Longrightarrow> lookup i (load res g) = g"
    and "length res < 2 ^ 32" and "unat g < length res \<Longrightarrow> g \<noteq> sentinel"
  using assms by (auto simp: coherent_def less_sentinel_iff)

text \<open>Two cached records never share a slot.\<close>

lemma coherent_inj:
  assumes "coherent i res" and "c \<noteq> sentinel" and "d \<noteq> sentinel"
    and "lookup i c \<noteq> sentinel" and "lookup i c = lookup i d"
  shows "c = d"
  using coherentD(2) [OF assms(1), of c] coherentD(2) [OF assms(1), of d] assms by simp

text \<open>Binding free slots to records that are not cached.\<close>

definition bindable :: "'i \<Rightarrow> u32 list \<Rightarrow> (u32 \<times> u32) list \<Rightarrow> bool" where
  "bindable i res ps \<longleftrightarrow> distinct (map fst ps) \<and> distinct (map snd ps) \<and>
     (\<forall>(c, g) \<in> set ps. valid i c \<and> c \<noteq> sentinel \<and> lookup i c = sentinel \<and>
        g \<noteq> sentinel \<and> unat g < length res \<and> load res g = sentinel)"

lemma bind_coherent:
  assumes "inv i" and "coherent i res" and "bindable i res ps"
  shows "coherent (bind ps i) (scatter (map prod.swap ps) res)"
proof (rule coherentI)
  show "length (scatter (map prod.swap ps) res) < 2 ^ 32" using coherentD(4) [OF assms(2)] by simp
  have b: "valid i c" "c \<noteq> sentinel" "lookup i c = sentinel" "g \<noteq> sentinel" "unat g < length res"
      "load res g = sentinel" if "(c, g) \<in> set ps" for c g
    using assms(3) that unfolding bindable_def by blast+
  have d: "distinct (map fst ps)" "distinct (map fst (map prod.swap ps))"
    using assms(3) by (simp_all add: bindable_def comp_def)
  have slot: "load (scatter (map prod.swap ps) res) g = c" if "(c, g) \<in> set ps" for c g
    using d(2) that b(5) [OF that] by (intro load_scatter_in) (auto intro: image_eqI [of _ _ "(c, g)"])
  show "unat (lookup (bind ps i) c) < length (scatter (map prod.swap ps) res) \<and>
      load (scatter (map prod.swap ps) res) (lookup (bind ps i) c) = c"
    if "c \<noteq> sentinel" "lookup (bind ps i) c \<noteq> sentinel" for c
  proof (cases "c \<in> fst ` set ps")
    case True
    then obtain g where g: "(c, g) \<in> set ps" by auto
    then show ?thesis using bind_hit [OF assms(1) d(1) g] b [OF g] slot [OF g] by simp
  next
    case False
    then have l: "lookup (bind ps i) c = lookup i c" by (rule bind_other)
    with that coherentD(1,2) [OF assms(2)] have r: "unat (lookup i c) < length res" "load res (lookup i c) = c"
      by auto
    have "lookup i c \<notin> fst ` set (map prod.swap ps)" using r(2) that(1) b(6) by auto
    with l r show ?thesis by (simp add: load_scatter_notin)
  qed
  show "lookup (bind ps i) (load (scatter (map prod.swap ps) res) g) = g"
    if "unat g < length (scatter (map prod.swap ps) res)" "load (scatter (map prod.swap ps) res) g \<noteq> sentinel" for g
  proof (cases "g \<in> fst ` set (map prod.swap ps)")
    case True
    then obtain c where c: "(c, g) \<in> set ps" by auto
    then show ?thesis using bind_hit [OF assms(1) d(1) c] b [OF c] slot [OF c] by simp
  next
    case False
    then have l: "load (scatter (map prod.swap ps) res) g = load res g" by (rule load_scatter_notin)
    with that coherentD(3) [OF assms(2), of g] have k: "lookup i (load res g) = g" by simp
    have "load res g \<notin> fst ` set ps"
    proof
      assume "load res g \<in> fst ` set ps"
      then obtain h where h: "(load res g, h) \<in> set ps" by auto
      then have "g = sentinel" using b(3) [OF h] k by simp
      with coherentD(5) [OF assms(2), of g] that(1) show False by simp
    qed
    with l k show ?thesis by (simp add: bind_other)
  qed
qed

text \<open>Handing the slots of evicted records to records that are not cached.\<close>

definition rebindable :: "'i \<Rightarrow> u32 list \<Rightarrow> (u32 \<times> u32 \<times> u32) list \<Rightarrow> bool" where
  "rebindable i res ts \<longleftrightarrow> distinct (map (fst \<circ> snd) ts) \<and> distinct (map (snd \<circ> snd) ts) \<and>
     (\<forall>(oldc, newc, g) \<in> set ts. valid i newc \<and> newc \<noteq> sentinel \<and> lookup i newc = sentinel \<and>
        unat g < length res \<and> load res g = oldc \<and> oldc \<noteq> sentinel)"

lemma rebindableD:
  assumes "coherent i res" and "rebindable i res ts"
  shows "(oldc, newc, g) \<in> set ts \<Longrightarrow> valid i newc \<and> newc \<noteq> sentinel \<and> lookup i newc = sentinel \<and>
           unat g < length res \<and> g \<noteq> sentinel \<and> load res g = oldc \<and> oldc \<noteq> sentinel \<and>
           lookup i oldc = g \<and> valid i oldc"
    and "fst ` set ts \<inter> (fst \<circ> snd) ` set ts = {}"
    and "distinct (map (fst \<circ> snd) ts)" and "distinct (map fst (map (\<lambda>(oldc, newc, g). (g, newc)) ts))"
proof -
  show *: "valid i newc \<and> newc \<noteq> sentinel \<and> lookup i newc = sentinel \<and>
           unat g < length res \<and> g \<noteq> sentinel \<and> load res g = oldc \<and> oldc \<noteq> sentinel \<and>
           lookup i oldc = g \<and> valid i oldc"
    if "(oldc, newc, g) \<in> set ts" for oldc newc g
  proof -
    have f: "valid i newc" "newc \<noteq> sentinel" "lookup i newc = sentinel" "unat g < length res"
        "load res g = oldc" "oldc \<noteq> sentinel"
      using assms(2) that unfolding rebindable_def by blast+
    moreover have "lookup i oldc = g" using coherentD(3) [OF assms(1) f(4)] f(5,6) by simp
    moreover have "g \<noteq> sentinel" using coherentD(5) [OF assms(1) f(4)] .
    ultimately show ?thesis using lookup_valid by auto
  qed
  show "fst ` set ts \<inter> (fst \<circ> snd) ` set ts = {}"
  proof (rule ccontr)
    assume "fst ` set ts \<inter> (fst \<circ> snd) ` set ts \<noteq> {}"
    then obtain c n g o' g' where "(c, n, g) \<in> set ts" "(o', c, g') \<in> set ts" by fastforce
    with * [of c n g] * [of o' c g'] show False by auto
  qed
  show "distinct (map (fst \<circ> snd) ts)" using assms(2) by (simp add: rebindable_def)
  have "map fst (map (\<lambda>(oldc, newc, g). (g, newc)) ts) = map (snd \<circ> snd) ts" by auto
  moreover have "distinct (map (snd \<circ> snd) ts)" using assms(2) by (simp add: rebindable_def)
  ultimately show "distinct (map fst (map (\<lambda>(oldc, newc, g). (g, newc)) ts))" by (simp only:)
qed

lemma rebind_coherent:
  assumes "inv i" and "coherent i res" and "rebindable i res ts"
  shows "coherent (rebind ts i) (scatter (map (\<lambda>(oldc, newc, g). (g, newc)) ts) res)"
    (is "coherent _ (scatter ?ws res)")
proof (rule coherentI)
  show "length (scatter ?ws res) < 2 ^ 32" using coherentD(4) [OF assms(2)] by simp
  note b = rebindableD(1) [OF assms(2,3)] and d = rebindableD(2-4) [OF assms(2,3)]
  have slot: "load (scatter ?ws res) g = n" if "(o', n, g) \<in> set ts" for o' n g
    using d(3) that b [OF that] by (intro load_scatter_in) (auto intro: image_eqI [of _ _ "(o', n, g)"])
  have new: "lookup (rebind ts i) n = g" if "(o', n, g) \<in> set ts" for o' n g
    using rebind_new [OF assms(1) d(2,1) that] b [OF that] by simp
  show "unat (lookup (rebind ts i) c) < length (scatter ?ws res) \<and>
      load (scatter ?ws res) (lookup (rebind ts i) c) = c"
    if c: "c \<noteq> sentinel" "lookup (rebind ts i) c \<noteq> sentinel" for c
  proof (cases "c \<in> (fst \<circ> snd) ` set ts")
    case True
    then obtain o' g where t: "(o', c, g) \<in> set ts" by fastforce
    then show ?thesis using new [OF t] slot [OF t] b [OF t] by simp
  next
    case False
    have no: "c \<notin> fst ` set ts"
    proof
      assume o: "c \<in> fst ` set ts"
      then obtain n g where "(c, n, g) \<in> set ts" by force
      with rebind_old [OF assms(1) d(1) o] b [of c n g] c(2) show False by simp
    qed
    then have l: "lookup (rebind ts i) c = lookup i c" using False by (simp add: rebind_other)
    with c coherentD(1,2) [OF assms(2)] have r: "unat (lookup i c) < length res" "load res (lookup i c) = c"
      by auto
    have "lookup i c \<notin> fst ` set ?ws"
    proof
      assume "lookup i c \<in> fst ` set ?ws"
      then obtain o' n where t: "(o', n, lookup i c) \<in> set ts" by auto
      with b [OF t] r no show False by force
    qed
    with l r show ?thesis by (simp add: load_scatter_notin)
  qed
  show "lookup (rebind ts i) (load (scatter ?ws res) g) = g"
    if g: "unat g < length (scatter ?ws res)" "load (scatter ?ws res) g \<noteq> sentinel" for g
  proof (cases "g \<in> fst ` set ?ws")
    case True
    then obtain o' n where t: "(o', n, g) \<in> set ts" by auto
    then show ?thesis using new [OF t] slot [OF t] by simp
  next
    case False
    then have l: "load (scatter ?ws res) g = load res g" by (rule load_scatter_notin)
    with g coherentD(3) [OF assms(2), of g] have k: "lookup i (load res g) = g" by simp
    have gs: "g \<noteq> sentinel" using coherentD(5) [OF assms(2), of g] g(1) by simp
    have "load res g \<notin> fst ` set ts"
    proof
      assume "load res g \<in> fst ` set ts"
      then obtain t' where t': "load res g = fst t'" "t' \<in> set ts" by (rule imageE)
      obtain o' n h where e: "t' = (o', n, h)" by (rule prod_cases3)
      have t: "(o', n, h) \<in> set ts" using t'(2) unfolding e .
      have "h = g" using b [OF t] k t'(1) unfolding e by simp
      then have "(g, n) \<in> set ?ws" using t by (auto intro: image_eqI [of _ _ "(o', n, h)"])
      then have "g \<in> fst ` set ?ws" by (rule image_eqI [rotated]) simp
      with False show False ..
    qed
    moreover have "load res g \<notin> (fst \<circ> snd) ` set ts"
    proof
      assume "load res g \<in> (fst \<circ> snd) ` set ts"
      then obtain o' h where t: "(o', load res g, h) \<in> set ts" by fastforce
      with b [OF t] k gs show False by simp
    qed
    ultimately show ?thesis using l k by (simp add: rebind_other)
  qed
qed

end

subsection \<open>The flat array provides the interface\<close>

definition idx_lookup :: "CridGridIndex \<Rightarrow> u32 \<Rightarrow> u32" where
  "idx_lookup idx c = flat_lookup (d_crid_to_grid idx) (num_units idx) c"

definition idx_valid :: "CridGridIndex \<Rightarrow> u32 \<Rightarrow> bool" where
  "idx_valid idx c \<longleftrightarrow> c \<noteq> sentinel \<and> c < num_units idx"

definition idx_inv :: "CridGridIndex \<Rightarrow> bool" where
  "idx_inv idx \<longleftrightarrow> length (d_crid_to_grid idx) = unat (num_units idx)"

lemma length_k_flat_insert [simp]: "length (k_flat_insert u p arr) = length arr"
  by (simp add: k_flat_insert_def split: prod.split)

lemma length_fold_insert [simp]: "length (fold (k_flat_insert u) ps arr) = length arr"
  by (induction ps arbitrary: arr) auto

lemma length_fold_rename [simp]: "length (fold (k_flat_rename_crids u) ts arr) = length arr"
  by (induction ts arbitrary: arr) (auto simp: k_flat_rename_crids_def Let_def split: prod.split)

lemma load_fold_insert_notin:
  "c \<notin> fst ` set ps \<Longrightarrow> load (fold (k_flat_insert u) ps arr) c = load arr c"
  by (induction ps arbitrary: arr) (auto simp: k_flat_insert_def load_store split: prod.split)

lemma load_fold_insert_in:
  assumes "distinct (map fst ps)" and "(c, g) \<in> set ps" and "c \<noteq> sentinel" and "c < u" and "unat u = length arr"
  shows "load (fold (k_flat_insert u) ps arr) c = g"
  using assms
proof (induction ps arbitrary: arr)
  case (Cons p ps)
  show ?case
  proof (cases "(c, g) \<in> set ps")
    case True
    with Cons show ?thesis by simp
  next
    case False
    then have p: "p = (c, g)" using Cons.prems(2) by auto
    then have "c \<notin> fst ` set ps" using Cons.prems(1) by simp
    moreover have "k_flat_insert u (c, g) arr = store arr c g"
      using Cons.prems(3,4) by (simp add: k_flat_insert_def)
    ultimately show ?thesis
      using Cons.prems(4,5) p by (simp add: load_fold_insert_notin word_less_nat_alt)
  qed
qed simp

lemma load_rename_step:
  "load (k_flat_rename_crids u (oldc, newc, g) arr) c =
     (if c = newc \<and> newc \<noteq> sentinel \<and> newc < u \<and> unat newc < length arr then g
      else if c = oldc \<and> oldc \<noteq> sentinel \<and> oldc < u \<and> unat oldc < length arr then sentinel
      else load arr c)"
  by (auto simp: k_flat_rename_crids_def Let_def load_store)

lemma load_rename_other:
  "c \<notin> fst ` set ts \<Longrightarrow> c \<notin> (fst \<circ> snd) ` set ts \<Longrightarrow> load (fold (k_flat_rename_crids u) ts arr) c = load arr c"
  by (induction ts arbitrary: arr) (auto simp: load_rename_step)

lemma load_rename_old:
  assumes "c \<notin> (fst \<circ> snd) ` set ts" and "c \<in> fst ` set ts \<or> load arr c = sentinel"
    and "c \<noteq> sentinel" and "c < u" and "unat u = length arr"
  shows "load (fold (k_flat_rename_crids u) ts arr) c = sentinel"
  using assms
proof (induction ts arbitrary: arr)
  case (Cons t ts)
  obtain oldc newc g where t: "t = (oldc, newc, g)" by (cases t)
  have len: "length (k_flat_rename_crids u t arr) = length arr"
    by (simp add: t k_flat_rename_crids_def Let_def)
  have "c \<in> fst ` set ts \<or> load (k_flat_rename_crids u t arr) c = sentinel"
    using Cons.prems by (auto simp: t load_rename_step word_less_nat_alt)
  with Cons.IH [of "k_flat_rename_crids u t arr"] Cons.prems len show ?case by simp
qed simp

lemma load_rename_new:
  assumes "distinct (map (fst \<circ> snd) ts)" and "fst ` set ts \<inter> (fst \<circ> snd) ` set ts = {}"
    and "(oldc, newc, g) \<in> set ts" and "newc \<noteq> sentinel" and "newc < u" and "unat u = length arr"
  shows "load (fold (k_flat_rename_crids u) ts arr) newc = g"
  using assms
proof (induction ts arbitrary: arr)
  case (Cons t ts)
  have len: "length (k_flat_rename_crids u t arr) = length arr"
    by (cases t) (simp add: k_flat_rename_crids_def Let_def)
  show ?case
  proof (cases "(oldc, newc, g) \<in> set ts")
    case True
    with Cons.IH [of "k_flat_rename_crids u t arr"] Cons.prems len show ?thesis by auto
  next
    case False
    then have t: "t = (oldc, newc, g)" using Cons.prems(3) by auto
    have "newc \<notin> (fst \<circ> snd) ` set ts" "newc \<notin> fst ` set ts"
      using Cons.prems(1,2) by (auto simp: t image_iff)
    then show ?thesis
      using Cons.prems(4-6) by (simp add: load_rename_other t load_rename_step word_less_nat_alt)
  qed
qed simp

lemma bulk_simps [simp]:
  "num_units (bulk_insert ps idx) = num_units idx" "num_units (bulk_update_crid ts idx) = num_units idx"
  "d_crid_to_grid (bulk_insert ps idx) = fold (k_flat_insert (num_units idx)) ps (d_crid_to_grid idx)"
  "d_crid_to_grid (bulk_update_crid ts idx) = fold (k_flat_rename_crids (num_units idx)) ts (d_crid_to_grid idx)"
  by (simp_all add: bulk_insert_def bulk_update_crid_def)

interpretation flat: cache_index idx_lookup bulk_insert bulk_update_crid idx_valid idx_inv
proof
  fix i and ps :: "(u32 \<times> u32) list" and c g
  assume "idx_inv i" "distinct (map fst ps)" "(c, g) \<in> set ps" "idx_valid i c"
  then show "idx_lookup (bulk_insert ps i) c = g"
    using load_fold_insert_in [of ps c g "num_units i" "d_crid_to_grid i"]
    by (simp add: idx_lookup_def flat_lookup_def idx_valid_def idx_inv_def)
next
  fix c :: u32 and ps :: "(u32 \<times> u32) list" and i
  assume "c \<notin> fst ` set ps"
  then show "idx_lookup (bulk_insert ps i) c = idx_lookup i c"
    by (simp add: idx_lookup_def flat_lookup_def load_fold_insert_notin)
next
  fix i and ts :: "(u32 \<times> u32 \<times> u32) list" and oldc newc g
  assume "idx_inv i" "distinct (map (fst \<circ> snd) ts)" "fst ` set ts \<inter> (fst \<circ> snd) ` set ts = {}"
    "(oldc, newc, g) \<in> set ts" "idx_valid i newc"
  then show "idx_lookup (bulk_update_crid ts i) newc = g"
    using load_rename_new [of ts oldc newc g "num_units i" "d_crid_to_grid i"]
    by (simp add: idx_lookup_def flat_lookup_def idx_valid_def idx_inv_def)
next
  fix i and ts :: "(u32 \<times> u32 \<times> u32) list" and oldc
  assume "idx_inv i" "fst ` set ts \<inter> (fst \<circ> snd) ` set ts = {}" "oldc \<in> fst ` set ts" "idx_valid i oldc"
  then show "idx_lookup (bulk_update_crid ts i) oldc = sentinel"
    using load_rename_old [of oldc ts "d_crid_to_grid i" "num_units i"]
    by (auto simp: idx_lookup_def flat_lookup_def idx_valid_def idx_inv_def)
next
  fix c :: u32 and ts :: "(u32 \<times> u32 \<times> u32) list" and i
  assume "c \<notin> fst ` set ts" "c \<notin> (fst \<circ> snd) ` set ts"
  then show "idx_lookup (bulk_update_crid ts i) c = idx_lookup i c"
    by (simp add: idx_lookup_def flat_lookup_def load_rename_other)
next
  fix i c
  assume "idx_lookup i c \<noteq> sentinel" "c \<noteq> sentinel"
  then show "idx_valid i c" by (simp add: idx_lookup_def flat_lookup_def idx_valid_def split: if_splits)
qed (simp_all add: idx_inv_def idx_valid_def)

end
