(* ===== verification/Device_Ring.thy ===== *)
theory Device_Ring
  imports Prelude
begin

text \<open>
  The ring of free cache slots (\<^verbatim>\<open>device_ring_types.h\<close>, \<^verbatim>\<open>util_device_ring.cuh\<close>): virtual
  64-bit head and tail counters over a buffer of \<open>capacity\<close> entries, and the two-phase pop
  (a reservation by one thread, then a parallel copy). The locale \<open>grant_queue\<close> is what the
  stager relies on: a pop grants a prefix of the queue and leaves the rest; it is
  interpreted on the ring.
\<close>

record DeviceRingView =
  buffer :: "u32 list"
  head :: u64
  tail :: u64
  capacity :: u32
  pop_scratch_start :: u64

text \<open>\<^verbatim>\<open>k_ring_pop_reserve\<close>: the new ring and the number of granted entries.\<close>

definition k_ring_pop_reserve :: "DeviceRingView \<Rightarrow> u32 \<Rightarrow> DeviceRingView \<times> u32" where
  "k_ring_pop_reserve ring n =
     (let old_head = head ring;
          ring1 = ring\<lparr>head := old_head + ucast n\<rparr>;
          avail = tail ring1 - old_head;
          g = (if avail < ucast n then ucast avail else n);
          ring2 = (if g < n then ring1\<lparr>head := head ring1 - ucast (n - g)\<rparr> else ring1)
      in (ring2\<lparr>pop_scratch_start := old_head\<rparr>, g))"

text \<open>\<^verbatim>\<open>k_ring_pop_copy\<close>: thread \<open>i < g\<close> stores entry \<open>i\<close>.\<close>

definition k_ring_pop_copy :: "DeviceRingView \<Rightarrow> u32 \<Rightarrow> u32 list \<Rightarrow> u32 list" where
  "k_ring_pop_copy ring granted out =
     fold (\<lambda>i o'. o'[i := load (buffer ring)
             (ucast ((pop_scratch_start ring + of_nat i) mod ucast (capacity ring)))])
       [0..<unat granted] out"

definition launch_ring_pop_parallel ::
  "DeviceRingView \<Rightarrow> u32 \<Rightarrow> u32 list \<Rightarrow> DeviceRingView \<times> u32 list \<times> u32" where
  "launch_ring_pop_parallel ring n out =
     (if n = 0 then (ring, out, 0)
      else let (ring', g) = k_ring_pop_reserve ring n
           in (ring', k_ring_pop_copy ring' g out, g))"

text \<open>The pop as the stager uses it: an output buffer of \<open>n\<close> entries, of which the granted ones
  are read back.\<close>

definition ring_pop :: "DeviceRingView \<Rightarrow> u32 \<Rightarrow> DeviceRingView \<times> u32 list" where
  "ring_pop ring n =
     (let (ring', out, g) = launch_ring_pop_parallel ring n (replicate (unat n) 0)
      in (ring', take (unat g) out))"

subsection \<open>The interface\<close>

locale grant_queue =
  fixes pop :: "'r \<Rightarrow> u32 \<Rightarrow> 'r \<times> 'a list"
    and queue :: "'r \<Rightarrow> 'a list"
    and inv :: "'r \<Rightarrow> bool"
  assumes pop_grants: "inv r \<Longrightarrow> snd (pop r n) = take (unat n) (queue r)"
    and pop_rest: "inv r \<Longrightarrow> queue (fst (pop r n)) = drop (unat n) (queue r)"
    and pop_inv: "inv r \<Longrightarrow> inv (fst (pop r n))"
begin

text \<open>A sequence of pops hands out the queue in order: no entry twice, none lost.\<close>

fun pops :: "'r \<Rightarrow> u32 list \<Rightarrow> 'r \<times> 'a list list" where
  "pops r [] = (r, [])"
| "pops r (n # ns) = (let (r', g) = pop r n; (r'', gs) = pops r' ns in (r'', g # gs))"

lemma pops_conserve:
  "inv r \<Longrightarrow> concat (snd (pops r ns)) @ queue (fst (pops r ns)) = queue r \<and> inv (fst (pops r ns))"
proof (induction ns arbitrary: r)
  case (Cons n ns)
  obtain r' g where p: "pop r n = (r', g)" by (cases "pop r n")
  from p pop_grants [OF Cons.prems, of n] pop_rest [OF Cons.prems, of n] pop_inv [OF Cons.prems, of n]
  have f: "g = take (unat n) (queue r)" "queue r' = drop (unat n) (queue r)" "inv r'" by simp_all
  with Cons.IH [OF f(3)] p show ?case by (simp add: split_beta Let_def)
qed simp

lemma granted_distinct:
  assumes "inv r" and "distinct (queue r)"
  shows "distinct (concat (snd (pops r ns)))"
  using pops_conserve [OF assms(1), of ns] assms(2) by (metis distinct_append)

lemma pop_length: "inv r \<Longrightarrow> length (snd (pop r n)) = min (unat n) (length (queue r))"
  by (simp add: pop_grants min.commute)

end

subsection \<open>The ring as a queue\<close>

definition ring_queue :: "DeviceRingView \<Rightarrow> u32 list" where
  "ring_queue r = map (\<lambda>k. buffer r ! (k mod unat (capacity r))) [unat (head r)..<unat (tail r)]"

definition ring_inv :: "DeviceRingView \<Rightarrow> bool" where
  "ring_inv r \<longleftrightarrow> capacity r \<noteq> 0 \<and> length (buffer r) = unat (capacity r) \<and>
     unat (head r) \<le> unat (tail r) \<and> unat (tail r) < 2 ^ 63"

lemma unat_ucast_32_64: "unat (ucast (n :: u32) :: u64) = unat n"
  by (simp add: unsigned_ucast_eq take_bit_nat_eq_self_iff) (use unat_u32_lt [of n] in linarith)

lemma unat_ucast_64_32: "unat w < 2 ^ 32 \<Longrightarrow> unat (ucast (w :: u64) :: u32) = unat w"
  by (simp add: unsigned_ucast_eq take_bit_nat_eq_self_iff)

lemma reserve_facts:
  assumes "ring_inv r"
  shows "unat (snd (k_ring_pop_reserve r n)) = min (unat n) (unat (tail r) - unat (head r))"
    and "unat (head (fst (k_ring_pop_reserve r n))) =
           unat (head r) + min (unat n) (unat (tail r) - unat (head r))"
proof -
  let ?a = "unat (tail r) - unat (head r)"
  have b: "unat (head r) \<le> unat (tail r)" "unat (tail r) < 2 ^ 63" using assms by (simp_all add: ring_inv_def)
  have n: "unat n < 2 ^ 32" using unat_u32_lt [of n] by simp
  have avail: "unat (tail r - head r) = ?a"
    using b by (simp add: unat_sub word_le_nat_alt)
  have hn: "unat (head r + ucast n) = unat (head r) + unat n"
    using b n by (simp add: unat_word_ariths unat_ucast_32_64)
  show g: "unat (snd (k_ring_pop_reserve r n)) = min (unat n) ?a"
    using n avail by (auto simp: k_ring_pop_reserve_def Let_def word_less_nat_alt unat_ucast_32_64
        unat_ucast_64_32)
  show "unat (head (fst (k_ring_pop_reserve r n))) = unat (head r) + min (unat n) ?a"
  proof (cases "unat n \<le> ?a")
    case True
    then show ?thesis
      using avail hn by (simp add: k_ring_pop_reserve_def Let_def word_less_nat_alt unat_ucast_32_64)
  next
    case False
    let ?g = "ucast (tail r - head r) :: u32"
    have ug: "unat ?g = ?a" using False n avail by (simp add: unat_ucast_64_32)
    then have "unat (n - ?g) = unat n - ?a" using False by (simp add: unat_sub word_le_nat_alt)
    then have "unat (head r + ucast n - ucast (n - ?g)) = unat (head r) + ?a"
      using hn False by (simp add: unat_sub word_le_nat_alt unat_ucast_32_64)
    moreover have "?g < n" using False ug by (simp add: word_less_nat_alt)
    moreover have "tail r - head r < ucast n" using False avail by (simp add: word_less_nat_alt unat_ucast_32_64)
    ultimately show ?thesis using False by (simp add: k_ring_pop_reserve_def Let_def)
  qed
qed

lemma fold_store_prefix:
  "g \<le> length out \<Longrightarrow> fold (\<lambda>i o'. o'[i := f i]) [0..<g] out = map f [0..<g] @ drop g out"
proof (induction g)
  case (Suc g)
  then show ?case by (simp add: list_update_append Cons_nth_drop_Suc [symmetric])
qed simp

lemma reserve_fields [simp]:
  "buffer (fst (k_ring_pop_reserve r n)) = buffer r" "capacity (fst (k_ring_pop_reserve r n)) = capacity r"
  "tail (fst (k_ring_pop_reserve r n)) = tail r" "pop_scratch_start (fst (k_ring_pop_reserve r n)) = head r"
  by (simp_all add: k_ring_pop_reserve_def Let_def)

lemma copy_facts:
  assumes "ring_inv r" and "unat g \<le> length out" and "unat g \<le> unat (tail r) - unat (head r)"
    and "buffer r' = buffer r" and "capacity r' = capacity r" and "pop_scratch_start r' = head r"
  shows "take (unat g) (k_ring_pop_copy r' g out) = take (unat g) (ring_queue r)"
proof -
  have idx: "load (buffer r) (ucast ((head r + of_nat i) mod ucast (capacity r))) =
      buffer r ! ((unat (head r) + i) mod unat (capacity r))" if "i < unat g" for i
  proof -
    have "unat (head r) + i < 2 ^ 64" using assms(1,3) that by (auto simp: ring_inv_def)
    then have "unat (head r + of_nat i) = unat (head r) + i"
      by (simp add: unat_word_ariths unat_of_nat)
    then have m: "unat ((head r + of_nat i) mod ucast (capacity r)) = (unat (head r) + i) mod unat (capacity r)"
      by (simp add: unat_mod_distrib unat_ucast_32_64)
    also have "\<dots> < 2 ^ 32"
    proof -
      have "0 < unat (capacity r)" using assms(1) by (simp add: ring_inv_def unat_gt_0)
      then have "(unat (head r) + i) mod unat (capacity r) < unat (capacity r)" by simp
      also have "\<dots> < 2 ^ 32" using unat_u32_lt [of "capacity r"] by simp
      finally show ?thesis .
    qed
    finally show ?thesis using m by (simp add: load_def unat_ucast_64_32)
  qed
  have "take (unat g) (k_ring_pop_copy r' g out) =
      map (\<lambda>i. buffer r ! ((unat (head r) + i) mod unat (capacity r))) [0..<unat g]"
    using assms(2,4-6) idx by (simp add: k_ring_pop_copy_def fold_store_prefix)
  also have "\<dots> = take (unat g) (ring_queue r)"
    using assms(3) by (intro nth_equalityI) (simp_all add: ring_queue_def)
  finally show ?thesis .
qed

lemma ring_pop_zero: "ring_pop r 0 = (r, [])"
  by (simp add: ring_pop_def launch_ring_pop_parallel_def)

lemma ring_pop_fst: "n \<noteq> 0 \<Longrightarrow> fst (ring_pop r n) = fst (k_ring_pop_reserve r n)"
  by (simp add: ring_pop_def launch_ring_pop_parallel_def split_beta Let_def)

interpretation free_ring: grant_queue ring_pop ring_queue ring_inv
proof
  fix r n
  assume inv: "ring_inv r"
  let ?g = "snd (k_ring_pop_reserve r n)"
  note R = reserve_facts [OF inv, of n]
  have lq: "length (ring_queue r) = unat (tail r) - unat (head r)" by (simp add: ring_queue_def)
  show "snd (ring_pop r n) = take (unat n) (ring_queue r)"
  proof (cases "n = 0")
    case False
    have "snd (ring_pop r n) =
        take (unat ?g) (k_ring_pop_copy (fst (k_ring_pop_reserve r n)) ?g (replicate (unat n) 0))"
      using False by (simp add: ring_pop_def launch_ring_pop_parallel_def split_beta Let_def)
    also have "\<dots> = take (unat ?g) (ring_queue r)"
      by (rule copy_facts [OF inv]) (simp_all add: R(1))
    finally show ?thesis by (simp add: R(1) lq [symmetric] min_def)
  qed (simp add: ring_pop_zero)
  show "ring_queue (fst (ring_pop r n)) = drop (unat n) (ring_queue r)"
  proof (cases "n = 0")
    case False
    then show ?thesis
      using inv by (simp add: ring_pop_fst ring_queue_def R(2) drop_map min_def ring_inv_def)
  qed (simp add: ring_pop_zero)
  show "ring_inv (fst (ring_pop r n))"
  proof (cases "n = 0")
    case False
    then show ?thesis using inv by (auto simp: ring_pop_fst ring_inv_def R(2) min_def)
  qed (simp add: ring_pop_zero inv)
qed

text \<open>The ring the stager starts with: every slot free, in order.\<close>

definition init_ring :: "u32 \<Rightarrow> DeviceRingView" where
  "init_ring cap = \<lparr>buffer = map of_nat [0..<unat cap], head = 0, tail = ucast cap, capacity = cap,
     pop_scratch_start = 0\<rparr>"

lemma init_ring_inv: "cap \<noteq> 0 \<Longrightarrow> ring_inv (init_ring cap)"
  using unat_u32_lt [of cap] by (simp add: ring_inv_def init_ring_def unat_ucast_32_64)

lemma init_ring_queue: "ring_queue (init_ring cap) = map of_nat [0..<unat cap]"
  by (rule nth_equalityI) (simp_all add: ring_queue_def init_ring_def unat_ucast_32_64)

text \<open>C23: A pop of the free-slot ring grants exactly the next entries of the queue, as many as
  were asked for or as there are, in order, and removes them; the counters stay consistent,
  also when the reservation has to be partly taken back.\<close>

theorem ring_pop_is_queue_pop:
  assumes "ring_inv r"
  shows "snd (ring_pop r n) = take (unat n) (ring_queue r)
       \<and> ring_queue (fst (ring_pop r n)) = drop (unat n) (ring_queue r)
       \<and> ring_inv (fst (ring_pop r n))"
  using free_ring.pop_grants [OF assms] free_ring.pop_rest [OF assms] free_ring.pop_inv [OF assms] by simp

theorem ring_pop_is_queue_pop_witness:
  "snd (ring_pop (init_ring 3) 5) = [0, 1, 2]"
  using ring_pop_is_queue_pop [OF init_ring_inv [of 3], of 5]
  by (simp add: init_ring_queue upt_rec)

end
