(* ===== verification/Eviction.thy ===== *)
theory Eviction
  imports Prelude
begin

text \<open>
  Victim selection (\<^verbatim>\<open>reclaim_flags.cuh\<close> and \<^verbatim>\<open>k_fifo_collect_evictions\<close> of
  \<^verbatim>\<open>ycsb_hybrid_stager.cu\<close>): two scans over the cache slots that share a counter. The threads
  of a scan run concurrently; a schedule lists the visits in the order of their atomic
  increments, each marked \<open>late\<close> when its thread had passed the "enough already" test before
  the counter reached the deficit. The lemmas hold for every schedule.
\<close>

subsection \<open>Reclaim flags\<close>

definition k_mark_reclaim_by_crids :: "u32 list \<Rightarrow> u32 \<Rightarrow> u32 \<Rightarrow> u32 \<Rightarrow> bool list \<Rightarrow> bool list" where
  "k_mark_reclaim_by_crids arr units cap crid reclaim =
     (if crid = sentinel \<or> units \<le> crid then reclaim
      else let g = load arr crid
           in if g \<noteq> sentinel \<and> g < cap then store reclaim g True else reclaim)"

definition k_clear_reclaim_by_grids :: "u32 \<Rightarrow> u32 \<Rightarrow> bool list \<Rightarrow> bool list" where
  "k_clear_reclaim_by_grids cap g reclaim =
     (if g \<noteq> sentinel \<and> g < cap then store reclaim g False else reclaim)"

subsection \<open>The scans\<close>

text \<open>What the two scans share: the epoch's needed flags, the output arrays (written at
  consecutive positions), the counter, and the largest offset picked by the FIFO scan.\<close>

record evict_scan =
  ev_needed :: "bool list"
  ev_out :: "(u32 \<times> u32) list"
  ev_count :: nat
  ev_max :: u32

definition reclaim_visit ::
  "u32 list \<Rightarrow> bool list \<Rightarrow> nat \<Rightarrow> u32 \<times> bool \<Rightarrow> evict_scan \<Rightarrow> evict_scan" where
  "reclaim_visit resident reclaim deficit v s =
     (case v of (g, late) \<Rightarrow>
       if deficit \<le> ev_count s \<and> \<not> late then s
       else let crid = load resident g
            in if crid = sentinel then s
               else if load (ev_needed s) g then s
               else if \<not> load reclaim g then s
               else let pos = ev_count s; s1 = s\<lparr>ev_count := pos + 1\<rparr>
                    in if pos < deficit
                       then s1\<lparr>ev_out := ev_out s @ [(g, crid)], ev_needed := store (ev_needed s) g True\<rparr>
                       else s1)"

definition k_collect_evictions_reclaim_first ::
  "(u32 \<times> bool) list \<Rightarrow> u32 list \<Rightarrow> bool list \<Rightarrow> nat \<Rightarrow> evict_scan \<Rightarrow> evict_scan" where
  "k_collect_evictions_reclaim_first sched resident reclaim deficit s =
     (if deficit \<le> ev_count s then s else fold (reclaim_visit resident reclaim deficit) sched s)"

definition fifo_slot :: "u32 \<Rightarrow> u32 \<Rightarrow> u32 \<Rightarrow> u32" where
  "fifo_slot start cap i = (let g = start + i in if cap \<le> g then g - cap else g)"

definition fifo_visit ::
  "u32 \<Rightarrow> u32 \<Rightarrow> u32 list \<Rightarrow> nat \<Rightarrow> u32 \<times> bool \<Rightarrow> evict_scan \<Rightarrow> evict_scan" where
  "fifo_visit start cap resident deficit v s =
     (case v of (i, late) \<Rightarrow>
       if deficit \<le> ev_count s \<and> \<not> late then s
       else let g = fifo_slot start cap i; crid = load resident g
            in if crid = sentinel then s
               else if load (ev_needed s) g then s
               else let pos = ev_count s; s1 = s\<lparr>ev_count := pos + 1\<rparr>
                    in if pos < deficit
                       then s1\<lparr>ev_out := ev_out s @ [(g, crid)], ev_max := max (ev_max s) i\<rparr>
                       else s1)"

definition k_fifo_collect_evictions ::
  "(u32 \<times> bool) list \<Rightarrow> u32 \<Rightarrow> u32 \<Rightarrow> u32 list \<Rightarrow> nat \<Rightarrow> evict_scan \<Rightarrow> evict_scan" where
  "k_fifo_collect_evictions sched start cap resident deficit s =
     (if deficit \<le> ev_count s then s else fold (fifo_visit start cap resident deficit) sched s)"

definition collect_evictions ::
  "bool \<Rightarrow> (u32 \<times> bool) list \<Rightarrow> (u32 \<times> bool) list \<Rightarrow> u32 \<Rightarrow> u32 \<Rightarrow> u32 list \<Rightarrow> bool list \<Rightarrow> bool list \<Rightarrow>
   nat \<Rightarrow> evict_scan" where
  "collect_evictions reclaim_active sched1 sched2 start cap resident needed reclaim deficit =
     (let s0 = \<lparr>ev_needed = needed, ev_out = [], ev_count = 0, ev_max = 0\<rparr>;
          s1 = (if reclaim_active
                then k_collect_evictions_reclaim_first sched1 resident reclaim deficit s0 else s0)
      in k_fifo_collect_evictions sched2 start cap resident deficit s1)"

text \<open>Every offset is visited by exactly one thread.\<close>

definition scan_schedule :: "u32 \<Rightarrow> (u32 \<times> bool) list \<Rightarrow> bool" where
  "scan_schedule cap sched \<longleftrightarrow> distinct (map fst sched) \<and> set (map fst sched) = {x. x < cap}"

text \<open>A slot that may be evicted.\<close>

definition evictable :: "u32 list \<Rightarrow> bool list \<Rightarrow> u32 \<Rightarrow> bool" where
  "evictable resident needed g \<longleftrightarrow> load resident g \<noteq> sentinel \<and> \<not> load needed g"

subsection \<open>What the scans select\<close>

definition scan_inv :: "u32 \<Rightarrow> u32 list \<Rightarrow> bool list \<Rightarrow> nat \<Rightarrow> evict_scan \<Rightarrow> bool" where
  "scan_inv cap resident needed deficit s \<longleftrightarrow>
     distinct (map fst (ev_out s)) \<and> length (ev_out s) = min (ev_count s) deficit \<and>
     length (ev_needed s) = length needed \<and>
     (\<forall>(g, crid) \<in> set (ev_out s). g < cap \<and> crid = load resident g \<and> evictable resident needed g) \<and>
     (\<forall>g. load needed g \<longrightarrow> load (ev_needed s) g) \<and>
     (\<forall>g. load (ev_needed s) g \<longrightarrow> load needed g \<or> g \<in> fst ` set (ev_out s))"

lemma load_store_True: "load xs g \<Longrightarrow> load (store xs h True) g"
  by (cases "h = g"; cases "unat h < length xs")
    (simp_all add: load_def store_def nth_list_update word_unat_eq_iff list_update_beyond)

text \<open>A visit of a slot that is not yet in the output list keeps the invariant.\<close>

lemma scan_inv_pick:
  assumes "scan_inv cap resident needed deficit s" and "g < cap" and "g \<notin> fst ` set (ev_out s)"
    and "load resident g \<noteq> sentinel" and "\<not> load (ev_needed s) g" and "ev_count s < deficit"
    and "out' = ev_out s @ [(g, load resident g)]"
    and "ev_needed s' = ev_needed s \<or> ev_needed s' = store (ev_needed s) g True"
    and "ev_out s' = out'" and "ev_count s' = ev_count s + 1"
  shows "scan_inv cap resident needed deficit s'"
proof -
  have "evictable resident needed g" using assms(1,4,5) by (auto simp: scan_inv_def evictable_def)
  moreover have "length (ev_needed s') = length needed" using assms(1,8) by (auto simp: scan_inv_def)
  moreover have "load needed h \<longrightarrow> load (ev_needed s') h" for h
    using assms(1,8) by (auto simp: scan_inv_def load_store_True)
  moreover have "load (ev_needed s') h \<longrightarrow> load needed h \<or> h \<in> fst ` set (ev_out s')" for h
    using assms(1,7-9) by (cases "h = g") (auto simp: scan_inv_def)
  ultimately show ?thesis
    using assms(1-3,6,7,9,10) by (auto simp: scan_inv_def)
qed

lemma scan_inv_over:
  assumes "scan_inv cap resident needed deficit s" and "deficit \<le> ev_count s"
  shows "scan_inv cap resident needed deficit (s\<lparr>ev_count := ev_count s + 1\<rparr>)"
  using assms by (auto simp: scan_inv_def)

lemma reclaim_visit_inv:
  assumes "scan_inv cap resident needed deficit s" and "g < cap" and "g \<notin> fst ` set (ev_out s)"
  shows "scan_inv cap resident needed deficit (reclaim_visit resident reclaim deficit (g, late) s)
       \<and> fst ` set (ev_out (reclaim_visit resident reclaim deficit (g, late) s)) \<subseteq> insert g (fst ` set (ev_out s))"
proof (cases "ev_count s < deficit")
  case True
  then show ?thesis
    using assms(1) scan_inv_pick [OF assms, of _ "reclaim_visit resident reclaim deficit (g, late) s"]
    by (auto simp: reclaim_visit_def Let_def)
next
  case False
  then show ?thesis
    using assms(1) scan_inv_over [OF assms(1)] by (auto simp: reclaim_visit_def Let_def)
qed

lemma fifo_visit_inv:
  assumes "scan_inv cap resident needed deficit s" and "fifo_slot start cap i < cap"
    and "fifo_slot start cap i \<notin> fst ` set (ev_out s) \<or> load (ev_needed s) (fifo_slot start cap i)"
  shows "scan_inv cap resident needed deficit (fifo_visit start cap resident deficit (i, late) s)
       \<and> fst ` set (ev_out (fifo_visit start cap resident deficit (i, late) s)) \<subseteq>
           insert (fifo_slot start cap i) (fst ` set (ev_out s))
       \<and> ev_needed (fifo_visit start cap resident deficit (i, late) s) = ev_needed s"
proof (cases "load (ev_needed s) (fifo_slot start cap i)")
  case True
  then show ?thesis using assms(1) by (auto simp: fifo_visit_def Let_def)
next
  case nf: False
  show ?thesis
  proof (cases "ev_count s < deficit")
    case True
    then show ?thesis
      using assms nf scan_inv_pick [OF assms(1,2), of _ "fifo_visit start cap resident deficit (i, late) s"]
      by (auto simp: fifo_visit_def Let_def)
  next
    case False
    then show ?thesis
      using assms(1) scan_inv_over [OF assms(1)] by (auto simp: fifo_visit_def Let_def)
  qed
qed

text \<open>The reclaim scan: the invariant, and its picks are flagged as needed.\<close>

definition picks_flagged :: "evict_scan \<Rightarrow> bool" where
  "picks_flagged s \<longleftrightarrow> (\<forall>g \<in> fst ` set (ev_out s). load (ev_needed s) g)"

lemma reclaim_visit_flagged:
  assumes "picks_flagged s" and "unat g < length (ev_needed s)"
  shows "picks_flagged (reclaim_visit resident reclaim deficit (g, late) s)"
  using assms by (auto simp: picks_flagged_def reclaim_visit_def Let_def load_store_True)

lemma reclaim_fold_inv:
  assumes "scan_inv cap resident needed deficit s" and "picks_flagged s" and "distinct (map fst sched)"
    and "\<forall>g \<in> fst ` set sched. g < cap \<and> g \<notin> fst ` set (ev_out s)" and "length needed = unat cap"
  shows "scan_inv cap resident needed deficit (fold (reclaim_visit resident reclaim deficit) sched s)
       \<and> picks_flagged (fold (reclaim_visit resident reclaim deficit) sched s)"
  using assms
proof (induction sched arbitrary: s)
  case (Cons v sched)
  obtain g late where v: "v = (g, late)" by (cases v)
  let ?s = "reclaim_visit resident reclaim deficit v s"
  have g: "g < cap" "g \<notin> fst ` set (ev_out s)" using Cons.prems(4) by (auto simp: v)
  note I = reclaim_visit_inv [OF Cons.prems(1) g, of reclaim late, folded v]
  have ln: "unat g < length (ev_needed s)"
    using Cons.prems(1,5) g(1) by (simp add: scan_inv_def word_less_nat_alt)
  have fl: "picks_flagged ?s" using reclaim_visit_flagged [OF Cons.prems(2) ln] by (simp add: v)
  have "\<forall>h \<in> fst ` set sched. h < cap \<and> h \<notin> fst ` set (ev_out ?s)"
  proof
    fix h assume h: "h \<in> fst ` set sched"
    then have "h \<noteq> g" using Cons.prems(3) by (auto simp: v)
    with h I Cons.prems(4) show "h < cap \<and> h \<notin> fst ` set (ev_out ?s)" by auto
  qed
  with Cons.IH [of ?s] I fl Cons.prems(3,5) show ?case by simp
qed simp

lemma fifo_fold_inv:
  assumes "scan_inv cap resident needed deficit s" and "distinct (map (fifo_slot start cap \<circ> fst) sched)"
    and "\<forall>g \<in> (fifo_slot start cap \<circ> fst) ` set sched. g < cap \<and> (g \<notin> fst ` set (ev_out s) \<or> load (ev_needed s) g)"
  shows "scan_inv cap resident needed deficit (fold (fifo_visit start cap resident deficit) sched s)"
  using assms
proof (induction sched arbitrary: s)
  case (Cons v sched)
  obtain i late where v: "v = (i, late)" by (cases v)
  let ?s = "fifo_visit start cap resident deficit v s" and ?g = "fifo_slot start cap i"
  have g: "?g < cap" "?g \<notin> fst ` set (ev_out s) \<or> load (ev_needed s) ?g" using Cons.prems(3) by (auto simp: v)
  note I = fifo_visit_inv [OF Cons.prems(1) g, of late, folded v]
  have "\<forall>h \<in> (fifo_slot start cap \<circ> fst) ` set sched. h < cap \<and> (h \<notin> fst ` set (ev_out ?s) \<or> load (ev_needed ?s) h)"
  proof
    fix h assume h: "h \<in> (fifo_slot start cap \<circ> fst) ` set sched"
    then have "h \<noteq> ?g" using Cons.prems(2) by (simp add: v image_iff) metis
    with h I Cons.prems(3) show "h < cap \<and> (h \<notin> fst ` set (ev_out ?s) \<or> load (ev_needed ?s) h)" by auto
  qed
  with Cons.IH [of ?s] I Cons.prems(2) show ?case by simp
qed simp

text \<open>While the counter is below the deficit, every evictable slot that was visited is picked.\<close>

lemma fifo_visit_count: "ev_count s \<le> ev_count (fifo_visit start cap resident deficit v s)"
  by (auto simp: fifo_visit_def Let_def split: prod.split)

lemma fifo_visit_out: "set (ev_out s) \<subseteq> set (ev_out (fifo_visit start cap resident deficit v s))"
  by (auto simp: fifo_visit_def Let_def split: prod.split)

lemma fifo_visit_picks:
  assumes "ev_count (fifo_visit start cap resident deficit (i, late) s) < deficit"
    and "evictable resident (ev_needed s) (fifo_slot start cap i)"
  shows "fifo_slot start cap i \<in> fst ` set (ev_out (fifo_visit start cap resident deficit (i, late) s))"
proof -
  have "ev_count s < deficit" using fifo_visit_count [of s start cap resident deficit "(i, late)"] assms(1) by linarith
  with assms(2) show ?thesis by (auto simp: fifo_visit_def Let_def evictable_def)
qed

lemma fifo_fold_mono:
  "ev_count s \<le> ev_count (fold (fifo_visit start cap resident deficit) sched s) \<and>
   set (ev_out s) \<subseteq> set (ev_out (fold (fifo_visit start cap resident deficit) sched s))"
proof (induction sched arbitrary: s)
  case (Cons v sched)
  then show ?case
    using fifo_visit_count [of s start cap resident deficit v] fifo_visit_out [of s start cap resident deficit v]
    by (auto intro: order_trans)
qed simp

lemma fifo_visit_needed [simp]: "ev_needed (fifo_visit start cap resident deficit v s) = ev_needed s"
  by (auto simp: fifo_visit_def Let_def split: prod.split)

lemma fifo_fold_complete:
  assumes "ev_count (fold (fifo_visit start cap resident deficit) sched s) < deficit"
    and "i \<in> fst ` set sched" and "evictable resident (ev_needed s) (fifo_slot start cap i)"
  shows "fifo_slot start cap i \<in> fst ` set (ev_out (fold (fifo_visit start cap resident deficit) sched s))"
  using assms
proof (induction sched arbitrary: s)
  case (Cons v sched)
  let ?s = "fifo_visit start cap resident deficit v s"
  note mono = fifo_fold_mono [of ?s start cap resident deficit sched]
  show ?case
  proof (cases "i \<in> fst ` set sched")
    case True
    with Cons show ?thesis by simp
  next
    case False
    then obtain late where v: "v = (i, late)" using Cons.prems(2) by (cases v) auto
    have "ev_count ?s < deficit" using mono Cons.prems(1) by simp
    then have "fifo_slot start cap i \<in> fst ` set (ev_out ?s)"
      using fifo_visit_picks [of start cap resident deficit i late s] Cons.prems(3) by (simp add: v)
    then show ?thesis using mono by auto
  qed
qed simp

text \<open>The FIFO offsets address every slot once, as long as \<open>start + i\<close> does not wrap.\<close>

lemma unat_fifo_slot:
  assumes "cap \<le> 0x80000000" and "start < cap" and "i < cap"
  shows "unat (fifo_slot start cap i) = (unat start + unat i) mod unat cap"
proof -
  have b: "unat cap \<le> 2 ^ 31" "unat start < unat cap" "unat i < unat cap"
    using assms by (simp_all add: word_le_nat_alt word_less_nat_alt)
  then have s: "unat (start + i) = unat start + unat i" by (simp add: unat_word_ariths)
  show ?thesis
  proof (cases "cap \<le> start + i")
    case True
    then have "unat (start + i - cap) = unat start + unat i - unat cap" by (simp add: unat_sub s)
    moreover have "(unat start + unat i) mod unat cap = unat start + unat i - unat cap"
      using True b s by (simp add: word_le_nat_alt mod_if)
    ultimately show ?thesis using True by (simp add: fifo_slot_def)
  next
    case False
    then show ?thesis using s by (simp add: fifo_slot_def word_le_nat_alt)
  qed
qed

lemma fifo_slot_bij:
  assumes "cap \<le> 0x80000000" and "start < cap"
  shows "bij_betw (fifo_slot start cap) {x. x < cap} {x. x < cap}"
proof -
  note u = unat_fifo_slot [OF assms]
  have "0 < unat cap" using assms(2) by (simp add: word_less_nat_alt)
  then have into: "fifo_slot start cap ` {x. x < cap} \<subseteq> {x. x < cap}" by (auto simp: word_less_nat_alt u)
  have "inj_on (fifo_slot start cap) {x. x < cap}"
  proof (rule inj_onI)
    fix i j assume ij: "i \<in> {x. x < cap}" "j \<in> {x. x < cap}" "fifo_slot start cap i = fifo_slot start cap j"
    then have m: "(unat start + unat i) mod unat cap = (unat start + unat j) mod unat cap"
      using u [of i] u [of j] by simp
    then have "unat i mod unat cap = unat j mod unat cap" by (simp add: mod_add_left_eq nat_mod_eq_iff)
    with ij(1,2) show "i = j" by (simp add: word_less_nat_alt word_unat_eq_iff)
  qed
  with into show ?thesis by (simp add: bij_betw_def endo_inj_surj)
qed

lemma scan_after_reclaim:
  assumes "scan_schedule cap sched1" and "length needed = unat cap"
    and "s1 = (if active then k_collect_evictions_reclaim_first sched1 resident reclaim deficit
                 \<lparr>ev_needed = needed, ev_out = [], ev_count = 0, ev_max = 0\<rparr>
               else \<lparr>ev_needed = needed, ev_out = [], ev_count = 0, ev_max = 0\<rparr>)"
  shows "scan_inv cap resident needed deficit s1 \<and> picks_flagged s1"
proof -
  let ?s = "\<lparr>ev_needed = needed, ev_out = [], ev_count = 0, ev_max = 0\<rparr>"
  have 0: "scan_inv cap resident needed deficit ?s" "picks_flagged ?s" by (simp_all add: scan_inv_def picks_flagged_def)
  have "distinct (map fst sched1)" "\<forall>g \<in> fst ` set sched1. g < cap \<and> g \<notin> fst ` set (ev_out ?s)"
    using assms(1) by (auto simp: scan_schedule_def)
  from reclaim_fold_inv [OF 0 this assms(2)] 0 show ?thesis
    by (auto simp: assms(3) k_collect_evictions_reclaim_first_def)
qed

lemma schedule_slots:
  assumes "cap \<le> 0x80000000" and "start < cap" and "scan_schedule cap sched"
  shows "distinct (map (fifo_slot start cap \<circ> fst) sched)"
    and "(fifo_slot start cap \<circ> fst) ` set sched = {x. x < cap}"
proof -
  have b: "inj_on (fifo_slot start cap) {x. x < cap}" "fifo_slot start cap ` {x. x < cap} = {x. x < cap}"
    using fifo_slot_bij [OF assms(1,2)] by (simp_all add: bij_betw_def)
  have "distinct (map (fifo_slot start cap) (map fst sched))"
    using assms(3) b(1) by (auto simp: distinct_map scan_schedule_def intro: comp_inj_on)
  then show "distinct (map (fifo_slot start cap \<circ> fst) sched)" by simp
  have "fst ` set sched = {x. x < cap}" using assms(3) by (simp add: scan_schedule_def)
  then show "(fifo_slot start cap \<circ> fst) ` set sched = {x. x < cap}"
    unfolding image_comp [symmetric] by (simp only: b(2))
qed

lemma collect_evictions_inv:
  assumes "cap \<le> 0x80000000" and "start < cap" and "scan_schedule cap sched1" and "scan_schedule cap sched2"
    and "length needed = unat cap"
  shows "scan_inv cap resident needed deficit
           (collect_evictions active sched1 sched2 start cap resident needed reclaim deficit)"
proof -
  define s1 where "s1 = (if active then k_collect_evictions_reclaim_first sched1 resident reclaim deficit
                 \<lparr>ev_needed = needed, ev_out = [], ev_count = 0, ev_max = 0\<rparr>
               else \<lparr>ev_needed = needed, ev_out = [], ev_count = 0, ev_max = 0\<rparr>)"
  note I = scan_after_reclaim [OF assms(3,5) s1_def]
  have "\<forall>g \<in> (fifo_slot start cap \<circ> fst) ` set sched2. g < cap \<and> (g \<notin> fst ` set (ev_out s1) \<or> load (ev_needed s1) g)"
    unfolding schedule_slots(2) [OF assms(1,2,4)] using I by (auto simp: picks_flagged_def)
  with fifo_fold_inv [of cap resident needed deficit s1 start sched2] I schedule_slots(1) [OF assms(1,2,4)]
  show ?thesis
    by (simp add: collect_evictions_def k_fifo_collect_evictions_def s1_def [symmetric])
qed

lemma collect_evictions_complete:
  assumes "cap \<le> 0x80000000" and "start < cap" and "scan_schedule cap sched1" and "scan_schedule cap sched2"
    and "length needed = unat cap" and "deficit \<le> card {g. g < cap \<and> evictable resident needed g}"
  shows "deficit \<le> ev_count (collect_evictions active sched1 sched2 start cap resident needed reclaim deficit)"
proof (rule ccontr)
  let ?s = "collect_evictions active sched1 sched2 start cap resident needed reclaim deficit"
  assume nc: "\<not> deficit \<le> ev_count ?s"
  define s1 where "s1 = (if active then k_collect_evictions_reclaim_first sched1 resident reclaim deficit
                 \<lparr>ev_needed = needed, ev_out = [], ev_count = 0, ev_max = 0\<rparr>
               else \<lparr>ev_needed = needed, ev_out = [], ev_count = 0, ev_max = 0\<rparr>)"
  have s: "?s = fold (fifo_visit start cap resident deficit) sched2 s1"
    using nc by (auto simp: collect_evictions_def k_fifo_collect_evictions_def s1_def [symmetric] Let_def)
  note I = scan_after_reclaim [OF assms(3,5) s1_def]
  have sub: "{g. g < cap \<and> evictable resident needed g} \<subseteq> fst ` set (ev_out ?s)"
  proof
    fix g assume g: "g \<in> {g. g < cap \<and> evictable resident needed g}"
    show "g \<in> fst ` set (ev_out ?s)"
    proof (cases "load (ev_needed s1) g")
      case True
      with I g have "g \<in> fst ` set (ev_out s1)" by (auto simp: scan_inv_def evictable_def)
      with fifo_fold_mono [of s1 start cap resident deficit sched2] show ?thesis by (auto simp: s)
    next
      case False
      with g have e: "evictable resident (ev_needed s1) g" by (simp add: evictable_def)
      have "g \<in> (fifo_slot start cap \<circ> fst) ` set sched2"
        unfolding schedule_slots(2) [OF assms(1,2,4)] using g by simp
      then obtain i where i: "i \<in> fst ` set sched2" "g = fifo_slot start cap i" by auto
      have "ev_count (fold (fifo_visit start cap resident deficit) sched2 s1) < deficit" using nc by (simp add: s)
      from fifo_fold_complete [OF this i(1)] e show ?thesis by (simp add: i(2) s)
    qed
  qed
  have "card {g. g < cap \<and> evictable resident needed g} \<le> card (fst ` set (ev_out ?s))"
    using sub by (rule card_mono [rotated]) simp
  also have "\<dots> \<le> length (ev_out ?s)" by (metis card_length length_map list.set_map)
  also have "\<dots> < deficit"
    using collect_evictions_inv [OF assms(1-5), of resident deficit active reclaim] nc by (simp add: scan_inv_def)
  finally show False using assms(6) by simp
qed

text \<open>C19: Whatever order the threads of the two eviction scans run in, the victims are distinct
  slots that hold a record and are not needed in the epoch, each with the record it holds;
  the deficit is met whenever there are enough such slots, and never overshot.\<close>

theorem eviction_victims:
  assumes "cap \<le> 0x80000000" and "start < cap" and "scan_schedule cap sched1" and "scan_schedule cap sched2"
    and "length needed = unat cap"
    and "s = collect_evictions active sched1 sched2 start cap resident needed reclaim deficit"
  shows "distinct (map fst (ev_out s)) \<and> length (ev_out s) = min (ev_count s) deficit
       \<and> (\<forall>(g, crid) \<in> set (ev_out s). g < cap \<and> crid = load resident g \<and> crid \<noteq> sentinel \<and> \<not> load needed g)
       \<and> (deficit \<le> card {g. g < cap \<and> evictable resident needed g} \<longrightarrow> deficit \<le> ev_count s)"
  using collect_evictions_inv [OF assms(1-5), of resident deficit active reclaim]
    collect_evictions_complete [OF assms(1-5), of deficit resident active reclaim]
  by (auto simp: assms(6) scan_inv_def evictable_def)

definition sample_schedule :: "(u32 \<times> bool) list" where
  "sample_schedule = [(2, False), (0, True), (1, True)]"

lemma sample_schedule_ok: "scan_schedule 3 sample_schedule"
proof -
  have "x < 3 \<longleftrightarrow> x = 0 \<or> x = 1 \<or> x = 2" for x :: u32
  proof -
    have "unat x < 3 \<longleftrightarrow> unat x = 0 \<or> unat x = 1 \<or> unat x = 2" by auto
    then show ?thesis by (simp add: word_less_nat_alt word_unat_eq_iff)
  qed
  then show ?thesis by (auto simp: scan_schedule_def sample_schedule_def)
qed

theorem eviction_victims_witness:
  "length (ev_out (collect_evictions True sample_schedule sample_schedule 1 3 [7, 8, 9] [False, True, False]
     [False, False, True] 1)) =
   min (ev_count (collect_evictions True sample_schedule sample_schedule 1 3 [7, 8, 9] [False, True, False]
     [False, False, True] 1)) 1"
  using eviction_victims [OF _ _ sample_schedule_ok sample_schedule_ok _ refl,
      of 1 "[False, True, False]" True "[7, 8, 9]" "[False, False, True]" 1]
  by simp

end
