(* ===== verification/Scatter_Gather.thy ===== *)
theory Scatter_Gather
  imports Storage
begin

text \<open>
  Movement of records between the Primary Store in host memory (indexed by CRID) and the GPU
  cache (indexed by GRID) (\<^verbatim>\<open>scatter_gather.h\<close>, \<^verbatim>\<open>scatter_gather.cu\<close>). Admission packs both
  tags and the epoch-start value of each record; writeback packs one tag and its value. Both
  run in chunks over two buffers, the writeback one chunk behind. The lemmas show that the
  chunked pipelines move exactly what one pass would, that an admitted record reads in the
  cache as it does in the Primary Store, and that a writeback cut off at any point never
  leaves a new tag beside an old value.
\<close>

type_synonym 'v recs = "u32 \<Rightarrow> 'v Record"

definition classify_prev_slot_host :: "u32 \<Rightarrow> u32 \<Rightarrow> u32 \<Rightarrow> u8" where
  "classify_prev_slot_host v1 v2 epoch =
     (if v1 = epoch then 1
      else if v2 = epoch then 0
      else if v1 < v2 then 1
      else 0)"

subsection \<open>Admission\<close>

text \<open>One packed element: both tags and the selected value (\<open>None\<close>: the zeroed element of a
  sentinel), with the slot the value belongs to.\<close>

type_synonym 'v packed = "u32 \<times> u32 \<times> 'v"

definition gather_one :: "'v \<Rightarrow> 'v recs \<Rightarrow> u32 \<Rightarrow> u32 \<Rightarrow> 'v packed \<times> u8" where
  "gather_one zero CPU_recs epoch crid =
     (if crid = sentinel then ((0, 0, zero), 0)
      else let rec = CPU_recs crid;
               slot = classify_prev_slot_host (version1 rec) (version2 rec) epoch
           in ((version1 rec, version2 rec, if slot = 0 then value1 rec else value2 rec), slot))"

definition gather_host_versions :: "'v \<Rightarrow> 'v recs \<Rightarrow> u32 list \<Rightarrow> u32 \<Rightarrow> ('v packed \<times> u8) list" where
  "gather_host_versions zero CPU_recs h_crids epoch = map (gather_one zero CPU_recs epoch) h_crids"

definition gather_host_versions_range ::
  "'v \<Rightarrow> 'v recs \<Rightarrow> u32 list \<Rightarrow> nat \<Rightarrow> nat \<Rightarrow> u32 \<Rightarrow> ('v packed \<times> u8) list" where
  "gather_host_versions_range zero CPU_recs h_crids base n epoch =
     map (\<lambda>i. gather_one zero CPU_recs epoch (h_crids ! (base + i))) [0..<n]"

text \<open>One element of \<^verbatim>\<open>k_scatter_versions\<close> (a thread) and \<^verbatim>\<open>k_scatter_versions_warp\<close> (a warp).\<close>

definition k_scatter_versions :: "u32 \<times> 'v packed \<times> u8 \<Rightarrow> 'v recs \<Rightarrow> 'v recs" where
  "k_scatter_versions e dst =
     (case e of (g, (v1, v2, val), slot) \<Rightarrow>
       (let r = (dst g)\<lparr>version1 := v1, version2 := v2\<rparr>
        in dst(g := (if slot = 0 then r\<lparr>value1 := val\<rparr> else r\<lparr>value2 := val\<rparr>))))"

definition scatter_device_versions ::
  "u32 list \<Rightarrow> ('v packed \<times> u8) list \<Rightarrow> 'v recs \<Rightarrow> 'v recs" where
  "scatter_device_versions h_grids packed GPU_recs =
     fold k_scatter_versions (zip h_grids packed) GPU_recs"

text \<open>The chunk size of \<^verbatim>\<open>transfer_versions\<close>, in elements.\<close>

definition transfer_chunk_elems :: "nat \<Rightarrow> nat \<Rightarrow> nat \<Rightarrow> nat" where
  "transfer_chunk_elems chunk_bytes bytes_per_elem n =
     (let MAX_CHUNK_CAP = 32 * 2 ^ 20; MIN_CHUNK_FLOOR = 4 * 2 ^ 20;
          total_payload_bytes = n * bytes_per_elem;
          adaptive_chunk_bytes = min MAX_CHUNK_CAP (max MIN_CHUNK_FLOOR total_payload_bytes);
          effective_chunk_bytes = min MAX_CHUNK_CAP (max chunk_bytes adaptive_chunk_bytes)
      in max 1 (effective_chunk_bytes div bytes_per_elem))"

text \<open>The chunk loop; \<open>bufs\<close> are the two staging buffers. A chunk size of 0 does not occur.\<close>

function transfer_loop ::
  "'v \<Rightarrow> u32 list \<Rightarrow> u32 list \<Rightarrow> u32 \<Rightarrow> 'v recs \<Rightarrow> nat \<Rightarrow> nat \<Rightarrow> bool \<Rightarrow>
   (bool \<Rightarrow> ('v packed \<times> u8) list) \<Rightarrow> 'v recs \<Rightarrow> 'v recs" where
  "transfer_loop zero h_crids h_grids epoch CPU_recs chunk base buf bufs GPU_recs =
     (if base < length h_crids \<and> 0 < chunk
      then let m = min chunk (length h_crids - base);
               bufs' = bufs(buf := gather_host_versions_range zero CPU_recs h_crids base m epoch);
               GPU' = scatter_device_versions (take m (drop base h_grids)) (bufs' buf) GPU_recs
           in transfer_loop zero h_crids h_grids epoch CPU_recs chunk (base + m) (\<not> buf) bufs' GPU'
      else GPU_recs)"
  by pat_completeness auto
termination
  by (relation "measure (\<lambda>(zero, h_crids, h_grids, epoch, CPU_recs, chunk, base, buf, bufs, GPU_recs).
        length h_crids - base)") auto

declare transfer_loop.simps [simp del]

definition transfer_versions ::
  "bool \<Rightarrow> nat \<Rightarrow> nat \<Rightarrow> 'v \<Rightarrow> u32 list \<Rightarrow> u32 list \<Rightarrow> u32 \<Rightarrow> 'v recs \<Rightarrow> 'v recs \<Rightarrow> 'v recs" where
  "transfer_versions chunk_mode chunk_bytes bytes_per_elem zero h_crids h_grids epoch CPU_recs GPU_recs =
     (if h_crids = [] then GPU_recs
      else if \<not> chunk_mode
      then scatter_device_versions h_grids (gather_host_versions zero CPU_recs h_crids epoch) GPU_recs
      else transfer_loop zero h_crids h_grids epoch CPU_recs
             (transfer_chunk_elems chunk_bytes bytes_per_elem (length h_crids)) 0 False (\<lambda>_. []) GPU_recs)"

subsection \<open>Writeback\<close>

text \<open>One element of \<^verbatim>\<open>k_pack_versions_by_grids\<close> and its warp variant: tag and value of the
  selected slot.\<close>

definition k_pack_versions_by_grids :: "'v recs \<Rightarrow> u32 \<Rightarrow> u8 \<Rightarrow> u32 \<times> 'v" where
  "k_pack_versions_by_grids GPU_recs g slot =
     (if slot = 0 then (version1 (GPU_recs g), value1 (GPU_recs g))
      else (version2 (GPU_recs g), value2 (GPU_recs g)))"

text \<open>The two stores of one element into the Primary Store: the value, then (after a fence) the
  tag.\<close>

definition put_value :: "u8 \<Rightarrow> 'v \<Rightarrow> 'v Record \<Rightarrow> 'v Record" where
  "put_value slot v r = (if slot = 0 then r\<lparr>value1 := v\<rparr> else r\<lparr>value2 := v\<rparr>)"

definition put_tag :: "u8 \<Rightarrow> u32 \<Rightarrow> 'v Record \<Rightarrow> 'v Record" where
  "put_tag slot t r = (if slot = 0 then r\<lparr>version1 := t\<rparr> else r\<lparr>version2 := t\<rparr>)"

type_synonym 'v wb_item = "u32 \<times> u8 \<times> u32 \<times> 'v"

definition scatter_host_one :: "'v wb_item \<Rightarrow> 'v recs \<Rightarrow> 'v recs" where
  "scatter_host_one item CPU_recs =
     (case item of (crid, slot, tag, v) \<Rightarrow>
       if crid = sentinel then CPU_recs
       else let r1 = CPU_recs(crid := put_value slot v (CPU_recs crid))
            in r1(crid := put_tag slot tag (r1 crid)))"

definition scatter_host_versions_range_from_packed ::
  "u32 list \<Rightarrow> u8 list \<Rightarrow> nat \<Rightarrow> nat \<Rightarrow> (u32 \<times> 'v) list \<Rightarrow> 'v recs \<Rightarrow> 'v recs" where
  "scatter_host_versions_range_from_packed h_crids h_curr_slots base n packed CPU_recs =
     fold (\<lambda>i. scatter_host_one (h_crids ! (base + i), h_curr_slots ! (base + i), packed ! i)) [0..<n] CPU_recs"

text \<open>The chunk loop of \<^verbatim>\<open>writeback_versions\<close>: each buffer remembers the base and length of the
  chunk it holds (length 0: nothing); the other buffer is scattered while this one is filled.\<close>

function writeback_loop ::
  "u32 list \<Rightarrow> u32 list \<Rightarrow> u8 list \<Rightarrow> nat \<Rightarrow> 'v recs \<Rightarrow> nat \<Rightarrow> bool \<Rightarrow>
   (bool \<Rightarrow> nat \<times> nat \<times> (u32 \<times> 'v) list) \<Rightarrow> 'v recs \<Rightarrow> (bool \<Rightarrow> nat \<times> nat \<times> (u32 \<times> 'v) list) \<times> 'v recs" where
  "writeback_loop h_grids h_crids h_slots chunk GPU_recs base buf bufs CPU_recs =
     (if base < length h_crids \<and> 0 < chunk
      then let m = min chunk (length h_crids - base);
               packed = map (\<lambda>i. k_pack_versions_by_grids GPU_recs (h_grids ! (base + i)) (h_slots ! (base + i))) [0..<m];
               bufs1 = bufs(buf := (base, m, packed));
               (pb, pl, pp) = bufs1 (\<not> buf);
               (bufs2, CPU') = (if pl \<noteq> 0
                  then (bufs1((\<not> buf) := (pb, 0, pp)),
                        scatter_host_versions_range_from_packed h_crids h_slots pb pl pp CPU_recs)
                  else (bufs1, CPU_recs))
           in writeback_loop h_grids h_crids h_slots chunk GPU_recs (base + m) (\<not> buf) bufs2 CPU'
      else (bufs, CPU_recs))"
  by pat_completeness auto
termination
  by (relation "measure (\<lambda>(h_grids, h_crids, h_slots, chunk, GPU_recs, base, buf, bufs, CPU_recs).
        length h_crids - base)") auto

declare writeback_loop.simps [simp del]

definition drain_buffer ::
  "u32 list \<Rightarrow> u8 list \<Rightarrow> nat \<times> nat \<times> (u32 \<times> 'v) list \<Rightarrow> 'v recs \<Rightarrow> 'v recs" where
  "drain_buffer h_crids h_slots b CPU_recs =
     (case b of (pb, pl, pp) \<Rightarrow>
       if pl \<noteq> 0 then scatter_host_versions_range_from_packed h_crids h_slots pb pl pp CPU_recs else CPU_recs)"

definition writeback_versions ::
  "bool \<Rightarrow> nat \<Rightarrow> nat \<Rightarrow> u32 list \<Rightarrow> u32 list \<Rightarrow> u8 list \<Rightarrow> 'v recs \<Rightarrow> 'v recs \<Rightarrow> 'v recs" where
  "writeback_versions chunk_mode chunk_bytes bytes_per_elem h_grids h_crids h_slots GPU_recs CPU_recs =
     (if h_crids = [] then CPU_recs
      else if \<not> chunk_mode
      then scatter_host_versions_range_from_packed h_crids h_slots 0 (length h_crids)
             (map (\<lambda>i. k_pack_versions_by_grids GPU_recs (h_grids ! i) (h_slots ! i)) [0..<length h_crids]) CPU_recs
      else let (bufs, CPU1) = writeback_loop h_grids h_crids h_slots (max 1 (chunk_bytes div bytes_per_elem))
                                GPU_recs 0 False (\<lambda>_. (0, 0, [])) CPU_recs
           in drain_buffer h_crids h_slots (bufs True) (drain_buffer h_crids h_slots (bufs False) CPU1))"

text \<open>\<^verbatim>\<open>wb_chunked_d2h_scatter\<close>: chunks of the packed buffer, scattered one behind the copy.\<close>

definition wb_chunk_elems :: "nat \<Rightarrow> nat \<Rightarrow> nat" where
  "wb_chunk_elems bytes_per_elem num_records =
     (let kAutotuneBytesPerChunk = 6 * 1024 * 1024;
          total_bytes = num_records * bytes_per_elem;
          chunks = (total_bytes + kAutotuneBytesPerChunk - 1) div kAutotuneBytesPerChunk;
          chunks1 = (if chunks < 1 then 1 else chunks);
          chunks2 = (if chunks1 > 64 then 64 else chunks1)
      in max 1 ((num_records + chunks2 - 1) div chunks2))"

function wb_chunked_loop ::
  "u32 list \<Rightarrow> u8 list \<Rightarrow> (u32 \<times> 'v) list \<Rightarrow> nat \<Rightarrow> nat \<Rightarrow> nat \<Rightarrow> nat \<Rightarrow> bool \<Rightarrow>
   (bool \<Rightarrow> (u32 \<times> 'v) list) \<Rightarrow> (nat \<times> nat \<times> bool) option \<Rightarrow> 'v recs \<Rightarrow>
   (bool \<Rightarrow> (u32 \<times> 'v) list) \<times> (nat \<times> nat \<times> bool) option \<times> 'v recs" where
  "wb_chunked_loop h_crids h_slots d_packed start_record num_records chunk offset buf bufs prev CPU_recs =
     (if offset < num_records \<and> 0 < chunk
      then let m = min chunk (num_records - offset);
               bufs' = bufs(buf := take m (drop (start_record + offset) d_packed));
               CPU' = (case prev of None \<Rightarrow> CPU_recs
                       | Some (pb, pm, pbuf) \<Rightarrow>
                           scatter_host_versions_range_from_packed h_crids h_slots pb pm (bufs' pbuf) CPU_recs)
           in wb_chunked_loop h_crids h_slots d_packed start_record num_records chunk (offset + m) (\<not> buf)
                bufs' (Some (start_record + offset, m, buf)) CPU'
      else (bufs, prev, CPU_recs))"
  by pat_completeness auto
termination
  by (relation "measure (\<lambda>(h_crids, h_slots, d_packed, start_record, num_records, chunk, offset, buf, bufs, prev, CPU_recs).
        num_records - offset)") auto

declare wb_chunked_loop.simps [simp del]

definition wb_chunked_d2h_scatter ::
  "nat \<Rightarrow> u32 list \<Rightarrow> u8 list \<Rightarrow> (u32 \<times> 'v) list \<Rightarrow> nat \<Rightarrow> nat \<Rightarrow> nat \<Rightarrow> 'v recs \<Rightarrow> 'v recs" where
  "wb_chunked_d2h_scatter bytes_per_elem h_crids h_slots d_packed n start_record num_records CPU_recs =
     (let num = (if num_records = 0 then n - start_record else num_records)
      in if num = 0 then CPU_recs
         else case wb_chunked_loop h_crids h_slots d_packed start_record num (wb_chunk_elems bytes_per_elem num)
                     0 False (\<lambda>_. []) None CPU_recs of
                (bufs, None, CPU') \<Rightarrow> CPU'
              | (bufs, Some (pb, pm, pbuf), CPU') \<Rightarrow>
                  scatter_host_versions_range_from_packed h_crids h_slots pb pm (bufs pbuf) CPU')"

subsection \<open>The chunked pipelines\<close>

lemma gather_range:
  assumes "base + m \<le> length crids"
  shows "gather_host_versions_range zero CPU crids base m e = map (gather_one zero CPU e) (take m (drop base crids))"
  using assms by (intro nth_equalityI) (simp_all add: gather_host_versions_range_def)

lemma transfer_loop_all:
  assumes "length grids = length crids" and "0 < chunk"
  shows "transfer_loop zero crids grids e CPU chunk base buf bufs GPU =
         scatter_device_versions (drop base grids) (gather_host_versions zero CPU (drop base crids) e) GPU"
proof (induction "length crids - base" arbitrary: base buf bufs GPU rule: less_induct)
  case less
  note unfold = transfer_loop.simps [of zero crids grids e CPU chunk base buf bufs GPU]
  show ?case
  proof (cases "base < length crids")
    case True
    let ?m = "min chunk (length crids - base)"
    let ?T = "map (gather_one zero CPU e) (take ?m (drop base crids))"
    have m: "base + ?m \<le> length crids" using True by auto
    have dec: "length crids - (base + ?m) < length crids - base" using True assms(2) by linarith
    have a: "take ?m (drop base xs) @ drop (base + ?m) xs = drop base xs" for xs :: "u32 list"
      using append_take_drop_id [of ?m "drop base xs"] by (simp add: drop_drop add.commute)
    have l: "length (take ?m (drop base grids)) = length ?T" using assms(1) by simp
    have split: "scatter_device_versions (drop base grids) (gather_host_versions zero CPU (drop base crids) e) GPU =
        scatter_device_versions (drop (base + ?m) grids) (gather_host_versions zero CPU (drop (base + ?m) crids) e)
          (scatter_device_versions (take ?m (drop base grids)) ?T GPU)"
      unfolding scatter_device_versions_def gather_host_versions_def
      by (subst a [of grids, symmetric], subst a [of crids, symmetric]) (simp add: l del: length_take length_map)
    have "transfer_loop zero crids grids e CPU chunk base buf bufs GPU =
        transfer_loop zero crids grids e CPU chunk (base + ?m) (\<not> buf) (bufs(buf := ?T))
          (scatter_device_versions (take ?m (drop base grids)) ?T GPU)"
      using True assms(2) unfold by (simp add: Let_def gather_range [OF m])
    then show ?thesis unfolding split by (simp only: less [OF dec])
  next
    case False
    then show ?thesis
      using assms(1) unfold by (simp add: scatter_device_versions_def gather_host_versions_def)
  qed
qed

lemma transfer_chunk_pos: "0 < transfer_chunk_elems cb bpe n"
  by (simp add: transfer_chunk_elems_def Let_def)

lemma transfer_versions_eq:
  assumes "length grids = length crids"
  shows "transfer_versions cm cb bpe zero crids grids e CPU GPU =
         scatter_device_versions grids (gather_host_versions zero CPU crids e) GPU"
  using transfer_loop_all [OF assms transfer_chunk_pos, of zero e CPU _ _ _ 0] assms
  by (simp add: transfer_versions_def scatter_device_versions_def gather_host_versions_def)

text \<open>The items a writeback stores, in order.\<close>

definition wb_items :: "u32 list \<Rightarrow> u8 list \<Rightarrow> (u32 \<times> 'v) list \<Rightarrow> nat \<Rightarrow> nat \<Rightarrow> 'v wb_item list" where
  "wb_items crids slots packed a b = map (\<lambda>i. (crids ! i, slots ! i, packed ! i)) [a..<b]"

lemma scatter_range_items:
  assumes "\<And>i. i < m \<Longrightarrow> pp ! i = packed ! (base + i)"
  shows "scatter_host_versions_range_from_packed crids slots base m pp C =
         fold scatter_host_one (wb_items crids slots packed base (base + m)) C"
proof -
  have "[base..<base + m] = map (\<lambda>i. base + i) [0..<m]"
    using map_add_upt [of base m] by (simp add: add.commute)
  then show ?thesis
    unfolding scatter_host_versions_range_from_packed_def wb_items_def
    by (simp add: fold_map comp_def) (rule fold_cong, simp_all add: assms)
qed

lemma wb_items_append: "a \<le> b \<Longrightarrow> b \<le> c \<Longrightarrow>
    wb_items crids slots packed a c = wb_items crids slots packed a b @ wb_items crids slots packed b c"
  unfolding wb_items_def using upt_add_eq_append [of a b "c - b"] by simp

definition wb_pending :: "(u32 \<times> 'v) list \<Rightarrow> nat \<Rightarrow> nat \<times> nat \<times> (u32 \<times> 'v) list \<Rightarrow> bool" where
  "wb_pending packed base b \<longleftrightarrow>
     (case b of (pb, pl, pp) \<Rightarrow> pl = 0 \<or> (pb + pl = base \<and> (\<forall>i < pl. pp ! i = packed ! (pb + i))))"

definition pending_from :: "nat \<Rightarrow> nat \<times> nat \<times> (u32 \<times> 'v) list \<Rightarrow> nat" where
  "pending_from base b = (case b of (pb, pl, pp) \<Rightarrow> if pl = 0 then base else pb)"

lemma drain_pending:
  assumes "wb_pending packed base b"
  shows "drain_buffer crids slots b C = fold scatter_host_one (wb_items crids slots packed (pending_from base b) base) C"
    and "pending_from base b \<le> base"
proof -
  obtain pb pl pp where b: "b = (pb, pl, pp)" by (cases b)
  show "drain_buffer crids slots b C = fold scatter_host_one (wb_items crids slots packed (pending_from base b) base) C"
    using assms scatter_range_items [of pl pp packed pb crids slots C]
    by (auto simp: b drain_buffer_def wb_pending_def pending_from_def wb_items_def)
  show "pending_from base b \<le> base" using assms by (auto simp: b wb_pending_def pending_from_def)
qed

lemma writeback_loop_all:
  assumes "packed = map (\<lambda>i. k_pack_versions_by_grids GPU (grids ! i) (slots ! i)) [0..<length crids]"
    and "0 < chunk" and "base \<le> length crids"
    and "fst (snd (bufs buf)) = 0" and "wb_pending packed base (bufs (\<not> buf))"
    and "writeback_loop grids crids slots chunk GPU base buf bufs C = (bufs', C')"
  shows "drain_buffer crids slots (bufs' True) (drain_buffer crids slots (bufs' False) C') =
         fold scatter_host_one (wb_items crids slots packed (pending_from base (bufs (\<not> buf))) (length crids)) C"
  using assms(3-6)
proof (induction "length crids - base" arbitrary: base buf bufs C rule: less_induct)
  case less
  note packed = assms(1) and chunk = assms(2) and base = less(2) and empty = less(3) and pend = less(4)
    and run = less(5)
  obtain pb pl pp where p: "bufs (\<not> buf) = (pb, pl, pp)" by (cases "bufs (\<not> buf)")
  note dp = drain_pending(1) [OF pend, of crids slots] drain_pending(2) [OF pend]
  show ?case
  proof (cases "base < length crids")
    case True
    let ?m = "min chunk (length crids - base)"
    let ?new = "map (\<lambda>i. k_pack_versions_by_grids GPU (grids ! (base + i)) (slots ! (base + i))) [0..<?m]"
    let ?b2 = "bufs(buf := (base, ?m, ?new), (\<not> buf) := (pb, 0, pp))"
    let ?C2 = "drain_buffer crids slots (bufs (\<not> buf)) C"
    have m: "0 < ?m" "base + ?m \<le> length crids" using True chunk by auto
    have b2: "(if pl \<noteq> 0 then bufs(buf := (base, ?m, ?new), (\<not> buf) := (pb, 0, pp))
        else bufs(buf := (base, ?m, ?new))) = ?b2"
      using p by (auto simp: fun_eq_iff)
    have step: "writeback_loop grids crids slots chunk GPU (base + ?m) (\<not> buf) ?b2 ?C2 = (bufs', C')"
      using run True chunk b2
      by (simp add: writeback_loop.simps [of grids crids slots chunk GPU base buf bufs C] Let_def p drain_buffer_def
          split: if_splits)
    have pend2: "wb_pending packed (base + ?m) (?b2 (\<not> \<not> buf))"
      using packed m by (auto simp: wb_pending_def)
    have from2: "pending_from (base + ?m) (?b2 (\<not> \<not> buf)) = base"
      using m by (simp add: pending_from_def)
    have "drain_buffer crids slots (bufs' True) (drain_buffer crids slots (bufs' False) C') =
        fold scatter_host_one (wb_items crids slots packed base (length crids)) ?C2"
    proof -
      have dec: "length crids - (base + ?m) < length crids - base" using m(1) True by linarith
      show ?thesis using less(1) [OF dec m(2) _ pend2 step] from2 by simp
    qed
    also have "\<dots> = fold scatter_host_one
        (wb_items crids slots packed (pending_from base (bufs (\<not> buf))) (length crids)) C"
      using dp(1) [of C] wb_items_append [OF dp(2) base, of crids slots packed] by simp
    finally show ?thesis .
  next
    case False
    then have "writeback_loop grids crids slots chunk GPU base buf bufs C = (bufs, C)"
      by (subst writeback_loop.simps) simp
    then have "bufs' = bufs" "C' = C" "base = length crids" using run base False by simp_all
    moreover have "drain_buffer crids slots (bufs buf) X = X" for X
      using empty by (cases "bufs buf") (simp add: drain_buffer_def)
    ultimately show ?thesis
      using dp(1) by (cases buf) simp_all
  qed
qed

lemma writeback_versions_eq:
  "writeback_versions cm cb bpe grids crids slots GPU C =
     fold scatter_host_one (wb_items crids slots
       (map (\<lambda>i. k_pack_versions_by_grids GPU (grids ! i) (slots ! i)) [0..<length crids]) 0 (length crids)) C"
    (is "_ = fold _ (wb_items _ _ ?packed _ _) _")
proof -
  obtain bufs' C' where run: "writeback_loop grids crids slots (max 1 (cb div bpe)) GPU 0 False (\<lambda>_. (0, 0, [])) C = (bufs', C')"
    by fastforce
  have "drain_buffer crids slots (bufs' True) (drain_buffer crids slots (bufs' False) C') =
      fold scatter_host_one (wb_items crids slots ?packed 0 (length crids)) C"
    using writeback_loop_all [OF refl _ _ _ _ run] by (simp add: wb_pending_def pending_from_def)
  moreover have "scatter_host_versions_range_from_packed crids slots 0 (length crids) ?packed C =
      fold scatter_host_one (wb_items crids slots ?packed 0 (length crids)) C"
    using scatter_range_items [of "length crids" ?packed ?packed 0] by simp
  ultimately show ?thesis
    using run by (simp add: writeback_versions_def Let_def wb_items_def)
qed

definition wb_finish ::
  "u32 list \<Rightarrow> u8 list \<Rightarrow> (bool \<Rightarrow> (u32 \<times> 'v) list) \<times> (nat \<times> nat \<times> bool) option \<times> 'v recs \<Rightarrow> 'v recs" where
  "wb_finish crids slots r =
     (case r of (bufs, None, C') \<Rightarrow> C'
      | (bufs, Some (pb, pm, pbuf), C') \<Rightarrow>
          scatter_host_versions_range_from_packed crids slots pb pm (bufs pbuf) C')"

definition chunk_pending ::
  "(u32 \<times> 'v) list \<Rightarrow> nat \<Rightarrow> bool \<Rightarrow> (bool \<Rightarrow> (u32 \<times> 'v) list) \<Rightarrow> (nat \<times> nat \<times> bool) option \<Rightarrow> bool" where
  "chunk_pending packed absb buf bufs prev \<longleftrightarrow>
     (case prev of None \<Rightarrow> True
      | Some (pb, pm, pbuf) \<Rightarrow> pbuf = (\<not> buf) \<and> pb + pm = absb \<and> (\<forall>i < pm. bufs pbuf ! i = packed ! (pb + i)))"

definition chunk_from :: "nat \<Rightarrow> (nat \<times> nat \<times> bool) option \<Rightarrow> nat" where
  "chunk_from absb prev = (case prev of None \<Rightarrow> absb | Some (pb, pm, pbuf) \<Rightarrow> pb)"

lemma finish_pending:
  assumes "chunk_pending packed absb buf bufs prev"
  shows "wb_finish crids slots (bufs, prev, C) = fold scatter_host_one (wb_items crids slots packed (chunk_from absb prev) absb) C"
    and "chunk_from absb prev \<le> absb"
  using assms
  by (auto simp: chunk_pending_def wb_finish_def chunk_from_def wb_items_def [of _ _ _ absb absb]
      scatter_range_items split: option.splits)

lemma wb_chunked_loop_all:
  assumes "0 < chunk" and "start + num \<le> length packed" and "offset \<le> num"
    and "chunk_pending packed (start + offset) buf bufs prev"
  shows "wb_finish crids slots (wb_chunked_loop crids slots packed start num chunk offset buf bufs prev C) =
         fold scatter_host_one (wb_items crids slots packed (chunk_from (start + offset) prev) (start + num)) C"
  using assms(3,4)
proof (induction "num - offset" arbitrary: offset buf bufs prev C rule: less_induct)
  case less
  note unfold = wb_chunked_loop.simps [of crids slots packed start num chunk offset buf bufs prev C]
  note fin = finish_pending(1) [OF less(3), of crids slots] finish_pending(2) [OF less(3)]
  show ?case
  proof (cases "offset < num")
    case True
    let ?m = "min chunk (num - offset)"
    let ?bufs = "bufs(buf := take ?m (drop (start + offset) packed))"
    let ?C = "wb_finish crids slots (bufs, prev, C)"
    have m: "offset + ?m \<le> num" "0 < ?m" using True assms(1) by auto
    have dec: "num - (offset + ?m) < num - offset" using m(2) True by linarith
    have pend: "chunk_pending packed (start + (offset + ?m)) (\<not> buf) ?bufs (Some (start + offset, ?m, buf))"
      using assms(2) m(1) by (auto simp: chunk_pending_def)
    have "wb_chunked_loop crids slots packed start num chunk offset buf bufs prev C =
        wb_chunked_loop crids slots packed start num chunk (offset + ?m) (\<not> buf) ?bufs (Some (start + offset, ?m, buf)) ?C"
      using True assms(1) less(3) unfold
      by (auto simp: Let_def wb_finish_def chunk_pending_def split: option.split)
    then have "wb_finish crids slots (wb_chunked_loop crids slots packed start num chunk offset buf bufs prev C) =
        fold scatter_host_one (wb_items crids slots packed (start + offset) (start + num)) ?C"
      using less(1) [OF dec m(1) pend] by (simp add: chunk_from_def)
    also have "\<dots> = fold scatter_host_one (wb_items crids slots packed (chunk_from (start + offset) prev) (start + num)) C"
      using fin wb_items_append [OF fin(2), of "start + num" crids slots packed] less(2) by simp
    finally show ?thesis .
  next
    case False
    then have "wb_chunked_loop crids slots packed start num chunk offset buf bufs prev C = (bufs, prev, C)"
      "offset = num"
      using unfold less(2) by simp_all
    with fin(1) show ?thesis by simp
  qed
qed

lemma wb_chunk_pos: "0 < wb_chunk_elems bpe n"
  unfolding wb_chunk_elems_def Let_def by (simp only: less_max_iff_disj) simp

lemma wb_chunked_eq:
  assumes "start + num \<le> length packed" and "num \<noteq> 0"
  shows "wb_chunked_d2h_scatter bpe crids slots packed n start num C =
         fold scatter_host_one (wb_items crids slots packed start (start + num)) C"
proof -
  have "wb_chunked_d2h_scatter bpe crids slots packed n start num C =
      wb_finish crids slots (wb_chunked_loop crids slots packed start num (wb_chunk_elems bpe num) 0 False (\<lambda>_. []) None C)"
    using assms(2) by (simp add: wb_chunked_d2h_scatter_def wb_finish_def Let_def)
  also have "\<dots> = fold scatter_host_one (wb_items crids slots packed start (start + num)) C"
    using wb_chunked_loop_all [OF wb_chunk_pos assms(1), of 0 False "\<lambda>_. []" None]
    by (simp add: chunk_pending_def chunk_from_def)
  finally show ?thesis .
qed

text \<open>C21: The chunked, double-buffered writeback pipelines store exactly what one pass over the
  packed records would, in the same order, for every chunk size and every number of records:
  no record is dropped at a chunk boundary or left in a buffer.\<close>

theorem writeback_pipelines_equal_single_pass:
  assumes "packed = map (\<lambda>i. k_pack_versions_by_grids GPU (grids ! i) (slots ! i)) [0..<length crids]"
  shows "writeback_versions True chunk_bytes bytes_per_elem grids crids slots GPU CPU =
           writeback_versions False chunk_bytes bytes_per_elem grids crids slots GPU CPU
       \<and> wb_chunked_d2h_scatter bytes_per_elem crids slots packed (length crids) 0 0 CPU =
           writeback_versions False chunk_bytes bytes_per_elem grids crids slots GPU CPU"
proof -
  have "wb_chunked_d2h_scatter b crids slots packed n 0 0 CPU = wb_chunked_d2h_scatter b crids slots packed n 0 n CPU" for b n
    by (simp add: wb_chunked_d2h_scatter_def)
  moreover have "wb_chunked_d2h_scatter b crids slots packed (length crids) 0 (length crids) CPU =
      fold scatter_host_one (wb_items crids slots packed 0 (length crids)) CPU" for b
    using wb_chunked_eq [of 0 "length crids" packed b crids slots "length crids" CPU] assms
    by (cases "crids = []") (simp_all add: wb_chunked_d2h_scatter_def wb_items_def)
  ultimately show ?thesis by (simp add: writeback_versions_eq assms)
qed

definition sample_gpu :: "u32 \<Rightarrow> nat Record" where
  "sample_gpu g = \<lparr>value1 = unat g, version1 = 4, value2 = 7, version2 = 3\<rparr>"

theorem writeback_pipelines_equal_single_pass_witness:
  "wb_chunked_d2h_scatter 8 [5, 6] [0, 1]
      (map (\<lambda>i. k_pack_versions_by_grids sample_gpu ([1, 2] ! i) ([0, 1] ! i)) [0..<length [5, 6 :: u32]])
      (length [5, 6 :: u32]) 0 0 sample_gpu
     = writeback_versions False 64 8 [1, 2] [5, 6] [0, 1] sample_gpu sample_gpu"
  using writeback_pipelines_equal_single_pass [where GPU = sample_gpu and grids = "[1, 2]" and slots = "[0, 1]"
      and crids = "[5, 6]" and chunk_bytes = 64 and bytes_per_elem = 8 and CPU = sample_gpu, OF refl]
  by blast

subsection \<open>Admission\<close>

definition mem_of :: "'v recs \<Rightarrow> 'v memory" where
  "mem_of r = \<lparr>recs = r, vers = undefined, dirty_v1 = None, dirty_v2 = None\<rparr>"

lemma fold_scatter_versions_notin:
  "g \<notin> fst ` set es \<Longrightarrow> fold k_scatter_versions es dst g = dst g"
  by (induction es arbitrary: dst) (auto simp: k_scatter_versions_def Let_def split: prod.splits)

lemma fold_scatter_versions_in:
  assumes "distinct (map fst es)" and "(g, p) \<in> set es"
  shows "fold k_scatter_versions es dst g = k_scatter_versions (g, p) dst g"
  using assms
proof (induction es arbitrary: dst)
  case (Cons e es)
  show ?case
  proof (cases "(g, p) \<in> set es")
    case True
    then have "g \<in> fst ` set es" by (rule image_eqI [rotated]) simp
    then have "fst e \<noteq> g" using Cons.prems(1) by auto
    then have "k_scatter_versions e dst g = dst g"
      by (cases e) (simp add: k_scatter_versions_def Let_def split: prod.splits)
    then have "k_scatter_versions (g, p) (k_scatter_versions e dst) g = k_scatter_versions (g, p) dst g"
      by (simp add: k_scatter_versions_def Let_def split: prod.splits)
    with Cons True show ?thesis by simp
  next
    case False
    then have "e = (g, p)" using Cons.prems(2) by simp
    moreover have "g \<notin> fst ` set es" using Cons.prems(1) \<open>e = (g, p)\<close> by simp
    ultimately show ?thesis by (simp add: fold_scatter_versions_notin)
  qed
qed simp

lemma transfer_at:
  assumes "length grids = length crids" and "distinct grids" and "i < length crids"
  shows "transfer_versions cm cb bpe zero crids grids e CPU GPU (grids ! i) =
         k_scatter_versions (grids ! i, gather_one zero CPU e (crids ! i)) GPU (grids ! i)"
proof -
  have "(grids ! i, gather_one zero CPU e (crids ! i)) \<in> set (zip grids (map (gather_one zero CPU e) crids))"
    using assms(1,3) by (force simp: set_zip)
  moreover have "distinct (map fst (zip grids (map (gather_one zero CPU e) crids)))" using assms by simp
  ultimately show ?thesis
    using assms(1) by (simp add: transfer_versions_eq scatter_device_versions_def gather_host_versions_def
        fold_scatter_versions_in)
qed

lemma transfer_other:
  "length grids = length crids \<Longrightarrow> g \<notin> set grids \<Longrightarrow> transfer_versions cm cb bpe zero crids grids e CPU GPU g = GPU g"
proof -
  assume "length grids = length crids" "g \<notin> set grids"
  moreover from this have "g \<notin> fst ` set (zip grids (map (gather_one zero CPU e) crids))"
    by (auto dest: set_zip_leftD)
  ultimately show ?thesis
    by (simp add: transfer_versions_eq scatter_device_versions_def gather_host_versions_def
        fold_scatter_versions_notin)
qed

text \<open>The value an epoch-start read of a record returns, and when two records give the same.\<close>

definition start_value :: "u32 \<Rightarrow> 'v Record \<Rightarrow> 'v" where
  "start_value e r = (if classify_prev_slot_host (version1 r) (version2 r) e = 0 then value1 r else value2 r)"

definition reads_as :: "u32 \<Rightarrow> 'v Record \<Rightarrow> 'v Record \<Rightarrow> bool" where
  "reads_as e r r' \<longleftrightarrow> version1 r = version1 r' \<and> version2 r = version2 r' \<and> start_value e r = start_value e r'"

lemma readFromTable_mem_of: "readFromTable (mem_of m) r loc_record_a e = Some (start_value e (m r))"
  by (simp add: readFromTable_def mem_of_def read_choice_def read_a_slot_def classify_prev_slot_host_def start_value_def)

lemma transfer_reads_as:
  assumes "length grids = length crids" and "distinct grids" and "i < length crids" and "crids ! i \<noteq> sentinel"
  shows "reads_as e (transfer_versions cm cb bpe zero crids grids e CPU GPU (grids ! i)) (CPU (crids ! i))"
  using assms(4)
  by (simp add: transfer_at [OF assms(1-3)] reads_as_def start_value_def k_scatter_versions_def gather_one_def Let_def)

text \<open>An admitted record has in its cache slot the tags it has in the Primary Store, and
  an epoch-start read of the slot returns what an epoch-start read of the Primary Store would;
  slots that are not admitted keep their contents.\<close>

lemma admission_preserves_reads:
  assumes "length grids = length crids" and "distinct grids" and "i < length crids" and "crids ! i \<noteq> sentinel"
    and "cache = transfer_versions chunk_mode chunk_bytes bytes_per_elem zero crids grids e CPU GPU"
  shows "version1 (cache (grids ! i)) = version1 (CPU (crids ! i))
       \<and> version2 (cache (grids ! i)) = version2 (CPU (crids ! i))
       \<and> readFromTable (mem_of cache) (grids ! i) loc_record_a e = readFromTable (mem_of CPU) (crids ! i) loc_record_a e
       \<and> (\<forall>g. g \<notin> set grids \<longrightarrow> cache g = GPU g)"
  using transfer_reads_as [OF assms(1-4)]
  by (simp add: assms(5) transfer_other [OF assms(1)] readFromTable_mem_of reads_as_def)

lemma admission_preserves_reads_example:
  "readFromTable (mem_of (transfer_versions True 64 8 0 [5, 6] [1, 2] 9 sample_gpu sample_gpu)) 1 loc_record_a 9
     = readFromTable (mem_of sample_gpu) 5 loc_record_a 9"
  using admission_preserves_reads [OF _ _ _ _ refl, of "[1, 2]" "[5, 6]" 0 True 64 8 "0 :: nat" 9 sample_gpu sample_gpu]
  by (simp add: sentinel_def)

subsection \<open>Torn writebacks\<close>

definition slot_of :: "u8 \<Rightarrow> 'v Record \<Rightarrow> u32 \<times> 'v" where
  "slot_of slot r = (if slot = 0 then (version1 r, value1 r) else (version2 r, value2 r))"

definition other_slot :: "u8 \<Rightarrow> u8" where "other_slot slot = (if slot = 0 then 1 else 0)"

text \<open>The stores of the writeback of one item, one by one and in program order: \<^verbatim>\<open>memcpy\<close> stores the
  elements of the value, then, after the fence, the tag is stored. Nothing is stored for a sentinel.\<close>

datatype 'a host_store = ValueStore u32 u8 nat 'a | TagStore u32 u8 u32

definition scatter_host_stores :: "'a list wb_item \<Rightarrow> 'a host_store list" where
  "scatter_host_stores item =
     (case item of (crid, slot, tag, v) \<Rightarrow>
        if crid = sentinel then []
        else map (\<lambda>k. ValueStore crid slot k (v ! k)) [0..<length v] @ [TagStore crid slot tag])"

fun run_store :: "'a host_store \<Rightarrow> 'a list recs \<Rightarrow> 'a list recs" where
  "run_store (ValueStore crid slot k x) C = C(crid := put_value slot ((snd (slot_of slot (C crid)))[k := x]) (C crid))"
| "run_store (TagStore crid slot tag) C = C(crid := put_tag slot tag (C crid))"

text \<open>The slot of a record a store or an item goes to.\<close>

fun store_slot :: "'a host_store \<Rightarrow> u32 \<times> bool" where
  "store_slot (ValueStore crid slot k x) = (crid, slot = 0)"
| "store_slot (TagStore crid slot tag) = (crid, slot = 0)"

definition item_slot :: "'v wb_item \<Rightarrow> u32 \<times> bool" where
  "item_slot item = (case item of (crid, slot, tag, v) \<Rightarrow> (crid, slot = 0))"

text \<open>The stores several host threads have made when the process stops: an interleaving in which the stores of
  each item are the first so many of its stores.\<close>

definition writeback_cut :: "'a list wb_item list \<Rightarrow> 'a host_store list \<Rightarrow> bool" where
  "writeback_cut items stores \<longleftrightarrow>
     (\<forall>st \<in> set stores. store_slot st \<in> item_slot ` {item \<in> set items. fst item \<noteq> sentinel}) \<and>
     (\<forall>item \<in> set items. \<exists>n. filter (\<lambda>st. store_slot st = item_slot item) stores = take n (scatter_host_stores item))"

lemma slot_of_store:
  "slot_of slot (run_store st C c) =
     (if store_slot st = (c, slot = 0)
      then (case st of ValueStore crid sl k x \<Rightarrow> (fst (slot_of slot (C c)), (snd (slot_of slot (C c)))[k := x])
            | TagStore crid sl tag \<Rightarrow> (tag, snd (slot_of slot (C c))))
      else slot_of slot (C c))"
  by (cases st) (auto simp: slot_of_def put_value_def put_tag_def)

text \<open>A slot sees only the stores that go to it.\<close>

lemma slot_of_stores:
  "slot_of slot (fold run_store stores C c) =
     slot_of slot (fold run_store (filter (\<lambda>st. store_slot st = (c, slot = 0)) stores) C c)"
proof -
  have cong: "slot_of slot (fold run_store sts C c) = slot_of slot (fold run_store sts D c)"
    if "slot_of slot (C c) = slot_of slot (D c)" for sts C D
    using that
  proof (induction sts arbitrary: C D)
    case (Cons st sts)
    have "slot_of slot (run_store st C c) = slot_of slot (run_store st D c)"
      using Cons.prems by (simp add: slot_of_store split: host_store.split)
    then show ?case using Cons.IH [of "run_store st C" "run_store st D"] by simp
  qed simp
  show ?thesis
  proof (induction stores arbitrary: C)
    case (Cons st stores)
    show ?case
    proof (cases "store_slot st = (c, slot = 0)")
      case True
      then show ?thesis by (simp add: Cons)
    next
      case False
      then have "slot_of slot (run_store st C c) = slot_of slot (C c)" by (simp add: slot_of_store)
      then have "slot_of slot (fold run_store stores (run_store st C) c) = slot_of slot (fold run_store stores C c)" by (rule cong)
      then show ?thesis using False Cons by simp
    qed
  qed simp
qed

lemma value_stores:
  assumes "k \<le> length v" and "length (snd (slot_of slot (C c))) = length v"
  shows "slot_of slot (fold run_store (map (\<lambda>k. ValueStore c slot k (v ! k)) [0..<k]) C c) =
    (fst (slot_of slot (C c)), take k v @ drop k (snd (slot_of slot (C c))))"
  using assms(1)
proof (induction k)
  case (Suc k)
  then show ?case using assms(2) by (simp add: slot_of_store list_update_append take_Suc_conv_app_nth Cons_nth_drop_Suc [symmetric]
        del: run_store.simps)
qed simp

text \<open>A first part of the stores of an item leaves the old tag, or it is all of them and the slot is the new one.\<close>

lemma item_prefix:
  assumes "c \<noteq> sentinel" and "length (snd (slot_of slot (C c))) = length v"
    and "D = fold run_store (take n (scatter_host_stores (c, slot, tag, v))) C"
  shows "if n \<le> length v then fst (slot_of slot (D c)) = fst (slot_of slot (C c)) else slot_of slot (D c) = (tag, v)"
proof (cases "n \<le> length v")
  case True
  then have "take n (scatter_host_stores (c, slot, tag, v)) = map (\<lambda>k. ValueStore c slot k (v ! k)) [0..<n]"
    using assms(1) by (simp add: scatter_host_stores_def take_map)
  then show ?thesis using True value_stores [where C = C and c = c and slot = slot and v = v, OF True assms(2)] assms(3) by simp
next
  case False
  then have "take n (scatter_host_stores (c, slot, tag, v)) =
      map (\<lambda>k. ValueStore c slot k (v ! k)) [0..<length v] @ [TagStore c slot tag]"
    using assms(1) by (simp add: scatter_host_stores_def)
  then show ?thesis using False value_stores [where C = C and c = c and slot = slot and v = v, OF le_refl assms(2)] assms(2,3) by (simp add: slot_of_store del: run_store.simps)
qed

lemma record_slots_eq:
  fixes r r' :: "'v Record"
  assumes "\<And>slot. slot_of slot r = slot_of slot r'"
  shows "r = r'"
  using assms [of 0] assms [of 1] by (cases r; cases r') (simp add: slot_of_def)

text \<open>The order of stores to different slots does not matter.\<close>

lemma fold_stores_eq:
  assumes "\<And>cell. filter (\<lambda>st. store_slot st = cell) ss = filter (\<lambda>st. store_slot st = cell) ts"
  shows "fold run_store ss C = fold run_store ts C"
  by (rule ext, rule record_slots_eq) (simp add: slot_of_stores [of _ ss] slot_of_stores [of _ ts] assms)

lemma stores_of_item:
  "filter (\<lambda>st. store_slot st = cell) (scatter_host_stores item) = (if cell = item_slot item then scatter_host_stores item else [])"
  by (auto simp: scatter_host_stores_def item_slot_def filter_empty_conv filter_id_conv split: prod.splits)

text \<open>All the stores of an item together are its writeback.\<close>

lemma item_stores_complete:
  assumes "fst item \<noteq> sentinel \<Longrightarrow> length (snd (slot_of (fst (snd item)) (C (fst item)))) = length (snd (snd (snd item)))"
  shows "fold run_store (scatter_host_stores item) C = scatter_host_one item C"
proof (cases "fst item = sentinel")
  case True
  then show ?thesis by (auto simp: scatter_host_stores_def scatter_host_one_def split: prod.splits)
next
  case False
  obtain c sl t v where it: "item = (c, sl, t, v)" by (cases item)
  let ?D = "fold run_store (scatter_host_stores item) C"
  have new: "slot_of sl (?D c) = (t, v)"
    using item_prefix [of c sl C v ?D "Suc (length v)" t] False assms it by (simp add: scatter_host_stores_def)
  have keep: "slot_of slot (?D d) = slot_of slot (C d)" if "(d, slot = 0) \<noteq> (c, sl = 0)" for slot d
  proof -
    have "(d, slot = 0) \<noteq> item_slot item" using that by (simp only: it item_slot_def prod.case) simp
    then show ?thesis using slot_of_stores [of slot "scatter_host_stores item" C d] by (simp only: stores_of_item if_False) simp
  qed
  have same: "slot_of slot (?D c) = slot_of sl (?D c)" if "(slot = 0) = (sl = 0)" for slot
    using that by (auto simp: slot_of_def)
  have "slot_of slot (?D d) = (if (d, slot = 0) = (c, sl = 0) then (t, v) else slot_of slot (C d))" for slot d
  proof (cases "(d, slot = 0) = (c, sl = 0)")
    case True
    then have "d = c" "slot_of slot (?D c) = slot_of sl (?D c)" using same [of slot] by simp_all
    then show ?thesis unfolding if_P [OF True] using new by simp
  next
    case False
    show ?thesis unfolding if_not_P [OF False] by (rule keep [OF False])
  qed
  moreover have "slot_of slot (scatter_host_one item C d) = (if (d, slot = 0) = (c, sl = 0) then (t, v) else slot_of slot (C d))" for slot d
    using False by (auto simp: it scatter_host_one_def slot_of_def put_value_def put_tag_def)
  ultimately show ?thesis by (intro ext record_slots_eq) simp
qed

lemma complete_writeback:
  assumes "distinct (map item_slot (filter (\<lambda>item. fst item \<noteq> sentinel) items))"
    and "\<forall>(crid, slot, tag, v) \<in> set items. crid \<noteq> sentinel \<longrightarrow> length (snd (slot_of slot (CPU crid))) = length v"
  shows "fold run_store (concat (map scatter_host_stores items)) CPU = fold scatter_host_one items CPU"
  using assms
proof (induction items arbitrary: CPU)
  case (Cons item items)
  have here: "fold run_store (scatter_host_stores item) CPU = scatter_host_one item CPU"
    using Cons.prems(2) by (intro item_stores_complete) (auto split: prod.splits)
  have "length (snd (slot_of slot (scatter_host_one item CPU crid))) = length v"
    if i: "(crid, slot, tag, v) \<in> set items" "crid \<noteq> sentinel" for crid slot tag v
  proof -
    have "(crid, slot = 0) \<in> item_slot ` {item \<in> set items. fst item \<noteq> sentinel}"
      using i by (intro image_eqI [of _ _ "(crid, slot, tag, v)"]) (auto simp: item_slot_def)
    then have "fst item = sentinel \<or> item_slot item \<noteq> (crid, slot = 0)" using Cons.prems(1) by (auto split: if_splits)
    then have "slot_of slot (scatter_host_one item CPU crid) = slot_of slot (CPU crid)"
      by (cases item) (auto simp: scatter_host_one_def item_slot_def slot_of_def put_value_def put_tag_def)
    then show ?thesis using Cons.prems(2) i by auto
  qed
  then have "fold run_store (concat (map scatter_host_stores items)) (scatter_host_one item CPU) =
      fold scatter_host_one items (scatter_host_one item CPU)"
    using Cons.prems(1) by (intro Cons.IH) (auto split: if_splits)
  then show ?case by (simp add: here)
qed simp

lemma sentinel_stores: "fst item = sentinel \<Longrightarrow> scatter_host_stores item = []"
  by (auto simp: scatter_host_stores_def split: prod.splits)

lemma stores_elsewhere:
  assumes "cell \<notin> item_slot ` {item \<in> set items. fst item \<noteq> sentinel}"
  shows "filter (\<lambda>st. store_slot st = cell) (concat (map scatter_host_stores items)) = []"
proof -
  have "st \<notin> set (scatter_host_stores y)" if y: "y \<in> set items" "store_slot st = cell" for y st
  proof
    assume st: "st \<in> set (scatter_host_stores y)"
    then have "fst y \<noteq> sentinel" using sentinel_stores [of y] by auto
    moreover have "item_slot y = cell"
      using st y(2) by (auto simp: scatter_host_stores_def item_slot_def split: prod.splits if_splits)
    ultimately show False using assms y(1) by blast
  qed
  then show ?thesis by (auto simp: filter_empty_conv)
qed

lemma cut_elsewhere:
  "writeback_cut items stores \<Longrightarrow> cell \<notin> item_slot ` {item \<in> set items. fst item \<noteq> sentinel} \<Longrightarrow>
   filter (\<lambda>st. store_slot st = cell) stores = []"
  by (auto simp: writeback_cut_def filter_empty_conv)

lemma stores_of_items:
  assumes "distinct (map item_slot (filter (\<lambda>item. fst item \<noteq> sentinel) items))" and "item \<in> set items" and "fst item \<noteq> sentinel"
  shows "filter (\<lambda>st. store_slot st = item_slot item) (concat (map scatter_host_stores items)) = scatter_host_stores item"
  using assms
proof (induction items)
  case (Cons x items)
  show ?case
  proof (cases "x = item")
    case True
    then have "item_slot item \<notin> item_slot ` {item \<in> set items. fst item \<noteq> sentinel}" using Cons.prems by auto
    with stores_elsewhere True show ?thesis by (simp add: stores_of_item)
  next
    case False
    then have "item_slot item \<in> item_slot ` {item \<in> set items. fst item \<noteq> sentinel}" using Cons.prems by auto
    then have "fst x = sentinel \<or> item_slot item \<noteq> item_slot x" using Cons.prems(1) by (auto split: if_splits)
    then have "filter (\<lambda>st. store_slot st = item_slot item) (scatter_host_stores x) = []"
      using sentinel_stores [of x] by (auto simp: stores_of_item)
    then show ?thesis using Cons False by (simp split: if_splits)
  qed
qed simp

text \<open>C22: The host threads store each item of a writeback element by element, the value before the tag. If the process stops at
  any point, also inside the copy of a value, every slot of every record in the Primary Store still has its old tag
  or has the new tag together with the complete new value, and slots the writeback does not address are untouched;
  when all stores have been made the store is the one \<^verbatim>\<open>scatter_host_versions_range_from_packed_\<close> leaves. The items that are
  not skipped address distinct record slots, and values have the size of the slots.\<close>

theorem torn_writeback_safe:
  assumes "distinct (map item_slot (filter (\<lambda>item. fst item \<noteq> sentinel) items))"
    and "\<forall>(crid, slot, tag, v) \<in> set items. crid \<noteq> sentinel \<longrightarrow> length (snd (slot_of slot (CPU crid))) = length v"
    and "writeback_cut items stores" and "torn = fold run_store stores CPU"
  shows "(\<forall>(crid, slot, tag, v) \<in> set items.
            fst (slot_of slot (torn crid)) = fst (slot_of slot (CPU crid)) \<or> slot_of slot (torn crid) = (tag, v))
       \<and> (\<forall>crid slot. (crid, slot = 0) \<notin> item_slot ` set items \<longrightarrow> slot_of slot (torn crid) = slot_of slot (CPU crid))
       \<and> ((\<forall>item \<in> set items. filter (\<lambda>st. store_slot st = item_slot item) stores = scatter_host_stores item) \<longrightarrow>
            torn = fold scatter_host_one items CPU)"
proof (intro conjI impI allI ballI)
  have cut: "\<exists>n. filter (\<lambda>st. store_slot st = item_slot item) stores = take n (scatter_host_stores item)"
    if "item \<in> set items" for item using assms(3) that by (simp add: writeback_cut_def)
  fix item assume item: "item \<in> set items"
  obtain c sl t v where it: "item = (c, sl, t, v)" by (cases item)
  obtain n where n: "filter (\<lambda>st. store_slot st = (c, sl = 0)) stores = take n (scatter_host_stores item)"
    using cut [OF item] by (auto simp: it item_slot_def)
  show "case item of (crid, slot, tag, v) \<Rightarrow>
      fst (slot_of slot (torn crid)) = fst (slot_of slot (CPU crid)) \<or> slot_of slot (torn crid) = (tag, v)"
  proof (cases "c = sentinel")
    case True
    then show ?thesis using slot_of_stores [of sl stores CPU c] n assms(4) by (simp add: it sentinel_stores)
  next
    case False
    then have "length (snd (slot_of sl (CPU c))) = length v" using assms(2) item it by auto
    from item_prefix [where C = CPU and c = c and slot = sl and v = v, OF False this refl, of n t] show ?thesis
      using slot_of_stores [of sl stores CPU c] n assms(4) by (simp add: it split: if_splits)
  qed
next
  fix crid and slot :: u8 assume out: "(crid, slot = 0) \<notin> item_slot ` set items"
  have "filter (\<lambda>st. store_slot st = (crid, slot = 0)) stores = []"
    by (rule cut_elsewhere [OF assms(3)]) (use out in blast)
  then show "slot_of slot (torn crid) = slot_of slot (CPU crid)"
    using slot_of_stores [of slot stores CPU crid] assms(4) by simp
next
  assume all: "\<forall>item \<in> set items. filter (\<lambda>st. store_slot st = item_slot item) stores = scatter_host_stores item"
  have "filter (\<lambda>st. store_slot st = cell) stores = filter (\<lambda>st. store_slot st = cell) (concat (map scatter_host_stores items))" for cell
  proof (cases "cell \<in> item_slot ` {item \<in> set items. fst item \<noteq> sentinel}")
    case True
    then show ?thesis using all stores_of_items [OF assms(1)] by auto
  next
    case False
    then show ?thesis by (simp add: stores_elsewhere cut_elsewhere [OF assms(3)])
  qed
  then have "torn = fold run_store (concat (map scatter_host_stores items)) CPU" unfolding assms(4) by (rule fold_stores_eq)
  then show "torn = fold scatter_host_one items CPU" using complete_writeback [OF assms(1,2)] by simp
qed

definition sample_cut :: "nat list recs" where
  "sample_cut = (\<lambda>_. \<lparr>value1 = [1, 2], version1 = 3, value2 = [4, 5], version2 = 8\<rparr>)"

text \<open>Stopped inside the copy to slot 1 of record 5, after the whole item of record 6.\<close>

theorem torn_writeback_safe_witness:
  "slot_of 0 (fold run_store [ValueStore 6 1 0 7, ValueStore 5 0 0 7, ValueStore 6 1 1 7, TagStore 6 1 9] sample_cut 5) = (3, [7, 2]) \<and>
   slot_of 1 (fold run_store [ValueStore 6 1 0 7, ValueStore 5 0 0 7, ValueStore 6 1 1 7, TagStore 6 1 9] sample_cut 6) = (9, [7, 7]) \<and>
   (fst (slot_of 0 (fold run_store [ValueStore 6 1 0 7, ValueStore 5 0 0 7, ValueStore 6 1 1 7, TagStore 6 1 9] sample_cut 5)) = 3 \<or>
    slot_of 0 (fold run_store [ValueStore 6 1 0 7, ValueStore 5 0 0 7, ValueStore 6 1 1 7, TagStore 6 1 9] sample_cut 5) = (9, [7, 7]))"
proof -
  let ?items = "[(5, 0, 9, [7, 7]), (6, 1, 9, [7, 7 :: nat])] :: nat list wb_item list"
  let ?st = "[ValueStore 6 1 0 7, ValueStore 5 0 0 7, ValueStore 6 1 1 7, TagStore 6 1 9] :: nat host_store list"
  have all: "{item \<in> set ?items. fst item \<noteq> sentinel} = set ?items" by (auto simp: sentinel_def)
  have "filter (\<lambda>s. store_slot s = item_slot (5, 0, 9, [7, 7 :: nat])) ?st = take 1 (scatter_host_stores (5, 0, 9, [7, 7]))"
    "filter (\<lambda>s. store_slot s = item_slot (6, 1, 9, [7, 7 :: nat])) ?st = take 3 (scatter_host_stores (6, 1, 9, [7, 7]))"
    by (simp_all add: item_slot_def scatter_host_stores_def sentinel_def upt_rec)
  then have "\<forall>item \<in> set ?items. \<exists>n. filter (\<lambda>s. store_slot s = item_slot item) ?st = take n (scatter_host_stores item)"
    by (metis empty_iff empty_set set_ConsD)
  then have "writeback_cut ?items ?st" unfolding writeback_cut_def all by (simp add: item_slot_def)
  with torn_writeback_safe [of ?items sample_cut ?st, OF _ _ _ refl] show ?thesis
    by (simp add: item_slot_def sentinel_def sample_cut_def slot_of_def put_value_def put_tag_def)
qed

end
