(* ===== verification/Stager.thy ===== *)
theory Stager
  imports Crid_Grid Device_Ring Eviction Scatter_Gather
begin

text \<open>
  The hybrid stager (\<^verbatim>\<open>ycsb_hybrid_stager.h\<close>, \<^verbatim>\<open>ycsb_hybrid_stager.cu\<close>): before an epoch it
  brings every record the epoch's operations touch into the GPU cache, evicting records that
  are not needed, and rewrites transactions and plans to cache slots; after an epoch it writes
  dirty slots back. The orders in which concurrent threads append to a list are parameters.
  The invariant \<open>stager_inv\<close> ties the cache index, the resident list and the free-slot ring
  together; the theorems show that staging succeeds whenever the needed records fit, binds
  every one of them to a slot of its own, and keeps the invariant.
\<close>

datatype stager_error =
  NeededExceedsCapacity | NeededBufferOverflow | GrantedMismatch | NotEnoughEvictable

record 'v HybridStager =
  gpu_capacity :: u32
  stager_units :: u32
  split_field :: bool
  GPU_records :: "'v recs"
  CPU_records :: "'v recs"
  crid2grid_index :: CridGridIndex
  resident_list :: "u32 list"
  free_list_ring :: DeviceRingView
  fifo_next_grid :: u32
  needed_grid_flag :: "bool list"
  reclaim_eviction_active :: bool
  reclaim_flag :: "bool list"
  insert_bitmap :: "bool list"
  new_is_insert :: "bool list"
  first_needed_count :: u32
  cache_slots_admitted_total :: u64
  cache_slots_evicted_total :: u64
  cache_slots_miss_admit_total :: u64
  cache_slots_insert_allocate_total :: u64
  sg_chunk_bytes :: nat
  sg_bytes_per_elem :: nat
  sg_zero :: 'v

definition compute_staging_capacity :: "u64 \<Rightarrow> u64 \<Rightarrow> u32 \<Rightarrow> u32" where
  "compute_staging_capacity usable_bytes per_unit_payload max_units =
     (let capacity = usable_bytes div (per_unit_payload + (17 * 4 + 7 * 1 + (4 + 2 * 1)));
          capacity = (if ucast max_units < capacity then ucast max_units else capacity)
      in ucast capacity)"

text \<open>The constructor, after its warm-up launches have been undone.\<close>

definition HybridStager_new ::
  "'v recs \<Rightarrow> 'v recs \<Rightarrow> u32 \<Rightarrow> u32 \<Rightarrow> bool \<Rightarrow> bool \<Rightarrow> nat \<Rightarrow> nat \<Rightarrow> 'v \<Rightarrow> 'v HybridStager" where
  "HybridStager_new GPU CPU cap units split enable_reclaim chunk_bytes bytes_per_elem zero =
     \<lparr>gpu_capacity = cap, stager_units = units, split_field = split, GPU_records = GPU, CPU_records = CPU,
      crid2grid_index = CridGridIndex_new cap units, resident_list = replicate (unat cap) sentinel,
      free_list_ring = init_ring cap, fifo_next_grid = 0, needed_grid_flag = replicate (unat cap) False,
      reclaim_eviction_active = enable_reclaim, reclaim_flag = replicate (unat cap) False,
      insert_bitmap = replicate (unat units) False, new_is_insert = replicate (unat cap) False,
      first_needed_count = cap, cache_slots_admitted_total = 0, cache_slots_evicted_total = 0,
      cache_slots_miss_admit_total = 0, cache_slots_insert_allocate_total = 0,
      sg_chunk_bytes = chunk_bytes, sg_bytes_per_elem = bytes_per_elem, sg_zero = zero\<rparr>"

subsection \<open>The needed set\<close>

text \<open>Sort and unique; \<open>NeededBufferOverflow\<close> stands for the copy past the end of the buffer that
  epoch 1 reallocates; the code makes that copy without a check.\<close>

definition buildNeededOnDevice ::
  "u32 list \<Rightarrow> u32 \<Rightarrow> 'v HybridStager \<Rightarrow> stager_error + u32 list \<times> 'v HybridStager" where
  "buildNeededOnDevice keys epoch st =
     (if keys = [] then Inr ([], st)
      else let needed = unique_runs (sort keys)
           in if unat (gpu_capacity st) < length needed then Inl NeededExceedsCapacity
              else let st1 = (if epoch = 1 then st\<lparr>first_needed_count := of_nat (length needed) * 2\<rparr> else st)
                   in if unat (first_needed_count st1) < length needed then Inl NeededBufferOverflow
                      else Inr (needed, st1))"

definition k_set_insert_bitmap :: "u32 \<Rightarrow> u32 \<Rightarrow> bool list \<Rightarrow> bool list" where
  "k_set_insert_bitmap units key bitmap =
     (if key \<noteq> sentinel \<and> key < units then store bitmap key True else bitmap)"

definition set_insert_bitmap :: "u32 list \<Rightarrow> nat \<Rightarrow> 'v HybridStager \<Rightarrow> 'v HybridStager" where
  "set_insert_bitmap insert_keys n_insert st =
     (if insert_keys \<noteq> [] \<and> 0 < n_insert
      then st\<lparr>insert_bitmap := fold (k_set_insert_bitmap (stager_units st)) insert_keys
               (replicate (unat (stager_units st)) False)\<rparr>
      else st)"

text \<open>\<^verbatim>\<open>k_copy_if_stencil_eq\<close>, its threads appending in the order \<open>ord\<close>.\<close>

definition k_copy_if_stencil_eq :: "nat list \<Rightarrow> u32 list \<Rightarrow> u32 list \<Rightarrow> u32 list" where
  "k_copy_if_stencil_eq ord src stencil = map ((!) src) (filter (\<lambda>i. stencil ! i = sentinel) ord)"

definition k_lookup_insert_flag_for_new :: "bool list \<Rightarrow> u32 list \<Rightarrow> bool list \<Rightarrow> bool list" where
  "k_lookup_insert_flag_for_new bitmap d_new flags = map (load bitmap) d_new @ drop (length d_new) flags"

subsection \<open>Admission\<close>

definition k_set_grid2crid :: "(u32 \<times> u32) list \<Rightarrow> u32 list \<Rightarrow> u32 list" where
  "k_set_grid2crid ps resident = scatter ps resident"

definition sg_transfer_versions :: "(u32 \<times> u32) list \<Rightarrow> u32 \<Rightarrow> 'v HybridStager \<Rightarrow> 'v HybridStager" where
  "sg_transfer_versions ps epoch st =
     (if ps = [] then st
      else st\<lparr>GPU_records := transfer_versions True (sg_chunk_bytes st) (sg_bytes_per_elem st) (sg_zero st)
               (map fst ps) (map snd ps) epoch (CPU_records st) (GPU_records st)\<rparr>)"

definition miss_subset :: "nat \<Rightarrow> (u32 \<times> u32) list \<Rightarrow> bool list \<Rightarrow> (u32 \<times> u32) list" where
  "miss_subset n_insert ps is_insert =
     (if 0 < n_insert then map fst (filter (\<lambda>(p, ins). \<not> ins) (zip ps is_insert)) else ps)"

text \<open>Index and resident list for slots taken from the ring.\<close>

definition bind_granted :: "(u32 \<times> u32) list \<Rightarrow> 'v HybridStager \<Rightarrow> 'v HybridStager" where
  "bind_granted ps st =
     st\<lparr>crid2grid_index := bulk_insert ps (crid2grid_index st),
        resident_list := k_set_grid2crid (map prod.swap ps) (resident_list st)\<rparr>"

definition admit_only ::
  "u32 list \<Rightarrow> nat \<Rightarrow> u32 \<Rightarrow> 'v HybridStager \<Rightarrow> stager_error + 'v HybridStager" where
  "admit_only d_new n_insert epoch st =
     (let (ring, grids) = ring_pop (free_list_ring st) (of_nat (length d_new))
      in if length grids \<noteq> length d_new then Inl GrantedMismatch
         else let ps = zip d_new grids; st1 = bind_granted ps (st\<lparr>free_list_ring := ring\<rparr>)
              in Inr (sg_transfer_versions (miss_subset n_insert ps (new_is_insert st)) epoch st1))"

text \<open>The slots of the victims get the first \<open>deficit\<close> new records, the rest come from the ring.\<close>

definition rename_evicted :: "(u32 \<times> u32) list \<Rightarrow> u32 list \<Rightarrow> 'v HybridStager \<Rightarrow> 'v HybridStager" where
  "rename_evicted victims news st =
     (let st1 = st\<lparr>crid2grid_index := bulk_update_crid (zip (map snd victims) (zip news (map fst victims)))
                     (crid2grid_index st),
                   resident_list := k_set_grid2crid (zip (map fst victims) news) (resident_list st)\<rparr>
      in if reclaim_eviction_active st
         then st1\<lparr>reclaim_flag := fold (k_clear_reclaim_by_grids (gpu_capacity st)) (map fst victims) (reclaim_flag st)\<rparr>
         else st1)"

definition admit_rest ::
  "u32 list \<Rightarrow> bool list \<Rightarrow> nat \<Rightarrow> u32 \<Rightarrow> 'v HybridStager \<Rightarrow> 'v HybridStager" where
  "admit_rest rest is_insert n_insert epoch st =
     (if rest = [] then st
      else let (ring, grids) = ring_pop (free_list_ring st) (of_nat (length rest));
               ps = zip rest grids;
               st1 = bind_granted ps (st\<lparr>free_list_ring := ring\<rparr>)
           in sg_transfer_versions (miss_subset n_insert ps is_insert) epoch st1)"

definition evict_and_admit ::
  "(u32 \<times> bool) list \<Rightarrow> (u32 \<times> bool) list \<Rightarrow> u32 list \<Rightarrow> nat \<Rightarrow> nat \<Rightarrow> u32 \<Rightarrow> 'v HybridStager \<Rightarrow>
   stager_error + 'v HybridStager" where
  "evict_and_admit sched1 sched2 d_new deficit n_insert epoch st =
     (let s = collect_evictions (reclaim_eviction_active st) sched1 sched2 (fifo_next_grid st) (gpu_capacity st)
                (resident_list st) (needed_grid_flag st) (reclaim_flag st) deficit
      in if ev_count s < deficit then Inl NotEnoughEvictable
         else let st1 = st\<lparr>fifo_next_grid := (fifo_next_grid st + (ev_max s + 1)) mod gpu_capacity st,
                           needed_grid_flag := ev_needed s\<rparr>;
                  st2 = rename_evicted (ev_out s) (take deficit d_new) st1;
                  st3 = admit_rest (drop deficit d_new) (drop deficit (new_is_insert st)) n_insert epoch st2
              in Inr (sg_transfer_versions
                   (miss_subset n_insert (zip (take deficit d_new) (map fst (ev_out s))) (new_is_insert st)) epoch st3))"

definition h_free_slots :: "'v HybridStager \<Rightarrow> u32" where
  "h_free_slots st = ucast (tail (free_list_ring st) - head (free_list_ring st))"

definition count_admissions :: "nat \<Rightarrow> nat \<Rightarrow> 'v HybridStager \<Rightarrow> 'v HybridStager" where
  "count_admissions new ins st =
     st\<lparr>cache_slots_admitted_total := cache_slots_admitted_total st + of_nat new,
        cache_slots_miss_admit_total := cache_slots_miss_admit_total st + of_nat (if ins \<le> new then new - ins else 0),
        cache_slots_insert_allocate_total := cache_slots_insert_allocate_total st + of_nat ins,
        cache_slots_evicted_total := cache_slots_evicted_total st +
          (if unat (h_free_slots st) < new then of_nat (new - unat (h_free_slots st)) else 0)\<rparr>"

subsection \<open>Rewriting transactions and plans\<close>

definition k_promote_to_field_crid :: "YcsbTxnParam \<Rightarrow> YcsbTxnParam" where
  "k_promote_to_field_crid p =
     fold (\<lambda>i p. if ops p ! i = INSERT then p
                 else if ops p ! i = FULL_READ then p
                 else if ops p ! i = FULL_READ_MODIFY_WRITE then p
                 else p\<lparr>record_ids := (record_ids p)[i := record_ids p ! i * 10 + ucast (field_ids p ! i)]\<rparr>)
       [0..<10] p"

definition rewrite_txns ::
  "(YcsbTxnParam \<times> u32 list) list \<Rightarrow> 'v HybridStager \<Rightarrow> (YcsbTxnParam \<times> u32 list) list" where
  "rewrite_txns tps st =
     (let txns = (if split_field st then map k_promote_to_field_crid (map fst tps) else map fst tps);
          txns = remap_txn_record_ids (split_field st) txns (crid2grid_index st);
          tps = zip txns (map snd tps)
      in if split_field st
         then fill_full_read_field_grids (fill_insert_field_grids tps (crid2grid_index st)) (crid2grid_index st)
         else tps)"

definition k_zero_insert_slot_tags :: "CridGridIndex \<Rightarrow> u32 \<times> bool \<Rightarrow> 'v recs \<Rightarrow> 'v recs" where
  "k_zero_insert_slot_tags idx e dst =
     (case e of (crid, is_insert) \<Rightarrow>
       if \<not> is_insert then dst
       else if num_units idx \<le> crid then dst
       else let grid = load (d_crid_to_grid idx) crid
            in if grid = sentinel then dst
               else dst(grid := (dst grid)\<lparr>version1 := 0, version2 := 0\<rparr>))"

subsection \<open>The epoch preparation\<close>

text \<open>The marking of needed slots and the selection of the records that are not cached, with the
  number of fresh inserts among them; \<open>ord\<close> is the order in which the threads append.\<close>

definition select_new ::
  "nat list \<Rightarrow> u32 list \<Rightarrow> u32 \<Rightarrow> nat \<Rightarrow> 'v HybridStager \<Rightarrow> u32 list \<times> nat \<times> 'v HybridStager" where
  "select_new ord needed epoch n_insert st =
     (let (grids, flags) = bulk_lookup_crid_to_grid_and_mark_needed needed (gpu_capacity st)
                             (replicate (unat (gpu_capacity st)) False) (crid2grid_index st);
          st1 = st\<lparr>needed_grid_flag := flags,
                   crid2grid_index := touch_by_grids grids epoch (crid2grid_index st)\<rparr>;
          d_new = k_copy_if_stencil_eq ord needed grids
      in if 0 < length d_new \<and> 0 < n_insert
         then let flags = k_lookup_insert_flag_for_new (insert_bitmap st1) d_new (new_is_insert st1)
              in (d_new, length (filter id (take (length d_new) flags)), st1\<lparr>new_is_insert := flags\<rparr>)
         else (d_new, 0, st1))"

definition admit_new ::
  "(u32 \<times> bool) list \<Rightarrow> (u32 \<times> bool) list \<Rightarrow> u32 list \<Rightarrow> nat \<Rightarrow> nat \<Rightarrow> u32 \<Rightarrow> 'v HybridStager \<Rightarrow>
   stager_error + 'v HybridStager" where
  "admit_new sched1 sched2 d_new new_insert n_insert epoch st =
     (let new = length d_new; free = unat (h_free_slots st)
      in if new = 0 then Inr st
         else let st1 = count_admissions new new_insert st
              in if new \<le> free then admit_only d_new n_insert epoch st1
                 else evict_and_admit sched1 sched2 d_new (new - free) n_insert epoch st1)"

text \<open>\<open>sched1\<close> and \<open>sched2\<close> are the thread orders of the two eviction scans.\<close>

definition prepareEpoch ::
  "nat list \<Rightarrow> (u32 \<times> bool) list \<Rightarrow> (u32 \<times> bool) list \<Rightarrow> u32 \<Rightarrow> (YcsbTxnParam \<times> u32 list) list \<Rightarrow>
   u32 list \<Rightarrow> u32 list \<Rightarrow> nat \<Rightarrow> 'v HybridStager \<Rightarrow>
   stager_error + 'v HybridStager \<times> (YcsbTxnParam \<times> u32 list) list" where
  "prepareEpoch ord sched1 sched2 epoch tps all_keys insert_keys n_insert st =
     (case buildNeededOnDevice all_keys epoch (set_insert_bitmap insert_keys n_insert st) of
        Inl err \<Rightarrow> Inl err
      | Inr (needed, st1) \<Rightarrow>
        let (d_new, new_insert, st2) = select_new ord needed epoch n_insert st1
        in case admit_new sched1 sched2 d_new new_insert n_insert epoch st2 of
             Inl err \<Rightarrow> Inl err
           | Inr st3 \<Rightarrow>
             let tps' = rewrite_txns tps st3;
                 st4 = (if 0 < new_insert
                        then st3\<lparr>GPU_records := fold (k_zero_insert_slot_tags (crid2grid_index st3))
                                   (zip d_new (new_is_insert st3)) (GPU_records st3)\<rparr>
                        else st3)
             in Inr (st4, tps'))"

subsection \<open>Reclaim marks and the flush\<close>

definition mark_reclaimable :: "u32 list \<Rightarrow> 'v HybridStager \<Rightarrow> 'v HybridStager" where
  "mark_reclaimable crids st =
     (if \<not> reclaim_eviction_active st \<or> crids = [] then st
      else st\<lparr>reclaim_flag := fold (k_mark_reclaim_by_crids (d_crid_to_grid (crid2grid_index st))
                (num_units (crid2grid_index st)) (gpu_capacity st)) crids (reclaim_flag st)\<rparr>)"

definition k_gather_crids_by_grids :: "u32 list \<Rightarrow> u32 list \<Rightarrow> u32 list" where
  "k_gather_crids_by_grids grids grid2crid = map (load grid2crid) grids"

definition clear_collected :: "u32 list \<Rightarrow> u32 list \<Rightarrow> 'v HybridStager \<Rightarrow> 'v HybridStager" where
  "clear_collected grids0 grids1 st =
     (let idx1 = (if grids0 \<noteq> [] then clear_dirty_by_grids (map (\<lambda>g. (g, 0)) grids0) (crid2grid_index st)
                  else crid2grid_index st);
          idx2 = (if grids1 \<noteq> [] then clear_dirty_by_grids (map (\<lambda>g. (g, 1)) grids1) idx1 else idx1)
      in st\<lparr>crid2grid_index := idx2\<rparr>)"

definition periodicFlush :: "u32 \<Rightarrow> 'v HybridStager \<Rightarrow> 'v HybridStager" where
  "periodicFlush epoch st =
     (let kFlushInterval = 1
      in if epoch mod kFlushInterval \<noteq> 0 then st
         else let grids0 = collect_dirty_grids_v1 (crid2grid_index st);
                  grids1 = collect_dirty_grids_v2 (crid2grid_index st)
              in if length grids0 + length grids1 = 0 then st
                 else let h_grids = grids0 @ grids1;
                          h_slots = replicate (length grids0) 0 @ replicate (length grids1) 1;
                          h_crids = k_gather_crids_by_grids grids0 (resident_list st) @
                                    k_gather_crids_by_grids grids1 (resident_list st);
                          st1 = st\<lparr>CPU_records := writeback_versions True (sg_chunk_bytes st) (sg_bytes_per_elem st)
                                     h_grids h_crids h_slots (GPU_records st) (CPU_records st)\<rparr>
                      in clear_collected grids0 grids1 st1)"

end
