(* ===== verification/Staging.thy ===== *)
theory Staging
  imports Stager
begin

text \<open>
  Correctness of the stager. \<open>cache_inv\<close> relates the index, the resident list and the free-slot
  ring; the two ways of binding slots (grants from the ring, slots of victims) keep it through
  the interface lemmas of the cache index and the ring. From these follow the theorems on
  \<open>prepareEpoch\<close> and on the flush.
\<close>

subsection \<open>The cache invariant\<close>

definition cache_inv :: "u32 \<Rightarrow> u32 \<Rightarrow> CridGridIndex \<Rightarrow> u32 list \<Rightarrow> DeviceRingView \<Rightarrow> bool" where
  "cache_inv cap units idx res ring \<longleftrightarrow>
     cap \<noteq> 0 \<and> cap \<le> 0x80000000 \<and> length res = unat cap \<and> idx_inv idx \<and> num_units idx = units \<and>
     flat.coherent idx res \<and> ring_inv ring \<and> distinct (ring_queue ring) \<and>
     set (ring_queue ring) = {g. g < cap \<and> load res g = sentinel}"

definition stager_inv :: "'v HybridStager \<Rightarrow> bool" where
  "stager_inv st \<longleftrightarrow>
     cache_inv (gpu_capacity st) (stager_units st) (crid2grid_index st) (resident_list st) (free_list_ring st) \<and>
     fifo_next_grid st < gpu_capacity st"

lemma cache_invD:
  assumes "cache_inv cap units idx res ring"
  shows "cap \<noteq> 0" "cap \<le> 0x80000000" "length res = unat cap" "idx_inv idx" "num_units idx = units"
    "flat.coherent idx res" "ring_inv ring" "distinct (ring_queue ring)"
    "set (ring_queue ring) = {g. g < cap \<and> load res g = sentinel}"
  using assms by (simp_all add: cache_inv_def)

lemma finite_slots [simp]: "finite {g :: u32. P g}"
  by (rule finite_subset [of _ UNIV]) auto

lemma card_slots: "card {g :: u32. g < cap} = unat cap"
proof -
  have "{g :: u32. g < cap} = of_nat ` {..<unat cap}"
  proof (intro equalityI subsetI)
    fix g assume "g \<in> {g :: u32. g < cap}"
    then show "g \<in> of_nat ` {..<unat cap}" by (intro image_eqI [of _ _ "unat g"]) (simp_all add: word_less_nat_alt)
  next
    fix g assume "g \<in> (of_nat :: nat \<Rightarrow> u32) ` {..<unat cap}"
    then obtain n where "n < unat cap" "g = of_nat n" by auto
    then show "g \<in> {g :: u32. g < cap}"
      using unat_u32_lt [of cap] by (simp add: word_less_nat_alt unat_of_nat_u32)
  qed
  moreover have "inj_on (of_nat :: nat \<Rightarrow> u32) {..<unat cap}"
    using unat_u32_lt [of cap] by (auto intro!: inj_onI simp: of_nat_u32_inj)
  ultimately show ?thesis by (simp add: card_image)
qed

lemma length_ring_queue:
  assumes "cache_inv cap units idx res ring"
  shows "length (ring_queue ring) = card {g. g < cap \<and> load res g = sentinel}"
  using distinct_card [OF cache_invD(8) [OF assms]] unfolding cache_invD(9) [OF assms] by (rule sym)

lemma length_ring_queue_le:
  assumes "cache_inv cap units idx res ring"
  shows "length (ring_queue ring) \<le> unat cap"
  unfolding length_ring_queue [OF assms] card_slots [symmetric] by (rule card_mono) auto

text \<open>The number of free slots the host reads back.\<close>

lemma free_slots_count:
  assumes "stager_inv st"
  shows "unat (h_free_slots st) = length (ring_queue (free_list_ring st))"
proof -
  let ?r = "free_list_ring st"
  have i: "cache_inv (gpu_capacity st) (stager_units st) (crid2grid_index st) (resident_list st) ?r"
    using assms by (simp add: stager_inv_def)
  have l: "length (ring_queue ?r) = unat (tail ?r) - unat (head ?r)" by (simp add: ring_queue_def)
  have "unat (head ?r) \<le> unat (tail ?r)" using cache_invD(7) [OF i] by (simp add: ring_inv_def)
  then have "unat (tail ?r - head ?r) = length (ring_queue ?r)" by (simp add: l unat_sub word_le_nat_alt)
  moreover have "length (ring_queue ?r) < 2 ^ 32"
    using length_ring_queue_le [OF i] unat_u32_lt [of "gpu_capacity st"] by simp
  ultimately show ?thesis by (simp add: h_free_slots_def unat_ucast_64_32)
qed

subsection \<open>Binding slots\<close>

text \<open>Records that are to be cached: distinct, in range, not cached.\<close>

definition admissible :: "CridGridIndex \<Rightarrow> u32 list \<Rightarrow> bool" where
  "admissible idx ns \<longleftrightarrow> distinct ns \<and> (\<forall>c \<in> set ns. idx_valid idx c \<and> idx_lookup idx c = sentinel)"

lemma map_swap_zip: "map prod.swap (zip xs ys) = zip ys xs"
  by (induction xs ys rule: list_induct2') auto

lemma grant_facts:
  assumes "cache_inv cap units idx res ring" and "length ns \<le> length (ring_queue ring)"
  shows "snd (ring_pop ring (of_nat (length ns))) = take (length ns) (ring_queue ring)"
    and "ring_queue (fst (ring_pop ring (of_nat (length ns)))) = drop (length ns) (ring_queue ring)"
    and "ring_inv (fst (ring_pop ring (of_nat (length ns))))"
    and "length (snd (ring_pop ring (of_nat (length ns)))) = length ns"
proof -
  have "length ns < 2 ^ 32"
    using assms(2) length_ring_queue_le [OF assms(1)] unat_u32_lt [of cap] by simp
  then have u: "unat (of_nat (length ns) :: u32) = length ns" by (rule unat_of_nat_u32)
  note inv = cache_invD(7) [OF assms(1)]
  show g: "snd (ring_pop ring (of_nat (length ns))) = take (length ns) (ring_queue ring)"
    using free_ring.pop_grants [OF inv, of "of_nat (length ns)"] by (simp add: u)
  show "ring_queue (fst (ring_pop ring (of_nat (length ns)))) = drop (length ns) (ring_queue ring)"
    using free_ring.pop_rest [OF inv, of "of_nat (length ns)"] by (simp add: u)
  show "ring_inv (fst (ring_pop ring (of_nat (length ns))))" by (rule free_ring.pop_inv [OF inv])
  show "length (snd (ring_pop ring (of_nat (length ns)))) = length ns" using assms(2) by (simp add: g)
qed

lemma scatter_zip_free:
  assumes "distinct gs" and "length gs = length ns" and "sentinel \<notin> set ns" and "\<forall>g \<in> set gs. unat g < length res"
  shows "load (scatter (zip gs ns) res) g = sentinel \<longleftrightarrow> g \<notin> set gs \<and> load res g = sentinel"
proof (cases "g \<in> set gs")
  case True
  then obtain i where i: "i < length gs" "g = gs ! i" by (auto simp: in_set_conv_nth)
  then have "(g, ns ! i) \<in> set (zip gs ns)" using assms(2) by (auto simp: set_zip)
  then have "load (scatter (zip gs ns) res) g = ns ! i"
    using assms True by (intro load_scatter_in) auto
  moreover have "ns ! i \<noteq> sentinel" using i(1) assms(2,3) by (metis nth_mem)
  ultimately show ?thesis using True by simp
next
  case False
  then have "g \<notin> fst ` set (zip gs ns)" by (auto dest: set_zip_leftD)
  with False show ?thesis by (simp add: load_scatter_notin)
qed

lemma cache_inv_grant:
  assumes "cache_inv cap units idx res ring" and "admissible idx ns" and "length ns \<le> length (ring_queue ring)"
    and "p = ring_pop ring (of_nat (length ns))" and "ps = zip ns (snd p)"
  shows "cache_inv cap units (bulk_insert ps idx) (scatter (map prod.swap ps) res) (fst p)"
    and "\<And>c g. (c, g) \<in> set ps \<Longrightarrow> idx_lookup (bulk_insert ps idx) c = g"
    and "\<And>c. c \<notin> set ns \<Longrightarrow> idx_lookup (bulk_insert ps idx) c = idx_lookup idx c"
    and "set (snd p) \<subseteq> {g. g < cap \<and> load res g = sentinel}"
proof -
  note D = cache_invD [OF assms(1)] and G = grant_facts [OF assms(1,3), folded assms(4)]
  show sub: "set (snd p) \<subseteq> {g. g < cap \<and> load res g = sentinel}"
    unfolding G(1) D(9) [symmetric] by (rule set_take_subset)
  have dg: "distinct (snd p)" using D(8) by (simp add: G(1))
  have b: "flat.bindable idx res ps"
    unfolding flat.bindable_def
  proof (intro conjI ballI)
    show "distinct (map fst ps)" "distinct (map snd ps)" using assms(2) dg G(4) by (simp_all add: assms(5) admissible_def)
    fix x assume "x \<in> set ps"
    then obtain c g where x: "x = (c, g)" "c \<in> set ns" "g \<in> set (snd p)"
      using set_zip_leftD set_zip_rightD by (metis assms(5) surj_pair)
    have "unat g < length res" using sub x(3) D(3) by (auto simp: word_less_nat_alt)
    moreover have "load res g = sentinel" using sub x(3) by auto
    moreover have "g \<noteq> sentinel" using flat.coherentD(5) [OF D(6)] \<open>unat g < length res\<close> .
    ultimately show "case x of (c, g) \<Rightarrow> idx_valid idx c \<and> c \<noteq> sentinel \<and> idx_lookup idx c = sentinel \<and>
        g \<noteq> sentinel \<and> unat g < length res \<and> load res g = sentinel"
      using assms(2) x by (auto simp: admissible_def idx_valid_def)
  qed
  show "idx_lookup (bulk_insert ps idx) c = g" if "(c, g) \<in> set ps" for c g
    using flat.bind_hit [OF D(4), of ps c g] b that by (auto simp: flat.bindable_def)
  show "idx_lookup (bulk_insert ps idx) c = idx_lookup idx c" if "c \<notin> set ns" for c
    by (rule flat.bind_other) (use that in \<open>auto simp: assms(5) dest: set_zip_leftD\<close>)
  have sw: "map prod.swap ps = zip (snd p) ns" by (simp add: assms(5) map_swap_zip)
  have "sentinel \<notin> set ns" using assms(2) by (auto simp: admissible_def idx_valid_def)
  moreover have "\<forall>g \<in> set (snd p). unat g < length res" using sub D(3) by (auto simp: word_less_nat_alt)
  ultimately have free: "load (scatter (map prod.swap ps) res) g = sentinel \<longleftrightarrow> g \<notin> set (snd p) \<and> load res g = sentinel" for g
    unfolding sw using scatter_zip_free [OF dg G(4)] by blast
  have "set (drop (length ns) (ring_queue ring)) = set (ring_queue ring) - set (snd p)"
    using D(8) unfolding G(1) by (metis append_take_drop_id distinct_append set_append Diff_cancel Un_Diff Un_empty_left Diff_triv inf_commute)
  also have "\<dots> = {g. g < cap \<and> load (scatter (map prod.swap ps) res) g = sentinel}"
    unfolding D(9) free by auto
  finally show "cache_inv cap units (bulk_insert ps idx) (scatter (map prod.swap ps) res) (fst p)"
    using D G(2,3) flat.bind_coherent [OF D(4,6) b] flat.inv_kept(1) [OF D(4)]
    by (simp add: cache_inv_def)
qed

lemma cache_inv_rename:
  assumes "cache_inv cap units idx res ring" and "admissible idx ns" and "length ns = length victims"
    and "distinct (map fst victims)"
    and "\<forall>(g, crid) \<in> set victims. g < cap \<and> crid = load res g \<and> crid \<noteq> sentinel"
    and "ts = zip (map snd victims) (zip ns (map fst victims))"
  shows "cache_inv cap units (bulk_update_crid ts idx) (scatter (zip (map fst victims) ns) res) ring"
    and "\<And>c g. (c, g) \<in> set (zip ns (map fst victims)) \<Longrightarrow> idx_lookup (bulk_update_crid ts idx) c = g"
    and "\<And>c. c \<notin> set ns \<Longrightarrow> c \<notin> set (map snd victims) \<Longrightarrow> idx_lookup (bulk_update_crid ts idx) c = idx_lookup idx c"
proof -
  note D = cache_invD [OF assms(1)]
  have len: "length (map snd victims) = length (zip ns (map fst victims))" using assms(3) by simp
  have mts: "map (fst \<circ> snd) ts = ns" "map (snd \<circ> snd) ts = map fst victims" "map fst ts = map snd victims"
    using assms(3) by (auto intro!: nth_equalityI simp: assms(6))
  have mem: "\<exists>i < length victims. t = (snd (victims ! i), ns ! i, fst (victims ! i))" if "t \<in> set ts" for t
  proof -
    obtain i where "i < length ts" "t = ts ! i" using \<open>t \<in> set ts\<close> by (auto simp: in_set_conv_nth)
    with assms(3) show ?thesis by (auto simp: assms(6))
  qed
  have r: "flat.rebindable idx res ts"
    unfolding flat.rebindable_def
  proof (intro conjI ballI)
    show "distinct (map (fst \<circ> snd) ts)" "distinct (map (snd \<circ> snd) ts)"
      using assms(2,4) by (simp_all add: mts admissible_def)
    fix t assume "t \<in> set ts"
    then obtain i where i: "i < length victims" "t = (snd (victims ! i), ns ! i, fst (victims ! i))"
      using mem by blast
    have n: "ns ! i \<in> set ns" and v: "victims ! i \<in> set victims" using i(1) assms(3) by simp_all
    obtain g crid where gc: "victims ! i = (g, crid)" by (cases "victims ! i")
    have "g < cap" "load res g = crid" "crid \<noteq> sentinel" using bspec [OF assms(5) v] by (auto simp: gc)
    moreover have "idx_valid idx (ns ! i)" "idx_lookup idx (ns ! i) = sentinel" "ns ! i \<noteq> sentinel"
      using assms(2) n by (auto simp: admissible_def idx_valid_def)
    ultimately show "case t of (oldc, newc, g) \<Rightarrow> idx_valid idx newc \<and> newc \<noteq> sentinel \<and>
        idx_lookup idx newc = sentinel \<and> unat g < length res \<and> load res g = oldc \<and> oldc \<noteq> sentinel"
      by (simp add: i(2) gc D(3) word_less_nat_alt)
  qed
  note R = flat.rebindableD [OF D(6) r]
  have ws: "map (\<lambda>(oldc, newc, g). (g, newc)) ts = zip (map fst victims) ns"
    using assms(3) by (intro nth_equalityI) (simp_all add: assms(6))
  have free: "load (scatter (zip (map fst victims) ns) res) g = sentinel \<longleftrightarrow>
      g \<notin> set (map fst victims) \<and> load res g = sentinel" for g
    by (rule scatter_zip_free)
      (use assms(2-5) D(3) in \<open>auto simp: admissible_def idx_valid_def word_less_nat_alt\<close>)
  have "{g. g < cap \<and> load (scatter (zip (map fst victims) ns) res) g = sentinel} = {g. g < cap \<and> load res g = sentinel}"
    unfolding free using assms(5) by auto
  then show "cache_inv cap units (bulk_update_crid ts idx) (scatter (zip (map fst victims) ns) res) ring"
    using D flat.rebind_coherent [OF D(4,6) r] flat.inv_kept(2) [OF D(4)] by (simp add: cache_inv_def ws)
  show "idx_lookup (bulk_update_crid ts idx) c = g" if m: "(c, g) \<in> set (zip ns (map fst victims))" for c g
  proof -
    obtain i where i: "i < length victims" "c = ns ! i" "g = fst (victims ! i)"
      using m assms(3) by (auto simp: set_zip)
    then have "ts ! i = (snd (victims ! i), c, g)" "i < length ts" using assms(3) by (simp_all add: assms(6))
    then have "(snd (victims ! i), c, g) \<in> set ts" by (metis nth_mem)
    from flat.rebind_new [OF D(4) R(3,2) this] R(1) [OF this] show ?thesis by simp
  qed
  show "idx_lookup (bulk_update_crid ts idx) c = idx_lookup idx c"
    if "c \<notin> set ns" "c \<notin> set (map snd victims)" for c
  proof (rule flat.rebind_other)
    have "set (map fst ts) = set (map snd victims)" "set (map (fst \<circ> snd) ts) = set ns" by (simp_all only: mts)
    with that show "c \<notin> fst ` set ts" "c \<notin> (fst \<circ> snd) ` set ts" by (simp_all only: set_map simp_thms)
  qed
qed

subsection \<open>Transfers\<close>

lemma sg_transfer_other_fields [simp]:
  "gpu_capacity (sg_transfer_versions ps e st) = gpu_capacity st"
  "stager_units (sg_transfer_versions ps e st) = stager_units st"
  "crid2grid_index (sg_transfer_versions ps e st) = crid2grid_index st"
  "resident_list (sg_transfer_versions ps e st) = resident_list st"
  "free_list_ring (sg_transfer_versions ps e st) = free_list_ring st"
  "fifo_next_grid (sg_transfer_versions ps e st) = fifo_next_grid st"
  "CPU_records (sg_transfer_versions ps e st) = CPU_records st"
  "new_is_insert (sg_transfer_versions ps e st) = new_is_insert st"
  "split_field (sg_transfer_versions ps e st) = split_field st"
  by (simp_all add: sg_transfer_versions_def)

lemma sg_transfer_keeps:
  "g \<notin> snd ` set ps \<Longrightarrow> GPU_records (sg_transfer_versions ps e st) g = GPU_records st g"
  by (simp add: sg_transfer_versions_def transfer_other)

lemma sg_transfer_reads:
  assumes "distinct (map snd ps)" and "(c, g) \<in> set ps" and "c \<noteq> sentinel"
  shows "reads_as e (GPU_records (sg_transfer_versions ps e st) g) (CPU_records st c)"
proof -
  obtain i where i: "i < length ps" "ps ! i = (c, g)" using assms(2) by (auto simp: in_set_conv_nth)
  then have "ps \<noteq> []" by auto
  with transfer_reads_as [of "map snd ps" "map fst ps" i] i assms(1,3) show ?thesis
    by (simp add: sg_transfer_versions_def)
qed

text \<open>The pairs that are transferred: all but those of fresh inserts.\<close>

lemma miss_subset_eq:
  assumes "length gs = length ns" and "0 < n_insert \<longrightarrow> (\<exists>rest. flags = map ins ns @ rest)"
  shows "miss_subset n_insert (zip ns gs) flags = filter (\<lambda>(c, g). \<not> (0 < n_insert \<and> ins c)) (zip ns gs)"
proof (cases "0 < n_insert")
  case True
  then obtain rest where f: "flags = map ins ns @ rest" using assms(2) by auto
  have "map fst (filter (\<lambda>(p, ins). \<not> ins) (zip (zip ns gs) (map ins ns @ rest))) = filter (\<lambda>(c, g). \<not> ins c) (zip ns gs)"
    using assms(1)[symmetric] by (induction ns gs rule: list_induct2) auto
  then show ?thesis by (simp add: miss_subset_def f True)
next
  case False
  then show ?thesis by (auto simp: miss_subset_def)
qed

subsection \<open>The needed set\<close>

lemma lookup_mark_fold:
  "fold (k_flat_lookup_and_mark_needed arr units cap) cs (gs, flags) =
     (gs @ map (flat_lookup arr units) cs,
      fold (\<lambda>c flags. let g = flat_lookup arr units c in if g \<noteq> sentinel \<and> g < cap then store flags g True else flags) cs flags)"
  by (induction cs arbitrary: gs flags) (simp_all add: k_flat_lookup_and_mark_needed_def Let_def)

lemma mark_fold:
  fixes lk :: "u32 \<Rightarrow> u32"
  assumes "length flags = unat cap" and "g < cap"
  defines "m \<equiv> fold (\<lambda>c flags. let g = lk c in if g \<noteq> sentinel \<and> g < cap then store flags g True else flags)"
  shows "length (m cs flags) = unat cap \<and> (load (m cs flags) g \<longleftrightarrow> load flags g \<or> (\<exists>c \<in> set cs. lk c = g \<and> g \<noteq> sentinel))"
  using assms(1)
proof (induction cs arbitrary: flags)
  case (Cons c cs)
  let ?f = "if lk c \<noteq> sentinel \<and> lk c < cap then store flags (lk c) True else flags"
  have "length ?f = unat cap" using Cons.prems by simp
  moreover have "load ?f g \<longleftrightarrow> load flags g \<or> (lk c = g \<and> g \<noteq> sentinel)"
    using assms(2) Cons.prems by (auto simp: load_store word_less_nat_alt)
  ultimately show ?case using Cons.IH [of ?f] by (auto simp: m_def Let_def)
qed (simp add: m_def)

lemma lookup_and_mark:
  fixes idx cap needed
  defines "r \<equiv> bulk_lookup_crid_to_grid_and_mark_needed needed cap (replicate (unat cap) False) idx"
  shows "fst r = map (idx_lookup idx) needed" and "cap \<noteq> 0 \<Longrightarrow> length (snd r) = unat cap"
    and "g < cap \<Longrightarrow> load (snd r) g \<longleftrightarrow> (\<exists>c \<in> set needed. idx_lookup idx c = g \<and> g \<noteq> sentinel)"
proof -
  have r: "r = (map (idx_lookup idx) needed,
      fold (\<lambda>c flags. let g = idx_lookup idx c in if g \<noteq> sentinel \<and> g < cap then store flags g True else flags) needed
        (replicate (unat cap) False))"
    by (simp add: r_def bulk_lookup_crid_to_grid_and_mark_needed_def lookup_mark_fold idx_lookup_def [abs_def])
  show "fst r = map (idx_lookup idx) needed" by (simp add: r)
  show "length (snd r) = unat cap" if "cap \<noteq> 0"
    using mark_fold [of "replicate (unat cap) False" cap 0 "idx_lookup idx" needed] that
    by (simp add: r word_gt_0)
  show "load (snd r) g \<longleftrightarrow> (\<exists>c \<in> set needed. idx_lookup idx c = g \<and> g \<noteq> sentinel)" if "g < cap"
    using mark_fold [of "replicate (unat cap) False" cap g "idx_lookup idx" needed] that
    by (simp add: r word_less_nat_alt)
qed

lemma copy_if_facts:
  assumes "distinct needed" and "distinct ord" and "set ord = {..<length needed}"
  shows "distinct (k_copy_if_stencil_eq ord needed (map f needed))"
    and "set (k_copy_if_stencil_eq ord needed (map f needed)) = {c \<in> set needed. f c = sentinel}"
proof -
  have "inj_on ((!) needed) {..<length needed}" using assms(1) by (auto simp: inj_on_def nth_eq_iff_index_eq)
  then show "distinct (k_copy_if_stencil_eq ord needed (map f needed))"
    using assms(2,3) by (simp add: k_copy_if_stencil_eq_def distinct_map inj_on_subset [of _ "{..<length needed}"] subset_iff)
  have "set (k_copy_if_stencil_eq ord needed (map f needed)) =
      (!) needed ` {i. i < length needed \<and> map f needed ! i = sentinel}"
    using assms(3) by (auto simp: k_copy_if_stencil_eq_def)
  also have "\<dots> = {c \<in> set needed. f c = sentinel}"
    by (auto simp: in_set_conv_nth image_iff)
  finally show "set (k_copy_if_stencil_eq ord needed (map f needed)) = {c \<in> set needed. f c = sentinel}" .
qed

text \<open>If the needed records fit into the cache, there are enough slots to evict.\<close>

lemma enough_evictable:
  assumes "cache_inv cap units idx res ring" and "distinct needed" and "length needed \<le> unat cap"
    and "\<And>g. g < cap \<Longrightarrow> load flags g \<longleftrightarrow> (\<exists>c \<in> set needed. idx_lookup idx c = g \<and> g \<noteq> sentinel)"
  shows "card {c \<in> set needed. idx_lookup idx c = sentinel} - length (ring_queue ring)
           \<le> card {g. g < cap \<and> evictable res flags g}"
proof -
  let ?H = "{c \<in> set needed. idx_lookup idx c \<noteq> sentinel}" and ?N = "{c \<in> set needed. idx_lookup idx c = sentinel}"
  let ?R = "{g. g < cap \<and> load res g \<noteq> sentinel}" and ?E = "{g. g < cap \<and> load res g = sentinel}"
  have "card ?N + card ?H = card (?N \<union> ?H)" by (rule card_Un_disjoint [symmetric]) auto
  also have "?N \<union> ?H = set needed" by auto
  also have "card \<dots> = length needed" by (rule distinct_card [OF assms(2)])
  finally have n: "card ?N + card ?H \<le> unat cap" using assms(3) by simp
  have "card ?E + card ?R = card (?E \<union> ?R)" by (rule card_Un_disjoint [symmetric]) auto
  also have "?E \<union> ?R = {g. g < cap}" by auto
  finally have r: "length (ring_queue ring) + card ?R = unat cap"
    by (simp add: card_slots length_ring_queue [OF assms(1)])
  have "?R - idx_lookup idx ` ?H \<subseteq> {g. g < cap \<and> evictable res flags g}"
    using assms(4) by (auto simp: evictable_def)
  then have "card (?R - idx_lookup idx ` ?H) \<le> card {g. g < cap \<and> evictable res flags g}" by (rule card_mono [rotated]) simp
  moreover have "card ?R - card (idx_lookup idx ` ?H) \<le> card (?R - idx_lookup idx ` ?H)"
    by (rule diff_card_le_card_Diff) simp
  moreover have "card (idx_lookup idx ` ?H) \<le> card ?H" by (rule card_image_le) simp
  ultimately show ?thesis using n r by linarith
qed

subsection \<open>The two ways of admission\<close>

text \<open>What an admission of \<open>ns\<close> achieves: every record of \<open>ns\<close> has a slot, distinct from all others,
  and unless it is skipped (a fresh insert) reads there as in the Primary Store; other slots
  keep their contents and the records of \<open>K\<close> their slots.\<close>

definition staged ::
  "'v HybridStager \<Rightarrow> u32 set \<Rightarrow> u32 list \<Rightarrow> (u32 \<Rightarrow> bool) \<Rightarrow> u32 \<Rightarrow> 'v HybridStager \<Rightarrow> bool" where
  "staged st K ns skip e st' \<longleftrightarrow> stager_inv st' \<and>
     gpu_capacity st' = gpu_capacity st \<and> CPU_records st' = CPU_records st \<and> split_field st' = split_field st \<and>
     new_is_insert st' = new_is_insert st \<and> stager_units st' = stager_units st \<and>
     (\<forall>c \<in> K. idx_lookup (crid2grid_index st') c = idx_lookup (crid2grid_index st) c) \<and>
     (\<exists>ps. map fst ps = ns \<and> distinct (map snd ps) \<and>
       (\<forall>(c, g) \<in> set ps. idx_lookup (crid2grid_index st') c = g \<and> g < gpu_capacity st \<and>
          (\<not> skip c \<longrightarrow> reads_as e (GPU_records st' g) (CPU_records st c))) \<and>
       (\<forall>g. g \<notin> snd ` set ps \<longrightarrow> GPU_records st' g = GPU_records st g))"

lemma bind_granted_fields [simp]:
  "gpu_capacity (bind_granted ps st) = gpu_capacity st" "stager_units (bind_granted ps st) = stager_units st"
  "free_list_ring (bind_granted ps st) = free_list_ring st" "fifo_next_grid (bind_granted ps st) = fifo_next_grid st"
  "CPU_records (bind_granted ps st) = CPU_records st" "GPU_records (bind_granted ps st) = GPU_records st"
  "new_is_insert (bind_granted ps st) = new_is_insert st" "split_field (bind_granted ps st) = split_field st"
  "crid2grid_index (bind_granted ps st) = bulk_insert ps (crid2grid_index st)"
  "resident_list (bind_granted ps st) = scatter (map prod.swap ps) (resident_list st)"
  by (simp_all add: bind_granted_def k_set_grid2crid_def)

lemma filter_zip_snd_distinct: "distinct gs \<Longrightarrow> length gs = length ns \<Longrightarrow> distinct (map snd (filter P (zip ns gs)))"
  by (metis distinct_map_filter map_snd_zip)

text \<open>Admission from the ring; the second case of \<^verbatim>\<open>prepareEpoch\<close> uses it for the rest.\<close>

lemma grant_staged:
  assumes "stager_inv st" and "admissible (crid2grid_index st) ns"
    and "length ns \<le> length (ring_queue (free_list_ring st))"
    and "0 < n_insert \<longrightarrow> (\<exists>rest. flags = map ins ns @ rest)" and "K \<inter> set ns = {}"
    and "p = ring_pop (free_list_ring st) (of_nat (length ns))" and "ps = zip ns (snd p)"
  shows "staged st K ns (\<lambda>c. 0 < n_insert \<and> ins c) e
           (sg_transfer_versions (miss_subset n_insert ps flags) e (bind_granted ps (st\<lparr>free_list_ring := fst p\<rparr>)))"
proof -
  let ?st = "bind_granted ps (st\<lparr>free_list_ring := fst p\<rparr>)" and ?skip = "\<lambda>c. 0 < n_insert \<and> ins c"
  let ?ms = "filter (\<lambda>(c, g). \<not> ?skip c) ps"
  have i: "cache_inv (gpu_capacity st) (stager_units st) (crid2grid_index st) (resident_list st) (free_list_ring st)"
    using assms(1) by (simp add: stager_inv_def)
  note G = grant_facts [OF i assms(3), folded assms(6)] and C = cache_inv_grant [OF i assms(2,3,6,7)]
  have ms: "miss_subset n_insert ps flags = ?ms" unfolding assms(7) by (rule miss_subset_eq [OF G(4) assms(4)])
  have d: "distinct (snd p)" using cache_invD(8) [OF i] by (simp add: G(1))
  have dm: "distinct (map snd ?ms)" unfolding assms(7) by (rule filter_zip_snd_distinct [OF d G(4)])
  have ns: "sentinel \<notin> set ns" using assms(2) by (auto simp: admissible_def idx_valid_def)
  have "stager_inv ?st" using assms(1) C(1) by (simp add: stager_inv_def)
  moreover have "\<forall>c \<in> K. idx_lookup (crid2grid_index ?st) c = idx_lookup (crid2grid_index st) c"
    using C(3) assms(5) by auto
  moreover have "map fst ps = ns" "distinct (map snd ps)" using G(4) d by (simp_all add: assms(7))
  moreover have "\<forall>(c, g) \<in> set ps. idx_lookup (crid2grid_index ?st) c = g \<and> g < gpu_capacity st \<and>
      (\<not> ?skip c \<longrightarrow> reads_as e (GPU_records (sg_transfer_versions ?ms e ?st) g) (CPU_records st c))"
  proof (intro ballI, clarify)
    fix c g assume cg: "(c, g) \<in> set ps"
    then have m: "c \<in> set ns" "g \<in> set (snd p)" by (auto simp: assms(7) dest: set_zip_leftD set_zip_rightD)
    then have "c \<noteq> sentinel" "g < gpu_capacity st" using ns C(4) by auto
    then show "idx_lookup (crid2grid_index ?st) c = g \<and> g < gpu_capacity st \<and>
      (\<not> ?skip c \<longrightarrow> reads_as e (GPU_records (sg_transfer_versions ?ms e ?st) g) (CPU_records st c))"
      using C(2) [OF cg] sg_transfer_reads [OF dm, of c g e ?st] cg by auto
  qed
  moreover have "\<forall>g. g \<notin> snd ` set ps \<longrightarrow> GPU_records (sg_transfer_versions ?ms e ?st) g = GPU_records st g"
  proof (intro allI impI)
    fix g assume "g \<notin> snd ` set ps"
    then have "g \<notin> snd ` set ?ms" by auto
    then show "GPU_records (sg_transfer_versions ?ms e ?st) g = GPU_records st g" by (simp add: sg_transfer_keeps)
  qed
  ultimately show ?thesis
    unfolding staged_def ms by (intro conjI exI [of _ ps]) (simp_all add: stager_inv_def)
qed

lemma admit_only_staged:
  assumes "stager_inv st" and "admissible (crid2grid_index st) ns"
    and "length ns \<le> length (ring_queue (free_list_ring st))"
    and "0 < n_insert \<longrightarrow> (\<exists>rest. new_is_insert st = map ins ns @ rest)" and "K \<inter> set ns = {}"
  shows "\<exists>st'. admit_only ns n_insert e st = Inr st' \<and> staged st K ns (\<lambda>c. 0 < n_insert \<and> ins c) e st'"
proof -
  have i: "cache_inv (gpu_capacity st) (stager_units st) (crid2grid_index st) (resident_list st) (free_list_ring st)"
    using assms(1) by (simp add: stager_inv_def)
  show ?thesis
    using grant_staged [OF assms refl refl, of e] grant_facts(4) [OF i assms(3)]
    by (simp add: admit_only_def split_beta Let_def)
qed

lemma admit_rest_staged:
  assumes "stager_inv st" and "admissible (crid2grid_index st) ns"
    and "length ns \<le> length (ring_queue (free_list_ring st))"
    and "0 < n_insert \<longrightarrow> (\<exists>rest. flags = map ins ns @ rest)" and "K \<inter> set ns = {}"
  shows "staged st K ns (\<lambda>c. 0 < n_insert \<and> ins c) e (admit_rest ns flags n_insert e st)"
proof (cases "ns = []")
  case True
  then show ?thesis using assms(1) by (simp add: admit_rest_def staged_def)
next
  case False
  then show ?thesis
    using grant_staged [OF assms refl refl, of e] by (simp add: admit_rest_def split_beta Let_def)
qed

lemma rename_evicted_fields [simp]:
  "gpu_capacity (rename_evicted vs ns st) = gpu_capacity st" "stager_units (rename_evicted vs ns st) = stager_units st"
  "free_list_ring (rename_evicted vs ns st) = free_list_ring st" "fifo_next_grid (rename_evicted vs ns st) = fifo_next_grid st"
  "CPU_records (rename_evicted vs ns st) = CPU_records st" "GPU_records (rename_evicted vs ns st) = GPU_records st"
  "new_is_insert (rename_evicted vs ns st) = new_is_insert st" "split_field (rename_evicted vs ns st) = split_field st"
  "crid2grid_index (rename_evicted vs ns st) =
     bulk_update_crid (zip (map snd vs) (zip ns (map fst vs))) (crid2grid_index st)"
  "resident_list (rename_evicted vs ns st) = scatter (zip (map fst vs) ns) (resident_list st)"
  by (simp_all add: rename_evicted_def k_set_grid2crid_def Let_def)

text \<open>Distinct cached records have distinct slots.\<close>

lemma slots_distinct:
  assumes "cache_inv cap units idx res ring" and "distinct (map fst ps)" and "sentinel \<notin> fst ` set ps"
    and "\<forall>(c, g) \<in> set ps. idx_lookup idx c = g \<and> g < cap"
  shows "distinct (map snd ps)"
proof -
  note D = cache_invD [OF assms(1)]
  have gs: "g \<noteq> sentinel" if "g < cap" for g
    using flat.coherentD(5) [OF D(6), of g] that D(3) by (simp add: word_less_nat_alt)
  have "inj_on snd (set ps)"
  proof (rule inj_onI)
    fix x y assume xy: "x \<in> set ps" "y \<in> set ps" "snd x = snd y"
    have l: "idx_lookup idx (fst x) = snd x" "idx_lookup idx (fst y) = snd y" "snd x < cap"
      using assms(4) xy(1,2) by (auto simp: split_beta)
    have "fst x \<noteq> sentinel" "fst y \<noteq> sentinel" using assms(3) xy(1,2) by (auto simp: image_iff)
    then have "fst x = fst y" using flat.coherent_inj [OF D(6)] l xy(3) gs by metis
    with xy(3) show "x = y" by (simp add: prod_eq_iff)
  qed
  moreover have "distinct ps" using assms(2) by (simp add: distinct_map)
  ultimately show ?thesis by (simp add: distinct_map)
qed

text \<open>What the victim scan provides.\<close>

lemma victims_facts:
  assumes "stager_inv st" and "scan_schedule (gpu_capacity st) sched1" and "scan_schedule (gpu_capacity st) sched2"
    and "length (needed_grid_flag st) = unat (gpu_capacity st)"
    and "deficit \<le> card {g. g < gpu_capacity st \<and> evictable (resident_list st) (needed_grid_flag st) g}"
    and "s = collect_evictions (reclaim_eviction_active st) sched1 sched2 (fifo_next_grid st) (gpu_capacity st)
                (resident_list st) (needed_grid_flag st) (reclaim_flag st) deficit"
  shows "deficit \<le> ev_count s" and "length (ev_out s) = deficit" and "distinct (map fst (ev_out s))"
    and "\<forall>(g, crid) \<in> set (ev_out s). g < gpu_capacity st \<and> crid = load (resident_list st) g \<and> crid \<noteq> sentinel"
    and "\<forall>g \<in> fst ` set (ev_out s). \<not> load (needed_grid_flag st) g"
proof -
  have b: "gpu_capacity st \<le> 0x80000000" "fifo_next_grid st < gpu_capacity st"
    using assms(1) by (simp_all add: stager_inv_def cache_inv_def)
  note I = collect_evictions_inv [OF b assms(2-4), where resident = "resident_list st" and deficit = deficit
      and active = "reclaim_eviction_active st" and reclaim = "reclaim_flag st", folded assms(6)]
  show c: "deficit \<le> ev_count s" unfolding assms(6) by (rule collect_evictions_complete [OF b assms(2-5)])
  show "length (ev_out s) = deficit" "distinct (map fst (ev_out s))" using I c by (simp_all add: scan_inv_def)
  show "\<forall>(g, crid) \<in> set (ev_out s). g < gpu_capacity st \<and> crid = load (resident_list st) g \<and> crid \<noteq> sentinel"
    and "\<forall>g \<in> fst ` set (ev_out s). \<not> load (needed_grid_flag st) g"
    using I by (auto simp: scan_inv_def evictable_def)
qed

lemma victim_cached:
  assumes "stager_inv st" and "\<forall>(g, crid) \<in> set vs. g < gpu_capacity st \<and> crid = load (resident_list st) g \<and> crid \<noteq> sentinel"
    and "c \<in> set (map snd vs)"
  shows "idx_lookup (crid2grid_index st) c \<in> fst ` set vs" and "idx_lookup (crid2grid_index st) c \<noteq> sentinel"
proof -
  have i: "cache_inv (gpu_capacity st) (stager_units st) (crid2grid_index st) (resident_list st) (free_list_ring st)"
    using assms(1) by (simp add: stager_inv_def)
  note D = cache_invD [OF i]
  obtain g where g: "(g, c) \<in> set vs" using assms(3) by auto
  then have l: "g < gpu_capacity st" "c = load (resident_list st) g" "c \<noteq> sentinel" using assms(2) by auto
  then have u: "unat g < length (resident_list st)" using D(3) by (simp add: word_less_nat_alt)
  then have "idx_lookup (crid2grid_index st) c = g" using flat.coherentD(3) [OF D(6) u] l by simp
  moreover have "g \<noteq> sentinel" by (rule flat.coherentD(5) [OF D(6) u])
  moreover have "g \<in> fst ` set vs" using g by (rule rev_image_eqI) simp
  ultimately show "idx_lookup (crid2grid_index st) c \<in> fst ` set vs" "idx_lookup (crid2grid_index st) c \<noteq> sentinel"
    by simp_all
qed

text \<open>Renaming the victims' slots.\<close>

lemma rename_staged:
  assumes "stager_inv st" and "admissible (crid2grid_index st) ns" and "length ns = length vs"
    and "distinct (map fst vs)"
    and "\<forall>(g, crid) \<in> set vs. g < gpu_capacity st \<and> crid = load (resident_list st) g \<and> crid \<noteq> sentinel"
  shows "stager_inv (rename_evicted vs ns st)"
    and "\<And>c g. (c, g) \<in> set (zip ns (map fst vs)) \<Longrightarrow> idx_lookup (crid2grid_index (rename_evicted vs ns st)) c = g"
    and "\<And>c. c \<notin> set ns \<Longrightarrow> idx_lookup (crid2grid_index st) c \<notin> fst ` set vs \<Longrightarrow>
           idx_lookup (crid2grid_index (rename_evicted vs ns st)) c = idx_lookup (crid2grid_index st) c"
    and "idx_valid (crid2grid_index (rename_evicted vs ns st)) = idx_valid (crid2grid_index st)"
proof -
  have i: "cache_inv (gpu_capacity st) (stager_units st) (crid2grid_index st) (resident_list st) (free_list_ring st)"
    using assms(1) by (simp add: stager_inv_def)
  note C = cache_inv_rename [OF i assms(2-5) refl]
  show "stager_inv (rename_evicted vs ns st)" using assms(1) C(1) by (simp add: stager_inv_def)
  show "idx_lookup (crid2grid_index (rename_evicted vs ns st)) c = g" if "(c, g) \<in> set (zip ns (map fst vs))" for c g
    using C(2) [OF that] by simp
  show "idx_lookup (crid2grid_index (rename_evicted vs ns st)) c = idx_lookup (crid2grid_index st) c"
    if "c \<notin> set ns" "idx_lookup (crid2grid_index st) c \<notin> fst ` set vs" for c
    using C(3) [OF that(1)] victim_cached(1) [OF assms(1,5), of c] that(2) by auto
  show "idx_valid (crid2grid_index (rename_evicted vs ns st)) = idx_valid (crid2grid_index st)"
    by (simp add: fun_eq_iff flat.valid_kept)
qed

text \<open>The transfer into the victims' slots after the rest has been admitted.\<close>

lemma staged_then_transfer:
  assumes "stager_inv st2" and "staged st2 (K \<union> set ns1) ns2 skip e st3"
    and "distinct (ns1 @ ns2)" and "sentinel \<notin> set (ns1 @ ns2)"
    and "map fst ps1 = ns1" and "\<forall>(c, g) \<in> set ps1. idx_lookup (crid2grid_index st2) c = g \<and> g < gpu_capacity st2"
    and "gpu_capacity st2 = gpu_capacity st" "CPU_records st2 = CPU_records st" "GPU_records st2 = GPU_records st"
      "split_field st2 = split_field st" "new_is_insert st2 = new_is_insert st" "stager_units st2 = stager_units st"
    and "\<forall>c \<in> K. idx_lookup (crid2grid_index st2) c = idx_lookup (crid2grid_index st) c"
  shows "staged st K (ns1 @ ns2) skip e (sg_transfer_versions (filter (\<lambda>(c, g). \<not> skip c) ps1) e st3)"
proof -
  let ?ms = "filter (\<lambda>(c, g). \<not> skip c) ps1" and ?st = "sg_transfer_versions (filter (\<lambda>(c, g). \<not> skip c) ps1) e st3"
  obtain ps2 where ps2: "map fst ps2 = ns2" "distinct (map snd ps2)"
    "\<forall>(c, g) \<in> set ps2. idx_lookup (crid2grid_index st3) c = g \<and> g < gpu_capacity st2 \<and>
          (\<not> skip c \<longrightarrow> reads_as e (GPU_records st3 g) (CPU_records st2 c))"
    "\<forall>g. g \<notin> snd ` set ps2 \<longrightarrow> GPU_records st3 g = GPU_records st2 g"
    using assms(2) unfolding staged_def by blast
  have S: "stager_inv st3" "gpu_capacity st3 = gpu_capacity st" "CPU_records st3 = CPU_records st"
    "split_field st3 = split_field st" "new_is_insert st3 = new_is_insert st" "stager_units st3 = stager_units st"
    "\<forall>c \<in> K \<union> set ns1. idx_lookup (crid2grid_index st3) c = idx_lookup (crid2grid_index st2) c"
    using assms(2,7-12) by (simp_all add: staged_def)
  have i3: "cache_inv (gpu_capacity st) (stager_units st3) (crid2grid_index st3) (resident_list st3) (free_list_ring st3)"
    using S(1,2) by (simp add: stager_inv_def)
  have m1: "c \<in> set ns1" if "(c, g) \<in> set ps1" for c g using that assms(5) by force
  have look: "\<forall>(c, g) \<in> set (ps1 @ ps2). idx_lookup (crid2grid_index st3) c = g \<and> g < gpu_capacity st"
  proof (intro ballI, clarify)
    fix c g assume "(c, g) \<in> set (ps1 @ ps2)"
    then show "idx_lookup (crid2grid_index st3) c = g \<and> g < gpu_capacity st"
      using m1 assms(6) S(7) ps2(3) assms(7) by auto
  qed
  have mf: "map fst (ps1 @ ps2) = ns1 @ ns2" by (simp add: assms(5) ps2(1))
  have "sentinel \<notin> fst ` set (ps1 @ ps2)" using assms(4) mf by (metis list.set_map)
  from slots_distinct [OF i3 _ this look, unfolded mf, OF assms(3)] have d: "distinct (map snd (ps1 @ ps2))" .
  then have dm: "distinct (map snd ?ms)" by (simp add: distinct_map_filter)
  have keep2: "GPU_records ?st g = GPU_records st3 g" if "g \<notin> snd ` set ps1" for g
    by (rule sg_transfer_keeps) (use that in auto)
  have "\<forall>(c, g) \<in> set (ps1 @ ps2). idx_lookup (crid2grid_index ?st) c = g \<and> g < gpu_capacity st \<and>
          (\<not> skip c \<longrightarrow> reads_as e (GPU_records ?st g) (CPU_records st c))"
  proof (intro ballI, clarify)
    fix c g assume cg: "(c, g) \<in> set (ps1 @ ps2)"
    have l: "idx_lookup (crid2grid_index ?st) c = g" "g < gpu_capacity st" using bspec [OF look cg] by simp_all
    have "reads_as e (GPU_records ?st g) (CPU_records st c)" if n: "\<not> skip c"
    proof (cases "(c, g) \<in> set ps1")
      case True
      then have "c \<noteq> sentinel" using m1 assms(4) by auto
      with sg_transfer_reads [OF dm, of c g e st3] True n S(3) show ?thesis by auto
    next
      case False
      then have c2: "(c, g) \<in> set ps2" using cg by simp
      then have "g \<in> snd ` set ps2" by (rule rev_image_eqI) simp
      then have "g \<notin> snd ` set ps1" using d by auto
      then show ?thesis using keep2 ps2(3) c2 n assms(8) by auto
    qed
    with l show "idx_lookup (crid2grid_index ?st) c = g \<and> g < gpu_capacity st \<and>
          (\<not> skip c \<longrightarrow> reads_as e (GPU_records ?st g) (CPU_records st c))" by blast
  qed
  moreover have "\<forall>g. g \<notin> snd ` set (ps1 @ ps2) \<longrightarrow> GPU_records ?st g = GPU_records st g"
    using keep2 ps2(4) assms(9) by (simp add: image_Un)
  moreover have "stager_inv ?st" using S(1) by (simp add: stager_inv_def)
  ultimately show ?thesis
    unfolding staged_def using S assms(13) mf d
    by (intro conjI exI [of _ "ps1 @ ps2"]) simp_all
qed

lemma evict_and_admit_staged:
  assumes "stager_inv st" and "admissible (crid2grid_index st) ns"
    and "scan_schedule (gpu_capacity st) sched1" and "scan_schedule (gpu_capacity st) sched2"
    and "length (needed_grid_flag st) = unat (gpu_capacity st)"
    and "deficit = length ns - length (ring_queue (free_list_ring st))"
    and "deficit \<le> card {g. g < gpu_capacity st \<and> evictable (resident_list st) (needed_grid_flag st) g}"
    and "0 < n_insert \<longrightarrow> (\<exists>rest. new_is_insert st = map ins ns @ rest)" and "K \<inter> set ns = {}"
    and "\<forall>c \<in> K. idx_lookup (crid2grid_index st) c < gpu_capacity st \<and>
           load (needed_grid_flag st) (idx_lookup (crid2grid_index st) c)"
  shows "\<exists>st'. evict_and_admit sched1 sched2 ns deficit n_insert e st = Inr st' \<and>
           staged st K ns (\<lambda>c. 0 < n_insert \<and> ins c) e st'"
proof -
  define s where "s = collect_evictions (reclaim_eviction_active st) sched1 sched2 (fifo_next_grid st) (gpu_capacity st)
                (resident_list st) (needed_grid_flag st) (reclaim_flag st) deficit"
  define st1 where "st1 = st\<lparr>fifo_next_grid := (fifo_next_grid st + (ev_max s + 1)) mod gpu_capacity st,
                           needed_grid_flag := ev_needed s\<rparr>"
  define st2 where "st2 = rename_evicted (ev_out s) (take deficit ns) st1"
  define st3 where "st3 = admit_rest (drop deficit ns) (drop deficit (new_is_insert st)) n_insert e st2"
  let ?ns1 = "take deficit ns" and ?ns2 = "drop deficit ns" and ?ps1 = "zip (take deficit ns) (map fst (ev_out s))"
  note V = victims_facts [OF assms(1,3-5,7) s_def]
  have dl: "deficit \<le> length ns" using assms(6) by simp
  have inv1: "stager_inv st1"
    using assms(1) by (simp add: stager_inv_def st1_def cache_inv_def word_less_nat_alt unat_mod_distrib unat_gt_0)
  have idx1: "crid2grid_index st1 = crid2grid_index st" "resident_list st1 = resident_list st"
    "gpu_capacity st1 = gpu_capacity st" by (simp_all add: st1_def)
  have dn: "distinct ns" "\<And>c. c \<in> set ns \<Longrightarrow> idx_valid (crid2grid_index st) c \<and> idx_lookup (crid2grid_index st) c = sentinel"
    using assms(2) by (auto simp: admissible_def)
  have adm1: "admissible (crid2grid_index st1) ?ns1"
    using dn by (auto simp: admissible_def idx1 dest: in_set_takeD)
  have len1: "length ?ns1 = length (ev_out s)" using dl by (simp add: V(2))
  note R = rename_staged [OF inv1 adm1 len1 V(3), folded st2_def, unfolded idx1, OF V(4)]
  have sg: "g \<noteq> sentinel" if "g \<in> fst ` set (ev_out s)" for g
  proof -
    have "g < gpu_capacity st" using V(4) that by auto
    then show ?thesis using unat_u32_lt [of "gpu_capacity st"] by (auto simp: word_less_nat_alt)
  qed
  have keep: "idx_lookup (crid2grid_index st2) c = sentinel" if "c \<in> set ?ns2" for c
  proof -
    have c: "c \<in> set ns" using that by (rule in_set_dropD)
    have "c \<notin> set ?ns1" using dn(1) that set_take_disj_set_drop_if_distinct [OF dn(1), of deficit deficit] by auto
    with R(3) [of c] dn(2) [OF c] sg show ?thesis by metis
  qed
  have adm2: "admissible (crid2grid_index st2) ?ns2"
    using dn keep by (auto simp: admissible_def R(4) dest: in_set_dropD)
  have K2: "\<forall>c \<in> K. idx_lookup (crid2grid_index st2) c = idx_lookup (crid2grid_index st) c"
  proof
    fix c assume c: "c \<in> K"
    then have "c \<notin> set ?ns1" using assms(9) by (auto dest: in_set_takeD)
    moreover have "idx_lookup (crid2grid_index st) c \<notin> fst ` set (ev_out s)"
      using bspec [OF assms(10) c] V(5) by blast
    ultimately show "idx_lookup (crid2grid_index st2) c = idx_lookup (crid2grid_index st) c" by (rule R(3))
  qed
  have disj: "(K \<union> set ?ns1) \<inter> set ?ns2 = {}"
    using assms(9) set_take_disj_set_drop_if_distinct [OF dn(1), of deficit deficit] by (auto dest: in_set_dropD)
  have len2: "length ?ns2 \<le> length (ring_queue (free_list_ring st2))" using assms(6) by (simp add: st2_def st1_def)
  have fl: "0 < n_insert \<longrightarrow> (\<exists>rest. drop deficit (new_is_insert st) = map ins ?ns2 @ rest)"
    using assms(8) dl by (auto simp: drop_map)
  have S3: "staged st2 (K \<union> set ?ns1) ?ns2 (\<lambda>c. 0 < n_insert \<and> ins c) e st3"
    unfolding st3_def by (rule admit_rest_staged [OF R(1) adm2 len2 fl disj])
  have ps1: "map fst ?ps1 = ?ns1" using len1 by simp
  have look1: "\<forall>(c, g) \<in> set ?ps1. idx_lookup (crid2grid_index st2) c = g \<and> g < gpu_capacity st2"
  proof (intro ballI, clarify)
    fix c g assume cg: "(c, g) \<in> set ?ps1"
    then have "g \<in> fst ` set (ev_out s)" by (metis list.set_map set_zip_rightD)
    then have "g < gpu_capacity st" using V(4) by auto
    with R(2) [OF cg] show "idx_lookup (crid2grid_index st2) c = g \<and> g < gpu_capacity st2"
      by (simp add: st2_def st1_def)
  qed
  have nsent: "sentinel \<notin> set (?ns1 @ ?ns2)" using dn(2) by (auto simp: idx_valid_def)
  have same: "gpu_capacity st2 = gpu_capacity st" "CPU_records st2 = CPU_records st" "GPU_records st2 = GPU_records st"
      "split_field st2 = split_field st" "new_is_insert st2 = new_is_insert st" "stager_units st2 = stager_units st"
    by (simp_all add: st2_def st1_def)
  have "staged st K (?ns1 @ ?ns2) (\<lambda>c. 0 < n_insert \<and> ins c) e
      (sg_transfer_versions (filter (\<lambda>(c, g). \<not> (0 < n_insert \<and> ins c)) ?ps1) e st3)"
    by (rule staged_then_transfer [OF R(1) S3 _ nsent ps1 look1 same K2]) (simp add: dn(1))
  moreover have "miss_subset n_insert ?ps1 (new_is_insert st) = filter (\<lambda>(c, g). \<not> (0 < n_insert \<and> ins c)) ?ps1"
  proof (rule miss_subset_eq)
    show "length (map fst (ev_out s)) = length ?ns1" using len1 by simp
    show "0 < n_insert \<longrightarrow> (\<exists>rest. new_is_insert st = map ins ?ns1 @ rest)"
      using assms(8) by (metis append.assoc append_take_drop_id map_append)
  qed
  moreover have "evict_and_admit sched1 sched2 ns deficit n_insert e st =
      Inr (sg_transfer_versions (miss_subset n_insert ?ps1 (new_is_insert st)) e st3)"
    unfolding evict_and_admit_def s_def [symmetric] Let_def st1_def [symmetric] st2_def [symmetric] st3_def [symmetric]
    using V(1) by simp
  ultimately show ?thesis by simp
qed

subsection \<open>The whole preparation\<close>

lemma touch_fields [simp]:
  "idx_lookup (touch_by_grids gs e idx) = idx_lookup idx" "idx_valid (touch_by_grids gs e idx) = idx_valid idx"
  "idx_inv (touch_by_grids gs e idx) = idx_inv idx" "num_units (touch_by_grids gs e idx) = num_units idx"
  "d_crid_to_grid (touch_by_grids gs e idx) = d_crid_to_grid idx"
  by (simp_all add: touch_by_grids_def idx_lookup_def [abs_def] idx_valid_def [abs_def] idx_inv_def)

lemma touch_coherent [simp]: "flat.coherent (touch_by_grids gs e idx) res = flat.coherent idx res"
  by (simp add: flat.coherent_def)

lemma count_fields [simp]:
  "gpu_capacity (count_admissions n i st) = gpu_capacity st" "stager_units (count_admissions n i st) = stager_units st"
  "free_list_ring (count_admissions n i st) = free_list_ring st" "fifo_next_grid (count_admissions n i st) = fifo_next_grid st"
  "CPU_records (count_admissions n i st) = CPU_records st" "GPU_records (count_admissions n i st) = GPU_records st"
  "new_is_insert (count_admissions n i st) = new_is_insert st" "split_field (count_admissions n i st) = split_field st"
  "crid2grid_index (count_admissions n i st) = crid2grid_index st" "resident_list (count_admissions n i st) = resident_list st"
  "needed_grid_flag (count_admissions n i st) = needed_grid_flag st"
  "reclaim_eviction_active (count_admissions n i st) = reclaim_eviction_active st"
  "reclaim_flag (count_admissions n i st) = reclaim_flag st"
  by (simp_all add: count_admissions_def)

lemma stager_inv_count [simp]: "stager_inv (count_admissions n i st) = stager_inv st"
  by (simp add: stager_inv_def)

lemma build_needed_ok:
  assumes "card (set keys) \<le> unat (gpu_capacity st)"
    and "if epoch = 1 then card (set keys) < 2 ^ 31 else card (set keys) \<le> unat (first_needed_count st)"
  shows "\<exists>cap'. buildNeededOnDevice keys epoch st = Inr (unique_runs (sort keys), st\<lparr>first_needed_count := cap'\<rparr>)"
proof (cases "keys = []")
  case True
  then show ?thesis by (intro exI [of _ "first_needed_count st"]) (simp add: buildNeededOnDevice_def)
next
  case False
  have "length (unique_runs (sort keys)) = card (set keys)"
    using distinct_card [OF distinct_unique_runs [of "sort keys"]] by simp
  moreover have "unat (of_nat (card (set keys)) * 2 :: u32) = card (set keys) * 2" if "card (set keys) < 2 ^ 31"
    using that unat_of_nat_u32 [of "card (set keys) * 2"] by (simp add: mult.commute)
  ultimately show ?thesis
    using False assms
    by (intro exI [of _ "if epoch = 1 then of_nat (card (set keys)) * 2 else first_needed_count st"])
      (auto simp: buildNeededOnDevice_def Let_def split: if_splits)
qed

lemma needed_facts:
  "distinct (unique_runs (sort keys))" "set (unique_runs (sort keys)) = set keys"
  "length (unique_runs (sort keys)) = card (set keys)" for keys :: "u32 list"
  using distinct_card [OF distinct_unique_runs [of "sort keys"]] by (simp_all add: distinct_unique_runs)

text \<open>The bitmap of inserted records.\<close>

lemma insert_bitmap_fold:
  "length bm = unat units \<Longrightarrow> k < units \<Longrightarrow>
    load (fold (k_set_insert_bitmap units) ks bm) k \<longleftrightarrow> load bm k \<or> (k \<noteq> sentinel \<and> k \<in> set ks)"
  by (induction ks arbitrary: bm) (auto simp: k_set_insert_bitmap_def load_store word_less_nat_alt)

lemma insert_bitmap_iff:
  assumes "n_insert = length (filter (\<lambda>k. k \<noteq> sentinel) insert_keys)" and "k < stager_units st" and "k \<noteq> sentinel"
  shows "0 < n_insert \<and> load (insert_bitmap (set_insert_bitmap insert_keys n_insert st)) k \<longleftrightarrow> k \<in> set insert_keys"
proof (cases "0 < n_insert")
  case True
  then have "insert_keys \<noteq> []" using assms(1) by auto
  with True assms(2,3) show ?thesis
    by (simp add: set_insert_bitmap_def insert_bitmap_fold word_less_nat_alt)
next
  case False
  with assms(1,3) show ?thesis by (auto simp: filter_empty_conv)
qed

text \<open>Zeroing the tags of inserted slots.\<close>

lemma zero_tags_other:
  "g \<notin> (idx_lookup idx \<circ> fst) ` set (filter snd es) \<Longrightarrow> fold (k_zero_insert_slot_tags idx) es r g = r g"
  by (induction es arbitrary: r)
    (auto simp: k_zero_insert_slot_tags_def Let_def idx_lookup_def flat_lookup_def not_le split: if_splits)

lemma zero_tags_mono:
  "version1 (r g) = 0 \<and> version2 (r g) = 0 \<Longrightarrow>
     version1 (fold (k_zero_insert_slot_tags idx) es r g) = 0 \<and> version2 (fold (k_zero_insert_slot_tags idx) es r g) = 0"
  by (induction es arbitrary: r) (auto simp: k_zero_insert_slot_tags_def Let_def split: prod.splits)

lemma zero_tags_in:
  assumes "(c, True) \<in> set es" and "idx_valid idx c" and "idx_lookup idx c = g" and "g \<noteq> sentinel"
  shows "version1 (fold (k_zero_insert_slot_tags idx) es r g) = 0 \<and> version2 (fold (k_zero_insert_slot_tags idx) es r g) = 0"
  using assms(1)
proof (induction es arbitrary: r)
  case (Cons x es)
  show ?case
  proof (cases "x = (c, True)")
    case True
    have "k_zero_insert_slot_tags idx x r = r(g := (r g)\<lparr>version1 := 0, version2 := 0\<rparr>)"
      using assms(2-4)
      by (auto simp: True k_zero_insert_slot_tags_def Let_def idx_lookup_def flat_lookup_def idx_valid_def dest: leD)
    then show ?thesis using zero_tags_mono [of "r(g := (r g)\<lparr>version1 := 0, version2 := 0\<rparr>)" g] by simp
  next
    case False
    with Cons show ?thesis by auto
  qed
qed simp

text \<open>What the caller guarantees: the thread orders are orders of the threads, the keys are record
  ids in range, and the distinct keys fit into the cache and into the key buffer.\<close>

definition epoch_ready ::
  "nat list \<Rightarrow> (u32 \<times> bool) list \<Rightarrow> (u32 \<times> bool) list \<Rightarrow> u32 \<Rightarrow> u32 list \<Rightarrow> 'v HybridStager \<Rightarrow> bool" where
  "epoch_ready ord sched1 sched2 epoch keys st \<longleftrightarrow>
     (\<forall>k \<in> set keys. k \<noteq> sentinel \<and> k < stager_units st) \<and>
     card (set keys) \<le> unat (gpu_capacity st) \<and>
     (if epoch = 1 then card (set keys) < 2 ^ 31 else card (set keys) \<le> unat (first_needed_count st)) \<and>
     distinct ord \<and> set ord = {..<card (set keys)} \<and>
     scan_schedule (gpu_capacity st) sched1 \<and> scan_schedule (gpu_capacity st) sched2"

lemma set_bitmap_fields [simp]:
  "gpu_capacity (set_insert_bitmap ks n st) = gpu_capacity st" "stager_units (set_insert_bitmap ks n st) = stager_units st"
  "free_list_ring (set_insert_bitmap ks n st) = free_list_ring st" "fifo_next_grid (set_insert_bitmap ks n st) = fifo_next_grid st"
  "CPU_records (set_insert_bitmap ks n st) = CPU_records st" "GPU_records (set_insert_bitmap ks n st) = GPU_records st"
  "split_field (set_insert_bitmap ks n st) = split_field st" "first_needed_count (set_insert_bitmap ks n st) = first_needed_count st"
  "crid2grid_index (set_insert_bitmap ks n st) = crid2grid_index st" "resident_list (set_insert_bitmap ks n st) = resident_list st"
  by (simp_all add: set_insert_bitmap_def)

text \<open>The state right before the admission, and the admission.\<close>

lemma admission_staged:
  assumes "stager_inv st" and "distinct needed" and "length needed \<le> unat (gpu_capacity st)"
    and "\<forall>k \<in> set needed. k \<noteq> sentinel \<and> k < stager_units st"
    and "distinct ns" and "set ns = {c \<in> set needed. idx_lookup (crid2grid_index st) c = sentinel}"
    and "length (needed_grid_flag st) = unat (gpu_capacity st)"
    and "\<And>g. g < gpu_capacity st \<Longrightarrow> load (needed_grid_flag st) g \<longleftrightarrow>
           (\<exists>c \<in> set needed. idx_lookup (crid2grid_index st) c = g \<and> g \<noteq> sentinel)"
    and "scan_schedule (gpu_capacity st) sched1" and "scan_schedule (gpu_capacity st) sched2"
    and "0 < n_insert \<longrightarrow> (\<exists>rest. new_is_insert st = map ins ns @ rest)"
    and "K = {c \<in> set needed. idx_lookup (crid2grid_index st) c \<noteq> sentinel}"
  shows "\<exists>st'. admit_new sched1 sched2 ns n n_insert e st = Inr st'
            \<and> staged st K ns (\<lambda>c. 0 < n_insert \<and> ins c) e st'"
proof -
  let ?st = "count_admissions (length ns) n st"
  have i: "cache_inv (gpu_capacity st) (stager_units st) (crid2grid_index st) (resident_list st) (free_list_ring st)"
    using assms(1) by (simp add: stager_inv_def)
  note D = cache_invD [OF i] and F = free_slots_count [OF assms(1)]
  have adm: "admissible (crid2grid_index st) ns"
    using assms(4-6) D(5) by (auto simp: admissible_def idx_valid_def)
  have disj: "K \<inter> set ns = {}" using assms(6,12) by auto
  have hits: "\<forall>c \<in> K. idx_lookup (crid2grid_index st) c < gpu_capacity st \<and>
      load (needed_grid_flag st) (idx_lookup (crid2grid_index st) c)"
  proof
    fix c assume c: "c \<in> K"
    then have n: "c \<in> set needed" "idx_lookup (crid2grid_index st) c \<noteq> sentinel" by (simp_all add: assms(12))
    then have "idx_lookup (crid2grid_index st) c < gpu_capacity st"
      using flat.coherentD(1) [OF D(6)] assms(4) D(3) by (simp add: word_less_nat_alt)
    with assms(8) n show "idx_lookup (crid2grid_index st) c < gpu_capacity st \<and>
      load (needed_grid_flag st) (idx_lookup (crid2grid_index st) c)" by blast
  qed
  have "card {c \<in> set needed. idx_lookup (crid2grid_index st) c = sentinel} = length ns"
    using distinct_card [OF assms(5)] by (simp add: assms(6))
  with enough_evictable [OF i assms(2,3,8)] F
  have ev: "length ns - unat (h_free_slots st) \<le> card {g. g < gpu_capacity st \<and> evictable (resident_list st) (needed_grid_flag st) g}"
    by simp
  have st: "staged st K ns skip e st' = staged ?st K ns skip e st'" for skip st'
    by (simp add: staged_def)
  consider "ns = []" | "ns \<noteq> []" "length ns \<le> unat (h_free_slots st)" | "ns \<noteq> []" "unat (h_free_slots st) < length ns" by force
  then show ?thesis
  proof cases
    case 1
    then show ?thesis using assms(1) by (simp add: admit_new_def staged_def)
  next
    case 2
    then show ?thesis
      using admit_only_staged [of ?st ns n_insert ins K e] assms(1,11) adm disj F
      by (simp add: admit_new_def Let_def st)
  next
    case 3
    then show ?thesis
      using evict_and_admit_staged [of ?st ns sched1 sched2 "length ns - unat (h_free_slots st)" n_insert ins K e]
        assms(1,7,9-11) adm disj F ev hits
      by (simp add: admit_new_def Let_def st)
  qed
qed

lemma zip_flags: "zip ns (map f ns @ rest) = map (\<lambda>x. (x, f x)) ns"
  by (induction ns) auto

text \<open>The tag reset keeps what the admission achieved.\<close>

lemma zero_tags_staged:
  assumes "staged st K ns skip e st6" and "\<And>c. c \<in> set ns \<Longrightarrow> idx_valid (crid2grid_index st6) c"
    and "es = zip ns flags" and "\<And>c. c \<in> set ns \<Longrightarrow> skip c \<longleftrightarrow> any \<and> ins c" and "any \<Longrightarrow> \<exists>rest. flags = map ins ns @ rest"
    and "GPU' = (if any then fold (k_zero_insert_slot_tags (crid2grid_index st6)) es (GPU_records st6) else GPU_records st6)"
    and "K \<inter> set ns = {}" and "sentinel \<notin> K" and "\<forall>c \<in> K. idx_lookup (crid2grid_index st) c \<noteq> sentinel"
    and "c \<in> K \<union> set ns" and "g = idx_lookup (crid2grid_index st6) c"
  shows "g \<noteq> sentinel \<and> g < gpu_capacity st \<and>
         (if c \<in> K then g = idx_lookup (crid2grid_index st) c \<and> GPU' g = GPU_records st g
          else if skip c then version1 (GPU' g) = 0 \<and> version2 (GPU' g) = 0
          else reads_as e (GPU' g) (CPU_records st c))"
proof -
  let ?l = "idx_lookup (crid2grid_index st6)"
  obtain ps where ps: "map fst ps = ns" "distinct (map snd ps)"
    "\<forall>(c, g) \<in> set ps. ?l c = g \<and> g < gpu_capacity st \<and> (\<not> skip c \<longrightarrow> reads_as e (GPU_records st6 g) (CPU_records st c))"
    "\<forall>g. g \<notin> snd ` set ps \<longrightarrow> GPU_records st6 g = GPU_records st g"
    using assms(1) unfolding staged_def by blast
  have inv6: "stager_inv st6" "gpu_capacity st6 = gpu_capacity st" "\<forall>c \<in> K. ?l c = idx_lookup (crid2grid_index st) c"
    using assms(1) by (simp_all add: staged_def)
  then have i: "cache_inv (gpu_capacity st) (stager_units st6) (crid2grid_index st6) (resident_list st6) (free_list_ring st6)"
    by (simp add: stager_inv_def)
  note D = cache_invD [OF i]
  have sub: "?l x < gpu_capacity st" if "x \<in> K" for x
    using flat.coherentD(1) [OF D(6), of x] that assms(8,9) inv6(3) D(3) by (auto simp: word_less_nat_alt)
  have nsl: "?l x = y \<and> y < gpu_capacity st \<and> (\<not> skip x \<longrightarrow> reads_as e (GPU_records st6 y) (CPU_records st x))"
    if "(x, y) \<in> set ps" for x y
    using bspec [OF ps(3) that] by simp
  have sent: "x \<noteq> sentinel" if "x \<in> K \<union> set ns" for x using that assms(2,8) by (auto simp: idx_valid_def)
  have mem: "\<exists>y. (x, y) \<in> set ps" if "x \<in> set ns" for x using that ps(1) by force
  have lt: "?l x < gpu_capacity st" if "x \<in> K \<union> set ns" for x using that sub mem nsl by auto
  have gne: "y \<noteq> sentinel" if "y < gpu_capacity st" for y :: u32
    using that unat_u32_lt [of "gpu_capacity st"] by (auto simp: word_less_nat_alt)
  have inj: "x = y" if "?l x = ?l y" "x \<in> K \<union> set ns" "y \<in> K \<union> set ns" for x y
    using flat.coherent_inj [OF D(6) sent sent _ that(1)] that gne lt by blast
  have fe: "set (filter snd es) = {(x, True) |x. x \<in> set ns \<and> ins x}" if any: any
  proof -
    obtain rest where "flags = map ins ns @ rest" using assms(5) [OF any] ..
    then have "es = map (\<lambda>x. (x, ins x)) ns" by (simp add: assms(3) zip_flags)
    then show ?thesis by auto
  qed
  have same: "GPU' g = GPU_records st6 g" if "\<not> (c \<in> set ns \<and> skip c)"
  proof (cases any)
    case True
    have "g \<notin> (?l \<circ> fst) ` set (filter snd es)"
    proof
      assume "g \<in> (?l \<circ> fst) ` set (filter snd es)"
      then obtain x where x: "x \<in> set ns" "ins x" "g = ?l x" unfolding fe [OF True] by auto
      have "x = c" by (rule inj [OF trans [OF x(3) [symmetric] assms(11)] UnI2 [OF x(1)] assms(10)])
      with x that True assms(4) [of c] show False by simp
    qed
    then show ?thesis using True by (simp add: assms(6) zero_tags_other)
  qed (simp add: assms(6))
  have rng: "g < gpu_capacity st" "g \<noteq> sentinel" using lt [OF assms(10)] gne assms(11) by simp_all
  show ?thesis
  proof (cases "c \<in> K")
    case True
    then have "c \<notin> set ns" using assms(7) by auto
    moreover have "g \<notin> snd ` set ps"
    proof
      assume "g \<in> snd ` set ps"
      then obtain x where x: "(x, g) \<in> set ps" by auto
      then have xn: "x \<in> set ns" using ps(1) by force
      have "?l x = g" using nsl [OF x] ..
      then have "x = c" by (rule inj [OF trans [OF _ assms(11)] UnI2 [OF xn] assms(10)])
      with xn \<open>c \<notin> set ns\<close> show False by simp
    qed
    moreover have "g = idx_lookup (crid2grid_index st) c" using inv6(3) True assms(11) by simp
    ultimately show ?thesis using True same ps(4) rng by metis
  next
    case False
    then have c: "c \<in> set ns" using assms(10) by simp
    then obtain y where y: "(c, y) \<in> set ps" using mem by blast
    have "version1 (GPU' g) = 0 \<and> version2 (GPU' g) = 0" if "skip c"
    proof -
      have a: any "ins c" using that assms(4) [OF c] by simp_all
      then have "(c, True) \<in> set es" using c fe by auto
      from zero_tags_in [OF this assms(2) [OF c] assms(11) [symmetric] rng(2)] show ?thesis
        using a by (simp add: assms(6))
    qed
    moreover have "reads_as e (GPU' g) (CPU_records st c)" if "\<not> skip c"
      using nsl [OF y] same that assms(11) by auto
    ultimately show ?thesis using False rng by auto
  qed
qed

lemma select_new_facts:
  assumes "stager_inv st" and "distinct needed" and "distinct ord" and "set ord = {..<length needed}"
    and "select_new ord needed epoch n_insert st = (ns, n, st')"
  shows "stager_inv st'" and "distinct ns"
    and "set ns = {c \<in> set needed. idx_lookup (crid2grid_index st) c = sentinel}"
    and "gpu_capacity st' = gpu_capacity st" and "stager_units st' = stager_units st"
    and "idx_lookup (crid2grid_index st') = idx_lookup (crid2grid_index st)"
    and "CPU_records st' = CPU_records st" and "GPU_records st' = GPU_records st" and "split_field st' = split_field st"
    and "0 < n_insert \<longrightarrow> (\<exists>rest. new_is_insert st' = map (load (insert_bitmap st)) ns @ rest)"
    and "0 < n \<longleftrightarrow> 0 < n_insert \<and> (\<exists>c \<in> set ns. load (insert_bitmap st) c)"
    and "length (needed_grid_flag st') = unat (gpu_capacity st)"
    and "\<And>g. g < gpu_capacity st \<Longrightarrow> load (needed_grid_flag st') g \<longleftrightarrow>
           (\<exists>c \<in> set needed. idx_lookup (crid2grid_index st) c = g \<and> g \<noteq> sentinel)"
proof -
  define r where "r = bulk_lookup_crid_to_grid_and_mark_needed needed (gpu_capacity st)
                        (replicate (unat (gpu_capacity st)) False) (crid2grid_index st)"
  note M = lookup_and_mark [where needed = needed and cap = "gpu_capacity st" and idx = "crid2grid_index st", folded r_def]
  have cap0: "gpu_capacity st \<noteq> 0" using assms(1) by (simp add: stager_inv_def cache_inv_def)
  let ?s = "st\<lparr>needed_grid_flag := snd r, crid2grid_index := touch_by_grids (fst r) epoch (crid2grid_index st)\<rparr>"
  let ?fl = "k_lookup_insert_flag_for_new (insert_bitmap st) ns (new_is_insert st)"
  have ns: "ns = k_copy_if_stencil_eq ord needed (fst r)"
    using assms(5) by (auto simp: select_new_def r_def [symmetric] split_beta Let_def split: if_splits)
  let ?split = "0 < length ns \<and> 0 < n_insert"
  have n: "n = (if ?split then length (filter id (take (length ns) ?fl)) else 0)"
    and st': "st' = (if ?split then ?s\<lparr>new_is_insert := ?fl\<rparr> else ?s)"
    using assms(5) by (auto simp: select_new_def r_def [symmetric] split_beta Let_def ns split: if_splits)
  show "distinct ns" "set ns = {c \<in> set needed. idx_lookup (crid2grid_index st) c = sentinel}"
    unfolding ns M(1) by (rule copy_if_facts [OF assms(2-4)])+
  show "gpu_capacity st' = gpu_capacity st" "stager_units st' = stager_units st" "CPU_records st' = CPU_records st"
    "GPU_records st' = GPU_records st" "split_field st' = split_field st"
    "idx_lookup (crid2grid_index st') = idx_lookup (crid2grid_index st)"
    by (simp_all add: st')
  show "stager_inv st'" using assms(1) by (simp add: st' stager_inv_def cache_inv_def)
  show "0 < n_insert \<longrightarrow> (\<exists>rest. new_is_insert st' = map (load (insert_bitmap st)) ns @ rest)"
    by (simp add: st' k_lookup_insert_flag_for_new_def)
  have "filter id (take (length ns) ?fl) = map (load (insert_bitmap st)) (filter (load (insert_bitmap st)) ns)"
    by (simp add: k_lookup_insert_flag_for_new_def filter_map comp_def)
  then show "0 < n \<longleftrightarrow> 0 < n_insert \<and> (\<exists>c \<in> set ns. load (insert_bitmap st) c)"
    by (auto simp: n filter_empty_conv)
  show "length (needed_grid_flag st') = unat (gpu_capacity st)" using M(2) [OF cap0] by (simp add: st')
  show "load (needed_grid_flag st') g \<longleftrightarrow> (\<exists>c \<in> set needed. idx_lookup (crid2grid_index st) c = g \<and> g \<noteq> sentinel)"
    if "g < gpu_capacity st" for g
    using M(3) [OF that] by (simp add: st')
qed

lemma prepareEpoch_facts:
  assumes "stager_inv st" and "epoch_ready ord sched1 sched2 epoch keys st"
    and "n_insert = length (filter (\<lambda>k. k \<noteq> sentinel) insert_keys)"
  shows "\<exists>st'. prepareEpoch ord sched1 sched2 epoch tps keys insert_keys n_insert st = Inr (st', rewrite_txns tps st')
      \<and> stager_inv st' \<and> gpu_capacity st' = gpu_capacity st \<and> CPU_records st' = CPU_records st \<and> split_field st' = split_field st
      \<and> (\<forall>k \<in> set keys. let g = idx_lookup (crid2grid_index st') k
          in g \<noteq> sentinel \<and> g < gpu_capacity st \<and>
             (if idx_lookup (crid2grid_index st) k \<noteq> sentinel
              then g = idx_lookup (crid2grid_index st) k \<and> GPU_records st' g = GPU_records st g
              else if k \<in> set insert_keys then version1 (GPU_records st' g) = 0 \<and> version2 (GPU_records st' g) = 0
              else reads_as epoch (GPU_records st' g) (CPU_records st k)))"
proof -
  let ?needed = "unique_runs (sort keys)"
  define st1 where "st1 = set_insert_bitmap insert_keys n_insert st"
  have E: "\<forall>k \<in> set keys. k \<noteq> sentinel \<and> k < stager_units st" "card (set keys) \<le> unat (gpu_capacity st)"
    "if epoch = 1 then card (set keys) < 2 ^ 31 else card (set keys) \<le> unat (first_needed_count st)"
    "distinct ord" "set ord = {..<card (set keys)}"
    "scan_schedule (gpu_capacity st) sched1" "scan_schedule (gpu_capacity st) sched2"
    using assms(2) unfolding epoch_ready_def by blast+
  obtain cap' where bn: "buildNeededOnDevice keys epoch st1 = Inr (?needed, st1\<lparr>first_needed_count := cap'\<rparr>)"
  proof -
    have "gpu_capacity st1 = gpu_capacity st" "first_needed_count st1 = first_needed_count st"
      by (simp_all add: st1_def)
    with build_needed_ok [of keys st1 epoch] E(2,3) that show thesis by (metis (full_types))
  qed
  define ins where "ins = load (insert_bitmap st1)"
  let ?K = "{c \<in> set ?needed. idx_lookup (crid2grid_index st) c \<noteq> sentinel}"
  let ?skip = "\<lambda>c. 0 < n_insert \<and> ins c"
  define st2 where "st2 = st1\<lparr>first_needed_count := cap'\<rparr>"
  have st2: "gpu_capacity st2 = gpu_capacity st" "crid2grid_index st2 = crid2grid_index st" "stager_inv st2"
    "insert_bitmap st2 = insert_bitmap st1" "stager_units st2 = stager_units st" "CPU_records st2 = CPU_records st"
    "GPU_records st2 = GPU_records st" "split_field st2 = split_field st"
    using assms(1) by (simp_all add: st2_def st1_def stager_inv_def)
  obtain ns n st4 where sel: "select_new ord ?needed epoch n_insert st2 = (ns, n, st4)" by (rule prod_cases3)
  note N = select_new_facts [OF st2(3) needed_facts(1) E(4) _ sel, unfolded needed_facts(3) st2, OF E(5), folded ins_def]
  have cap0: "gpu_capacity st \<noteq> 0" using assms(1) by (simp add: stager_inv_def cache_inv_def)
  obtain st6 where st6: "admit_new sched1 sched2 ns n n_insert epoch st4 = Inr st6"
    and S: "staged st4 ?K ns ?skip epoch st6"
  proof -
    have len: "length ?needed \<le> unat (gpu_capacity st4)" using E(2) by (simp add: N(4) needed_facts)
    have kv: "\<forall>k \<in> set ?needed. k \<noteq> sentinel \<and> k < stager_units st4" using E(1) by (simp add: N(5) needed_facts)
    have new: "set ns = {c \<in> set ?needed. idx_lookup (crid2grid_index st4) c = sentinel}" by (simp add: N(3,6))
    have K: "?K = {c \<in> set ?needed. idx_lookup (crid2grid_index st4) c \<noteq> sentinel}" by (simp add: N(6))
    have fl: "length (needed_grid_flag st4) = unat (gpu_capacity st4)" by (simp add: N(4,12))
    have mk: "load (needed_grid_flag st4) g \<longleftrightarrow>
        (\<exists>c \<in> set ?needed. idx_lookup (crid2grid_index st4) c = g \<and> g \<noteq> sentinel)" if "g < gpu_capacity st4" for g
      using N(13) [of g] that by (simp add: N(4,6))
    have sc: "scan_schedule (gpu_capacity st4) sched1" "scan_schedule (gpu_capacity st4) sched2"
      using E(6,7) by (simp_all add: N(4))
    show thesis
      using admission_staged [OF N(1) needed_facts(1) len kv N(2) new fl mk sc N(10) K, of n epoch] that by blast
  qed
  define GPU' where "GPU' = (if 0 < n then fold (k_zero_insert_slot_tags (crid2grid_index st6))
                                (zip ns (new_is_insert st6)) (GPU_records st6) else GPU_records st6)"
  define st7 where "st7 = (if 0 < n then st6\<lparr>GPU_records := fold (k_zero_insert_slot_tags (crid2grid_index st6))
                                (zip ns (new_is_insert st6)) (GPU_records st6)\<rparr> else st6)"
  have run: "prepareEpoch ord sched1 sched2 epoch tps keys insert_keys n_insert st = Inr (st7, rewrite_txns tps st6)"
    using bn st6 sel by (simp add: prepareEpoch_def st1_def st2_def st7_def)
  have skip: "?skip c \<longleftrightarrow> 0 < n \<and> ins c" if "c \<in> set ns" for c
    using that N(11) by auto
  have ni: "new_is_insert st6 = new_is_insert st4" "stager_inv st6" "gpu_capacity st6 = gpu_capacity st"
    "CPU_records st6 = CPU_records st" "split_field st6 = split_field st" "stager_units st6 = stager_units st"
    using S N by (simp_all add: staged_def)
  have valid: "idx_valid (crid2grid_index st6) c" if "c \<in> set ns" for c
    using that N(3) E(1) ni(2,6) by (auto simp: idx_valid_def stager_inv_def cache_inv_def)
  note Z = zero_tags_staged [OF S valid refl skip _ GPU'_def, unfolded ni(1)]
  have facts: "let g = idx_lookup (crid2grid_index st7) k
          in g \<noteq> sentinel \<and> g < gpu_capacity st \<and>
             (if idx_lookup (crid2grid_index st) k \<noteq> sentinel
              then g = idx_lookup (crid2grid_index st) k \<and> GPU_records st7 g = GPU_records st g
              else if k \<in> set insert_keys then version1 (GPU_records st7 g) = 0 \<and> version2 (GPU_records st7 g) = 0
              else reads_as epoch (GPU_records st7 g) (CPU_records st k))" if k: "k \<in> set keys" for k
  proof -
    have ks: "k \<in> ?K \<union> set ns" using k N(3) by auto
    have si: "?skip k \<longleftrightarrow> k \<in> set insert_keys"
      using insert_bitmap_iff [OF assms(3), of k st] E(1) k by (simp add: ins_def st1_def)
    have g7: "crid2grid_index st7 = crid2grid_index st6" "GPU_records st7 = GPU'" by (simp_all add: st7_def GPU'_def)
    have "let g = idx_lookup (crid2grid_index st6) k in g \<noteq> sentinel \<and> g < gpu_capacity st4 \<and>
         (if k \<in> ?K then g = idx_lookup (crid2grid_index st4) k \<and> GPU' g = GPU_records st4 g
          else if ?skip k then version1 (GPU' g) = 0 \<and> version2 (GPU' g) = 0
          else reads_as epoch (GPU' g) (CPU_records st4 k))"
      unfolding Let_def
    proof (rule Z)
      show "\<exists>rest. new_is_insert st4 = map ins ns @ rest" if "0 < n" using that N(10,11) by simp
      show "?K \<inter> set ns = {}" by (auto simp: N(3))
      show "sentinel \<notin> ?K" using E(1) by (auto simp: needed_facts)
      show "\<forall>c \<in> ?K. idx_lookup (crid2grid_index st4) c \<noteq> sentinel" by (simp add: N(6))
    qed (use ks in simp_all)
    moreover have "k \<in> ?K \<longleftrightarrow> idx_lookup (crid2grid_index st) k \<noteq> sentinel" using k by (simp add: needed_facts)
    ultimately show ?thesis unfolding g7 N(4,6-8) si by (simp only:)
  qed
  have "rewrite_txns tps st6 = rewrite_txns tps st7" by (simp add: st7_def rewrite_txns_def)
  moreover have "stager_inv st7" using ni(2) by (simp add: st7_def stager_inv_def)
  moreover have "gpu_capacity st7 = gpu_capacity st" "CPU_records st7 = CPU_records st" "split_field st7 = split_field st"
    using ni by (simp_all add: st7_def)
  ultimately show ?thesis using run facts by (intro exI [of _ st7]) simp
qed

subsection \<open>Properties\<close>

lemma new_stager_inv:
  assumes "cap \<noteq> 0" and "cap \<le> 0x80000000"
  shows "stager_inv (HybridStager_new GPU CPU cap units split reclaim cb bpe zero)"
proof -
  have c: "unat cap < 2 ^ 32" using unat_u32_lt [of cap] by simp
  have look: "idx_lookup (CridGridIndex_new cap units) c = sentinel" for c
    by (simp add: idx_lookup_def flat_lookup_def CridGridIndex_new_def word_less_nat_alt)
  have "flat.coherent (CridGridIndex_new cap units) (replicate (unat cap) sentinel)"
    using c by (intro flat.coherentI) (simp_all add: look)
  moreover have "set (ring_queue (init_ring cap)) = {g. g < cap \<and> load (replicate (unat cap) sentinel) g = sentinel}"
  proof -
    have "(of_nat ` {0..<unat cap} :: u32 set) = {g. g < cap}"
    proof (intro equalityI subsetI)
      fix g assume "g \<in> (of_nat ` {0..<unat cap} :: u32 set)"
      then show "g \<in> {g. g < cap}" using c by (auto simp: word_less_nat_alt unat_of_nat_u32)
    next
      fix g assume "g \<in> {g. g < cap}"
      then show "g \<in> (of_nat ` {0..<unat cap} :: u32 set)"
        by (intro image_eqI [of _ _ "unat g"]) (simp_all add: word_less_nat_alt)
    qed
    then show ?thesis by (auto simp: init_ring_queue word_less_nat_alt)
  qed
  moreover have "distinct (ring_queue (init_ring cap))"
    using c by (auto simp: init_ring_queue distinct_map of_nat_u32_inj intro!: inj_onI)
  ultimately show ?thesis
    using assms init_ring_inv [OF assms(1)]
    by (simp add: stager_inv_def cache_inv_def HybridStager_new_def idx_inv_def CridGridIndex_new_def word_gt_0)
qed

text \<open>C6: A stager that satisfies its invariant prepares an epoch successfully for every thread order, when the distinct
  records the epoch touches are record ids in range that fit into the cache and, in an epoch after the first, also into the
  buffer of needed keys that epoch 1 sized (in epoch 1, when they are fewer than \<open>2 ^ 31\<close>): it keeps the invariant, gives every touched record a cache slot, different records
  different slots, and hands the rewritten transactions on.\<close>

theorem staging_succeeds:
  assumes "stager_inv st" and "epoch_ready ord sched1 sched2 epoch keys st"
    and "n_insert = length (filter (\<lambda>k. k \<noteq> sentinel) insert_keys)"
  shows "\<exists>st'. prepareEpoch ord sched1 sched2 epoch tps keys insert_keys n_insert st = Inr (st', rewrite_txns tps st')
      \<and> stager_inv st'
      \<and> (\<forall>k \<in> set keys. idx_lookup (crid2grid_index st') k < gpu_capacity st)
      \<and> inj_on (idx_lookup (crid2grid_index st')) (set keys)"
proof -
  obtain st' where st': "prepareEpoch ord sched1 sched2 epoch tps keys insert_keys n_insert st = Inr (st', rewrite_txns tps st')"
    "stager_inv st'" and slot: "\<forall>k \<in> set keys. idx_lookup (crid2grid_index st') k \<noteq> sentinel \<and>
        idx_lookup (crid2grid_index st') k < gpu_capacity st"
    using prepareEpoch_facts [OF assms, of tps] by (auto simp: Let_def)
  have ns: "k \<noteq> sentinel" if "k \<in> set keys" for k using assms(2) that by (simp add: epoch_ready_def)
  have coh: "flat.coherent (crid2grid_index st') (resident_list st')" using st'(2) by (simp add: stager_inv_def cache_inv_def)
  have "inj_on (idx_lookup (crid2grid_index st')) (set keys)"
    by (rule inj_onI) (use flat.coherent_inj [OF coh] slot ns in blast)
  with st' slot show ?thesis by blast
qed

definition sample_stager :: "nat HybridStager" where
  "sample_stager = HybridStager_new sample_gpu sample_gpu 3 10 False True 64 8 0"

lemma sample_stager_inv: "stager_inv sample_stager"
  unfolding sample_stager_def by (rule new_stager_inv) simp_all

lemma sample_ready: "epoch_ready [1, 0] sample_schedule sample_schedule 1 [5, 4, 5] sample_stager"
proof -
  have "set [5, 4, 5 :: u32] = {4, 5}" by auto
  then have "card (set [5, 4, 5 :: u32]) = 2" by simp
  moreover have "set [1, 0] = {..<2 :: nat}" by auto
  moreover have "gpu_capacity sample_stager = 3" "stager_units sample_stager = 10"
    by (simp_all add: sample_stager_def HybridStager_new_def)
  ultimately show ?thesis using sample_schedule_ok by (simp add: epoch_ready_def sentinel_def)
qed

theorem staging_succeeds_witness:
  "\<exists>st'. prepareEpoch [1, 0] sample_schedule sample_schedule 1 [] [5, 4, 5] [4, sentinel, sentinel] 1 sample_stager
      = Inr (st', rewrite_txns [] st') \<and> stager_inv st'"
  using staging_succeeds [OF sample_stager_inv sample_ready, of 1 "[4, sentinel, sentinel]" "[]"]
  by (auto simp: sentinel_def)

text \<open>C12: After an epoch has been prepared, a record that was cached before keeps its slot and
  the slot its contents; a record that was admitted reads in its slot as in the Primary Store;
  the slot of a record inserted in this epoch has both tags reset.\<close>

theorem staged_contents:
  assumes "stager_inv st" and "epoch_ready ord sched1 sched2 epoch keys st"
    and "n_insert = length (filter (\<lambda>k. k \<noteq> sentinel) insert_keys)"
    and "prepareEpoch ord sched1 sched2 epoch tps keys insert_keys n_insert st = Inr (st', tps')"
    and "k \<in> set keys" and "g = idx_lookup (crid2grid_index st') k"
  shows "if idx_lookup (crid2grid_index st) k \<noteq> sentinel
         then g = idx_lookup (crid2grid_index st) k \<and> GPU_records st' g = GPU_records st g
         else if k \<in> set insert_keys then version1 (GPU_records st' g) = 0 \<and> version2 (GPU_records st' g) = 0
         else version1 (GPU_records st' g) = version1 (CPU_records st k)
            \<and> version2 (GPU_records st' g) = version2 (CPU_records st k)
            \<and> readFromTable (mem_of (GPU_records st')) g loc_record_a epoch =
                readFromTable (mem_of (CPU_records st)) k loc_record_a epoch"
proof -
  have f: "let g = idx_lookup (crid2grid_index st') k
          in g \<noteq> sentinel \<and> g < gpu_capacity st \<and>
             (if idx_lookup (crid2grid_index st) k \<noteq> sentinel
              then g = idx_lookup (crid2grid_index st) k \<and> GPU_records st' g = GPU_records st g
              else if k \<in> set insert_keys then version1 (GPU_records st' g) = 0 \<and> version2 (GPU_records st' g) = 0
              else reads_as epoch (GPU_records st' g) (CPU_records st k))"
    using prepareEpoch_facts [OF assms(1-3), of tps] assms(4,5) by auto
  show ?thesis
    using f unfolding Let_def assms(6) [symmetric] reads_as_def readFromTable_mem_of option.inject by (elim conjE)
qed

theorem staged_contents_witness:
  "\<exists>st' tps' g. prepareEpoch [1, 0] sample_schedule sample_schedule 1 [] [5, 4, 5] [4, sentinel, sentinel] 1 sample_stager
      = Inr (st', tps') \<and> version1 (GPU_records st' g) = version1 (sample_gpu 5)"
proof -
  have n: "1 = length (filter (\<lambda>k. k \<noteq> sentinel) [4, sentinel, sentinel])" by (simp add: sentinel_def)
  obtain st' tps' where run: "prepareEpoch [1, 0] sample_schedule sample_schedule 1 [] [5, 4, 5] [4, sentinel, sentinel] 1
      sample_stager = Inr (st', tps')"
    using prepareEpoch_facts [OF sample_stager_inv sample_ready n, of "[]"] by blast
  have "idx_lookup (crid2grid_index sample_stager) 5 = sentinel" "CPU_records sample_stager = sample_gpu"
    by (simp_all add: sample_stager_def HybridStager_new_def CridGridIndex_new_def idx_lookup_def flat_lookup_def)
  with staged_contents [OF sample_stager_inv sample_ready n run _ refl, of 5] run show ?thesis
    by (auto simp: sentinel_def)
qed

subsection \<open>The buffer of needed keys\<close>

lemma admission_fields [simp]:
  "gpu_capacity (sg_transfer_versions ps e st) = gpu_capacity st" "first_needed_count (sg_transfer_versions ps e st) = first_needed_count st"
  "gpu_capacity (bind_granted ps st) = gpu_capacity st" "first_needed_count (bind_granted ps st) = first_needed_count st"
  "gpu_capacity (rename_evicted vs ns st) = gpu_capacity st" "first_needed_count (rename_evicted vs ns st) = first_needed_count st"
  "gpu_capacity (admit_rest rs fs n e st) = gpu_capacity st" "first_needed_count (admit_rest rs fs n e st) = first_needed_count st"
  "gpu_capacity (count_admissions k i st) = gpu_capacity st" "first_needed_count (count_admissions k i st) = first_needed_count st"
  by (simp_all add: sg_transfer_versions_def bind_granted_def rename_evicted_def admit_rest_def count_admissions_def Let_def
      split: prod.split)

lemma admit_new_fields:
  assumes "admit_new sc1 sc2 d_new k n e st = Inr st'"
  shows "gpu_capacity st' = gpu_capacity st \<and> first_needed_count st' = first_needed_count st"
  using assms
  by (auto simp: admit_new_def admit_only_def evict_and_admit_def Let_def split: if_splits prod.splits)

lemma admit_new_error: "admit_new sc1 sc2 d_new k n e st \<noteq> Inl NeededBufferOverflow"
  by (simp add: admit_new_def admit_only_def evict_and_admit_def Let_def split: prod.split)

lemma select_new_fields:
  "select_new ord needed e n st = (d_new, k, st') \<Longrightarrow>
   gpu_capacity st' = gpu_capacity st \<and> first_needed_count st' = first_needed_count st"
  by (auto simp: select_new_def Let_def split: if_splits prod.splits)

text \<open>Only epoch 1 changes the size of the buffer, to twice its number of distinct keys.\<close>

lemma prepareEpoch_fields:
  assumes "prepareEpoch ord sc1 sc2 epoch tps keys ins n st = Inr (st', tps')"
  shows "gpu_capacity st' = gpu_capacity st"
    and "first_needed_count st' = (if epoch = 1 \<and> keys \<noteq> [] then of_nat (card (set keys)) * 2 else first_needed_count st)"
proof -
  obtain needed st1 where b: "buildNeededOnDevice keys epoch (set_insert_bitmap ins n st) = Inr (needed, st1)"
    using assms by (auto simp: prepareEpoch_def split: sum.splits)
  obtain d_new k st2 where sel: "select_new ord needed epoch n st1 = (d_new, k, st2)" by (cases "select_new ord needed epoch n st1")
  obtain st3 where ad: "admit_new sc1 sc2 d_new k n epoch st2 = Inr st3"
    using assms b sel by (auto simp: prepareEpoch_def split: sum.splits)
  have st': "gpu_capacity st' = gpu_capacity st3" "first_needed_count st' = first_needed_count st3"
    using assms b sel ad by (auto simp: prepareEpoch_def Let_def split: if_splits)
  have "gpu_capacity st1 = gpu_capacity st"
    "first_needed_count st1 = (if epoch = 1 \<and> keys \<noteq> [] then of_nat (card (set keys)) * 2 else first_needed_count st)"
    using b by (auto simp: buildNeededOnDevice_def needed_facts Let_def split: if_splits)
  then show "gpu_capacity st' = gpu_capacity st"
    "first_needed_count st' = (if epoch = 1 \<and> keys \<noteq> [] then of_nat (card (set keys)) * 2 else first_needed_count st)"
    using st' admit_new_fields [OF ad] select_new_fields [OF sel] by simp_all
qed

text \<open>What happens to a stager after its first epoch: executors write the cache and mark it dirty, slots are
  marked reclaimable, dirty slots are flushed, and later epochs are prepared.\<close>

inductive stager_later :: "'v HybridStager \<Rightarrow> 'v HybridStager \<Rightarrow> bool" for st1 where
  start: "stager_later st1 st1"
| execute: "stager_later st1 st \<Longrightarrow> stager_later st1 (st\<lparr>GPU_records := recs', crid2grid_index := idx'\<rparr>)"
| reclaim: "stager_later st1 st \<Longrightarrow> stager_later st1 (mark_reclaimable crids st)"
| flush: "stager_later st1 st \<Longrightarrow> stager_later st1 (periodicFlush epoch st)"
| prepare: "stager_later st1 st \<Longrightarrow> epoch \<noteq> 1 \<Longrightarrow>
    prepareEpoch ord sc1 sc2 epoch tps keys ins n st = Inr (st', tps') \<Longrightarrow> stager_later st1 st'"

lemma later_fields:
  assumes "stager_later st1 st"
  shows "gpu_capacity st = gpu_capacity st1 \<and> first_needed_count st = first_needed_count st1"
  using assms
proof induction
  case (prepare st epoch ord sc1 sc2 tps keys ins n st' tps')
  then show ?case using prepareEpoch_fields [OF prepare.hyps(3)] by simp
qed (auto simp: mark_reclaimable_def periodicFlush_def clear_collected_def Let_def)

text \<open>C24: The key buffer is reallocated in epoch 1 to twice that epoch's distinct keys and never again. A later epoch
  whose distinct keys fit into the cache copies its keys past the end of the buffer exactly when it has more than twice as
  many distinct keys as epoch 1 had.\<close>

theorem needed_buffer_overflow:
  assumes "prepareEpoch ord1 sc1 sc1' 1 tps1 keys1 ins1 n1 st = Inr (st1, tps1')"
    and "keys1 \<noteq> []" and "card (set keys1) < 2 ^ 31"
    and "stager_later st1 st2" and "epoch \<noteq> 1" and "card (set keys2) \<le> unat (gpu_capacity st)"
  shows "prepareEpoch ord2 sc2 sc2' epoch tps2 keys2 ins2 n2 st2 = Inl NeededBufferOverflow
           \<longleftrightarrow> 2 * card (set keys1) < card (set keys2)"
proof -
  have c: "gpu_capacity st2 = gpu_capacity st" "first_needed_count st2 = of_nat (card (set keys1)) * 2"
    using later_fields [OF assms(4)] prepareEpoch_fields [OF assms(1)] assms(2) by simp_all
  have "unat (of_nat (card (set keys1)) * 2 :: u32) = 2 * card (set keys1)"
    using assms(3) unat_of_nat_u32 [of "2 * card (set keys1)"] by (simp add: mult.commute)
  then have "buildNeededOnDevice keys2 epoch (set_insert_bitmap ins2 n2 st2) = Inl NeededBufferOverflow
      \<longleftrightarrow> 2 * card (set keys1) < card (set keys2)"
    using assms(5,6) c by (simp add: buildNeededOnDevice_def needed_facts)
  then show ?thesis
    by (auto simp: prepareEpoch_def admit_new_error Let_def split: sum.splits prod.splits)
qed

theorem needed_buffer_overflow_witness:
  "\<exists>st1 tps1. prepareEpoch [0] sample_schedule sample_schedule 1 [] [7, 7] [] 0 sample_stager = Inr (st1, tps1) \<and>
     prepareEpoch [0, 1, 2] sample_schedule sample_schedule 2 [] [7, 8, 9] [] 0 (periodicFlush 1 st1) = Inl NeededBufferOverflow"
proof -
  have cap: "gpu_capacity sample_stager = 3" "stager_units sample_stager = 10"
    by (simp_all add: sample_stager_def HybridStager_new_def)
  have "epoch_ready [0] sample_schedule sample_schedule 1 [7, 7] sample_stager"
    using sample_ready cap by (auto simp: epoch_ready_def sentinel_def)
  from prepareEpoch_facts [OF sample_stager_inv this, of 0 "[]" "[]"]
  obtain st1 tps1 where run: "prepareEpoch [0] sample_schedule sample_schedule 1 [] [7, 7] [] 0 sample_stager = Inr (st1, tps1)"
    by auto
  with needed_buffer_overflow [OF run, of "periodicFlush 1 st1" 2 "[7, 8, 9]" "[0, 1, 2]" sample_schedule sample_schedule "[]" "[]" 0]
    stager_later.flush [OF stager_later.start, of st1 1] cap
  show ?thesis by simp
qed

end
