(* ===== verification/Flush.thy ===== *)
theory Flush
  imports Staging
begin

text \<open>
  The flush of the stager (\<^verbatim>\<open>periodicFlush\<close> of \<^verbatim>\<open>ycsb_hybrid_stager.cu\<close>): it collects the dirty slots
  of both version arrays, writes exactly those slots of the cached records back to the Primary Store, and
  clears their flags.
\<close>

text \<open>The flag arrays cover the cache, and only slots that hold a record are dirty.\<close>

definition flush_ready :: "'v HybridStager \<Rightarrow> bool" where
  "flush_ready st \<longleftrightarrow>
     stager_inv st \<and> idx_capacity (crid2grid_index st) = gpu_capacity st \<and>
     length (grid_dirty_v1 (crid2grid_index st)) = unat (gpu_capacity st) \<and>
     length (grid_dirty_v2 (crid2grid_index st)) = unat (gpu_capacity st) \<and>
     (\<forall>g < gpu_capacity st. load (grid_dirty_v1 (crid2grid_index st)) g \<or> load (grid_dirty_v2 (crid2grid_index st)) g \<longrightarrow>
        load (resident_list st) g \<noteq> sentinel)"

text \<open>A host record with the dirty slots of its cached copy.\<close>

definition merge_dirty :: "bool \<Rightarrow> bool \<Rightarrow> 'v Record \<Rightarrow> 'v Record \<Rightarrow> 'v Record" where
  "merge_dirty d1 d2 gpu cpu =
     \<lparr>value1 = (if d1 then value1 gpu else value1 cpu), version1 = (if d1 then version1 gpu else version1 cpu),
      value2 = (if d2 then value2 gpu else value2 cpu), version2 = (if d2 then version2 gpu else version2 cpu)\<rparr>"

subsection \<open>Collected slots\<close>

lemma set_flagged_slots:
  fixes cap :: u32
  assumes "length fs = unat cap"
  shows "set (select_flagged (map (of_nat :: nat \<Rightarrow> u32) [0..<unat cap]) fs) = {g. g < cap \<and> load fs g}"
    and "distinct (select_flagged (map (of_nat :: nat \<Rightarrow> u32) [0..<unat cap]) fs)"
proof -
  have lt: "i < 2 ^ 32" if "i < unat cap" for i using that unat_u32_lt [of cap] by simp
  have "set (select_flagged (map (of_nat :: nat \<Rightarrow> u32) [0..<unat cap]) fs) =
      {map (of_nat :: nat \<Rightarrow> u32) [0..<unat cap] ! i |i. i < unat cap \<and> fs ! i}"
    using set_select_flagged [of fs "map (of_nat :: nat \<Rightarrow> u32) [0..<unat cap]"] assms by simp
  also have "\<dots> = {g :: u32. g < cap \<and> load fs g}"
  proof (intro equalityI subsetI)
    fix g assume "g \<in> {map (of_nat :: nat \<Rightarrow> u32) [0..<unat cap] ! i |i. i < unat cap \<and> fs ! i}"
    then obtain i where i: "i < unat cap" "fs ! i" "g = of_nat i" by auto
    then have "unat g = i" using lt by (simp add: unat_of_nat_u32)
    then show "g \<in> {g. g < cap \<and> load fs g}" using i by (simp add: load_def word_less_nat_alt)
  next
    fix g assume g: "g \<in> {g :: u32. g < cap \<and> load fs g}"
    then show "g \<in> {map (of_nat :: nat \<Rightarrow> u32) [0..<unat cap] ! i |i. i < unat cap \<and> fs ! i}"
      by (intro CollectI exI [of _ "unat g"]) (simp add: load_def word_less_nat_alt)
  qed
  finally show "set (select_flagged (map (of_nat :: nat \<Rightarrow> u32) [0..<unat cap]) fs) = {g. g < cap \<and> load fs g}" .
  have "distinct (map (of_nat :: nat \<Rightarrow> u32) [0..<unat cap])"
    unfolding distinct_map using lt by (auto intro!: inj_onI simp: of_nat_u32_inj)
  then show "distinct (select_flagged (map (of_nat :: nat \<Rightarrow> u32) [0..<unat cap]) fs)"
    unfolding select_flagged_def using assms
    by (metis distinct_map_filter length_map length_upt map_fst_zip minus_nat.diff_0 order_refl)
qed

lemma clear_fold:
  "fold k_clear_dirty (map (\<lambda>g. (g, 0)) gs) (a, b) = (fold (\<lambda>g a. store a g False) gs a, b)"
  "fold k_clear_dirty (map (\<lambda>g. (g, 1)) gs) (a, b) = (a, fold (\<lambda>g a. store a g False) gs b)"
  by (induction gs arbitrary: a b) (simp_all add: k_clear_dirty_def)

lemma load_clear: "unat g < length a \<Longrightarrow> load (fold (\<lambda>g a. store a g False) gs a) g \<longleftrightarrow> g \<notin> set gs \<and> load a g"
  by (induction gs arbitrary: a) (auto simp: load_store)

subsection \<open>Written records\<close>

definition apply_item :: "'v wb_item \<Rightarrow> 'v Record \<Rightarrow> 'v Record" where
  "apply_item item r = (case item of (crid, slot, tag, v) \<Rightarrow> put_tag slot tag (put_value slot v r))"

lemma fold_items_at:
  "c \<noteq> sentinel \<Longrightarrow> fold scatter_host_one its C c = fold apply_item (filter (\<lambda>it. fst it = c) its) (C c)"
  by (induction its arbitrary: C) (auto simp: scatter_host_one_def apply_item_def split: prod.splits)

lemma fold_items_sentinel: "fold scatter_host_one its C sentinel = C sentinel"
  by (induction its arbitrary: C) (auto simp: scatter_host_one_def split: prod.splits)

definition flush_item :: "'v HybridStager \<Rightarrow> u8 \<Rightarrow> u32 \<Rightarrow> 'v wb_item" where
  "flush_item st slot g = (load (resident_list st) g, slot, k_pack_versions_by_grids (GPU_records st) g slot)"

lemma flush_items:
  assumes "grids = g0 @ g1" and "slots = replicate (length g0) 0 @ replicate (length g1) 1"
    and "crids = map (load (resident_list st)) g0 @ map (load (resident_list st)) g1"
  shows "wb_items crids slots
       (map (\<lambda>i. k_pack_versions_by_grids (GPU_records st) (grids ! i) (slots ! i)) [0..<length crids]) 0 (length crids) =
     map (flush_item st 0) g0 @ map (flush_item st 1) g1"
  by (rule nth_equalityI) (auto simp: wb_items_def assms flush_item_def nth_append)

lemma filter_one:
  assumes "distinct gs" and "\<And>h. h \<in> set gs \<Longrightarrow> P h \<longleftrightarrow> h = g"
  shows "filter P gs = (if g \<in> set gs then [g] else [])"
  using assms by (induction gs) (auto simp: filter_empty_conv)

lemma apply_items_merge:
  "fold apply_item ((if d1 then [flush_item st 0 g] else []) @ (if d2 then [flush_item st 1 g] else [])) r =
     merge_dirty d1 d2 (GPU_records st g) r"
  by (cases r) (auto simp: apply_item_def flush_item_def k_pack_versions_by_grids_def put_tag_def put_value_def merge_dirty_def)

lemma resident_inj:
  assumes "stager_inv st" and "g < gpu_capacity st" and "h < gpu_capacity st"
    and "load (resident_list st) g \<noteq> sentinel" and "load (resident_list st) h = load (resident_list st) g"
  shows "h = g"
proof -
  have c: "cache_inv (gpu_capacity st) (stager_units st) (crid2grid_index st) (resident_list st) (free_list_ring st)"
    using assms(1) by (simp add: stager_inv_def)
  have lt: "unat g < length (resident_list st)" "unat h < length (resident_list st)"
    using assms(2,3) cache_invD(3) [OF c] by (simp_all add: word_less_nat_alt)
  note grid = flat.coherentD(3) [OF cache_invD(6) [OF c]]
  have h: "load (resident_list st) h \<noteq> sentinel" unfolding assms(5) by (rule assms(4))
  show ?thesis
    by (rule trans [OF grid [OF lt(2) h, symmetric] grid [OF lt(1) assms(4), folded assms(5)]])
qed

text \<open>The flush, on its two lists of slots.\<close>

lemma flush_unfold:
  assumes ready: "flush_ready st"
    and g0: "g0 = select_flagged (map (of_nat :: nat \<Rightarrow> u32) [0..<unat (gpu_capacity st)]) (grid_dirty_v1 (crid2grid_index st))"
    and g1: "g1 = select_flagged (map (of_nat :: nat \<Rightarrow> u32) [0..<unat (gpu_capacity st)]) (grid_dirty_v2 (crid2grid_index st))"
    and st': "st' = periodicFlush epoch st"
  shows "CPU_records st' = fold scatter_host_one (map (flush_item st 0) g0 @ map (flush_item st 1) g1) (CPU_records st)"
    and "crid2grid_index st' = (crid2grid_index st)
           \<lparr>grid_dirty_v1 := fold (\<lambda>g a. store a g False) g0 (grid_dirty_v1 (crid2grid_index st)),
            grid_dirty_v2 := fold (\<lambda>g a. store a g False) g1 (grid_dirty_v2 (crid2grid_index st))\<rparr>"
    and "GPU_records st' = GPU_records st" and "resident_list st' = resident_list st"
proof -
  have cap: "idx_capacity (crid2grid_index st) = gpu_capacity st" "gpu_capacity st \<noteq> 0"
    using ready by (auto simp: flush_ready_def stager_inv_def dest: cache_invD(1))
  have c: "collect_dirty_grids_v1 (crid2grid_index st) = g0" "collect_dirty_grids_v2 (crid2grid_index st) = g1"
    using cap by (simp_all add: collect_dirty_grids_v1_def collect_dirty_grids_v2_def g0 g1)
  note run = st' periodicFlush_def c Let_def k_gather_crids_by_grids_def
  show "CPU_records st' = fold scatter_host_one (map (flush_item st 0) g0 @ map (flush_item st 1) g1) (CPU_records st)"
    using flush_items [OF refl refl refl, of st g0 g1]
    by (auto simp: run clear_collected_def writeback_versions_eq)
  have clear: "clear_dirty_by_grids (map (\<lambda>g. (g, 0)) g0) idx =
        idx\<lparr>grid_dirty_v1 := fold (\<lambda>g a. store a g False) g0 (grid_dirty_v1 idx)\<rparr>"
      "clear_dirty_by_grids (map (\<lambda>g. (g, 1)) g1) idx =
        idx\<lparr>grid_dirty_v2 := fold (\<lambda>g a. store a g False) g1 (grid_dirty_v2 idx)\<rparr>" for idx
    by (simp_all add: clear_dirty_by_grids_def clear_fold)
  show "crid2grid_index st' = (crid2grid_index st)
           \<lparr>grid_dirty_v1 := fold (\<lambda>g a. store a g False) g0 (grid_dirty_v1 (crid2grid_index st)),
            grid_dirty_v2 := fold (\<lambda>g a. store a g False) g1 (grid_dirty_v2 (crid2grid_index st))\<rparr>"
    by (auto simp: run clear_collected_def clear)
  show "GPU_records st' = GPU_records st" "resident_list st' = resident_list st"
    by (auto simp: run clear_collected_def)
qed

lemma flush_effect:
  assumes ready: "flush_ready st" and st': "st' = periodicFlush epoch st"
  shows "(\<forall>g < gpu_capacity st. \<not> load (grid_dirty_v1 (crid2grid_index st')) g \<and>
                               \<not> load (grid_dirty_v2 (crid2grid_index st')) g) \<and>
         GPU_records st' = GPU_records st \<and> resident_list st' = resident_list st \<and>
         d_crid_to_grid (crid2grid_index st') = d_crid_to_grid (crid2grid_index st) \<and>
         (\<forall>g < gpu_capacity st. load (resident_list st) g \<noteq> sentinel \<longrightarrow>
            CPU_records st' (load (resident_list st) g) =
              merge_dirty (load (grid_dirty_v1 (crid2grid_index st)) g) (load (grid_dirty_v2 (crid2grid_index st)) g)
                (GPU_records st g) (CPU_records st (load (resident_list st) g))) \<and>
         (\<forall>c. (\<forall>g < gpu_capacity st. load (resident_list st) g \<noteq> c) \<longrightarrow> CPU_records st' c = CPU_records st c)"
proof -
  let ?idx = "crid2grid_index st" and ?cap = "gpu_capacity st"
  define g0 where "g0 = select_flagged (map (of_nat :: nat \<Rightarrow> u32) [0..<unat ?cap]) (grid_dirty_v1 ?idx)"
  define g1 where "g1 = select_flagged (map (of_nat :: nat \<Rightarrow> u32) [0..<unat ?cap]) (grid_dirty_v2 ?idx)"
  have inv: "stager_inv st" and len: "length (grid_dirty_v1 ?idx) = unat ?cap" "length (grid_dirty_v2 ?idx) = unat ?cap"
    using ready by (simp_all add: flush_ready_def)
  note s0 = set_flagged_slots [OF len(1), folded g0_def] and s1 = set_flagged_slots [OF len(2), folded g1_def]
  note f = flush_unfold [OF ready g0_def g1_def st']
  let ?its = "map (flush_item st 0) g0 @ map (flush_item st 1) g1"
  have clean: "\<not> load (grid_dirty_v1 (crid2grid_index st')) g \<and> \<not> load (grid_dirty_v2 (crid2grid_index st')) g"
    if "g < ?cap" for g
    using that s0(1) s1(1) len by (simp add: f(2) load_clear word_less_nat_alt)
  have written: "CPU_records st' (load (resident_list st) g) =
      merge_dirty (load (grid_dirty_v1 ?idx) g) (load (grid_dirty_v2 ?idx) g) (GPU_records st g)
        (CPU_records st (load (resident_list st) g))"
    if g: "g < ?cap" and c: "load (resident_list st) g \<noteq> sentinel" for g
  proof -
    let ?c = "load (resident_list st) g"
    have one: "filter (\<lambda>h. load (resident_list st) h = ?c) gs = (if g \<in> set gs then [g] else [])"
      if "distinct gs" "set gs \<subseteq> {h. h < ?cap}" for gs
      by (rule filter_one [OF that(1)]) (use that(2) resident_inj [OF inv g _ c] in blast)
    have "filter (\<lambda>it. fst it = ?c) ?its =
        map (flush_item st 0) (filter (\<lambda>h. load (resident_list st) h = ?c) g0) @
        map (flush_item st 1) (filter (\<lambda>h. load (resident_list st) h = ?c) g1)"
      by (simp add: filter_map comp_def flush_item_def)
    also have "\<dots> = (if load (grid_dirty_v1 ?idx) g then [flush_item st 0 g] else []) @
        (if load (grid_dirty_v2 ?idx) g then [flush_item st 1 g] else [])"
      using g by (simp add: one [OF s0(2)] one [OF s1(2)] s0(1) s1(1) subset_iff)
    finally show ?thesis by (simp only: f(1) fold_items_at [OF c] apply_items_merge)
  qed
  have kept: "CPU_records st' c = CPU_records st c" if other: "\<forall>g < ?cap. load (resident_list st) g \<noteq> c" for c
  proof (cases "c = sentinel")
    case True
    then show ?thesis by (simp only: f(1) fold_items_sentinel)
  next
    case False
    have "filter (\<lambda>it. fst it = c) ?its = []"
      using other s0(1) s1(1) by (auto simp: filter_empty_conv flush_item_def)
    then show ?thesis by (simp only: f(1) fold_items_at [OF False] fold_simps)
  qed
  show ?thesis using clean written kept f(2-4) by simp
qed

text \<open>C16: The flush. It clears every dirty flag, changes neither the cache nor the index mapping, and gives
  every cached record exactly the dirty slots of its copy in the cache; a slot that is not dirty, and a record
  that is not cached, keep their contents in the Primary Store.\<close>

theorem flush_writes_dirty_slots:
  assumes ready: "flush_ready st" and st': "st' = periodicFlush epoch st"
  shows "(\<forall>g < gpu_capacity st. \<not> load (grid_dirty_v1 (crid2grid_index st')) g \<and>
                               \<not> load (grid_dirty_v2 (crid2grid_index st')) g) \<and>
         GPU_records st' = GPU_records st \<and> resident_list st' = resident_list st \<and>
         d_crid_to_grid (crid2grid_index st') = d_crid_to_grid (crid2grid_index st) \<and>
         (\<forall>g < gpu_capacity st. load (resident_list st) g \<noteq> sentinel \<longrightarrow>
            CPU_records st' (load (resident_list st) g) =
              merge_dirty (load (grid_dirty_v1 (crid2grid_index st)) g) (load (grid_dirty_v2 (crid2grid_index st)) g)
                (GPU_records st g) (CPU_records st (load (resident_list st) g))) \<and>
         (\<forall>c. (\<forall>g < gpu_capacity st. load (resident_list st) g \<noteq> c) \<longrightarrow> CPU_records st' c = CPU_records st c)"
  by (rule flush_effect [OF assms])

text \<open>A stager that has admitted record 5 and whose cached copy was then written in the first version slot.\<close>

definition sample_admitted :: "nat HybridStager" where
  "sample_admitted = (let p = ring_pop (free_list_ring sample_stager) 1
     in bind_granted (zip [5] (snd p)) (sample_stager\<lparr>free_list_ring := fst p\<rparr>))"

definition sample_dirty :: "nat HybridStager" where
  "sample_dirty = sample_admitted\<lparr>crid2grid_index := (crid2grid_index sample_admitted)
     \<lparr>grid_dirty_v1 := [True, False, False]\<rparr>\<rparr>"

lemma sample_admitted_inv: "stager_inv sample_admitted"
proof -
  have "cache_inv 3 10 (crid2grid_index sample_stager) (resident_list sample_stager) (free_list_ring sample_stager)"
    using sample_stager_inv by (simp add: stager_inv_def sample_stager_def HybridStager_new_def)
  moreover have "admissible (crid2grid_index sample_stager) [5]" "length [5 :: u32] \<le> length (ring_queue (free_list_ring sample_stager))"
    by code_simp+
  ultimately show ?thesis
    using cache_inv_grant(1) [OF _ _ _ refl refl, of 3 10 "crid2grid_index sample_stager" "resident_list sample_stager"
        "free_list_ring sample_stager" "[5]"]
    by (simp add: stager_inv_def sample_admitted_def Let_def sample_stager_def HybridStager_new_def)
qed

lemma sample_slot: "g < (3 :: u32) \<Longrightarrow> unat g = 0 \<or> unat g = 1 \<or> unat g = 2"
  by (simp add: word_less_nat_alt) linarith

lemma sample_load_false: "g < 3 \<Longrightarrow> \<not> load [False, False, False] g"
  using sample_slot [of g] by (auto simp: load_def)

lemma sample_dirty_ready: "flush_ready sample_dirty"
proof -
  have "idx_lookup (crid2grid_index sample_dirty) = idx_lookup (crid2grid_index sample_admitted)"
    "idx_valid (crid2grid_index sample_dirty) = idx_valid (crid2grid_index sample_admitted)"
    by (simp_all add: fun_eq_iff sample_dirty_def idx_lookup_def idx_valid_def)
  then have "flat.coherent (crid2grid_index sample_dirty) = flat.coherent (crid2grid_index sample_admitted)"
    by (simp add: fun_eq_iff flat.coherent_def)
  moreover have "idx_inv (crid2grid_index sample_dirty) = idx_inv (crid2grid_index sample_admitted)"
    by (simp add: sample_dirty_def idx_inv_def)
  moreover have "idx_capacity (crid2grid_index sample_dirty) = 3" "gpu_capacity sample_dirty = 3"
    "grid_dirty_v2 (crid2grid_index sample_dirty) = [False, False, False]" "load (resident_list sample_dirty) 0 = 5"
    "sentinel \<noteq> 5"
    by code_simp+
  moreover have "load (grid_dirty_v1 (crid2grid_index sample_dirty)) g \<longleftrightarrow> g = 0" if "g < 3" for g
    using sample_slot [OF that] by (auto simp: sample_dirty_def load_def unat_eq_0)
  ultimately show ?thesis using sample_admitted_inv sample_load_false
    by (simp add: flush_ready_def stager_inv_def cache_inv_def sample_dirty_def)
qed

theorem flush_writes_dirty_slots_witness:
  "CPU_records (periodicFlush 1 sample_dirty) 5 =
     merge_dirty True False (GPU_records sample_dirty 0) (CPU_records sample_dirty 5) \<and>
   \<not> load (grid_dirty_v1 (crid2grid_index (periodicFlush 1 sample_dirty))) 0"
proof -
  have "gpu_capacity sample_dirty = 3" "load (resident_list sample_dirty) 0 = 5"
      "load (grid_dirty_v1 (crid2grid_index sample_dirty)) 0" "\<not> load (grid_dirty_v2 (crid2grid_index sample_dirty)) 0"
    by code_simp+
  moreover have "(0 :: u32) < 3" "(5 :: u32) \<noteq> sentinel" by code_simp+
  ultimately show ?thesis using flush_writes_dirty_slots [OF sample_dirty_ready refl, of 1] by metis
qed

end
