(* ===== verification/Async_Flush.thy ===== *)
theory Async_Flush
  imports Flush
begin

text \<open>
  The overlapped flush of the stager (\<^verbatim>\<open>start_flush_epoch_async\<close>, the worker thread it spawns and
  \<^verbatim>\<open>sync_flush\<close> of \<^verbatim>\<open>ycsb_hybrid_stager.cu\<close>, the handle of \<^verbatim>\<open>flush_handle.h\<close>). The main thread collects
  and packs the dirty slots and goes on with the next epoch; the worker writes the packed slots to the
  Primary Store in two halves, the second one after the main thread has signalled that the admissions of
  the next epoch are done. The theorems show that the overlap is invisible: whatever the main thread does
  meanwhile, the Primary Store ends as after the synchronous flush, and the epoch that is prepared
  meanwhile admits the same contents. The worker's \<^verbatim>\<open>catch\<close> (an exception is logged and the rest of the
  flush is left out) is not modelled: the steps are those of a worker that throws nothing.
\<close>

subsection \<open>The handle and the worker\<close>

text \<open>The program counter of the worker thread; \<open>None\<close> in the handle is a thread that is not joinable.\<close>

datatype worker_pc = FirstHalf | WaitTransfer | SecondHalf | Finished

record FlushHandle =
  fh_valid :: bool
  h_crids :: "u32 list"
  h_slots :: "u8 list"
  fh_grids :: "u32 list"
  fh_slots :: "u8 list"
  fh_n :: nat
  d_cap :: nat
  worker :: "worker_pc option"

text \<open>The stager with the handle, the packed buffer of the flush engine and the signal.\<close>

record 'v flush_world =
  fw_stager :: "'v HybridStager"
  fw_handle :: FlushHandle
  d_packed_vers :: "(u32 \<times> 'v) list"
  sg_transfer_done :: bool

definition joinable :: "FlushHandle \<Rightarrow> bool" where "joinable h \<longleftrightarrow> worker h \<noteq> None"

text \<open>\<^verbatim>\<open>join\<close> returns only when the thread has ended: \<open>None\<close> is a call that is still blocked.\<close>

definition join_worker :: "FlushHandle \<Rightarrow> FlushHandle option" where
  "join_worker h =
     (case worker h of None \<Rightarrow> Some h | Some Finished \<Rightarrow> Some (h\<lparr>worker := None\<rparr>) | _ \<Rightarrow> None)"

definition signal_sg_transfer_done :: "'v flush_world \<Rightarrow> 'v flush_world" where
  "signal_sg_transfer_done w = w\<lparr>sg_transfer_done := True\<rparr>"

definition sync_flush :: "'v flush_world \<Rightarrow> 'v flush_world option" where
  "sync_flush w = map_option (\<lambda>h. w\<lparr>fw_handle := h\<lparr>fh_n := 0, fh_valid := False\<rparr>\<rparr>) (join_worker (fw_handle w))"

definition k_fill_slots :: "nat \<Rightarrow> u8 \<Rightarrow> u8 list" where "k_fill_slots n v = replicate n v"

definition flush_queue_pack :: "FlushHandle \<Rightarrow> 'v recs \<Rightarrow> (u32 \<times> 'v) list" where
  "flush_queue_pack h GPU =
     map (\<lambda>i. k_pack_versions_by_grids GPU (fh_grids h ! i) (fh_slots h ! i)) [0..<fh_n h]"

definition start_flush_epoch_async :: "'v flush_world \<Rightarrow> 'v flush_world option" where
  "start_flush_epoch_async w =
     (case join_worker (fw_handle w) of
        None \<Rightarrow> None
      | Some h0 \<Rightarrow>
        let st = fw_stager w;
            h1 = h0\<lparr>fh_valid := False, fh_n := 0\<rparr>;
            grids0 = collect_dirty_grids_v1 (crid2grid_index st);
            grids1 = collect_dirty_grids_v2 (crid2grid_index st);
            num_dirty = length grids0 + length grids1
        in Some (
           if length grids0 = 0 \<and> length grids1 = 0 then w\<lparr>fw_handle := h1\<rparr>
           else let h2 = h1\<lparr>d_cap := (if d_cap h1 < num_dirty then num_dirty else d_cap h1), fh_n := num_dirty,
                            fh_grids := grids0 @ grids1,
                            fh_slots := k_fill_slots (length grids0) 0 @ k_fill_slots (length grids1) 1\<rparr>;
                    idx = clear_dirty_by_grids (zip (fh_grids h2) (fh_slots h2)) (crid2grid_index st);
                    h3 = h2\<lparr>h_crids := k_gather_crids_by_grids grids0 (resident_list st) @
                                       k_gather_crids_by_grids grids1 (resident_list st),
                            h_slots := replicate (length grids0) 0 @ replicate (length grids1) 1\<rparr>
                in w\<lparr>fw_stager := st\<lparr>crid2grid_index := idx\<rparr>,
                     d_packed_vers := flush_queue_pack h3 (GPU_records st),
                     sg_transfer_done := False,
                     fw_handle := h3\<lparr>fh_valid := True, worker := Some FirstHalf\<rparr>\<rparr>))"

text \<open>One half of the work: a range of the packed records goes to the Primary Store.\<close>

definition worker_scatter :: "nat \<Rightarrow> nat \<Rightarrow> 'v flush_world \<Rightarrow> 'v flush_world" where
  "worker_scatter start num w =
     (let h = fw_handle w; st = fw_stager w
      in w\<lparr>fw_stager := st\<lparr>CPU_records := wb_chunked_d2h_scatter (sg_bytes_per_elem st) (h_crids h) (h_slots h)
             (d_packed_vers w) (fh_n h) start num (CPU_records st)\<rparr>\<rparr>)"

definition set_worker :: "worker_pc \<Rightarrow> 'v flush_world \<Rightarrow> 'v flush_world" where
  "set_worker pc w = w\<lparr>fw_handle := (fw_handle w)\<lparr>worker := Some pc\<rparr>\<rparr>"

inductive worker_step :: "'v flush_world \<Rightarrow> 'v flush_world \<Rightarrow> bool" where
  first_half: "worker (fw_handle w) = Some FirstHalf \<Longrightarrow>
    worker_step w (set_worker WaitTransfer (worker_scatter 0 (fh_n (fw_handle w) div 2) w))"
| wait_transfer: "worker (fw_handle w) = Some WaitTransfer \<Longrightarrow> sg_transfer_done w \<Longrightarrow>
    worker_step w (set_worker SecondHalf w)"
| second_half: "worker (fw_handle w) = Some SecondHalf \<Longrightarrow> half = fh_n (fw_handle w) div 2 \<Longrightarrow>
    worker_step w (set_worker Finished (worker_scatter half (fh_n (fw_handle w) - half) w))"

text \<open>The main thread during the next epoch: it changes cache, index and transactions and may signal, but
  neither writes the Primary Store nor touches the handle and the packed buffer.\<close>

definition main_step :: "'v flush_world \<Rightarrow> 'v flush_world \<Rightarrow> bool" where
  "main_step w w' \<longleftrightarrow>
     fw_handle w' = fw_handle w \<and> d_packed_vers w' = d_packed_vers w \<and>
     CPU_records (fw_stager w') = CPU_records (fw_stager w) \<and> (sg_transfer_done w \<longrightarrow> sg_transfer_done w')"

inductive overlap :: "'v flush_world \<Rightarrow> 'v flush_world \<Rightarrow> bool" for w where
  start: "overlap w w"
| main: "overlap w v \<Longrightarrow> main_step v v' \<Longrightarrow> overlap w v'"
| work: "overlap w v \<Longrightarrow> worker_step v v' \<Longrightarrow> overlap w v'"

subsection \<open>The worker writes every item\<close>

definition flush_items_of :: "'v flush_world \<Rightarrow> nat \<Rightarrow> nat \<Rightarrow> 'v wb_item list" where
  "flush_items_of w = wb_items (h_crids (fw_handle w)) (h_slots (fw_handle w)) (d_packed_vers w)"

lemma flush_items_of_empty [simp]: "flush_items_of w a a = []"
  by (simp add: flush_items_of_def wb_items_def)

lemma scatter_host_one_idem: "scatter_host_one it (scatter_host_one it C) = scatter_host_one it C"
  by (auto simp: scatter_host_one_def put_value_def put_tag_def Let_def split: prod.split)

text \<open>What the Primary Store holds at each point of the worker. A single record makes the first half empty,
  which the range call reads as all records: the record is then written twice.\<close>

fun items_written :: "worker_pc option \<Rightarrow> nat \<Rightarrow> nat" where
  "items_written (Some WaitTransfer) n = (if n div 2 = 0 then n else n div 2)"
| "items_written (Some SecondHalf) n = (if n div 2 = 0 then n else n div 2)"
| "items_written (Some Finished) n = n"
| "items_written _ n = 0"

definition worker_store :: "worker_pc option \<Rightarrow> 'v flush_world \<Rightarrow> 'v recs" where
  "worker_store pc w = fold scatter_host_one (flush_items_of w 0 (items_written pc (fh_n (fw_handle w)))) (CPU_records (fw_stager w))"

lemma set_worker_fields [simp]:
  "worker (fw_handle (set_worker pc w)) = Some pc" "fw_stager (set_worker pc w) = fw_stager w"
  "d_packed_vers (set_worker pc w) = d_packed_vers w"
  "h_crids (fw_handle (set_worker pc w)) = h_crids (fw_handle w)" "h_slots (fw_handle (set_worker pc w)) = h_slots (fw_handle w)"
  "fh_n (fw_handle (set_worker pc w)) = fh_n (fw_handle w)"
  by (simp_all add: set_worker_def)

lemma worker_scatter_fields [simp]:
  "fw_handle (worker_scatter a b w) = fw_handle w" "d_packed_vers (worker_scatter a b w) = d_packed_vers w"
  by (simp_all add: worker_scatter_def Let_def)

lemma worker_scatter_store:
  assumes "length (d_packed_vers w) = fh_n (fw_handle w)" and "0 < fh_n (fw_handle w)" and "a + b \<le> fh_n (fw_handle w)"
    and "0 < b \<or> a = 0"
  shows "CPU_records (fw_stager (worker_scatter a b w)) =
           fold scatter_host_one (flush_items_of w a (if b = 0 then fh_n (fw_handle w) else a + b)) (CPU_records (fw_stager w))"
proof -
  let ?h = "fw_handle w"
  have "wb_chunked_d2h_scatter bpe (h_crids ?h) (h_slots ?h) (d_packed_vers w) (fh_n ?h) a 0 C =
      wb_chunked_d2h_scatter bpe (h_crids ?h) (h_slots ?h) (d_packed_vers w) (fh_n ?h) a (fh_n ?h - a) C" for bpe C
    by (simp add: wb_chunked_d2h_scatter_def Let_def)
  then show ?thesis
    using assms wb_chunked_eq [of a "if b = 0 then fh_n ?h else b" "d_packed_vers w"]
    by (auto simp: worker_scatter_def flush_items_of_def Let_def)
qed

definition flush_started :: "'v flush_world \<Rightarrow> bool" where
  "flush_started w \<longleftrightarrow> worker (fw_handle w) = Some FirstHalf \<and> 0 < fh_n (fw_handle w) \<and>
     length (d_packed_vers w) = fh_n (fw_handle w)"

lemma overlap_store:
  assumes "overlap w v" and "flush_started w"
  shows "CPU_records (fw_stager v) = worker_store (worker (fw_handle v)) w \<and> d_packed_vers v = d_packed_vers w \<and>
     h_crids (fw_handle v) = h_crids (fw_handle w) \<and> h_slots (fw_handle v) = h_slots (fw_handle w) \<and>
     fh_n (fw_handle v) = fh_n (fw_handle w) \<and> worker (fw_handle v) \<noteq> None"
  using assms(1)
proof induction
  case start
  then show ?case using assms(2) by (simp add: flush_started_def worker_store_def)
next
  case (main v v')
  then show ?case by (simp add: main_step_def)
next
  case (work v v')
  let ?n = "fh_n (fw_handle w)" and ?C = "CPU_records (fw_stager w)"
  have w: "0 < ?n" "length (d_packed_vers w) = ?n" using assms(2) by (simp_all add: flush_started_def)
  have v: "length (d_packed_vers v) = ?n" "fh_n (fw_handle v) = ?n" using work.IH w by simp_all
  have it: "flush_items_of v = flush_items_of w" using work.IH by (simp add: flush_items_of_def fun_eq_iff)
  from work.hyps(2) show ?case
  proof (cases rule: worker_step.cases)
    case first_half
    then show ?thesis
      using work.IH w v worker_scatter_store [of v 0 "?n div 2"] by (simp add: it worker_store_def)
  next
    case wait_transfer
    then show ?thesis using work.IH by (simp add: worker_store_def)
  next
    case (second_half half)
    let ?a = "?n div 2"
    have st: "CPU_records (fw_stager (worker_scatter ?a (?n - ?a) v)) =
        fold scatter_host_one (flush_items_of w ?a ?n) (CPU_records (fw_stager v))"
      using worker_scatter_store [of v ?a "?n - ?a"] w v by (simp add: it)
    have "fold scatter_host_one (flush_items_of w ?a ?n) (CPU_records (fw_stager v)) = fold scatter_host_one (flush_items_of w 0 ?n) ?C"
    proof (cases "?a = 0")
      case True
      then have "?n = 1" using w(1) by simp
      then show ?thesis
        using work.IH second_half True by (simp add: flush_items_of_def wb_items_def scatter_host_one_idem worker_store_def)
    next
      case False
      have "flush_items_of w 0 ?n = flush_items_of w 0 ?a @ flush_items_of w ?a ?n"
        unfolding flush_items_of_def by (rule wb_items_append) simp_all
      then show ?thesis using work.IH second_half False by (simp add: worker_store_def)
    qed
    then show ?thesis using work.IH second_half st v by (simp add: worker_store_def)
  qed
qed

subsection \<open>Starting the flush\<close>

lemma fold_zip_slots:
  "zip (g0 @ g1) (replicate (length g0) s0 @ replicate (length g1) s1) = map (\<lambda>g. (g, s0)) g0 @ map (\<lambda>g. (g, s1)) g1"
  by (simp add: zip_append zip_replicate1 zip_replicate2)

lemma clear_both:
  "clear_dirty_by_grids (map (\<lambda>g. (g, 0)) g0 @ map (\<lambda>g. (g, 1)) g1) idx =
     idx\<lparr>grid_dirty_v1 := fold (\<lambda>g a. store a g False) g0 (grid_dirty_v1 idx),
         grid_dirty_v2 := fold (\<lambda>g a. store a g False) g1 (grid_dirty_v2 idx)\<rparr>"
  by (simp add: clear_dirty_by_grids_def clear_fold)

text \<open>The start of a flush with dirty slots, in terms of its two lists of slots.\<close>

lemma start_flush_unfold:
  assumes ready: "flush_ready (fw_stager w)" and joined: "join_worker (fw_handle w) \<noteq> None"
    and g0: "g0 = collect_dirty_grids_v1 (crid2grid_index (fw_stager w))"
    and g1: "g1 = collect_dirty_grids_v2 (crid2grid_index (fw_stager w))" and some: "g0 \<noteq> [] \<or> g1 \<noteq> []"
    and w': "start_flush_epoch_async w = Some w'"
  shows "flush_started w'" and "\<not> sg_transfer_done w'" and "fh_valid (fw_handle w')"
    and "flush_items_of w' 0 (fh_n (fw_handle w')) = map (flush_item (fw_stager w) 0) g0 @ map (flush_item (fw_stager w) 1) g1"
    and "fw_stager w' = (fw_stager w)\<lparr>crid2grid_index := (crid2grid_index (fw_stager w))
           \<lparr>grid_dirty_v1 := fold (\<lambda>g a. store a g False) g0 (grid_dirty_v1 (crid2grid_index (fw_stager w))),
            grid_dirty_v2 := fold (\<lambda>g a. store a g False) g1 (grid_dirty_v2 (crid2grid_index (fw_stager w)))\<rparr>\<rparr>"
proof -
  let ?st = "fw_stager w"
  obtain h0 where h0: "join_worker (fw_handle w) = Some h0" using joined by blast
  note run = w' [unfolded start_flush_epoch_async_def h0 option.case Let_def, folded g0 g1]
  have nz: "\<not> (length g0 = 0 \<and> length g1 = 0)" using some by simp
  have h: "h_crids (fw_handle w') = map (load (resident_list ?st)) g0 @ map (load (resident_list ?st)) g1"
    "h_slots (fw_handle w') = replicate (length g0) 0 @ replicate (length g1) 1"
    "fh_n (fw_handle w') = length g0 + length g1" "worker (fw_handle w') = Some FirstHalf" "fh_valid (fw_handle w')"
    "\<not> sg_transfer_done w'"
    and p: "d_packed_vers w' = map (\<lambda>i. k_pack_versions_by_grids (GPU_records ?st) ((g0 @ g1) ! i)
        ((replicate (length g0) 0 @ replicate (length g1) 1) ! i)) [0..<length g0 + length g1]"
    and s: "fw_stager w' = ?st\<lparr>crid2grid_index := clear_dirty_by_grids
        (zip (g0 @ g1) (replicate (length g0) 0 @ replicate (length g1) 1)) (crid2grid_index ?st)\<rparr>"
    using run nz by (auto simp: k_gather_crids_by_grids_def k_fill_slots_def flush_queue_pack_def)
  show "flush_started w'" using some h p by (auto simp: flush_started_def)
  show "\<not> sg_transfer_done w'" "fh_valid (fw_handle w')" by (rule h)+
  show "flush_items_of w' 0 (fh_n (fw_handle w')) = map (flush_item ?st 0) g0 @ map (flush_item ?st 1) g1"
    using flush_items [OF refl refl refl, of ?st g0 g1] by (simp add: flush_items_of_def h p)
  show "fw_stager w' = ?st\<lparr>crid2grid_index := (crid2grid_index ?st)
           \<lparr>grid_dirty_v1 := fold (\<lambda>g a. store a g False) g0 (grid_dirty_v1 (crid2grid_index ?st)),
            grid_dirty_v2 := fold (\<lambda>g a. store a g False) g1 (grid_dirty_v2 (crid2grid_index ?st))\<rparr>\<rparr>"
    by (simp only: s fold_zip_slots clear_both)
qed

lemma fold_items_other: "c \<notin> fst ` set its \<Longrightarrow> fold scatter_host_one its C c = C c"
  by (induction its arbitrary: C) (auto simp: scatter_host_one_def Let_def split: prod.splits)

lemma items_written_le: "items_written pc n \<le> n"
  by (cases "(pc, n)" rule: items_written.cases) auto

lemma worker_store_other:
  assumes "c \<notin> fst ` set (flush_items_of w 0 (fh_n (fw_handle w)))"
  shows "worker_store pc w c = CPU_records (fw_stager w) c"
proof -
  have "flush_items_of w 0 (fh_n (fw_handle w)) =
      flush_items_of w 0 (items_written pc (fh_n (fw_handle w))) @ flush_items_of w (items_written pc (fh_n (fw_handle w))) (fh_n (fw_handle w))"
    unfolding flush_items_of_def by (rule wb_items_append) (simp_all add: items_written_le)
  then show ?thesis using assms by (simp add: worker_store_def fold_items_other image_Un)
qed

lemma overlap_idle:
  assumes "overlap w v" and "worker (fw_handle w) = None"
  shows "CPU_records (fw_stager v) = CPU_records (fw_stager w) \<and> worker (fw_handle v) = None"
  using assms(1) by induction (use assms(2) in \<open>auto simp: main_step_def elim: worker_step.cases\<close>)

lemma start_flush_idle:
  assumes "collect_dirty_grids_v1 (crid2grid_index (fw_stager w)) = []" "collect_dirty_grids_v2 (crid2grid_index (fw_stager w)) = []"
    and "start_flush_epoch_async w = Some w'"
  shows "fw_stager w' = fw_stager w" and "worker (fw_handle w') = None"
  using assms by (auto simp: start_flush_epoch_async_def Let_def join_worker_def split: option.splits worker_pc.splits)

text \<open>Once the transfers are signalled the worker reaches its end.\<close>

lemma worker_finishes:
  assumes "sg_transfer_done w" and "worker (fw_handle w) \<noteq> None"
  shows "\<exists>w'. worker_step\<^sup>*\<^sup>* w w' \<and> worker (fw_handle w') = Some Finished"
proof -
  have done2: "\<exists>w'. worker_step\<^sup>*\<^sup>* v w' \<and> worker (fw_handle w') = Some Finished"
    if "worker (fw_handle v) = Some SecondHalf" for v :: "'a flush_world"
    using second_half [OF that refl] by (intro exI conjI) (erule r_into_rtranclp, simp)
  have wait: "\<exists>w'. worker_step\<^sup>*\<^sup>* v w' \<and> worker (fw_handle w') = Some Finished"
    if "worker (fw_handle v) = Some WaitTransfer" "sg_transfer_done v" for v :: "'a flush_world"
    using wait_transfer [OF that] done2 [of "set_worker SecondHalf v"] by (auto intro: converse_rtranclp_into_rtranclp)
  have first: "\<exists>w'. worker_step\<^sup>*\<^sup>* w w' \<and> worker (fw_handle w') = Some Finished"
    if f: "worker (fw_handle w) = Some FirstHalf"
  proof -
    let ?v = "set_worker WaitTransfer (worker_scatter 0 (fh_n (fw_handle w) div 2) w)"
    have "sg_transfer_done ?v" using assms(1) by (simp add: set_worker_def worker_scatter_def Let_def)
    then show ?thesis using first_half [OF f] wait [of ?v] by (auto intro: converse_rtranclp_into_rtranclp)
  qed
  obtain pc where "worker (fw_handle w) = Some pc" using assms(2) by blast
  then show ?thesis using first wait done2 assms(1) by (cases pc) auto
qed

text \<open>C13: The overlapped flush. Starting it clears the dirty flags exactly as the synchronous flush does and
  does not touch the Primary Store. While the worker runs, interleaved in any way with the main thread, a record
  that was not cached keeps its contents. When \<^verbatim>\<open>sync_flush\<close> returns, the Primary Store is the one the
  synchronous flush would have left; and once the transfers are signalled, the worker comes to the point
  where \<^verbatim>\<open>sync_flush\<close> returns.\<close>

theorem async_flush_equals_sync:
  assumes ready: "flush_ready (fw_stager w)" and w1: "start_flush_epoch_async w = Some w1" and run: "overlap w1 w2"
  shows "crid2grid_index (fw_stager w1) = crid2grid_index (periodicFlush epoch (fw_stager w)) \<and>
         CPU_records (fw_stager w1) = CPU_records (fw_stager w) \<and>
         (\<forall>c. (\<forall>g < gpu_capacity (fw_stager w). load (resident_list (fw_stager w)) g \<noteq> c) \<longrightarrow>
            CPU_records (fw_stager w2) c = CPU_records (fw_stager w) c) \<and>
         (\<forall>w3. sync_flush w2 = Some w3 \<longrightarrow> \<not> joinable (fw_handle w3) \<and>
            CPU_records (fw_stager w3) = CPU_records (periodicFlush epoch (fw_stager w))) \<and>
         (sg_transfer_done w2 \<longrightarrow> (\<exists>w3 w4. worker_step\<^sup>*\<^sup>* w2 w3 \<and> sync_flush w3 = Some w4))"
proof -
  let ?st = "fw_stager w"
  define g0 where "g0 = collect_dirty_grids_v1 (crid2grid_index ?st)"
  define g1 where "g1 = collect_dirty_grids_v2 (crid2grid_index ?st)"
  have cap: "idx_capacity (crid2grid_index ?st) = gpu_capacity ?st" "gpu_capacity ?st \<noteq> 0"
    using ready by (auto simp: flush_ready_def stager_inv_def dest: cache_invD(1))
  have len: "length (grid_dirty_v1 (crid2grid_index ?st)) = unat (gpu_capacity ?st)"
      "length (grid_dirty_v2 (crid2grid_index ?st)) = unat (gpu_capacity ?st)"
    using ready by (simp_all add: flush_ready_def)
  have c0: "g0 = select_flagged (map of_nat [0..<unat (gpu_capacity ?st)]) (grid_dirty_v1 (crid2grid_index ?st))"
    and c1: "g1 = select_flagged (map of_nat [0..<unat (gpu_capacity ?st)]) (grid_dirty_v2 (crid2grid_index ?st))"
    using cap by (simp_all add: g0_def g1_def collect_dirty_grids_v1_def collect_dirty_grids_v2_def)
  have in_cap: "g < gpu_capacity ?st" if "g \<in> set g0 \<or> g \<in> set g1" for g
    using that unfolding c0 c1 set_flagged_slots(1) [OF len(1)] set_flagged_slots(1) [OF len(2)] by blast
  note f = flush_unfold [OF ready c0 c1 refl, of epoch]
  have joined: "join_worker (fw_handle w) \<noteq> None"
    using w1 by (auto simp: start_flush_epoch_async_def split: option.splits)
  have sync: "sync_flush v = Some v' \<Longrightarrow> \<not> joinable (fw_handle v') \<and> fw_stager v' = fw_stager v \<and>
      (worker (fw_handle v) = None \<or> worker (fw_handle v) = Some Finished)" for v v' :: "'a flush_world"
    by (auto simp: sync_flush_def join_worker_def joinable_def split: option.splits worker_pc.splits)
  show ?thesis
  proof (cases "g0 = [] \<and> g1 = []")
    case True
    then have i: "fw_stager w1 = ?st" "worker (fw_handle w1) = None"
      using start_flush_idle [OF _ _ w1] by (simp_all add: g0_def g1_def)
    have same: "periodicFlush epoch ?st = ?st"
      using True by (simp add: periodicFlush_def Let_def g0_def g1_def)
    have idle: "CPU_records (fw_stager w2) = CPU_records ?st" "worker (fw_handle w2) = None"
      using overlap_idle [OF run i(2)] by (simp_all add: i(1))
    have live: "\<exists>w3 w4. worker_step\<^sup>*\<^sup>* w2 w3 \<and> sync_flush w3 = Some w4"
      by (rule exI [of _ w2]) (simp add: sync_flush_def join_worker_def idle(2))
    have end_store: "\<not> joinable (fw_handle w3) \<and> CPU_records (fw_stager w3) = CPU_records ?st" if "sync_flush w2 = Some w3" for w3
      using sync [OF that] by (simp add: idle(1))
    show ?thesis unfolding same by (intro conjI allI impI live) (simp_all only: i(1) idle(1) end_store not_False_eq_True)
  next
    case False
    then have some: "g0 \<noteq> [] \<or> g1 \<noteq> []" by blast
    note s = start_flush_unfold [OF ready joined g0_def g1_def some w1]
    note o = overlap_store [OF run s(1)]
    have cpu: "CPU_records (fw_stager w1) = CPU_records ?st" by (simp add: s(5))
    have kept: "CPU_records (fw_stager w2) c = CPU_records ?st c"
      if other: "\<forall>g < gpu_capacity ?st. load (resident_list ?st) g \<noteq> c" for c
    proof -
      have "c \<notin> fst ` set (flush_items_of w1 0 (fh_n (fw_handle w1)))"
        using other in_cap by (fastforce simp: s(4) flush_item_def)
      then show ?thesis using o by (simp add: worker_store_other cpu)
    qed
    have fin: "worker_store (Some Finished) w1 = CPU_records (periodicFlush epoch ?st)"
      by (simp add: worker_store_def s(4) cpu f(1))
    have live: "\<exists>w3 w4. worker_step\<^sup>*\<^sup>* w2 w3 \<and> sync_flush w3 = Some w4" if sig: "sg_transfer_done w2"
    proof -
      obtain w3 where w3: "worker_step\<^sup>*\<^sup>* w2 w3" "worker (fw_handle w3) = Some Finished"
        using worker_finishes [OF sig] o by blast
      from w3(2) have "\<exists>w4. sync_flush w3 = Some w4" by (simp add: sync_flush_def join_worker_def)
      with w3(1) show ?thesis by blast
    qed
    have end_store: "\<not> joinable (fw_handle w3) \<and> CPU_records (fw_stager w3) = CPU_records (periodicFlush epoch ?st)"
      if "sync_flush w2 = Some w3" for w3
      using sync [OF that] o fin by metis
    have "crid2grid_index (fw_stager w1) = crid2grid_index (periodicFlush epoch ?st)" by (simp add: s(5) f(2))
    then show ?thesis by (intro conjI allI impI live) (simp_all only: cpu kept end_store not_False_eq_True)
  qed
qed

definition idle_handle :: FlushHandle where
  "idle_handle = \<lparr>fh_valid = False, h_crids = [], h_slots = [], fh_grids = [], fh_slots = [], fh_n = 0, d_cap = 0, worker = None\<rparr>"

definition sample_world :: "nat flush_world" where
  "sample_world = \<lparr>fw_stager = sample_dirty, fw_handle = idle_handle, d_packed_vers = [], sg_transfer_done = True\<rparr>"

theorem async_flush_equals_sync_witness:
  "\<exists>w1. start_flush_epoch_async sample_world = Some w1 \<and> fh_n (fw_handle w1) = 1 \<and>
     crid2grid_index (fw_stager w1) = crid2grid_index (periodicFlush 1 sample_dirty) \<and>
     CPU_records (fw_stager w1) 7 = CPU_records sample_dirty 7"
proof -
  have n: "map_option (\<lambda>w. fh_n (fw_handle w)) (start_flush_epoch_async sample_world) = Some 1" by code_simp
  then obtain w1 where w1: "start_flush_epoch_async sample_world = Some w1" by blast
  have "fw_stager sample_world = sample_dirty" by (simp add: sample_world_def)
  then show ?thesis
    using async_flush_equals_sync [of sample_world, OF _ w1 overlap.start, of 1] sample_dirty_ready w1 n by simp
qed

subsection \<open>Preparing an epoch meanwhile\<close>

lemma transfer_cong:
  assumes "\<forall>c \<in> set (map fst ps). C c = CPU_records st c"
  shows "sg_transfer_versions ps e (st\<lparr>CPU_records := C\<rparr>) = (sg_transfer_versions ps e st)\<lparr>CPU_records := C\<rparr>"
proof -
  have "map (gather_one z C e) (map fst ps) = map (gather_one z (CPU_records st) e) (map fst ps)" for z
    using assms by (intro map_cong refl) (auto simp: gather_one_def)
  then show ?thesis
    by (simp add: sg_transfer_versions_def transfer_versions_eq gather_host_versions_def del: map_map map_eq_conv)
qed

lemma miss_subset_crids: "set (map fst (miss_subset n ps flags)) \<subseteq> set (map fst ps)"
proof -
  have "x \<in> set ps" if "x \<in> set (miss_subset n ps flags)" for x
    using that by (auto simp: miss_subset_def dest: set_zip_leftD split: if_splits)
  then show ?thesis by auto
qed

lemma miss_transfer_cong:
  assumes "\<forall>c \<in> set ns. C c = CPU_records st c" and "set (map fst ps) \<subseteq> set ns"
  shows "sg_transfer_versions (miss_subset n ps flags) e (st\<lparr>CPU_records := C\<rparr>) =
           (sg_transfer_versions (miss_subset n ps flags) e st)\<lparr>CPU_records := C\<rparr>"
  by (rule transfer_cong) (use assms miss_subset_crids in blast)

lemma store_out:
  "st\<lparr>CPU_records := C, free_list_ring := r\<rparr> = st\<lparr>free_list_ring := r, CPU_records := C\<rparr>"
  "st\<lparr>CPU_records := C, fifo_next_grid := f, needed_grid_flag := n\<rparr> = st\<lparr>fifo_next_grid := f, needed_grid_flag := n, CPU_records := C\<rparr>"
  "bind_granted ps (st\<lparr>CPU_records := C\<rparr>) = (bind_granted ps st)\<lparr>CPU_records := C\<rparr>"
  "rename_evicted vs ns (st\<lparr>CPU_records := C\<rparr>) = (rename_evicted vs ns st)\<lparr>CPU_records := C\<rparr>"
  "count_admissions k i (st\<lparr>CPU_records := C\<rparr>) = (count_admissions k i st)\<lparr>CPU_records := C\<rparr>"
  "h_free_slots (st\<lparr>CPU_records := C\<rparr>) = h_free_slots st"
  by (simp_all add: bind_granted_def rename_evicted_def count_admissions_def h_free_slots_def Let_def)

lemma same_store [simp]:
  "CPU_records (rename_evicted vs ns st) = CPU_records st" "CPU_records (count_admissions k i st) = CPU_records st"
  by (simp_all add: rename_evicted_def count_admissions_def Let_def)

lemma set_zip_fst: "set (map fst (zip xs ys)) \<subseteq> set xs"
  by (auto dest: set_zip_leftD)

lemma admit_only_cong:
  assumes "\<forall>c \<in> set ns. C c = CPU_records st c"
  shows "admit_only ns n e (st\<lparr>CPU_records := C\<rparr>) = map_sum id (\<lambda>st'. st'\<lparr>CPU_records := C\<rparr>) (admit_only ns n e st)"
proof -
  obtain ring grids where p: "ring_pop (free_list_ring st) (of_nat (length ns)) = (ring, grids)" by (metis surj_pair)
  have "sg_transfer_versions (miss_subset n (zip ns grids) fl) e ((bind_granted (zip ns grids) (st\<lparr>free_list_ring := ring\<rparr>))\<lparr>CPU_records := C\<rparr>) =
      (sg_transfer_versions (miss_subset n (zip ns grids) fl) e (bind_granted (zip ns grids) (st\<lparr>free_list_ring := ring\<rparr>)))\<lparr>CPU_records := C\<rparr>" for fl
    by (rule miss_transfer_cong [OF _ set_zip_fst]) (use assms in simp)
  then show ?thesis by (simp add: admit_only_def p Let_def store_out)
qed

lemma admit_rest_cong:
  assumes "\<forall>c \<in> set ns. C c = CPU_records st c"
  shows "admit_rest ns fl n e (st\<lparr>CPU_records := C\<rparr>) = (admit_rest ns fl n e st)\<lparr>CPU_records := C\<rparr>"
    and "CPU_records (admit_rest ns fl n e st) = CPU_records st"
proof -
  obtain ring grids where p: "ring_pop (free_list_ring st) (of_nat (length ns)) = (ring, grids)" by (metis surj_pair)
  have "sg_transfer_versions (miss_subset n (zip ns grids) fl) e ((bind_granted (zip ns grids) (st\<lparr>free_list_ring := ring\<rparr>))\<lparr>CPU_records := C\<rparr>) =
      (sg_transfer_versions (miss_subset n (zip ns grids) fl) e (bind_granted (zip ns grids) (st\<lparr>free_list_ring := ring\<rparr>)))\<lparr>CPU_records := C\<rparr>"
    by (rule miss_transfer_cong [OF _ set_zip_fst]) (use assms in simp)
  then show "admit_rest ns fl n e (st\<lparr>CPU_records := C\<rparr>) = (admit_rest ns fl n e st)\<lparr>CPU_records := C\<rparr>"
    by (simp add: admit_rest_def p Let_def store_out)
  show "CPU_records (admit_rest ns fl n e st) = CPU_records st" by (simp add: admit_rest_def p Let_def)
qed

lemma evict_and_admit_cong:
  assumes "\<forall>c \<in> set ns. C c = CPU_records st c"
  shows "evict_and_admit s1 s2 ns d n e (st\<lparr>CPU_records := C\<rparr>) =
           map_sum id (\<lambda>st'. st'\<lparr>CPU_records := C\<rparr>) (evict_and_admit s1 s2 ns d n e st)"
proof -
  define s where "s = collect_evictions (reclaim_eviction_active st) s1 s2 (fifo_next_grid st) (gpu_capacity st)
                (resident_list st) (needed_grid_flag st) (reclaim_flag st) d"
  define st2 where "st2 = rename_evicted (ev_out s) (take d ns)
      (st\<lparr>fifo_next_grid := (fifo_next_grid st + (ev_max s + 1)) mod gpu_capacity st, needed_grid_flag := ev_needed s\<rparr>)"
  define st3 where "st3 = admit_rest (drop d ns) (drop d (new_is_insert st)) n e st2"
  have cpu: "CPU_records st2 = CPU_records st" by (simp add: st2_def)
  have sub: "\<forall>c \<in> set (drop d ns). C c = CPU_records st2 c" "set (map fst (zip (take d ns) gs)) \<subseteq> set ns" for gs :: "u32 list"
    using assms set_drop_subset [of d ns] set_take_subset [of d ns] set_zip_fst [of "take d ns" gs] by (auto simp: cpu)
  have cpu3: "\<forall>c \<in> set ns. C c = CPU_records st3 c"
    using assms admit_rest_cong(2) [OF sub(1)] by (simp add: st3_def cpu)
  have "evict_and_admit s1 s2 ns d n e (st\<lparr>CPU_records := C\<rparr>) =
      (if ev_count s < d then Inl NotEnoughEvictable
       else Inr (sg_transfer_versions (miss_subset n (zip (take d ns) (map fst (ev_out s))) (new_is_insert st)) e (st3\<lparr>CPU_records := C\<rparr>)))"
    using admit_rest_cong(1) [OF sub(1), of "drop d (new_is_insert st)" n e]
    by (simp add: evict_and_admit_def Let_def s_def st2_def st3_def store_out)
  moreover have "evict_and_admit s1 s2 ns d n e st =
      (if ev_count s < d then Inl NotEnoughEvictable
       else Inr (sg_transfer_versions (miss_subset n (zip (take d ns) (map fst (ev_out s))) (new_is_insert st)) e st3))"
    by (simp add: evict_and_admit_def Let_def s_def st2_def st3_def)
  ultimately show ?thesis using miss_transfer_cong [OF cpu3 sub(2)] by simp
qed

lemma admit_new_cong:
  assumes "\<forall>c \<in> set ns. C c = CPU_records st c"
  shows "admit_new s1 s2 ns k n e (st\<lparr>CPU_records := C\<rparr>) =
           map_sum id (\<lambda>st'. st'\<lparr>CPU_records := C\<rparr>) (admit_new s1 s2 ns k n e st)"
  using assms by (simp add: admit_new_def Let_def store_out admit_only_cong evict_and_admit_cong)

lemma select_new_cong:
  "select_new ord ks e n (st\<lparr>CPU_records := C\<rparr>) = map_prod id (map_prod id (\<lambda>st'. st'\<lparr>CPU_records := C\<rparr>)) (select_new ord ks e n st)"
  by (simp add: select_new_def Let_def split: prod.splits)

lemma needed_cong:
  "buildNeededOnDevice ks e (set_insert_bitmap ins n (st\<lparr>CPU_records := C\<rparr>)) =
     map_sum id (map_prod id (\<lambda>st'. st'\<lparr>CPU_records := C\<rparr>)) (buildNeededOnDevice ks e (set_insert_bitmap ins n st))"
  by (simp add: buildNeededOnDevice_def set_insert_bitmap_def Let_def)

lemma rewrite_txns_store: "rewrite_txns tps (st\<lparr>CPU_records := C\<rparr>) = rewrite_txns tps st"
  by (simp add: rewrite_txns_def Let_def)

text \<open>The records an epoch admits are not cached when it is prepared.\<close>

lemma selected_not_cached:
  assumes "stager_inv st" and "epoch_ready ord s1 s2 e keys st"
    and "buildNeededOnDevice keys e (set_insert_bitmap ins n st) = Inr (needed, st1)"
    and "select_new ord needed e n st1 = (ns, k, st2)"
  shows "\<forall>c \<in> set ns. \<forall>g < gpu_capacity st. load (resident_list st) g \<noteq> c" and "CPU_records st2 = CPU_records st"
proof -
  have n: "needed = unique_runs (sort keys)" and st1: "crid2grid_index st1 = crid2grid_index st" "stager_inv st1"
    "CPU_records st1 = CPU_records st"
    using assms(1,3)
    by (auto simp: buildNeededOnDevice_def set_insert_bitmap_def stager_inv_def Let_def split: if_splits)
  have c: "cache_inv (gpu_capacity st) (stager_units st) (crid2grid_index st) (resident_list st) (free_list_ring st)"
    using assms(1) by (simp add: stager_inv_def)
  have o: "distinct ord" "set ord = {..<length needed}" using assms(2) by (simp_all add: epoch_ready_def n needed_facts)
  note N = select_new_facts [OF st1(2) _ o assms(4), unfolded n, OF needed_facts(1)]
  show "CPU_records st2 = CPU_records st" by (simp add: N(7) st1(3))
  show "\<forall>c \<in> set ns. \<forall>g < gpu_capacity st. load (resident_list st) g \<noteq> c"
  proof (intro ballI allI impI notI)
    fix c g assume m: "c \<in> set ns" and g: "g < gpu_capacity st" and r: "load (resident_list st) g = c"
    have lk: "idx_lookup (crid2grid_index st) c = sentinel" using m by (simp add: N(3) st1(1))
    have "k \<noteq> sentinel" if "k \<in> set ns" for k
      using that assms(2) by (auto simp: N(3) needed_facts epoch_ready_def)
    then have "c \<noteq> sentinel" using m by blast
    moreover have lt: "unat g < length (resident_list st)" using g cache_invD(3) [OF c] by (simp add: word_less_nat_alt)
    ultimately have "idx_lookup (crid2grid_index st) c = g" using flat.coherentD(3) [OF cache_invD(6) [OF c] lt] r by simp
    with lk show False using flat.coherentD(5) [OF cache_invD(6) [OF c] lt] by simp
  qed
qed

text \<open>C14: Preparing an epoch while the flush of the previous one is still landing. Whatever part of the
  flush has reached the Primary Store (\<open>C\<close> differs from the store the preparation should see only in records that are
  cached), the preparation takes the same decisions, fills the cache with the same contents and rewrites the
  transactions in the same way, and it leaves the Primary Store to the worker.\<close>

theorem overlapped_preparation:
  assumes inv: "stager_inv st" and rdy: "epoch_ready ord sched1 sched2 epoch keys st"
    and agree: "\<forall>c. (\<forall>g < gpu_capacity st. load (resident_list st) g \<noteq> c) \<longrightarrow> C c = CPU_records st c"
  shows "prepareEpoch ord sched1 sched2 epoch tps keys insert_keys n_insert (st\<lparr>CPU_records := C\<rparr>) =
           map_sum id (map_prod (\<lambda>st'. st'\<lparr>CPU_records := C\<rparr>) id)
             (prepareEpoch ord sched1 sched2 epoch tps keys insert_keys n_insert st)"
proof (cases "buildNeededOnDevice keys epoch (set_insert_bitmap insert_keys n_insert st)")
  case (Inl err)
  then show ?thesis by (simp add: prepareEpoch_def needed_cong)
next
  case (Inr r)
  obtain needed st1 where r: "r = (needed, st1)" by (cases r)
  obtain ns k st2 where sel: "select_new ord needed epoch n_insert st1 = (ns, k, st2)" by (rule prod_cases3)
  note S = selected_not_cached [OF inv rdy Inr [unfolded r] sel]
  have "\<forall>c \<in> set ns. C c = CPU_records st2 c" using S agree by simp
  note A = admit_new_cong [OF this, of sched1 sched2 k n_insert epoch]
  show ?thesis
    by (cases "admit_new sched1 sched2 ns k n_insert epoch st2")
      (simp_all add: prepareEpoch_def needed_cong Inr r select_new_cong sel A rewrite_txns_store)
qed

lemma sample_dirty_epoch: "epoch_ready [1, 0] sample_schedule sample_schedule 1 [5, 4, 5] sample_dirty"
proof -
  have "gpu_capacity sample_dirty = gpu_capacity sample_stager" "stager_units sample_dirty = stager_units sample_stager"
    by (simp_all add: sample_dirty_def sample_admitted_def Let_def)
  then show ?thesis using sample_ready by (simp add: epoch_ready_def)
qed

text \<open>Record 5 is cached and half written back, record 4 is admitted.\<close>

theorem overlapped_preparation_witness:
  "\<exists>st'. prepareEpoch [1, 0] sample_schedule sample_schedule 1 [] [5, 4, 5] [] 0
       (sample_dirty\<lparr>CPU_records := (CPU_records sample_dirty)(5 := sample_gpu 9)\<rparr>) = Inr (st', rewrite_txns [] st') \<and>
     CPU_records st' 5 = sample_gpu 9"
proof -
  define C where "C = (CPU_records sample_dirty)(5 := sample_gpu 9)"
  have inv: "stager_inv sample_dirty" using sample_dirty_ready by (simp add: flush_ready_def)
  have r: "gpu_capacity sample_dirty = 3" "load (resident_list sample_dirty) 0 = 5" "(0 :: u32) < 3" by code_simp+
  obtain st' where st': "prepareEpoch [1, 0] sample_schedule sample_schedule 1 [] [5, 4, 5] [] 0 sample_dirty = Inr (st', rewrite_txns [] st')"
    using prepareEpoch_facts [OF inv sample_dirty_epoch, of 0 "[]" "[]"] by auto
  have "\<forall>c. (\<forall>g < gpu_capacity sample_dirty. load (resident_list sample_dirty) g \<noteq> c) \<longrightarrow> C c = CPU_records sample_dirty c"
    using r by (auto simp: C_def)
  from overlapped_preparation [OF inv sample_dirty_epoch this, of "[]" "[]" 0] st'
  have "prepareEpoch [1, 0] sample_schedule sample_schedule 1 [] [5, 4, 5] [] 0 (sample_dirty\<lparr>CPU_records := C\<rparr>) =
      Inr (st'\<lparr>CPU_records := C\<rparr>, rewrite_txns [] (st'\<lparr>CPU_records := C\<rparr>))"
    by (simp add: rewrite_txns_store)
  moreover have "CPU_records (st'\<lparr>CPU_records := C\<rparr>) 5 = sample_gpu 9" by (simp add: C_def)
  ultimately show ?thesis unfolding C_def by blast
qed

end
