(* ===== verification/Recovery.thy ===== *)
theory Recovery
  imports Recovery_Marker Async_Flush
begin

text \<open>
  Recovery after a crash (\<^verbatim>\<open>rollbackPrimaryStoreVersions\<close> of \<^verbatim>\<open>ycsb_recovery.cpp\<close>; the flush part of
  \<^verbatim>\<open>runEpoch\<close> and the recovery part of \<^verbatim>\<open>runBenchmark\<close> in \<^verbatim>\<open>ycsb.cpp\<close>). The pipeline of one epoch drains the
  flush of the previous one, advances the marker and starts its own flush, which lands store by store while
  the next epoch runs. The theorem on the pipeline shows that a process killed at any point of it leaves a
  store and a marker from which the recovering process restores, for every record, what an epoch-start read
  returned at the epoch the marker names.
\<close>

subsection \<open>Demoting newer versions\<close>

definition rollback_record :: "u32 \<Rightarrow> 'v Record \<Rightarrow> 'v Record" where
  "rollback_record min_discard_epoch r =
     (let r1 = (if min_discard_epoch \<le> version1 r then r\<lparr>version1 := 0\<rparr> else r)
      in if min_discard_epoch \<le> version2 r1 then r1\<lparr>version2 := 0\<rparr> else r1)"

definition rollbackPrimaryStoreVersions :: "nat \<Rightarrow> u32 \<Rightarrow> 'v recs \<Rightarrow> 'v recs" where
  "rollbackPrimaryStoreVersions units min_discard_epoch p =
     fold (\<lambda>r p. p(of_nat r := rollback_record min_discard_epoch (p (of_nat r)))) [0..<units] p"

text \<open>The start of a recovering process: the epoch it resumes at and the store it resumes with.\<close>

definition recover :: "nat \<Rightarrow> 'c BankedRecoveryMeta option \<Rightarrow> 'v recs \<Rightarrow> u32 \<times> 'v recs" where
  "recover units meta p =
     (let E = (case meta of None \<Rightarrow> 0 | Some m \<Rightarrow> (case meta_read m of None \<Rightarrow> 0 | Some (e, c) \<Rightarrow> e))
      in if E < 2 then (1, p) else (E - 1, rollbackPrimaryStoreVersions units (E - 1) p))"

lemma rollback_at:
  assumes "units \<le> 2 ^ 32" and "unat c < units"
  shows "rollbackPrimaryStoreVersions units e p c = rollback_record e (p c)"
proof -
  have "fold (\<lambda>r p. p(of_nat r := rollback_record e (p (of_nat r)))) [0..<n] p c =
      (if unat c < n then rollback_record e (p c) else p c)" if "n \<le> 2 ^ 32" for n
    using that
  proof (induction n)
    case (Suc n)
    have u: "unat (of_nat n :: u32) = n" using Suc.prems by (intro unat_of_nat_u32) simp
    then have "c = of_nat n \<longleftrightarrow> unat c = n" by (metis word_unat_eq_iff)
    then show ?case using Suc by (auto simp: less_Suc_eq)
  qed simp
  then show ?thesis using assms by (simp add: rollbackPrimaryStoreVersions_def)
qed

subsection \<open>What a rolled-back record gives\<close>

text \<open>Two records are interchangeable at the start of an epoch: epoch-start reads return the same, and the
  write of the epoch goes to the same slot.\<close>

definition starts_as :: "u32 \<Rightarrow> 'v Record \<Rightarrow> 'v Record \<Rightarrow> bool" where
  "starts_as e r r' \<longleftrightarrow> start_value e r = start_value e r' \<and>
     write_choice loc_record_b (version1 r) (version2 r) = write_choice loc_record_b (version1 r') (version2 r')"

definition tags_below :: "u32 \<Rightarrow> 'v Record \<Rightarrow> bool" where
  "tags_below e r \<longleftrightarrow> version1 r < e \<and> version2 r < e"

text \<open>The slot the executor writes, as the flush names it.\<close>

definition older_slot :: "'v Record \<Rightarrow> u8" where
  "older_slot r = (if version1 r < version2 r then 0 else 1)"

text \<open>A record in the middle of a flush of epoch \<open>e\<close>: the other slot is untouched, the tag of the written
  slot is the old one or the new one.\<close>

definition torn_record :: "u32 \<Rightarrow> 'v Record \<Rightarrow> 'v Record \<Rightarrow> bool" where
  "torn_record e r t \<longleftrightarrow>
     slot_of (other_slot (older_slot r)) t = slot_of (other_slot (older_slot r)) r \<and>
     (fst (slot_of (older_slot r) t) = fst (slot_of (older_slot r) r) \<or> fst (slot_of (older_slot r) t) = e)"

lemma rollback_clean: "tags_below e r \<Longrightarrow> rollback_record e r = r"
  by (auto simp: tags_below_def rollback_record_def Let_def)

lemma starts_as_refl [simp]: "starts_as e r r"
  by (simp add: starts_as_def)

lemma rollback_torn:
  assumes "tags_below e r" and "torn_record e r t"
  shows "starts_as e (rollback_record e t) r"
proof -
  have "0 < version2 r" if "version1 r < version2 r" using order.strict_trans1 [OF word_zero_le that] .
  then show ?thesis using assms
    by (cases "version1 r < version2 r")
      (auto simp: tags_below_def torn_record_def starts_as_def start_value_def classify_prev_slot_host_def write_choice_def
        rollback_record_def slot_of_def older_slot_def other_slot_def Let_def split: if_splits)
qed

subsection \<open>The pipeline\<close>

text \<open>The epoch number as the 32-bit word the code uses.\<close>

definition ep :: "nat \<Rightarrow> u32" where "ep n = of_nat n"

datatype stage = Running | Drained | Bumped

text \<open>How far the stores of one item of a flush have come.\<close>

datatype wb_phase = NotStarted | ValueStored | Published

text \<open>The durable state with the flush in flight; \<open>p_epoch\<close> is the epoch whose \<^verbatim>\<open>runEpoch\<close> is being executed.
  \<open>p_end\<close> is history: the store each epoch is to leave.\<close>

record 'v pipeline =
  p_store :: "'v recs"
  p_meta :: ycsb_meta
  p_epoch :: nat
  p_stage :: stage
  p_inflight :: "(wb_phase \<times> 'v wb_item) list"
  p_end :: "nat \<Rightarrow> 'v recs"

text \<open>The flush set of an epoch: every item carries the epoch as its tag and goes to the slot the executor
  writes.\<close>

definition flush_set :: "u32 \<Rightarrow> 'v recs \<Rightarrow> 'v wb_item list \<Rightarrow> bool" where
  "flush_set e C items \<longleftrightarrow> distinct (map fst items) \<and>
     (\<forall>(c, s, t, v) \<in> set items. c \<noteq> sentinel \<and> t = e \<and> s = older_slot (C c))"

text \<open>One epoch of \<^verbatim>\<open>runEpoch\<close> as far as it touches durable state, at most \<open>N\<close> epochs. The stores of the
  flush land one by one, in any order; a value is copied piece by piece (\<open>land_part\<close>).\<close>

inductive pipeline_step :: "nat \<Rightarrow> 'v pipeline \<Rightarrow> 'v pipeline \<Rightarrow> bool" for N where
  land_part: "k < length (p_inflight s) \<Longrightarrow> p_inflight s ! k = (NotStarted, (c, sl, t, v)) \<Longrightarrow>
    pipeline_step N s (s\<lparr>p_store := (p_store s)(c := put_value sl part (p_store s c))\<rparr>)"
| land_value: "k < length (p_inflight s) \<Longrightarrow> p_inflight s ! k = (NotStarted, (c, sl, t, v)) \<Longrightarrow>
    pipeline_step N s (s\<lparr>p_store := (p_store s)(c := put_value sl v (p_store s c)),
                         p_inflight := (p_inflight s)[k := (ValueStored, (c, sl, t, v))]\<rparr>)"
| land_tag: "k < length (p_inflight s) \<Longrightarrow> p_inflight s ! k = (ValueStored, (c, sl, t, v)) \<Longrightarrow>
    pipeline_step N s (s\<lparr>p_store := (p_store s)(c := put_tag sl t (p_store s c)),
                         p_inflight := (p_inflight s)[k := (Published, (c, sl, t, v))]\<rparr>)"
| drain: "p_stage s = Running \<Longrightarrow> \<forall>x \<in> set (p_inflight s). fst x = Published \<Longrightarrow>
    pipeline_step N s (s\<lparr>p_stage := Drained, p_inflight := []\<rparr>)"
| bump_part: "p_stage s = Drained \<Longrightarrow> pipeline_step N s (s\<lparr>p_meta := cut_update b (p_meta s)\<rparr>)"
| bump: "p_stage s = Drained \<Longrightarrow>
    pipeline_step N s (s\<lparr>p_meta := bump (ep (p_epoch s + 1), ins, del) (p_meta s), p_stage := Bumped\<rparr>)"
| start: "p_stage s = Bumped \<Longrightarrow> p_epoch s < N \<Longrightarrow> flush_set (ep (p_epoch s)) (p_store s) items \<Longrightarrow>
    pipeline_step N s (s\<lparr>p_stage := Running, p_epoch := p_epoch s + 1,
                         p_inflight := map (Pair NotStarted) items,
                         p_end := (p_end s)(p_epoch s := fold scatter_host_one items (p_store s))\<rparr>)"

definition pipeline_init :: "'v recs \<Rightarrow> 'v pipeline" where
  "pipeline_init C = \<lparr>p_store = C, p_meta = fresh_meta, p_epoch = 1, p_stage = Running, p_inflight = [], p_end = \<lambda>_. C\<rparr>"

inductive pipeline_reach :: "nat \<Rightarrow> 'v recs \<Rightarrow> 'v pipeline \<Rightarrow> bool" for N C where
  init: "pipeline_reach N C (pipeline_init C)"
| step: "pipeline_reach N C s \<Longrightarrow> pipeline_step N s s' \<Longrightarrow> pipeline_reach N C s'"

subsection \<open>The flush in flight\<close>

definition item_state :: "'v recs \<Rightarrow> wb_phase \<times> 'v wb_item \<Rightarrow> 'v recs \<Rightarrow> bool" where
  "item_state base x D =
     (case x of (ph, (c, s, t, v)) \<Rightarrow>
       slot_of (other_slot s) (D c) = slot_of (other_slot s) (base c) \<and>
       (case ph of
          NotStarted \<Rightarrow> fst (slot_of s (D c)) = fst (slot_of s (base c))
        | ValueStored \<Rightarrow> slot_of s (D c) = (fst (slot_of s (base c)), v)
        | Published \<Rightarrow> slot_of s (D c) = (t, v)))"

definition flight_ok :: "u32 \<Rightarrow> 'v recs \<Rightarrow> (wb_phase \<times> 'v wb_item) list \<Rightarrow> 'v recs \<Rightarrow> bool" where
  "flight_ok e base fl D \<longleftrightarrow> flush_set e base (map snd fl) \<and>
     (\<forall>x \<in> set fl. item_state base x D) \<and>
     (\<forall>c. c \<notin> fst ` snd ` set fl \<longrightarrow> D c = base c)"

lemma flight_start: "flush_set e C items \<Longrightarrow> flight_ok e C (map (Pair NotStarted) items) C"
  by (auto simp: flight_ok_def item_state_def comp_def)

lemma flight_update:
  assumes "flight_ok e base fl D" and "k < length fl" and "fl ! k = (ph, (c, s, t, v))"
    and "item_state base (ph', (c, s, t, v)) (D(c := r))"
  shows "flight_ok e base (fl[k := (ph', (c, s, t, v))]) (D(c := r))"
proof -
  have m: "map snd (fl[k := (ph', (c, s, t, v))]) = map snd fl"
    using assms(2,3) by (simp add: map_update list_update_same_conv)
  have d: "distinct (map fst (map snd fl))" using assms(1) by (simp add: flight_ok_def flush_set_def)
  have "item_state base x (D(c := r))" if "x \<in> set (fl[k := (ph', (c, s, t, v))])" for x
  proof -
    from that have "\<exists>i < length (fl[k := (ph', (c, s, t, v))]). fl[k := (ph', (c, s, t, v))] ! i = x"
      by (simp only: in_set_conv_nth)
    then obtain i where i: "i < length fl" "x = fl[k := (ph', (c, s, t, v))] ! i" by auto
    show ?thesis
    proof (cases "i = k")
      case True
      then show ?thesis using i assms(2,4) by simp
    next
      case False
      then have x: "x = fl ! i" using i by simp
      have "fst (snd (fl ! i)) \<noteq> fst (snd (fl ! k))"
        using d False i(1) assms(2) by (simp add: distinct_conv_nth)
      moreover have "item_state base (fl ! i) D" using assms(1) i(1) by (simp add: flight_ok_def)
      ultimately show ?thesis using assms(3) unfolding x by (auto simp: item_state_def split: prod.splits wb_phase.splits)
    qed
  qed
  moreover have "fst ` snd ` set (fl[k := (ph', (c, s, t, v))]) = fst ` snd ` set fl" using arg_cong [OF m, of set] by simp
  moreover have "c \<in> fst ` snd ` set fl" using assms(2,3) by (force simp: in_set_conv_nth)
  ultimately show ?thesis using assms(1) by (auto simp: flight_ok_def m)
qed

lemma filter_key: "distinct (map fst its) \<Longrightarrow> it \<in> set its \<Longrightarrow> filter (\<lambda>x. fst x = fst it) its = [it]"
proof (induction its)
  case (Cons a its)
  then show ?case
  proof (cases "it = a")
    case True
    then have "filter (\<lambda>x. fst x = fst a) its = []" using Cons.prems(1) by (auto simp: filter_empty_conv) (metis fst_conv image_eqI)
    with True show ?thesis by simp
  next
    case False
    then have "it \<in> set its" using Cons.prems(2) by simp
    moreover from this have "fst a \<noteq> fst it" using Cons.prems(1) by force
    ultimately show ?thesis using Cons by simp
  qed
qed simp

text \<open>When every item is published, the store is the one a single pass leaves.\<close>

lemma flight_complete:
  assumes "flight_ok e base fl D" and "\<forall>x \<in> set fl. fst x = Published"
  shows "D = fold scatter_host_one (map snd fl) base"
proof
  fix c
  have d: "distinct (map fst (map snd fl))" and ns: "\<forall>(c, s, t, v) \<in> set (map snd fl). c \<noteq> sentinel"
    using assms(1) by (auto simp: flight_ok_def flush_set_def)
  show "D c = fold scatter_host_one (map snd fl) base c"
  proof (cases "c \<in> fst ` set (map snd fl)")
    case False
    then show ?thesis using assms(1) by (simp add: flight_ok_def fold_items_other)
  next
    case True
    then obtain it where it: "it \<in> set (map snd fl)" "c = fst it" by (rule imageE)
    obtain s t v where itc: "it = (c, s, t, v)" using it(2) by (cases it) simp
    have one: "filter (\<lambda>it. fst it = c) (map snd fl) = [it]"
      unfolding it(2) by (rule filter_key [OF d it(1)])
    have "item_state base (Published, it) D" using assms it(1) by (fastforce simp: flight_ok_def)
    then have "D c = apply_item it (base c)"
      by (cases "D c"; cases "base c")
        (auto simp: item_state_def itc apply_item_def put_value_def put_tag_def slot_of_def other_slot_def split: if_splits)
    moreover have "c \<noteq> sentinel" using ns it by auto
    ultimately show ?thesis by (simp add: fold_items_at one del: map_map)
  qed
qed

lemma flight_torn:
  assumes "flight_ok e base fl D"
  shows "torn_record e (base c) (D c)"
proof (cases "c \<in> fst ` snd ` set fl")
  case False
  then show ?thesis using assms by (simp add: flight_ok_def torn_record_def)
next
  case True
  then obtain ph s t v where x: "(ph, (c, s, t, v)) \<in> set fl" by fastforce
  then have "item_state base (ph, (c, s, t, v)) D" and "t = e" "s = older_slot (base c)"
    using assms by (auto simp: flight_ok_def flush_set_def)
  then show ?thesis by (cases ph) (auto simp: item_state_def torn_record_def)
qed

lemma scattered_tags:
  assumes "\<forall>it \<in> set items. fst (snd (snd it)) < e" and "\<forall>c. tags_below e (C c)"
  shows "tags_below e (fold scatter_host_one items C c)"
  using assms
proof (induction items arbitrary: C)
  case (Cons it items)
  have "tags_below e (scatter_host_one it C d)" for d
    using Cons.prems by (cases it) (auto simp: scatter_host_one_def tags_below_def put_value_def put_tag_def Let_def)
  with Cons show ?case by simp
qed simp

subsection \<open>The invariant\<close>

definition marker_epoch :: "'v pipeline \<Rightarrow> u32 option" where
  "marker_epoch s = map_option fst (meta_read (p_meta s))"

fun stage_ok :: "stage \<Rightarrow> 'v pipeline \<Rightarrow> bool" where
  "stage_ok Running s \<longleftrightarrow> marker_epoch s = (if p_epoch s = 1 then None else Some (ep (p_epoch s))) \<and>
     (if p_epoch s = 1 then p_store s = p_end s 0 \<and> p_inflight s = []
      else flight_ok (ep (p_epoch s - 1)) (p_end s (p_epoch s - 2)) (p_inflight s) (p_store s) \<and>
           p_end s (p_epoch s - 1) = fold scatter_host_one (map snd (p_inflight s)) (p_end s (p_epoch s - 2)))"
| "stage_ok Drained s \<longleftrightarrow> marker_epoch s = (if p_epoch s = 1 then None else Some (ep (p_epoch s))) \<and>
     p_inflight s = [] \<and> p_store s = p_end s (p_epoch s - 1) \<and>
     (p_epoch s \<noteq> 1 \<longrightarrow> (\<forall>c. torn_record (ep (p_epoch s - 1)) (p_end s (p_epoch s - 2) c) (p_store s c)))"
| "stage_ok Bumped s \<longleftrightarrow> marker_epoch s = Some (ep (p_epoch s + 1)) \<and>
     p_inflight s = [] \<and> p_store s = p_end s (p_epoch s - 1)"

definition pipeline_inv :: "nat \<Rightarrow> 'v pipeline \<Rightarrow> bool" where
  "pipeline_inv N s \<longleftrightarrow> 1 \<le> p_epoch s \<and> p_epoch s \<le> N \<and>
     (\<forall>k < p_epoch s. \<forall>c. tags_below (ep (k + 1)) (p_end s k c)) \<and> stage_ok (p_stage s) s"

lemma ep_less: "a < b \<Longrightarrow> b < 2 ^ 32 \<Longrightarrow> ep a < ep b"
  by (simp add: ep_def word_less_nat_alt unat_of_nat_u32)

lemma inv_start:
  assumes inv: "pipeline_inv N s" and N: "N + 1 < 2 ^ 32" and st: "p_stage s = Bumped" and lt: "p_epoch s < N"
    and fs: "flush_set (ep (p_epoch s)) (p_store s) items"
    and s': "s' = s\<lparr>p_stage := Running, p_epoch := p_epoch s + 1, p_inflight := map (Pair NotStarted) items,
                p_end := (p_end s)(p_epoch s := fold scatter_host_one items (p_store s))\<rparr>"
  shows "pipeline_inv N s'"
proof -
  let ?E = "p_epoch s"
  have i: "1 \<le> ?E" "\<forall>k < ?E. \<forall>c. tags_below (ep (k + 1)) (p_end s k c)" "p_store s = p_end s (?E - 1)"
    "marker_epoch s = Some (ep (?E + 1))"
    using inv st by (simp_all add: pipeline_inv_def)
  have ne: "?E - 1 \<noteq> ?E" "?E \<noteq> 0" using i(1) by simp_all
  have lt_e: "ep ?E < ep (?E + 1)" using lt N by (intro ep_less) simp_all
  have "tags_below (ep ?E) (p_store s c)" for c using i(1,2) unfolding i(3) by (metis Suc_pred' Suc_eq_plus1 diff_less less_numeral_extra(1) less_le_trans)
  then have below: "tags_below (ep (?E + 1)) (p_store s c)" for c
    using lt_e unfolding tags_below_def by (meson less_trans)
  have items: "\<forall>it \<in> set items. fst (snd (snd it)) < ep (?E + 1)"
    using fs lt_e by (auto simp: flush_set_def)
  have "tags_below (ep (?E + 1)) (fold scatter_host_one items (p_store s) c)" for c
    by (rule scattered_tags [OF items]) (rule allI, rule below)
  then have "\<forall>k < ?E + 1. \<forall>c. tags_below (ep (k + 1)) (p_end s' k c)"
    using i(2) by (auto simp: s' less_Suc_eq)
  moreover have "flight_ok (ep ?E) (p_end s (?E - 1)) (map (Pair NotStarted) items) (p_store s)"
    using flight_start [OF fs] i(3) by simp
  ultimately show ?thesis
    using i lt ne by (simp add: pipeline_inv_def s' marker_epoch_def comp_def)
qed

lemma inv_drain:
  assumes inv: "pipeline_inv N s" and st: "p_stage s = Running" and pub: "\<forall>x \<in> set (p_inflight s). fst x = Published"
  shows "pipeline_inv N (s\<lparr>p_stage := Drained, p_inflight := []\<rparr>)"
proof (cases "p_epoch s = 1")
  case True
  then show ?thesis using inv st by (simp add: pipeline_inv_def marker_epoch_def)
next
  case False
  then have f: "flight_ok (ep (p_epoch s - 1)) (p_end s (p_epoch s - 2)) (p_inflight s) (p_store s)"
    "p_end s (p_epoch s - 1) = fold scatter_host_one (map snd (p_inflight s)) (p_end s (p_epoch s - 2))"
    using inv st by (simp_all add: pipeline_inv_def)
  show ?thesis
    using inv st False flight_complete [OF f(1) pub] f(2) flight_torn [OF f(1)]
    by (simp add: pipeline_inv_def marker_epoch_def)
qed

text \<open>A store of the flush: the record it goes to stays between the old and the new version.\<close>

lemma inv_land:
  assumes inv: "pipeline_inv N s" and k: "k < length (p_inflight s)" "p_inflight s ! k = (ph, (c, sl, t, v))"
    and st: "\<And>base. item_state base (ph, (c, sl, t, v)) (p_store s) \<Longrightarrow>
               item_state base (ph', (c, sl, t, v)) ((p_store s)(c := r))"
  shows "pipeline_inv N (s\<lparr>p_store := (p_store s)(c := r), p_inflight := (p_inflight s)[k := (ph', (c, sl, t, v))]\<rparr>)"
proof -
  have ne: "p_inflight s \<noteq> []" using k(1) by auto
  then have R: "p_stage s = Running" "p_epoch s \<noteq> 1"
    using inv by (cases "p_stage s"; simp add: pipeline_inv_def split: if_splits)+
  let ?b = "p_end s (p_epoch s - 2)"
  have f: "flight_ok (ep (p_epoch s - 1)) ?b (p_inflight s) (p_store s)" using inv R by (simp add: pipeline_inv_def)
  have "item_state ?b (ph, (c, sl, t, v)) (p_store s)"
    using f k by (metis flight_ok_def nth_mem)
  note flight_update [OF f k st [OF this]]
  moreover have "map snd ((p_inflight s)[k := (ph', (c, sl, t, v))]) = map snd (p_inflight s)"
    using k by (simp add: map_update list_update_same_conv)
  ultimately show ?thesis using inv R by (simp add: pipeline_inv_def marker_epoch_def)
qed

lemma pipeline_step_inv:
  assumes "pipeline_step N s s'" and "pipeline_inv N s" and "N + 1 < 2 ^ 32"
  shows "pipeline_inv N s'"
  using assms(1)
proof cases
  case (land_part k c sl t v part)
  have "pipeline_inv N (s\<lparr>p_store := (p_store s)(c := put_value sl part (p_store s c)),
      p_inflight := (p_inflight s)[k := (NotStarted, (c, sl, t, v))]\<rparr>)"
    by (rule inv_land [OF assms(2) land_part(2,3)])
      (auto simp: item_state_def put_value_def slot_of_def other_slot_def)
  moreover have "(p_inflight s)[k := (NotStarted, (c, sl, t, v))] = p_inflight s" using land_part by (metis list_update_id)
  ultimately show ?thesis using land_part(1) by simp
next
  case (land_value k c sl t v)
  then show ?thesis
    by (simp only: land_value(1))
      (rule inv_land [OF assms(2) land_value(2,3)], auto simp: item_state_def put_value_def slot_of_def other_slot_def)
next
  case (land_tag k c sl t v)
  then show ?thesis
    by (simp only: land_tag(1))
      (rule inv_land [OF assms(2) land_tag(2,3)], auto simp: item_state_def put_tag_def slot_of_def other_slot_def)
next
  case drain
  then show ?thesis using inv_drain [OF assms(2)] by simp
next
  case (bump_part b)
  then show ?thesis using assms(2) by (auto simp: pipeline_inv_def marker_epoch_def cut_update_read)
next
  case (bump ins del)
  then show ?thesis
    using assms(2) by (simp add: pipeline_inv_def marker_epoch_def bump_read bump_result_def)
next
  case (start items)
  then show ?thesis using inv_start [OF assms(2,3)] by blast
qed

lemma pipeline_reach_inv:
  assumes "pipeline_reach N C s" and "N + 1 < 2 ^ 32" and "1 \<le> N" and "\<forall>c. tags_below 1 (C c)"
  shows "pipeline_inv N s"
  using assms(1)
proof induction
  case init
  have "meta_read fresh_meta = None" by code_simp
  moreover have "ep 1 = 1" by (simp add: ep_def)
  ultimately show ?case using assms(3,4) by (simp add: pipeline_init_def pipeline_inv_def marker_epoch_def)
next
  case (step s s')
  then show ?case using pipeline_step_inv assms(2) by blast
qed

lemma recover_marked:
  assumes "marker_epoch s = Some (ep (k + 2))" and "k + 2 < 2 ^ 32"
  shows "recover units (Some (p_meta s)) D = (ep (k + 1), rollbackPrimaryStoreVersions units (ep (k + 1)) D)"
proof -
  obtain cur where r: "meta_read (p_meta s) = Some (ep (k + 2), cur)" using assms(1) by (auto simp: marker_epoch_def)
  have "\<not> ep (k + 2) < 2" using assms(2) by (simp add: ep_def word_less_nat_alt unat_of_nat_u32 del: of_nat_add of_nat_Suc)
  moreover have "ep (k + 2) - 1 = ep (k + 1)" by (simp add: ep_def)
  ultimately show ?thesis by (simp add: recover_def r)
qed

text \<open>C3: Crash recovery. Kill the process at any point of the pipeline: while the stores of a flush are landing, in
  any order and with values half copied; after the drain; inside the update of the marker; between the update and
  the start of the next flush. The recovering process then resumes at the running epoch or the one before, and for
  every record its rolled-back store gives the epoch-start read, and takes the write of the epoch, exactly as the
  store that the epoch before the resumed one was to leave.\<close>

theorem crash_recovery:
  assumes reach: "pipeline_reach N C s" and N: "N + 1 < 2 ^ 32" "1 \<le> N" and C: "\<forall>c. tags_below 1 (C c)"
    and units: "units \<le> 2 ^ 32" and run: "recover units (Some (p_meta s)) (p_store s) = (e, p)"
  shows "\<exists>k. e = ep (k + 1) \<and> k < p_epoch s \<and> p_epoch s \<le> k + 2 \<and>
           (\<forall>c. unat c < units \<longrightarrow> starts_as e (p c) (p_end s k c))"
proof -
  have inv: "pipeline_inv N s" by (rule pipeline_reach_inv [OF reach N C])
  let ?E = "p_epoch s"
  have E: "1 \<le> ?E" "?E + 1 < 2 ^ 32" and tags: "\<And>k c. k < ?E \<Longrightarrow> tags_below (ep (k + 1)) (p_end s k c)"
    and st: "stage_ok (p_stage s) s"
    using inv N by (simp_all add: pipeline_inv_def)
  show ?thesis
  proof (cases "p_stage s = Bumped")
    case True
    then have m: "marker_epoch s = Some (ep ((?E - 1) + 2))" and eq: "p_store s = p_end s (?E - 1)"
      using st E by simp_all
    have ep: "e = ep (?E - 1 + 1)" "p = rollbackPrimaryStoreVersions units (ep (?E - 1 + 1)) (p_store s)"
      using recover_marked [OF m, of units "p_store s"] run E by simp_all
    have "starts_as e (p c) (p_end s (?E - 1) c)" if "unat c < units" for c
      using that units tags [of "?E - 1" c] E by (simp add: ep rollback_at eq rollback_clean)
    then show ?thesis using E by (intro exI [of _ "?E - 1"]) (simp add: ep(1))
  next
    case False
    then have m: "marker_epoch s = (if ?E = 1 then None else Some (ep ?E))" and
      torn: "?E \<noteq> 1 \<Longrightarrow> torn_record (ep (?E - 1)) (p_end s (?E - 2) c) (p_store s c)" and
      one: "?E = 1 \<Longrightarrow> p_store s = p_end s 0" for c
      using st by (cases "p_stage s"; auto intro: flight_torn)+
    show ?thesis
    proof (cases "?E = 1")
      case True
      then have "meta_read (p_meta s) = None" using m by (simp add: marker_epoch_def)
      then have "e = 1" "p = p_end s 0" using run one True by (simp_all add: recover_def)
      then show ?thesis using True by (intro exI [of _ 0]) (simp add: ep_def)
    next
      case False
      then have k: "?E = (?E - 2) + 2" "?E - 2 + 1 = ?E - 1" using E by simp_all
      have mk: "marker_epoch s = Some (ep ((?E - 2) + 2))" using m False k(1) by simp
      have ep: "e = ep (?E - 1)" "p = rollbackPrimaryStoreVersions units (ep (?E - 1)) (p_store s)"
        using recover_marked [OF mk, of units "p_store s"] run E k(1) by (simp_all only: k(2)) simp_all
      have "starts_as e (p c) (p_end s (?E - 2) c)" if "unat c < units" for c
      proof -
        have "tags_below (ep (?E - 1)) (p_end s (?E - 2) c)" using tags [of "?E - 2" c] E False unfolding k(2) by simp
        from rollback_torn [OF this torn [OF False]] show ?thesis using that units by (simp add: ep rollback_at)
      qed
      then show ?thesis using E False k(2) by (intro exI [of _ "?E - 2"]) (auto simp: ep(1))
    qed
  qed
qed

text \<open>A run of two epochs, killed when the flush of the first has landed but not been drained.\<close>

definition sample_primary :: "nat recs" where
  "sample_primary c = \<lparr>value1 = 10, version1 = 0, value2 = 20, version2 = 0\<rparr>"

definition sample_crash :: "nat pipeline" where
  "sample_crash = \<lparr>p_store = sample_primary(5 := \<lparr>value1 = 10, version1 = 0, value2 = 77, version2 = 1\<rparr>),
     p_meta = bump (2, 0, 0) fresh_meta, p_epoch = 2, p_stage = Running, p_inflight = [(Published, (5, 1, 1, 77))],
     p_end = (\<lambda>_. sample_primary)(1 := fold scatter_host_one [(5, 1, 1, 77)] sample_primary)\<rparr>"

lemma sample_crash_reach: "pipeline_reach 3 sample_primary sample_crash"
proof -
  let ?s0 = "pipeline_init sample_primary" and ?it = "(5, 1, 1, 77) :: nat wb_item"
  let ?s1 = "?s0\<lparr>p_stage := Drained, p_inflight := []\<rparr>"
  let ?s2 = "?s1\<lparr>p_meta := bump (ep (p_epoch ?s1 + 1), 0, 0) (p_meta ?s1), p_stage := Bumped\<rparr>"
  let ?s3 = "?s2\<lparr>p_stage := Running, p_epoch := p_epoch ?s2 + 1, p_inflight := map (Pair NotStarted) [?it],
                p_end := (p_end ?s2)(p_epoch ?s2 := fold scatter_host_one [?it] (p_store ?s2))\<rparr>"
  let ?s4 = "?s3\<lparr>p_store := (p_store ?s3)(5 := put_value 1 77 (p_store ?s3 5)), p_inflight := (p_inflight ?s3)[0 := (ValueStored, ?it)]\<rparr>"
  let ?s5 = "?s4\<lparr>p_store := (p_store ?s4)(5 := put_tag 1 1 (p_store ?s4 5)), p_inflight := (p_inflight ?s4)[0 := (Published, ?it)]\<rparr>"
  have "pipeline_reach 3 sample_primary ?s1"
    by (rule step [OF init drain]) (simp_all add: pipeline_init_def)
  then have "pipeline_reach 3 sample_primary ?s2" by (rule step [OF _ pipeline_step.bump]) simp
  then have "pipeline_reach 3 sample_primary ?s3"
    by (rule step [OF _ pipeline_step.start])
      (simp_all add: pipeline_init_def flush_set_def sample_primary_def older_slot_def sentinel_def ep_def)
  then have "pipeline_reach 3 sample_primary ?s4" by (rule step [OF _ land_value]) simp_all
  then have "pipeline_reach 3 sample_primary ?s5" by (rule step [OF _ land_tag]) simp_all
  moreover have "?s5 = sample_crash"
    by (simp add: pipeline_init_def sample_crash_def sample_primary_def put_value_def put_tag_def ep_def)
  ultimately show ?thesis by simp
qed

theorem crash_recovery_witness:
  "fst (recover 10 (Some (p_meta sample_crash)) (p_store sample_crash)) = 1 \<and>
   starts_as 1 (snd (recover 10 (Some (p_meta sample_crash)) (p_store sample_crash)) 5) (sample_primary 5)"
proof -
  obtain e p where r: "recover 10 (Some (p_meta sample_crash)) (p_store sample_crash) = (e, p)" by (rule prod.exhaust)
  have "fst (recover 10 (Some (p_meta sample_crash)) (p_store sample_crash)) = 1"
    by (simp add: recover_def sample_crash_def bump_read bump_result_def)
  then have e: "e = 1" using r by simp
  have C: "\<forall>c. tags_below 1 (sample_primary c)" by (simp add: tags_below_def sample_primary_def)
  obtain k where k: "e = ep (k + 1)" "k < p_epoch sample_crash" "\<forall>c. unat c < 10 \<longrightarrow> starts_as e (p c) (p_end sample_crash k c)"
    using crash_recovery [OF sample_crash_reach _ _ C _ r] by auto
  have "k < 2" using k(2) by (simp add: sample_crash_def)
  then have "k = 0 \<or> k = 1" by linarith
  moreover have "ep 1 = 1" "ep 2 = 2" by (simp_all add: ep_def)
  ultimately have "k = 0" using k(1) e by (auto simp: numeral_2_eq_2)
  then show ?thesis using k(3) r e by (simp add: sample_crash_def)
qed

end
