(* ===== verification/Epoch_Cycle.thy ===== *)
theory Epoch_Cycle
  imports Recovery
begin

text \<open>
  One epoch on the cached records: the committed writes of the executor (the record B branch of
  \<^verbatim>\<open>gpu_storage.cuh\<close>, which marks the written slot dirty) followed by the flush. While cache and Primary Store
  agree on the tags of cached records, the executor and the recovery choose the same slots; the theorem shows
  that an epoch keeps this agreement and that its flush set is one the recovery can undo.
\<close>

subsection \<open>Committed writes\<close>

definition commit_record :: "u32 \<Rightarrow> 'v \<Rightarrow> 'v Record \<Rightarrow> 'v Record" where
  "commit_record e v r =
     (if write_choice loc_record_b (version1 r) (version2 r) = Slot1 then r\<lparr>value1 := v, version1 := e\<rparr>
      else r\<lparr>value2 := v, version2 := e\<rparr>)"

definition commit_dirty :: "u32 \<Rightarrow> 'v Record \<Rightarrow> CridGridIndex \<Rightarrow> CridGridIndex" where
  "commit_dirty g r idx =
     (if write_choice loc_record_b (version1 r) (version2 r) = Slot1 then idx\<lparr>grid_dirty_v1 := store (grid_dirty_v1 idx) g True\<rparr>
      else idx\<lparr>grid_dirty_v2 := store (grid_dirty_v2 idx) g True\<rparr>)"

definition commit_write :: "u32 \<Rightarrow> u32 \<times> 'v \<Rightarrow> 'v HybridStager \<Rightarrow> 'v HybridStager" where
  "commit_write e w st =
     (case w of (g, v) \<Rightarrow>
       if g = sentinel then st
       else st\<lparr>crid2grid_index := commit_dirty g (GPU_records st g) (crid2grid_index st),
               GPU_records := (GPU_records st)(g := commit_record e v (GPU_records st g))\<rparr>)"

text \<open>On the records this is the write of the storage layer.\<close>

lemma commit_is_write:
  "g \<noteq> sentinel \<Longrightarrow> GPU_records (commit_write e (g, v) st) = recs (writeToTable (mem_of (GPU_records st)) g loc_record_b e v)"
  by (auto simp: commit_write_def commit_record_def writeToTable_def write_choice_def mem_of_def fun_eq_iff Let_def)

lemma commit_write_other [simp]:
  "gpu_capacity (commit_write e w st) = gpu_capacity st" "resident_list (commit_write e w st) = resident_list st"
  "CPU_records (commit_write e w st) = CPU_records st" "free_list_ring (commit_write e w st) = free_list_ring st"
  "fifo_next_grid (commit_write e w st) = fifo_next_grid st" "stager_units (commit_write e w st) = stager_units st"
  "d_crid_to_grid (crid2grid_index (commit_write e w st)) = d_crid_to_grid (crid2grid_index st)"
  "num_units (crid2grid_index (commit_write e w st)) = num_units (crid2grid_index st)"
  "idx_capacity (crid2grid_index (commit_write e w st)) = idx_capacity (crid2grid_index st)"
  "length (grid_dirty_v1 (crid2grid_index (commit_write e w st))) = length (grid_dirty_v1 (crid2grid_index st))"
  "length (grid_dirty_v2 (crid2grid_index (commit_write e w st))) = length (grid_dirty_v2 (crid2grid_index st))"
  by (auto simp: commit_write_def commit_dirty_def split: prod.split)

lemma commits_other [simp]:
  "gpu_capacity (fold (commit_write e) ws st) = gpu_capacity st" "resident_list (fold (commit_write e) ws st) = resident_list st"
  "CPU_records (fold (commit_write e) ws st) = CPU_records st" "free_list_ring (fold (commit_write e) ws st) = free_list_ring st"
  "fifo_next_grid (fold (commit_write e) ws st) = fifo_next_grid st" "stager_units (fold (commit_write e) ws st) = stager_units st"
  "d_crid_to_grid (crid2grid_index (fold (commit_write e) ws st)) = d_crid_to_grid (crid2grid_index st)"
  "num_units (crid2grid_index (fold (commit_write e) ws st)) = num_units (crid2grid_index st)"
  "idx_capacity (crid2grid_index (fold (commit_write e) ws st)) = idx_capacity (crid2grid_index st)"
  "length (grid_dirty_v1 (crid2grid_index (fold (commit_write e) ws st))) = length (grid_dirty_v1 (crid2grid_index st))"
  "length (grid_dirty_v2 (crid2grid_index (fold (commit_write e) ws st))) = length (grid_dirty_v2 (crid2grid_index st))"
  by (induction ws arbitrary: st) simp_all

lemma commit_dirty_slots:
  "grid_dirty_v1 (commit_dirty g r idx) = (if older_slot r = 0 then store (grid_dirty_v1 idx) g True else grid_dirty_v1 idx)"
  "grid_dirty_v2 (commit_dirty g r idx) = (if older_slot r = 1 then store (grid_dirty_v2 idx) g True else grid_dirty_v2 idx)"
  by (simp_all add: commit_dirty_def older_slot_def write_choice_def)

text \<open>What the writes of an epoch leave in one cache slot.\<close>

lemma commits_at:
  assumes "distinct (map fst ws)" and "sentinel \<notin> fst ` set ws"
    and "unat g < length (grid_dirty_v1 (crid2grid_index st))" "unat g < length (grid_dirty_v2 (crid2grid_index st))"
  shows "GPU_records (fold (commit_write e) ws st) g =
           (case map_of ws g of None \<Rightarrow> GPU_records st g | Some v \<Rightarrow> commit_record e v (GPU_records st g)) \<and>
         (load (grid_dirty_v1 (crid2grid_index (fold (commit_write e) ws st))) g \<longleftrightarrow>
           load (grid_dirty_v1 (crid2grid_index st)) g \<or> g \<in> fst ` set ws \<and> older_slot (GPU_records st g) = 0) \<and>
         (load (grid_dirty_v2 (crid2grid_index (fold (commit_write e) ws st))) g \<longleftrightarrow>
           load (grid_dirty_v2 (crid2grid_index st)) g \<or> g \<in> fst ` set ws \<and> older_slot (GPU_records st g) = 1)"
  using assms
proof (induction ws arbitrary: st)
  case (Cons w ws)
  obtain h v where w: "w = (h, v)" by (cases w)
  let ?st = "commit_write e w st"
  note IH = Cons.IH [of ?st]
  have d: "distinct (map fst ws)" "sentinel \<notin> fst ` set ws" "h \<notin> fst ` set ws" "h \<noteq> sentinel"
    using Cons.prems(1,2) by (auto simp: w)
  have len: "unat g < length (grid_dirty_v1 (crid2grid_index ?st))" "unat g < length (grid_dirty_v2 (crid2grid_index ?st))"
    using Cons.prems(3,4) by simp_all
  have gpu: "GPU_records ?st g = (if g = h then commit_record e v (GPU_records st g) else GPU_records st g)"
    using d by (simp add: w commit_write_def)
  have f1: "load (grid_dirty_v1 (crid2grid_index ?st)) g \<longleftrightarrow>
      load (grid_dirty_v1 (crid2grid_index st)) g \<or> g = h \<and> older_slot (GPU_records st g) = 0"
    using d Cons.prems(3) by (auto simp: w commit_write_def commit_dirty_slots load_store)
  have f2: "load (grid_dirty_v2 (crid2grid_index ?st)) g \<longleftrightarrow>
      load (grid_dirty_v2 (crid2grid_index st)) g \<or> g = h \<and> older_slot (GPU_records st g) = 1"
    using d Cons.prems(4) by (auto simp: w commit_write_def commit_dirty_slots load_store)
  have none: "map_of ws h = None" using d(3) by (simp add: map_of_eq_None_iff)
  show ?case
  proof (cases "g = h")
    case True
    then show ?thesis using IH [OF d(1,2) len] none f1 f2 d(3) gpu by (simp add: w)
  next
    case False
    then show ?thesis using IH [OF d(1,2) len] f1 f2 gpu by (cases "map_of ws g") (simp_all add: w)
  qed
qed simp_all

subsection \<open>The agreement of cache and Primary Store\<close>

definition slots_clean :: "'v HybridStager \<Rightarrow> bool" where
  "slots_clean st \<longleftrightarrow> (\<forall>g < gpu_capacity st. \<not> load (grid_dirty_v1 (crid2grid_index st)) g \<and>
                                               \<not> load (grid_dirty_v2 (crid2grid_index st)) g)"

definition tags_agree :: "'v HybridStager \<Rightarrow> bool" where
  "tags_agree st \<longleftrightarrow> (\<forall>g < gpu_capacity st. load (resident_list st) g \<noteq> sentinel \<longrightarrow>
     version1 (GPU_records st g) = version1 (CPU_records st (load (resident_list st) g)) \<and>
     version2 (GPU_records st g) = version2 (CPU_records st (load (resident_list st) g)))"

text \<open>The writes of an epoch: each to a cached record of its own.\<close>

definition epoch_writes :: "'v HybridStager \<Rightarrow> (u32 \<times> 'v) list \<Rightarrow> bool" where
  "epoch_writes st ws \<longleftrightarrow> distinct (map fst ws) \<and>
     (\<forall>g \<in> fst ` set ws. g < gpu_capacity st \<and> load (resident_list st) g \<noteq> sentinel)"

definition dirty_items :: "'v HybridStager \<Rightarrow> 'v wb_item list" where
  "dirty_items st = map (flush_item st 0) (collect_dirty_grids_v1 (crid2grid_index st)) @
                    map (flush_item st 1) (collect_dirty_grids_v2 (crid2grid_index st))"

lemma flush_ready_facts:
  assumes "flush_ready st"
  shows "stager_inv st" "idx_capacity (crid2grid_index st) = gpu_capacity st" "gpu_capacity st \<noteq> 0"
    "length (grid_dirty_v1 (crid2grid_index st)) = unat (gpu_capacity st)"
    "length (grid_dirty_v2 (crid2grid_index st)) = unat (gpu_capacity st)"
    "set (collect_dirty_grids_v1 (crid2grid_index st)) = {g. g < gpu_capacity st \<and> load (grid_dirty_v1 (crid2grid_index st)) g}"
    "set (collect_dirty_grids_v2 (crid2grid_index st)) = {g. g < gpu_capacity st \<and> load (grid_dirty_v2 (crid2grid_index st)) g}"
    "distinct (collect_dirty_grids_v1 (crid2grid_index st))" "distinct (collect_dirty_grids_v2 (crid2grid_index st))"
proof -
  show c: "stager_inv st" "idx_capacity (crid2grid_index st) = gpu_capacity st" "gpu_capacity st \<noteq> 0"
    and l: "length (grid_dirty_v1 (crid2grid_index st)) = unat (gpu_capacity st)"
      "length (grid_dirty_v2 (crid2grid_index st)) = unat (gpu_capacity st)"
    using assms by (auto simp: flush_ready_def stager_inv_def dest: cache_invD(1))
  show "set (collect_dirty_grids_v1 (crid2grid_index st)) = {g. g < gpu_capacity st \<and> load (grid_dirty_v1 (crid2grid_index st)) g}"
    "distinct (collect_dirty_grids_v1 (crid2grid_index st))"
    using set_flagged_slots [OF l(1)] c(2,3) by (simp_all add: collect_dirty_grids_v1_def)
  show "set (collect_dirty_grids_v2 (crid2grid_index st)) = {g. g < gpu_capacity st \<and> load (grid_dirty_v2 (crid2grid_index st)) g}"
    "distinct (collect_dirty_grids_v2 (crid2grid_index st))"
    using set_flagged_slots [OF l(2)] c(2,3) by (simp_all add: collect_dirty_grids_v2_def)
qed

lemma sentinel_not_written: "flush_ready st \<Longrightarrow> epoch_writes st ws \<Longrightarrow> sentinel \<notin> fst ` set ws"
  using flush_ready_facts(1) [of st]
  by (auto simp: epoch_writes_def stager_inv_def cache_inv_def sentinel_def word_less_nat_alt word_le_nat_alt)

text \<open>The writes keep the stager ready for a flush.\<close>

lemma commits_ready:
  assumes "flush_ready st" and "slots_clean st" and "epoch_writes st ws"
  shows "flush_ready (fold (commit_write e) ws st)"
proof -
  let ?st = "fold (commit_write e) ws st"
  have lk: "idx_lookup (crid2grid_index ?st) = idx_lookup (crid2grid_index st)"
    "idx_valid (crid2grid_index ?st) = idx_valid (crid2grid_index st)"
    by (simp_all add: fun_eq_iff idx_lookup_def idx_valid_def)
  then have "flat.coherent (crid2grid_index ?st) = flat.coherent (crid2grid_index st)"
    by (simp add: fun_eq_iff flat.coherent_def)
  moreover have "idx_inv (crid2grid_index ?st) = idx_inv (crid2grid_index st)" by (simp add: idx_inv_def)
  moreover have "load (resident_list st) g \<noteq> sentinel"
    if "g < gpu_capacity st" "load (grid_dirty_v1 (crid2grid_index ?st)) g \<or> load (grid_dirty_v2 (crid2grid_index ?st)) g" for g
    using that assms commits_at [of ws g st e] flush_ready_facts(4,5) [OF assms(1)] sentinel_not_written [OF assms(1,3)]
    by (auto simp: epoch_writes_def slots_clean_def word_less_nat_alt)
  ultimately show ?thesis using assms(1) by (simp add: flush_ready_def stager_inv_def cache_inv_def)
qed

lemma commits_slot:
  assumes "flush_ready st" and "slots_clean st" and "epoch_writes st ws" and "g < gpu_capacity st"
    and st1: "st1 = fold (commit_write e) ws st"
  shows "load (grid_dirty_v1 (crid2grid_index st1)) g \<longleftrightarrow> g \<in> fst ` set ws \<and> older_slot (GPU_records st g) = 0"
    and "load (grid_dirty_v2 (crid2grid_index st1)) g \<longleftrightarrow> g \<in> fst ` set ws \<and> older_slot (GPU_records st g) = 1"
    and "(g, v) \<in> set ws \<Longrightarrow> GPU_records st1 g = commit_record e v (GPU_records st g)"
    and "g \<notin> fst ` set ws \<Longrightarrow> GPU_records st1 g = GPU_records st g"
proof -
  have d: "distinct (map fst ws)" using assms(3) by (simp add: epoch_writes_def)
  have "unat g < length (grid_dirty_v1 (crid2grid_index st))" "unat g < length (grid_dirty_v2 (crid2grid_index st))"
    using assms(4) flush_ready_facts(4,5) [OF assms(1)] by (simp_all add: word_less_nat_alt)
  note at = commits_at [OF d sentinel_not_written [OF assms(1,3)] this, of e, folded st1]
  show "load (grid_dirty_v1 (crid2grid_index st1)) g \<longleftrightarrow> g \<in> fst ` set ws \<and> older_slot (GPU_records st g) = 0"
    "load (grid_dirty_v2 (crid2grid_index st1)) g \<longleftrightarrow> g \<in> fst ` set ws \<and> older_slot (GPU_records st g) = 1"
    using at assms(2,4) by (auto simp: slots_clean_def)
  show "GPU_records st1 g = commit_record e v (GPU_records st g)" if "(g, v) \<in> set ws"
    using at map_of_is_SomeI [OF d that] by simp
  show "GPU_records st1 g = GPU_records st g" if "g \<notin> fst ` set ws"
    using at that by (simp add: map_of_eq_None_iff [THEN iffD2])
qed

lemma commit_record_tags:
  "older_slot r = 0 \<Longrightarrow> version1 (commit_record e v r) = e" "older_slot r = 1 \<Longrightarrow> version2 (commit_record e v r) = e"
  "older_slot r = 1 \<Longrightarrow> version1 (commit_record e v r) = version1 r" "older_slot r = 0 \<Longrightarrow> version2 (commit_record e v r) = version2 r"
  by (simp_all add: commit_record_def older_slot_def write_choice_def split: if_splits)

text \<open>The items of the flush after the writes of an epoch form a flush set of the pipeline.\<close>

lemma epoch_flush_set:
  assumes ready: "flush_ready st" and clean: "slots_clean st" and agree: "tags_agree st" and ws: "epoch_writes st ws"
    and st1: "st1 = fold (commit_write e) ws st"
  shows "flush_set e (CPU_records st) (dirty_items st1)"
proof -
  let ?res = "load (resident_list st)" and ?D1 = "collect_dirty_grids_v1 (crid2grid_index st1)"
    and ?D2 = "collect_dirty_grids_v2 (crid2grid_index st1)"
  have ready1: "flush_ready st1" unfolding st1 by (rule commits_ready [OF ready clean ws])
  note F1 = flush_ready_facts [OF ready1]
  have same: "gpu_capacity st1 = gpu_capacity st" "resident_list st1 = resident_list st" by (simp_all add: st1)
  have D: "g < gpu_capacity st \<and> g \<in> fst ` set ws \<and> older_slot (GPU_records st g) = sl"
    if "g \<in> set ?D1 \<and> sl = 0 \<or> g \<in> set ?D2 \<and> sl = 1" for g sl
    using that commits_slot(1,2) [OF ready clean ws _ st1, of g] by (auto simp: F1(6,7) same)
  have item: "?res g \<noteq> sentinel \<and> fst (snd (snd (flush_item st1 sl g))) = e \<and> sl = older_slot (CPU_records st (?res g))"
    if m: "g \<in> set ?D1 \<and> sl = 0 \<or> g \<in> set ?D2 \<and> sl = 1" for g sl
  proof -
    note g = D [OF m]
    then obtain v where v: "(g, v) \<in> set ws" by auto
    have r: "?res g \<noteq> sentinel" using ws g by (auto simp: epoch_writes_def)
    then have "older_slot (CPU_records st (?res g)) = older_slot (GPU_records st g)"
      using agree g by (simp add: tags_agree_def older_slot_def)
    moreover have "GPU_records st1 g = commit_record e v (GPU_records st g)"
      using commits_slot(3) [OF ready clean ws _ st1 v] g by simp
    then have "fst (snd (snd (flush_item st1 sl g))) = e"
      using g m commit_record_tags(1,2) [of "GPU_records st g" e v]
      by (auto simp: flush_item_def k_pack_versions_by_grids_def)
    ultimately show ?thesis using g r by simp
  qed
  have "set ?D1 \<inter> set ?D2 = {}" using D [of _ 0] D [of _ 1] by fastforce
  then have "distinct (?D1 @ ?D2)" using F1(8,9) by simp
  moreover have "inj_on ?res (set (?D1 @ ?D2))"
    using D item resident_inj [OF F1(1)] unfolding same by (intro inj_onI) (metis Un_iff set_append)
  ultimately have "distinct (map ?res (?D1 @ ?D2))" by (simp only: distinct_map simp_thms)
  moreover have "map fst (dirty_items st1) = map ?res (?D1 @ ?D2)"
    by (simp add: dirty_items_def flush_item_def same)
  ultimately have "distinct (map fst (dirty_items st1))" by simp
  moreover have "\<forall>it \<in> set (dirty_items st1). case it of (c, s, t, v) \<Rightarrow> c \<noteq> sentinel \<and> t = e \<and> s = older_slot (CPU_records st c)"
  proof
    fix it assume "it \<in> set (dirty_items st1)"
    then obtain g sl where g: "g \<in> set ?D1 \<and> sl = 0 \<or> g \<in> set ?D2 \<and> sl = 1" and it: "it = flush_item st1 sl g"
      by (auto simp: dirty_items_def)
    show "case it of (c, s, t, v) \<Rightarrow> c \<noteq> sentinel \<and> t = e \<and> s = older_slot (CPU_records st c)"
      using item [OF g] by (auto simp: it flush_item_def same split: prod.splits)
  qed
  ultimately show ?thesis by (simp add: flush_set_def)
qed

lemma commit_start_value: "tags_below e r \<Longrightarrow> e < e' \<Longrightarrow> start_value e' (commit_record e v r) = v"
  by (auto simp: tags_below_def start_value_def classify_prev_slot_host_def commit_record_def write_choice_def)

lemma merge_commit:
  assumes "version1 g = version1 c" and "version2 g = version2 c"
  shows "merge_dirty (older_slot g = 0) (older_slot g = 1) (commit_record e v g) c = commit_record e v c"
  using assms by (cases c) (auto simp: merge_dirty_def commit_record_def older_slot_def write_choice_def)

text \<open>C11: The cycle of an epoch. Let the cache agree with the Primary Store on the tags of cached records, with
  no slot dirty. After the writes of epoch \<open>e\<close>, one per written record, the flush set consists of items
  with tag \<open>e\<close> for the slot the recovery expects, one per record, so it is a flush the recovery can undo. The
  flush stores exactly these items; afterwards no slot is dirty, cache and Primary Store agree again, and in every later
  epoch the Primary Store gives the written values.\<close>

theorem epoch_cycle:
  assumes ready: "flush_ready st" and clean: "slots_clean st" and agree: "tags_agree st" and ws: "epoch_writes st ws"
    and tags: "\<forall>c. tags_below e (CPU_records st c)"
    and st1: "st1 = fold (commit_write e) ws st" and st2: "st2 = periodicFlush epoch st1"
  shows "flush_set e (CPU_records st) (dirty_items st1) \<and>
         CPU_records st2 = fold scatter_host_one (dirty_items st1) (CPU_records st) \<and>
         slots_clean st2 \<and> tags_agree st2 \<and>
         (\<forall>(g, v) \<in> set ws. \<forall>e'. e < e' \<longrightarrow> start_value e' (CPU_records st2 (load (resident_list st) g)) = v)"
proof -
  have ready1: "flush_ready st1" unfolding st1 by (rule commits_ready [OF ready clean ws])
  have same: "gpu_capacity st1 = gpu_capacity st" "resident_list st1 = resident_list st" "CPU_records st1 = CPU_records st"
    by (simp_all add: st1)
  note F1 = flush_ready_facts [OF ready1]
  have cap2: "gpu_capacity st2 = gpu_capacity st1"
    by (simp add: st2 periodicFlush_def Let_def clear_collected_def)
  note E = flush_effect [OF ready1 st2, unfolded same]
  have store2: "CPU_records st2 = fold scatter_host_one (dirty_items st1) (CPU_records st)"
    using flush_unfold(1) [OF ready1 _ _ st2, OF refl refl] F1(2,3)
    by (simp add: dirty_items_def collect_dirty_grids_v1_def collect_dirty_grids_v2_def same)
  have at: "CPU_records st2 (load (resident_list st) g) =
      (case map_of ws g of None \<Rightarrow> CPU_records st (load (resident_list st) g)
       | Some v \<Rightarrow> commit_record e v (CPU_records st (load (resident_list st) g)))"
    if g: "g < gpu_capacity st" "load (resident_list st) g \<noteq> sentinel" for g
  proof -
    let ?c = "load (resident_list st) g"
    note S = commits_slot [OF ready clean ws g(1) st1]
    have m: "CPU_records st2 ?c = merge_dirty (load (grid_dirty_v1 (crid2grid_index st1)) g)
        (load (grid_dirty_v2 (crid2grid_index st1)) g) (GPU_records st1 g) (CPU_records st ?c)"
      using E g by blast
    show ?thesis
    proof (cases "map_of ws g")
      case None
      then have "g \<notin> fst ` set ws" by (simp add: map_of_eq_None_iff)
      then show ?thesis using S(1,2,4) None by (simp add: m merge_dirty_def)
    next
      case (Some v)
      then have v: "(g, v) \<in> set ws" by (rule map_of_SomeD)
      then have "g \<in> fst ` set ws" by force
      then show ?thesis
        using S(1,2) S(3) [OF v] Some agree g merge_commit [of "GPU_records st g" "CPU_records st ?c"]
        by (simp add: m tags_agree_def)
    qed
  qed
  have "tags_agree st2"
    unfolding tags_agree_def cap2 same
  proof (intro allI impI)
    fix g assume g: "g < gpu_capacity st" and r: "load (resident_list st2) g \<noteq> sentinel"
    have res: "resident_list st2 = resident_list st" "GPU_records st2 = GPU_records st1" using E by blast+
    have a: "version1 (GPU_records st g) = version1 (CPU_records st (load (resident_list st) g))"
      "version2 (GPU_records st g) = version2 (CPU_records st (load (resident_list st) g))"
      using agree g r by (simp_all add: tags_agree_def res)
    note S = commits_slot(3,4) [OF ready clean ws g st1]
    show "version1 (GPU_records st2 g) = version1 (CPU_records st2 (load (resident_list st2) g)) \<and>
          version2 (GPU_records st2 g) = version2 (CPU_records st2 (load (resident_list st2) g))"
    proof (cases "map_of ws g")
      case None
      then have "g \<notin> fst ` set ws" by (simp add: map_of_eq_None_iff)
      then show ?thesis using at [OF g] r a S(2) None by (simp add: res)
    next
      case (Some v)
      then show ?thesis using at [OF g] r a S(1) [OF map_of_SomeD [OF Some]] by (simp add: res commit_record_def)
    qed
  qed
  moreover have "slots_clean st2" using E by (simp add: slots_clean_def cap2 same)
  moreover have "start_value e' (CPU_records st2 (load (resident_list st) g)) = v"
    if w: "(g, v) \<in> set ws" and e': "e < e'" for g v e'
  proof -
    have "map_of ws g = Some v" using ws w by (intro map_of_is_SomeI) (simp_all add: epoch_writes_def)
    moreover have "g < gpu_capacity st" "load (resident_list st) g \<noteq> sentinel"
      using ws w by (auto simp: epoch_writes_def)
    ultimately show ?thesis using at tags e' by (simp add: commit_start_value)
  qed
  ultimately show ?thesis using epoch_flush_set [OF ready clean agree ws st1] store2 by blast
qed

theorem epoch_cycle_witness:
  "start_value 10 (CPU_records (periodicFlush 9 (fold (commit_write 9) [(0, 42)] sample_admitted)) 5) = 42 \<and>
   flush_set 9 (CPU_records sample_admitted) (dirty_items (fold (commit_write 9) [(0, 42)] sample_admitted))"
proof -
  have cap: "gpu_capacity sample_admitted = 3" "load (resident_list sample_admitted) 0 = 5" "(0 :: u32) < 3" "(5 :: u32) \<noteq> sentinel"
    "(9 :: u32) < 10"
    by code_simp+
  have recs: "GPU_records sample_admitted = sample_gpu" "CPU_records sample_admitted = sample_gpu"
    by (simp_all add: sample_admitted_def sample_stager_def HybridStager_new_def Let_def)
  have flags: "grid_dirty_v1 (crid2grid_index sample_admitted) = [False, False, False]"
    "grid_dirty_v2 (crid2grid_index sample_admitted) = [False, False, False]" by code_simp+
  have clean: "slots_clean sample_admitted"
    using sample_load_false by (simp add: slots_clean_def flags cap)
  moreover have "flush_ready sample_admitted"
    using sample_admitted_inv sample_load_false cap by (simp add: flush_ready_def flags) code_simp
  moreover have "tags_agree sample_admitted" by (simp add: tags_agree_def recs sample_gpu_def)
  moreover have "epoch_writes sample_admitted [(0, 42)]" using cap by (simp add: epoch_writes_def)
  moreover have "\<forall>c. tags_below 9 (CPU_records sample_admitted c)" by (simp add: recs tags_below_def sample_gpu_def)
  ultimately show ?thesis using epoch_cycle [OF _ _ _ _ _ refl refl, of sample_admitted "[(0, 42)]" 9 9] cap by auto
qed

end
