(* ===== verification/Sg_Kernels.thy ===== *)
theory Sg_Kernels
  imports Scatter_Gather
begin

text \<open>
  The transfer kernels of \<^verbatim>\<open>scatter_gather.cu\<close> at the level of the 32-bit words they copy: the
  packed buffers with the element layouts of \<^verbatim>\<open>RecordLayout\<close>, the thread-per-record kernels
  and the warp-per-record kernels with their lane-strided loops, and the dispatch between
  them. The lemmas show that for every order of the lanes and of the elements the kernels
  move whole records, as the element-level definitions of \<open>Scatter_Gather\<close> say.
\<close>

subsection \<open>Layout\<close>

text \<open>Word offsets within a packed element, for values of \<open>k\<close> words: \<open>[ver1 | ver2 | value]\<close> for
  admission and \<open>[ver | value]\<close> for writeback.\<close>

definition kPackedVer1Off :: nat where "kPackedVer1Off = 0"
definition kPackedVer2Off :: nat where "kPackedVer2Off = 1"
definition kPackedValOff :: nat where "kPackedValOff = 2"
definition kPackedWords :: "nat \<Rightarrow> nat" where "kPackedWords k = 2 + k"
definition kPackedWritebackWords :: "nat \<Rightarrow> nat" where "kPackedWritebackWords k = 1 + k"

definition kUseWarpCoop :: "nat \<Rightarrow> bool" where "kUseWarpCoop k \<longleftrightarrow> 32 \<le> 4 * k"

lemmas layout_defs = kPackedVer1Off_def kPackedVer2Off_def kPackedValOff_def kPackedWords_def kPackedWritebackWords_def

subsection \<open>Copy loops\<close>

definition copy_words :: "nat \<Rightarrow> u32 list \<Rightarrow> nat \<Rightarrow> u32 list \<Rightarrow> nat \<Rightarrow> u32 list" where
  "copy_words k src soff dst doff = fold (\<lambda>w d. d[doff + w := src ! (soff + w)]) [0..<k] dst"

text \<open>The loop of one lane: \<^verbatim>\<open>for (w = lane; w < kValWords; w += 32)\<close>.\<close>

function lane_copy :: "nat \<Rightarrow> u32 list \<Rightarrow> nat \<Rightarrow> u32 list \<Rightarrow> nat \<Rightarrow> nat \<Rightarrow> u32 list" where
  "lane_copy k src soff dst doff w =
     (if w < k then lane_copy k src soff (dst[doff + w := src ! (soff + w)]) doff (w + 32) else dst)"
  by pat_completeness auto
termination by (relation "measure (\<lambda>(k, src, soff, dst, doff, w). k - w)") auto

declare lane_copy.simps [simp del]

definition warp_copy :: "nat list \<Rightarrow> nat \<Rightarrow> u32 list \<Rightarrow> nat \<Rightarrow> u32 list \<Rightarrow> nat \<Rightarrow> u32 list" where
  "warp_copy lanes k src soff dst doff = fold (\<lambda>lane d. lane_copy k src soff d doff lane) lanes dst"

lemma nth_list_update_any: "xs[i := x] ! j = (if i = j \<and> j < length xs then x else xs ! j)"
  by (cases "i < length xs") (auto simp: nth_list_update list_update_beyond)

lemma length_copy_words [simp]: "length (copy_words k src soff dst doff) = length dst"
proof -
  have "length (fold (\<lambda>w d. d[doff + w := src ! (soff + w)]) ws dst) = length dst" for ws
    by (induction ws arbitrary: dst) auto
  then show ?thesis by (simp add: copy_words_def)
qed

lemma nth_copy_words:
  "copy_words k src soff dst doff ! j = (if doff \<le> j \<and> j < doff + k \<and> j < length dst then src ! (soff + (j - doff)) else dst ! j)"
proof (induction k)
  case (Suc k)
  have "copy_words (Suc k) src soff dst doff = (copy_words k src soff dst doff)[doff + k := src ! (soff + k)]"
    by (simp add: copy_words_def)
  then show ?case using Suc by (auto simp: nth_list_update_any)
qed (auto simp: copy_words_def)

lemma length_lane_copy [simp]: "length (lane_copy k src soff dst doff w) = length dst"
proof (induction "k - w" arbitrary: w dst rule: less_induct)
  case less
  show ?case
  proof (cases "w < k")
    case True
    with less [of "w + 32"] show ?thesis by (simp add: lane_copy.simps [of k src soff dst doff w])
  qed (simp add: lane_copy.simps [of k src soff dst doff w])
qed

lemma nth_lane_copy:
  "lane_copy k src soff dst doff w ! j =
     (if doff + w \<le> j \<and> j < doff + k \<and> (j - doff - w) mod 32 = 0 \<and> j < length dst then src ! (soff + (j - doff)) else dst ! j)"
proof (induction "k - w" arbitrary: w dst rule: less_induct)
  case less
  show ?case
  proof (cases "w < k")
    case True
    let ?d = "dst[doff + w := src ! (soff + w)]"
    have IH: "lane_copy k src soff ?d doff (w + 32) ! j =
        (if doff + (w + 32) \<le> j \<and> j < doff + k \<and> (j - doff - (w + 32)) mod 32 = 0 \<and> j < length dst
         then src ! (soff + (j - doff)) else ?d ! j)"
      using less [of "w + 32" ?d] True by simp
    have step: "doff + w \<le> j \<and> (j - doff - w) mod 32 = 0 \<longleftrightarrow>
        j = doff + w \<or> doff + (w + 32) \<le> j \<and> (j - doff - (w + 32)) mod 32 = 0"
    proof (cases "doff + (w + 32) \<le> j")
      case True
      then have "j - doff - w = (j - doff - (w + 32)) + 32" by simp
      then have "(j - doff - w) mod 32 = (j - doff - (w + 32)) mod 32" by (metis mod_add_self2)
      with True show ?thesis by auto
    next
      case False
      then show ?thesis by auto
    qed
    have "lane_copy k src soff dst doff w ! j = lane_copy k src soff ?d doff (w + 32) ! j"
      using True by (simp add: lane_copy.simps [of k src soff dst doff w])
    then show ?thesis using IH step True by (auto simp: nth_list_update_any)
  next
    case False
    then show ?thesis by (auto simp: lane_copy.simps [of k src soff dst doff w])
  qed
qed

lemma length_warp_copy [simp]: "length (warp_copy lanes k src soff dst doff) = length dst"
  unfolding warp_copy_def by (induction lanes arbitrary: dst) auto

text \<open>Every word is copied by the lane of its index, whatever the order of the lanes.\<close>

lemma nth_warp_copy:
  assumes "set lanes \<subseteq> {..<32}"
  shows "warp_copy lanes k src soff dst doff ! j =
     (if doff \<le> j \<and> j < doff + k \<and> (j - doff) mod 32 \<in> set lanes \<and> j < length dst then src ! (soff + (j - doff)) else dst ! j)"
  using assms
proof (induction lanes arbitrary: dst)
  case (Cons l ls)
  have lane: "doff + l \<le> j \<and> (j - doff - l) mod 32 = 0 \<longleftrightarrow> doff \<le> j \<and> (j - doff) mod 32 = l"
  proof
    assume a: "doff + l \<le> j \<and> (j - doff - l) mod 32 = 0"
    then have "j - doff = (j - doff - l) + l" by simp
    then have "(j - doff) mod 32 = ((j - doff - l) mod 32 + l) mod 32" by (metis mod_add_left_eq)
    with a Cons.prems show "doff \<le> j \<and> (j - doff) mod 32 = l" by simp
  next
    assume a: "doff \<le> j \<and> (j - doff) mod 32 = l"
    then have "l \<le> j - doff" by (metis mod_less_eq_dividend)
    moreover have "(j - doff - l) mod 32 = 0" using a by (metis minus_mod_eq_mult_div mod_mult_self1_is_0)
    ultimately show "doff + l \<le> j \<and> (j - doff - l) mod 32 = 0" using a by linarith
  qed
  have "warp_copy (l # ls) k src soff dst doff = warp_copy ls k src soff (lane_copy k src soff dst doff l) doff"
    by (simp add: warp_copy_def)
  then show ?case using Cons lane by (auto simp: nth_lane_copy)
qed (simp add: warp_copy_def)

lemma warp_copy_eq:
  assumes "set lanes = {..<32}"
  shows "warp_copy lanes k src soff dst doff = copy_words k src soff dst doff"
proof (rule nth_equalityI)
  fix j
  have "(j - doff) mod 32 \<in> set lanes" using assms by simp
  then show "warp_copy lanes k src soff dst doff ! j = copy_words k src soff dst doff ! j"
    using assms by (simp add: nth_warp_copy nth_copy_words)
qed simp

subsection \<open>Admission kernels\<close>

definition k_scatter_versions_thread ::
  "nat \<Rightarrow> u32 list \<Rightarrow> u32 list \<Rightarrow> u8 list \<Rightarrow> nat \<Rightarrow> u32 list recs \<Rightarrow> u32 list recs" where
  "k_scatter_versions_thread k packed_vers grids prev_slots i dst =
     (let g = grids ! i; slot = prev_slots ! i; src = i * kPackedWords k;
          r = (dst g)\<lparr>version1 := packed_vers ! (src + kPackedVer1Off), version2 := packed_vers ! (src + kPackedVer2Off)\<rparr>
      in dst(g := (if slot = 0 then r\<lparr>value1 := copy_words k packed_vers (src + kPackedValOff) (value1 r) 0\<rparr>
                   else r\<lparr>value2 := copy_words k packed_vers (src + kPackedValOff) (value2 r) 0\<rparr>)))"

text \<open>One lane of the warp variant: lane 0 also stores the tags.\<close>

definition scatter_lane ::
  "nat \<Rightarrow> u32 list \<Rightarrow> nat \<Rightarrow> u8 \<Rightarrow> nat \<Rightarrow> u32 list Record \<Rightarrow> u32 list Record" where
  "scatter_lane k packed_vers src slot lane r =
     (let r1 = (if lane = 0
                then r\<lparr>version1 := packed_vers ! (src + kPackedVer1Off), version2 := packed_vers ! (src + kPackedVer2Off)\<rparr>
                else r)
      in if slot = 0 then r1\<lparr>value1 := lane_copy k packed_vers (src + kPackedValOff) (value1 r1) 0 lane\<rparr>
         else r1\<lparr>value2 := lane_copy k packed_vers (src + kPackedValOff) (value2 r1) 0 lane\<rparr>)"

definition k_scatter_versions_warp ::
  "nat list \<Rightarrow> nat \<Rightarrow> u32 list \<Rightarrow> u32 list \<Rightarrow> u8 list \<Rightarrow> nat \<Rightarrow> u32 list recs \<Rightarrow> u32 list recs" where
  "k_scatter_versions_warp lanes k packed_vers grids prev_slots i dst =
     dst(grids ! i := fold (scatter_lane k packed_vers (i * kPackedWords k) (prev_slots ! i)) lanes (dst (grids ! i)))"

text \<open>The launch of \<^verbatim>\<open>scatter_device_versions_\<close>: elements in the order \<open>ord\<close>.\<close>

definition launch_scatter ::
  "nat list \<Rightarrow> nat list \<Rightarrow> nat \<Rightarrow> u32 list \<Rightarrow> u32 list \<Rightarrow> u8 list \<Rightarrow> u32 list recs \<Rightarrow> u32 list recs" where
  "launch_scatter ord lanes k packed_vers grids prev_slots dst =
     (if kUseWarpCoop k then fold (k_scatter_versions_warp lanes k packed_vers grids prev_slots) ord dst
      else fold (k_scatter_versions_thread k packed_vers grids prev_slots) ord dst)"

text \<open>The packed buffer the host gather fills.\<close>

definition pack_admission :: "(u32 list packed \<times> u8) list \<Rightarrow> u32 list" where
  "pack_admission es = concat (map (\<lambda>((v1, v2, val), slot). [v1, v2] @ val) es)"

lemma nth_concat_blocks:
  assumes "\<And>x. x \<in> set xs \<Longrightarrow> length (f x) = b" and "i < length xs" and "j < b"
  shows "concat (map f xs) ! (i * b + j) = f (xs ! i) ! j"
  using assms
proof (induction xs arbitrary: i)
  case (Cons x xs)
  show ?case
  proof (cases i)
    case 0
    with Cons.prems show ?thesis by (simp add: nth_append)
  next
    case (Suc i')
    have "length (f x) = b" using Cons.prems(1) by simp
    then have "concat (map f (x # xs)) ! (i * b + j) = concat (map f xs) ! (i' * b + j)"
      by (simp add: Suc nth_append)
    with Cons Suc show ?thesis by simp
  qed
qed simp

text \<open>Reading an element back.\<close>

lemma packed_elem:
  assumes "\<forall>((v1, v2, val), slot) \<in> set es. length val = k" and "i < length es" and "es ! i = ((v1, v2, val), slot)"
  shows "pack_admission es ! (i * kPackedWords k + kPackedVer1Off) = v1"
    and "pack_admission es ! (i * kPackedWords k + kPackedVer2Off) = v2"
    and "w < k \<Longrightarrow> pack_admission es ! (i * kPackedWords k + kPackedValOff + w) = val ! w"
    and "length val = k"
proof -
  let ?f = "\<lambda>((v1, v2, val), slot). [v1, v2] @ val"
  have b: "length (?f x) = kPackedWords k" if "x \<in> set es" for x
    using bspec [OF assms(1) that] by (auto simp: layout_defs split: prod.splits)
  note N = nth_concat_blocks [of es ?f, OF b assms(2), folded pack_admission_def]
  show "pack_admission es ! (i * kPackedWords k + kPackedVer1Off) = v1"
    using N [of kPackedVer1Off] assms(3) by (simp add: layout_defs)
  show "pack_admission es ! (i * kPackedWords k + kPackedVer2Off) = v2"
    using N [of kPackedVer2Off] assms(3) by (simp add: layout_defs)
  show "pack_admission es ! (i * kPackedWords k + kPackedValOff + w) = val ! w" if "w < k"
    using N [of "kPackedValOff + w"] assms(3) that by (simp add: layout_defs)
  show "length val = k" using bspec [OF assms(1) nth_mem [OF assms(2)]] assms(3) by simp
qed

lemma copy_words_all:
  assumes "length dst = k" and "length val = k" and "\<And>w. w < k \<Longrightarrow> src ! (soff + w) = val ! w"
  shows "copy_words k src soff dst 0 = val"
  using assms by (intro nth_equalityI) (simp_all add: nth_copy_words)

text \<open>A record whose two values have \<open>k\<close> words.\<close>

definition words_ok :: "nat \<Rightarrow> u32 list Record \<Rightarrow> bool" where
  "words_ok k r \<longleftrightarrow> length (value1 r) = k \<and> length (value2 r) = k"

lemma scatter_thread_elem:
  assumes "\<forall>((v1, v2, val), slot) \<in> set es. length val = k" and "i < length es"
    and "words_ok k (dst (grids ! i))" and "slots = map snd es"
  shows "k_scatter_versions_thread k (pack_admission es) grids slots i dst = k_scatter_versions (grids ! i, es ! i) dst"
proof -
  obtain v1 v2 val slot where e: "es ! i = ((v1, v2, val), slot)" by (metis prod.collapse)
  note P = packed_elem [OF assms(1,2) e]
  have c: "length d = k \<Longrightarrow> copy_words k (pack_admission es) (i * kPackedWords k + kPackedValOff) d 0 = val" for d
    by (rule copy_words_all) (use P in auto)
  show ?thesis
    using assms(2-4) by (simp add: k_scatter_versions_thread_def k_scatter_versions_def Let_def P(1,2) e c words_ok_def)
qed

lemma scatter_lanes:
  "fold (scatter_lane k packed src slot) lanes r =
     (let r1 = (if 0 \<in> set lanes
                then r\<lparr>version1 := packed ! (src + kPackedVer1Off), version2 := packed ! (src + kPackedVer2Off)\<rparr> else r)
      in if slot = 0 then r1\<lparr>value1 := warp_copy lanes k packed (src + kPackedValOff) (value1 r) 0\<rparr>
         else r1\<lparr>value2 := warp_copy lanes k packed (src + kPackedValOff) (value2 r) 0\<rparr>)"
  by (induction lanes arbitrary: r) (auto simp: scatter_lane_def warp_copy_def Let_def)

lemma scatter_warp_thread:
  assumes "set lanes = {..<32}"
  shows "k_scatter_versions_warp lanes k packed grids slots i dst = k_scatter_versions_thread k packed grids slots i dst"
  using assms by (simp add: k_scatter_versions_warp_def k_scatter_versions_thread_def scatter_lanes warp_copy_eq Let_def)

lemma k_scatter_words_ok:
  "length (snd (snd (fst (snd e)))) = k \<Longrightarrow> (\<forall>g. words_ok k (dst g)) \<Longrightarrow> \<forall>g. words_ok k (k_scatter_versions e dst g)"
  by (auto simp: k_scatter_versions_def words_ok_def Let_def split: prod.split)

text \<open>The launch, in any order of the elements, is the element-level scatter in that order.\<close>

lemma launch_scatter_fold:
  assumes "\<forall>((v1, v2, val), slot) \<in> set es. length val = k" and "set lanes = {..<32}"
    and "set ord \<subseteq> {..<length es}" and "\<forall>g. words_ok k (dst g)"
  shows "launch_scatter ord lanes k (pack_admission es) grids (map snd es) dst =
         fold (\<lambda>i. k_scatter_versions (grids ! i, es ! i)) ord dst"
proof -
  have "launch_scatter ord lanes k (pack_admission es) grids (map snd es) dst =
      fold (k_scatter_versions_thread k (pack_admission es) grids (map snd es)) ord dst"
  proof -
    have "k_scatter_versions_warp lanes k packed grids slots = k_scatter_versions_thread k packed grids slots" for packed slots
      by (intro ext scatter_warp_thread [OF assms(2)])
    then show ?thesis by (simp add: launch_scatter_def)
  qed
  also have "\<dots> = fold (\<lambda>i. k_scatter_versions (grids ! i, es ! i)) ord dst"
    using assms(3,4)
  proof (induction ord arbitrary: dst)
    case (Cons i ord)
    have i: "i < length es" using Cons.prems(1) by simp
    have e: "k_scatter_versions_thread k (pack_admission es) grids (map snd es) i dst = k_scatter_versions (grids ! i, es ! i) dst"
      using Cons.prems(2) by (intro scatter_thread_elem [OF assms(1) i]) simp_all
    have "length (snd (snd (fst (es ! i)))) = k" using bspec [OF assms(1) nth_mem [OF i]] by (auto split: prod.splits)
    then have "\<forall>g. words_ok k (k_scatter_versions (grids ! i, es ! i) dst g)"
      using Cons.prems(2) by (intro k_scatter_words_ok) simp_all
    with Cons e show ?case by simp
  qed simp
  finally show ?thesis .
qed

text \<open>With distinct slots the order does not matter.\<close>

lemma fold_scatter_at:
  assumes "distinct (map ((!) grids) ord)"
  shows "i \<in> set ord \<Longrightarrow> fold (\<lambda>i. k_scatter_versions (grids ! i, es ! i)) ord dst (grids ! i) =
           k_scatter_versions (grids ! i, es ! i) dst (grids ! i)"
    and "g \<notin> (!) grids ` set ord \<Longrightarrow> fold (\<lambda>i. k_scatter_versions (grids ! i, es ! i)) ord dst g = dst g"
proof -
  let ?xs = "map (\<lambda>i. (grids ! i, es ! i)) ord"
  have f: "fold (\<lambda>i. k_scatter_versions (grids ! i, es ! i)) ord dst = fold k_scatter_versions ?xs dst"
    by (simp add: fold_map comp_def)
  have m: "map fst ?xs = map ((!) grids) ord" by simp
  show "fold (\<lambda>i. k_scatter_versions (grids ! i, es ! i)) ord dst (grids ! i) =
           k_scatter_versions (grids ! i, es ! i) dst (grids ! i)" if "i \<in> set ord"
    unfolding f
  proof (rule fold_scatter_versions_in)
    show "distinct (map fst ?xs)" unfolding m by (rule assms)
    show "(grids ! i, es ! i) \<in> set ?xs" using that by auto
  qed
  show "fold (\<lambda>i. k_scatter_versions (grids ! i, es ! i)) ord dst g = dst g" if "g \<notin> (!) grids ` set ord"
    unfolding f by (rule fold_scatter_versions_notin) (use that in auto)
qed

text \<open>C25: The word-level admission kernels, thread-per-record or warp-per-record as the dispatch
  chooses, with their lanes and elements in any order, leave the GPU records exactly as the
  element-level scatter of the gathered records does.\<close>

theorem scatter_kernels_refine:
  assumes "\<forall>((v1, v2, val), slot) \<in> set es. length val = k" and "set lanes = {..<32}"
    and "distinct ord" and "set ord = {..<length es}" and "\<forall>g. words_ok k (dst g)"
    and "distinct grids" and "length grids = length es"
  shows "launch_scatter ord lanes k (pack_admission es) grids (map snd es) dst = scatter_device_versions grids es dst"
proof -
  let ?F = "\<lambda>o'. fold (\<lambda>i. k_scatter_versions (grids ! i, es ! i)) o' dst"
  have dm: "distinct (map ((!) grids) o')" if "distinct o'" "set o' = {..<length es}" for o'
    using that assms(6,7) by (auto simp: distinct_map inj_on_def nth_eq_iff_index_eq)
  have "?F ord = ?F [0..<length es]"
  proof
    fix g
    have d: "distinct (map ((!) grids) ord)" "distinct (map ((!) grids) [0..<length es])"
      by (rule dm [OF assms(3,4)], rule dm) (simp_all add: lessThan_atLeast0)
    have so: "set ord = set [0..<length es]" using assms(4) by (simp add: lessThan_atLeast0)
    show "?F ord g = ?F [0..<length es] g"
    proof (cases "g \<in> (!) grids ` set ord")
      case True
      then obtain i where i: "i \<in> set ord" "g = grids ! i" by auto
      then have i': "i \<in> set [0..<length es]" using so by simp
      show ?thesis unfolding i(2) fold_scatter_at(1) [OF d(1) i(1)] fold_scatter_at(1) [OF d(2) i'] ..
    next
      case False
      then have g: "g \<notin> (!) grids ` set [0..<length es]" using so by simp
      show ?thesis unfolding fold_scatter_at(2) [OF d(1) False] fold_scatter_at(2) [OF d(2) g] ..
    qed
  qed
  also have "\<dots> = scatter_device_versions grids es dst"
  proof -
    have "zip grids es = map (\<lambda>i. (grids ! i, es ! i)) [0..<length es]"
      using assms(7) by (intro nth_equalityI) simp_all
    then show ?thesis by (simp add: scatter_device_versions_def fold_map comp_def)
  qed
  finally show ?thesis using launch_scatter_fold [OF assms(1,2) _ assms(5)] assms(4) by simp
qed

definition sample_words :: "u32 \<Rightarrow> u32 list Record" where
  "sample_words g = \<lparr>value1 = [g, 1], version1 = 4, value2 = [7, 8], version2 = 3\<rparr>"

definition sample_packed :: "(u32 list packed \<times> u8) list" where
  "sample_packed = [((9, 8, [5, 6]), 0), ((2, 3, [1, 1]), 1)]"

theorem scatter_kernels_refine_witness:
  "launch_scatter [1, 0] (rev [0..<32]) 2 (pack_admission sample_packed) [7, 4] (map snd sample_packed) sample_words
   = scatter_device_versions [7, 4] sample_packed sample_words"
  by (rule scatter_kernels_refine) (auto simp: sample_words_def words_ok_def sample_packed_def)

subsection \<open>Writeback kernels\<close>

text \<open>The element an item contributes: the selected tag and value.\<close>

definition wb_block :: "u32 list recs \<Rightarrow> u32 list \<Rightarrow> u8 list \<Rightarrow> nat \<Rightarrow> u32 list" where
  "wb_block src grids slots i = (let (t, v) = k_pack_versions_by_grids src (grids ! i) (slots ! i) in t # v)"

definition k_pack_versions_thread ::
  "nat \<Rightarrow> u32 list recs \<Rightarrow> u32 list \<Rightarrow> u8 list \<Rightarrow> nat \<Rightarrow> u32 list \<Rightarrow> u32 list" where
  "k_pack_versions_thread k src_slots grids curr_slots i packed_vers =
     (let r = src_slots (grids ! i); slot = curr_slots ! i; dst = i * kPackedWritebackWords k;
          p1 = packed_vers[dst := if slot = 0 then version1 r else version2 r]
      in copy_words k (if slot = 0 then value1 r else value2 r) 0 p1 (dst + 1))"

definition pack_lane ::
  "nat \<Rightarrow> u32 list Record \<Rightarrow> u8 \<Rightarrow> nat \<Rightarrow> nat \<Rightarrow> u32 list \<Rightarrow> u32 list" where
  "pack_lane k r slot dst lane p =
     (let p1 = (if lane = 0 then p[dst := if slot = 0 then version1 r else version2 r] else p)
      in lane_copy k (if slot = 0 then value1 r else value2 r) 0 p1 (dst + 1) lane)"

definition k_pack_versions_by_grids_warp ::
  "nat list \<Rightarrow> nat \<Rightarrow> u32 list recs \<Rightarrow> u32 list \<Rightarrow> u8 list \<Rightarrow> nat \<Rightarrow> u32 list \<Rightarrow> u32 list" where
  "k_pack_versions_by_grids_warp lanes k src_slots grids curr_slots i packed_vers =
     fold (pack_lane k (src_slots (grids ! i)) (curr_slots ! i) (i * kPackedWritebackWords k)) lanes packed_vers"

definition wb_async_queue_pack ::
  "nat list \<Rightarrow> nat list \<Rightarrow> nat \<Rightarrow> u32 list recs \<Rightarrow> u32 list \<Rightarrow> u8 list \<Rightarrow> u32 list \<Rightarrow> u32 list" where
  "wb_async_queue_pack ord lanes k GPU_recs grids curr_slots packed_vers =
     (if kUseWarpCoop k
      then fold (k_pack_versions_by_grids_warp lanes k GPU_recs grids curr_slots) ord packed_vers
      else fold (k_pack_versions_thread k GPU_recs grids curr_slots) ord packed_vers)"

text \<open>The item the host scatter reads at position \<open>i\<close> of the packed buffer.\<close>

definition unpack_writeback :: "nat \<Rightarrow> u32 list \<Rightarrow> nat \<Rightarrow> u32 \<times> u32 list" where
  "unpack_writeback k packed i =
     (packed ! (i * kPackedWritebackWords k), map (\<lambda>w. packed ! (i * kPackedWritebackWords k + 1 + w)) [0..<k])"

lemma length_pack_thread [simp]: "length (k_pack_versions_thread k src grids slots i p) = length p"
  by (simp add: k_pack_versions_thread_def Let_def)

lemma nth_pack_thread:
  assumes "length (wb_block src grids slots i) = kPackedWritebackWords k" and "j < length p"
  shows "k_pack_versions_thread k src grids slots i p ! j =
     (if j div kPackedWritebackWords k = i then wb_block src grids slots i ! (j mod kPackedWritebackWords k) else p ! j)"
proof -
  let ?b = "kPackedWritebackWords k"
  have b: "?b = Suc k" by (simp add: kPackedWritebackWords_def)
  show ?thesis
  proof (cases "i * ?b \<le> j \<and> j < i * ?b + ?b")
    case True
    then have d: "j div ?b = i" by (intro div_nat_eqI) (simp_all add: mult.commute)
    then have m: "j mod ?b = j - i * ?b" by (metis minus_div_mult_eq_mod)
    show ?thesis
    proof (cases "j = i * ?b")
      case True
      then show ?thesis
        using assms(2) d m by (simp add: k_pack_versions_thread_def Let_def nth_copy_words wb_block_def k_pack_versions_by_grids_def)
    next
      case False
      then obtain w where w: "j = i * ?b + Suc w" "w < k"
        using \<open>i * ?b \<le> j \<and> j < i * ?b + ?b\<close> b by (metis Suc_less_eq le_add_diff_inverse less_imp_Suc_add nat_add_left_cancel_less order_le_less add_Suc_right)
      then show ?thesis
        using assms(2) d m by (simp add: k_pack_versions_thread_def Let_def nth_copy_words wb_block_def k_pack_versions_by_grids_def)
    qed
  next
    case False
    then have "j div ?b \<noteq> i"
      by (metis b dividend_less_times_div div_times_less_eq_dividend mult.commute mult_Suc_right add.commute zero_less_Suc)
    moreover have "j \<noteq> i * ?b" "\<not> (i * ?b + 1 \<le> j \<and> j < i * ?b + 1 + k)" using False b by auto
    ultimately show ?thesis
      by (auto simp: k_pack_versions_thread_def Let_def nth_copy_words nth_list_update_any)
  qed
qed

lemma length_pack_lanes [simp]: "length (fold (pack_lane k r slot dst) lanes p) = length p"
  by (induction lanes arbitrary: p) (simp_all add: pack_lane_def Let_def)

lemma pack_lanes:
  assumes "set lanes \<subseteq> {..<32}" and "j < length p"
  shows "fold (pack_lane k r slot dst) lanes p ! j =
     (let v = (if slot = 0 then value1 r else value2 r)
      in if j = dst \<and> 0 \<in> set lanes then (if slot = 0 then version1 r else version2 r)
         else warp_copy lanes k v 0 p (dst + 1) ! j)"
  using assms
proof (induction lanes arbitrary: p)
  case (Cons l ls)
  let ?v = "if slot = 0 then value1 r else value2 r" and ?t = "if slot = 0 then version1 r else version2 r"
  let ?p = "pack_lane k r slot dst l p"
  have len: "length ?p = length p" by (simp add: pack_lane_def Let_def)
  have "?p ! j = (if l = 0 \<and> j = dst then ?t else lane_copy k ?v 0 p (dst + 1) l ! j)" if "j < length p" for j
    using that by (auto simp: pack_lane_def Let_def nth_lane_copy nth_list_update_any)
  moreover have "warp_copy (l # ls) k ?v 0 p (dst + 1) = warp_copy ls k ?v 0 (lane_copy k ?v 0 p (dst + 1) l) (dst + 1)"
    by (simp add: warp_copy_def)
  ultimately show ?case
    using Cons.IH [of ?p] Cons.prems len by (auto simp: Let_def nth_warp_copy)
qed (simp add: warp_copy_def Let_def)

lemma pack_warp_thread:
  assumes "set lanes = {..<32}"
  shows "k_pack_versions_by_grids_warp lanes k src grids slots i p = k_pack_versions_thread k src grids slots i p"
proof (rule nth_equalityI)
  let ?d = "i * kPackedWritebackWords k" and ?r = "src (grids ! i)"
  show len: "length (k_pack_versions_by_grids_warp lanes k src grids slots i p) = length (k_pack_versions_thread k src grids slots i p)"
    by (simp add: k_pack_versions_by_grids_warp_def)
  fix j assume "j < length (k_pack_versions_by_grids_warp lanes k src grids slots i p)"
  then have j: "j < length p" using len by simp
  have "0 \<in> set lanes" using assms by simp
  with pack_lanes [of lanes j p k ?r "slots ! i" ?d] assms j
  show "k_pack_versions_by_grids_warp lanes k src grids slots i p ! j = k_pack_versions_thread k src grids slots i p ! j"
    by (simp add: k_pack_versions_by_grids_warp_def k_pack_versions_thread_def Let_def warp_copy_eq nth_copy_words nth_list_update_any)
qed

lemma fold_pack_thread:
  assumes "\<forall>i \<in> set ord. length (wb_block src grids slots i) = kPackedWritebackWords k" and "j < length p"
  shows "fold (k_pack_versions_thread k src grids slots) ord p ! j =
     (if j div kPackedWritebackWords k \<in> set ord
      then wb_block src grids slots (j div kPackedWritebackWords k) ! (j mod kPackedWritebackWords k) else p ! j)"
  using assms by (induction ord arbitrary: p) (auto simp: nth_pack_thread)

text \<open>C26: Whatever order the lanes and elements of the pack kernels run in, the packed buffer
  afterwards holds for every element the tag and the complete value of the requested slot of
  its record, as the host scatter reads them.\<close>

theorem pack_kernels_refine:
  assumes "set lanes = {..<32}" and "set ord = {..<n}" and "\<forall>g. words_ok k (GPU g)"
    and "length packed = n * kPackedWritebackWords k" and "i < n"
  shows "unpack_writeback k (wb_async_queue_pack ord lanes k GPU grids slots packed) i =
         k_pack_versions_by_grids GPU (grids ! i) (slots ! i)"
proof -
  let ?b = "kPackedWritebackWords k"
  let ?p = "fold (k_pack_versions_thread k GPU grids slots) ord packed"
  have "k_pack_versions_by_grids_warp lanes k GPU grids slots = k_pack_versions_thread k GPU grids slots"
    by (intro ext pack_warp_thread [OF assms(1)])
  then have q: "wb_async_queue_pack ord lanes k GPU grids slots packed = ?p" by (simp add: wb_async_queue_pack_def)
  have blk: "length (wb_block GPU grids slots m) = ?b" for m
    using assms(3) by (simp add: wb_block_def k_pack_versions_by_grids_def words_ok_def kPackedWritebackWords_def)
  have at: "?p ! (i * ?b + w) = wb_block GPU grids slots i ! w" if w: "w < ?b" for w
  proof -
    have "i * ?b + w < (i + 1) * ?b" using w by simp
    also have "\<dots> \<le> length packed" unfolding assms(4) using assms(5) by (intro mult_le_mono1) simp
    finally have "i * ?b + w < length packed" .
    moreover have "(i * ?b + w) div ?b = i" "(i * ?b + w) mod ?b = w" using w by simp_all
    ultimately show ?thesis using fold_pack_thread [of ord GPU grids slots k "i * ?b + w" packed] blk assms(2,5) by simp
  qed
  obtain t v where tv: "k_pack_versions_by_grids GPU (grids ! i) (slots ! i) = (t, v)" by (cases "k_pack_versions_by_grids GPU (grids ! i) (slots ! i)")
  have v: "length v = k" using blk [of i] by (simp add: wb_block_def tv kPackedWritebackWords_def)
  have "map (\<lambda>w. ?p ! (i * ?b + 1 + w)) [0..<k] = v"
  proof (rule nth_equalityI)
    fix w assume "w < length (map (\<lambda>w. ?p ! (i * ?b + 1 + w)) [0..<k])"
    then show "map (\<lambda>w. ?p ! (i * ?b + 1 + w)) [0..<k] ! w = v ! w"
      using at [of "1 + w"] by (simp add: wb_block_def tv kPackedWritebackWords_def)
  qed (simp add: v)
  moreover have "?p ! (i * ?b) = t" using at [of 0] by (simp add: wb_block_def tv kPackedWritebackWords_def)
  ultimately show ?thesis by (simp add: unpack_writeback_def q tv)
qed

theorem pack_kernels_refine_witness:
  "unpack_writeback 2 (wb_async_queue_pack [1, 0] (rev [0..<32]) 2 sample_words [7, 4] [0, 1] (replicate 6 0)) 1
     = k_pack_versions_by_grids sample_words ([7, 4] ! 1) ([0, 1] ! 1)"
  by (rule pack_kernels_refine [where n = 2]) (auto simp: sample_words_def words_ok_def kPackedWritebackWords_def)

end
