(* ===== verification/Sg_Buffers.thy ===== *)
theory Sg_Buffers
  imports Scatter_Gather
begin

text \<open>
  The buffers, streams and events a \<^verbatim>\<open>ScatterGather\<close> object owns (\<^verbatim>\<open>scatter_gather.h\<close>, and
  \<^verbatim>\<open>init\<close>, \<^verbatim>\<open>reset\<close>, the \<^verbatim>\<open>ensure\<close> functions and the buffer set-up of the transfers in
  \<^verbatim>\<open>scatter_gather.cu\<close>). A buffer is the number of bytes it was allocated with, or \<open>None\<close>; the
  two elements of a double buffer are a list. The lemmas show that the accesses of the two
  ways in which the stagers use the class (chunked transfers; the asynchronous flush) stay
  within the buffers for every sequence of calls, that \<^verbatim>\<open>reset\<close> is idempotent and what it
  leaves behind, and that the unchunked admission path can outgrow one of its buffers.
\<close>

datatype handle = Created | Provided nat

record sg_options =
  opt_own_stream :: bool
  opt_chunk_mode :: bool
  opt_async_writeback :: bool
  opt_chunk_bytes :: nat

record ScatterGather =
  own_stream :: bool
  chunk_mode :: bool
  async_writeback :: bool
  chunk_bytes :: nat
  stream :: "handle option"
  copy_stream :: "handle option"
  compute_stream :: "handle option"
  h2d_done :: "bool list"
  d2h_done :: "bool list"
  compute_done :: "bool list"
  tx_in_flight :: "bool list"
  wb_in_flight :: "bool list"
  d_grids_persistent :: "nat option"
  cap_grids_elems :: nat
  d_grids_buf :: "nat option list"
  h_grids_buf :: "nat option list"
  chunk_cap_elems :: nat
  h_packed_vers :: "nat option"
  d_packed_vers :: "nat option"
  cap_vers_elems :: nat
  h_prev_slots :: "nat option"
  cap_prev_slots_elems :: nat
  h_packed_vers_buf :: "nat option list"
  d_packed_vers_buf :: "nat option list"
  h_prev_slots_buf :: "nat option list"
  d_prev_slots_buf :: "nat option list"
  h_curr_slots_buf :: "nat option list"
  d_curr_slots_buf :: "nat option list"
  chunk_ver_cap_elems :: nat
  prev_slots_cap_elems :: nat
  curr_slots_cap_elems :: nat
  h_wb_d2h_buf :: "nat option list"
  wb_d2h_chunk_cap :: nat
  wb_d2h_initialized :: bool
  admit_h2d_payload_bytes_total :: u64
  writeback_d2h_payload_bytes_total :: u64

definition none2 :: "'a option list" where "none2 = [None, None]"

definition ScatterGather_new :: ScatterGather where
  "ScatterGather_new =
     \<lparr>own_stream = True, chunk_mode = False, async_writeback = False, chunk_bytes = 4 * 2 ^ 20,
      stream = None, copy_stream = None, compute_stream = None,
      h2d_done = [False, False], d2h_done = [False, False], compute_done = [False, False],
      tx_in_flight = [False, False], wb_in_flight = [False, False],
      d_grids_persistent = None, cap_grids_elems = 0, d_grids_buf = none2, h_grids_buf = none2, chunk_cap_elems = 0,
      h_packed_vers = None, d_packed_vers = None, cap_vers_elems = 0, h_prev_slots = None, cap_prev_slots_elems = 0,
      h_packed_vers_buf = none2, d_packed_vers_buf = none2, h_prev_slots_buf = none2, d_prev_slots_buf = none2,
      h_curr_slots_buf = none2, d_curr_slots_buf = none2, chunk_ver_cap_elems = 0, prev_slots_cap_elems = 0,
      curr_slots_cap_elems = 0, h_wb_d2h_buf = none2, wb_d2h_chunk_cap = 0, wb_d2h_initialized = False,
      admit_h2d_payload_bytes_total = 0, writeback_d2h_payload_bytes_total = 0\<rparr>"

definition sg_init :: "sg_options \<Rightarrow> handle option \<Rightarrow> ScatterGather \<Rightarrow> ScatterGather" where
  "sg_init opt given s =
     (let s1 = s\<lparr>own_stream := opt_own_stream opt \<or> given = None, chunk_mode := opt_chunk_mode opt,
                 async_writeback := opt_async_writeback opt,
                 chunk_bytes := if opt_chunk_bytes opt \<noteq> 0 then opt_chunk_bytes opt else 32 * 2 ^ 20\<rparr>;
          s2 = (if \<not> own_stream s1 then s1\<lparr>stream := given\<rparr>
                else if stream s1 = None then s1\<lparr>stream := Some Created\<rparr> else s1)
      in if chunk_mode s2
         then s2\<lparr>copy_stream := (if copy_stream s2 = None then Some Created else copy_stream s2),
                 compute_stream := (if compute_stream s2 = None then Some Created else compute_stream s2),
                 h2d_done := [True, True], d2h_done := [True, True], compute_done := [True, True],
                 tx_in_flight := [False, False], wb_in_flight := [False, False]\<rparr>
         else s2)"

definition reset_chunk_buffers :: "ScatterGather \<Rightarrow> ScatterGather" where
  "reset_chunk_buffers s =
     s\<lparr>d_grids_buf := none2, h_grids_buf := none2, h2d_done := [False, False], d2h_done := [False, False],
       compute_done := [False, False], tx_in_flight := [False, False], wb_in_flight := [False, False],
       chunk_cap_elems := 0, copy_stream := None, compute_stream := None\<rparr>"

definition reset_versions_buffers :: "ScatterGather \<Rightarrow> ScatterGather" where
  "reset_versions_buffers s =
     s\<lparr>h_packed_vers := None, d_packed_vers := None, h_prev_slots := None, cap_vers_elems := 0,
       cap_prev_slots_elems := 0, h_packed_vers_buf := none2, d_packed_vers_buf := none2,
       h_prev_slots_buf := none2, d_prev_slots_buf := none2, h_curr_slots_buf := none2, d_curr_slots_buf := none2,
       chunk_ver_cap_elems := 0, prev_slots_cap_elems := 0, curr_slots_cap_elems := 0\<rparr>"

definition sg_reset :: "ScatterGather \<Rightarrow> ScatterGather" where
  "sg_reset s =
     (let s1 = reset_versions_buffers (s\<lparr>d_grids_persistent := None, cap_grids_elems := 0\<rparr>);
          s2 = (if chunk_mode s1 then reset_chunk_buffers s1 else s1)
      in if own_stream s2 \<and> stream s2 \<noteq> None then s2\<lparr>stream := None\<rparr> else s2)"

subsection \<open>Growing buffers\<close>

definition grown :: "nat \<Rightarrow> nat \<Rightarrow> nat" where
  "grown cap n = (let new_cap = (if cap \<noteq> 0 then cap + cap div 2 else n) in if new_cap < n then n else new_cap)"

text \<open>\<open>P\<close> is \<^verbatim>\<open>kPackedVersionsBytes_\<close>.\<close>

definition ensure_versions_capacity_bytes :: "nat \<Rightarrow> nat \<Rightarrow> ScatterGather \<Rightarrow> ScatterGather" where
  "ensure_versions_capacity_bytes P n s =
     (if n \<le> cap_vers_elems s then s
      else let new_cap = grown (cap_vers_elems s) n; total_bytes = new_cap * P;
               s1 = s\<lparr>h_packed_vers := Some total_bytes, d_packed_vers := Some total_bytes, cap_vers_elems := new_cap\<rparr>
           in if cap_prev_slots_elems s1 < n then s1\<lparr>h_prev_slots := Some n, cap_prev_slots_elems := n\<rparr> else s1)"

definition ensure_grids_capacity :: "nat \<Rightarrow> ScatterGather \<Rightarrow> ScatterGather" where
  "ensure_grids_capacity n s =
     (if n \<le> cap_grids_elems s then s
      else let new_cap = grown (cap_grids_elems s) n
           in s\<lparr>d_grids_persistent := Some (new_cap * 4), cap_grids_elems := new_cap\<rparr>)"

definition ensure_chunk_buffers :: "nat \<Rightarrow> ScatterGather \<Rightarrow> ScatterGather" where
  "ensure_chunk_buffers chunk_elems s =
     (if chunk_elems \<le> chunk_cap_elems s then s
      else let grid_bytes = chunk_elems * 4
           in s\<lparr>d_grids_buf := [Some grid_bytes, Some grid_bytes], h_grids_buf := [Some grid_bytes, Some grid_bytes],
                chunk_cap_elems := chunk_elems, tx_in_flight := [False, False], wb_in_flight := [False, False]\<rparr>)"

definition ensure_versions_chunk_buffers :: "nat \<Rightarrow> nat \<Rightarrow> ScatterGather \<Rightarrow> ScatterGather" where
  "ensure_versions_chunk_buffers P chunk_elems s =
     (if chunk_elems \<le> chunk_ver_cap_elems s then s
      else let vers_bytes = chunk_elems * P; two = (\<lambda>n. [Some n, Some n])
           in s\<lparr>h_packed_vers_buf := two vers_bytes, d_packed_vers_buf := two vers_bytes,
                h_prev_slots_buf := two chunk_elems, d_prev_slots_buf := two chunk_elems,
                h_curr_slots_buf := two chunk_elems, d_curr_slots_buf := two chunk_elems,
                chunk_ver_cap_elems := chunk_elems\<rparr>)"

text \<open>The persistent slot buffers of the unchunked paths, kept in element 0 of the double buffers.\<close>

definition ensure_prev_slots :: "nat \<Rightarrow> ScatterGather \<Rightarrow> ScatterGather" where
  "ensure_prev_slots n s =
     (if d_prev_slots_buf s ! 0 = None \<or> prev_slots_cap_elems s < n
      then s\<lparr>d_prev_slots_buf := (d_prev_slots_buf s)[0 := Some n], prev_slots_cap_elems := n\<rparr> else s)"

definition ensure_curr_slots :: "nat \<Rightarrow> ScatterGather \<Rightarrow> ScatterGather" where
  "ensure_curr_slots n s =
     (if d_curr_slots_buf s ! 0 = None \<or> curr_slots_cap_elems s < n
      then s\<lparr>d_curr_slots_buf := (d_curr_slots_buf s)[0 := Some n], curr_slots_cap_elems := n\<rparr> else s)"

definition wb_async_ensure :: "nat \<Rightarrow> nat \<Rightarrow> ScatterGather \<Rightarrow> ScatterGather" where
  "wb_async_ensure P n s = ensure_curr_slots n (ensure_grids_capacity n (ensure_versions_capacity_bytes P n s))"

subsection \<open>Buffer set-up of the transfers\<close>

definition transfer_setup :: "nat \<Rightarrow> nat \<Rightarrow> ScatterGather \<Rightarrow> ScatterGather" where
  "transfer_setup P n s =
     (if n = 0 then s
      else let s1 = s\<lparr>admit_h2d_payload_bytes_total := admit_h2d_payload_bytes_total s + of_nat n * of_nat P\<rparr>
           in if \<not> chunk_mode s1
              then ensure_prev_slots n (ensure_grids_capacity n (ensure_versions_capacity_bytes P n s1))
              else let chunk_elems = transfer_chunk_elems (chunk_bytes s1) P n
                   in ensure_chunk_buffers chunk_elems (ensure_versions_chunk_buffers P chunk_elems s1))"

text \<open>\<open>W\<close> is \<^verbatim>\<open>kPackedWritebackBytes_\<close>, one tag shorter than \<open>P\<close>.\<close>

definition writeback_setup :: "nat \<Rightarrow> nat \<Rightarrow> nat \<Rightarrow> ScatterGather \<Rightarrow> ScatterGather" where
  "writeback_setup P W n s =
     (if n = 0 then s
      else let s1 = s\<lparr>writeback_d2h_payload_bytes_total := writeback_d2h_payload_bytes_total s + of_nat n * of_nat W\<rparr>
           in if \<not> chunk_mode s1
              then ensure_curr_slots n (ensure_grids_capacity n (ensure_versions_capacity_bytes P n s1))
              else let chunk_elems = max 1 (chunk_bytes s1 div W)
                   in ensure_chunk_buffers chunk_elems (ensure_versions_chunk_buffers P chunk_elems s1))"

definition wb_d2h_setup :: "nat \<Rightarrow> nat \<Rightarrow> ScatterGather \<Rightarrow> ScatterGather" where
  "wb_d2h_setup W num_records s =
     (if num_records = 0 then s
      else let s1 = s\<lparr>writeback_d2h_payload_bytes_total := writeback_d2h_payload_bytes_total s + of_nat num_records * of_nat W\<rparr>;
               chunk_elems = wb_chunk_elems W num_records;
               s2 = s1\<lparr>wb_d2h_initialized := True\<rparr>
           in if wb_d2h_chunk_cap s2 < chunk_elems
              then let new_cap = max chunk_elems (wb_d2h_chunk_cap s2 + wb_d2h_chunk_cap s2 div 2)
                   in s2\<lparr>h_wb_d2h_buf := [Some (new_cap * W), Some (new_cap * W)], wb_d2h_chunk_cap := new_cap\<rparr>
              else s2)"

subsection \<open>Chunked transfers stay within their buffers\<close>

definition bytes :: "nat option \<Rightarrow> nat" where
  "bytes b = (case b of None \<Rightarrow> 0 | Some n \<Rightarrow> n)"

definition all_at_least :: "nat \<Rightarrow> nat option list \<Rightarrow> bool" where
  "all_at_least n bs \<longleftrightarrow> length bs = 2 \<and> (\<forall>b < 2. n \<le> bytes (bs ! b))"

lemma all_at_leastD: "all_at_least n bs \<Longrightarrow> m \<le> n \<Longrightarrow> b < 2 \<Longrightarrow> m \<le> bytes (bs ! b)"
  by (auto simp: all_at_least_def intro: order_trans)

lemma all_at_least_two [simp]: "all_at_least n [Some m, Some m] \<longleftrightarrow> n \<le> m"
  by (auto simp: all_at_least_def bytes_def less_2_cases_iff nth_Cons')

lemma all_at_least_none [simp]: "all_at_least n none2 \<longleftrightarrow> n = 0"
  by (auto simp: all_at_least_def none2_def bytes_def less_2_cases_iff nth_Cons')

definition chunk_inv :: "nat \<Rightarrow> ScatterGather \<Rightarrow> bool" where
  "chunk_inv P s \<longleftrightarrow> chunk_mode s \<and>
     all_at_least (chunk_cap_elems s * 4) (d_grids_buf s) \<and> all_at_least (chunk_cap_elems s * 4) (h_grids_buf s) \<and>
     all_at_least (chunk_ver_cap_elems s * P) (h_packed_vers_buf s) \<and>
     all_at_least (chunk_ver_cap_elems s * P) (d_packed_vers_buf s) \<and>
     all_at_least (chunk_ver_cap_elems s) (h_prev_slots_buf s) \<and> all_at_least (chunk_ver_cap_elems s) (d_prev_slots_buf s) \<and>
     all_at_least (chunk_ver_cap_elems s) (h_curr_slots_buf s) \<and> all_at_least (chunk_ver_cap_elems s) (d_curr_slots_buf s)"

text \<open>The accesses of one chunk of \<open>m\<close> elements in buffer \<open>b\<close>.\<close>

definition chunk_fits :: "nat \<Rightarrow> nat \<Rightarrow> nat \<Rightarrow> ScatterGather \<Rightarrow> bool" where
  "chunk_fits P m b s \<longleftrightarrow>
     m * P \<le> bytes (h_packed_vers_buf s ! b) \<and> m * P \<le> bytes (d_packed_vers_buf s ! b) \<and>
     m * 4 \<le> bytes (h_grids_buf s ! b) \<and> m * 4 \<le> bytes (d_grids_buf s ! b) \<and>
     m \<le> bytes (h_prev_slots_buf s ! b) \<and> m \<le> bytes (d_prev_slots_buf s ! b) \<and>
     m \<le> bytes (h_curr_slots_buf s ! b) \<and> m \<le> bytes (d_curr_slots_buf s ! b)"

datatype sg_call = Transfer nat | Writeback nat

fun sg_call_setup :: "nat \<Rightarrow> nat \<Rightarrow> sg_call \<Rightarrow> ScatterGather \<Rightarrow> ScatterGather" where
  "sg_call_setup P W (Transfer n) s = transfer_setup P n s"
| "sg_call_setup P W (Writeback n) s = writeback_setup P W n s"

text \<open>The number of elements a call moves per chunk.\<close>

fun sg_call_chunk :: "nat \<Rightarrow> nat \<Rightarrow> sg_call \<Rightarrow> ScatterGather \<Rightarrow> nat" where
  "sg_call_chunk P W (Transfer n) s = min (transfer_chunk_elems (chunk_bytes s) P n) n"
| "sg_call_chunk P W (Writeback n) s = min (max 1 (chunk_bytes s div W)) n"

lemma ensure_chunk_inv:
  assumes "chunk_inv P s"
  shows "chunk_inv P (ensure_chunk_buffers c (ensure_versions_chunk_buffers P c s))"
    and "c \<le> chunk_cap_elems (ensure_chunk_buffers c (ensure_versions_chunk_buffers P c s))"
    and "c \<le> chunk_ver_cap_elems (ensure_chunk_buffers c (ensure_versions_chunk_buffers P c s))"
  using assms by (auto simp: chunk_inv_def ensure_chunk_buffers_def ensure_versions_chunk_buffers_def Let_def)

lemma chunk_inv_counters [simp]:
  "chunk_inv P (s\<lparr>admit_h2d_payload_bytes_total := x\<rparr>) = chunk_inv P s"
  "chunk_inv P (s\<lparr>writeback_d2h_payload_bytes_total := x\<rparr>) = chunk_inv P s"
  by (simp_all add: chunk_inv_def)

lemma chunk_inv_mode: "chunk_inv P s \<Longrightarrow> chunk_mode s"
  by (simp add: chunk_inv_def)

lemma sg_call_inv: "chunk_inv P s \<Longrightarrow> chunk_inv P (sg_call_setup P W call s)"
  by (cases call) (auto simp: transfer_setup_def writeback_setup_def Let_def chunk_inv_mode intro!: ensure_chunk_inv(1))

lemma sg_calls_inv: "chunk_inv P s \<Longrightarrow> chunk_inv P (fold (sg_call_setup P W) calls s)"
  by (induction calls arbitrary: s) (auto intro: sg_call_inv)

lemma sg_call_caps:
  assumes "chunk_inv P s"
  shows "sg_call_chunk P W call s \<le> chunk_cap_elems (sg_call_setup P W call s)"
    and "sg_call_chunk P W call s \<le> chunk_ver_cap_elems (sg_call_setup P W call s)"
  using ensure_chunk_inv(2,3) [of P "s\<lparr>admit_h2d_payload_bytes_total := x\<rparr>" for x]
    ensure_chunk_inv(2,3) [of P "s\<lparr>writeback_d2h_payload_bytes_total := x\<rparr>" for x] assms
  by (cases call; simp add: transfer_setup_def writeback_setup_def Let_def chunk_inv_mode min.coboundedI1)+

lemma fits_of_inv:
  assumes "chunk_inv P s" and "m \<le> chunk_cap_elems s" and "m \<le> chunk_ver_cap_elems s" and "b < 2"
  shows "chunk_fits P m b s"
  using assms unfolding chunk_fits_def chunk_inv_def
  by (intro conjI) (auto elim!: all_at_leastD intro: mult_le_mono1)

lemma init_chunk_inv:
  "opt_chunk_mode opt \<Longrightarrow> chunk_inv P (sg_init opt given ScatterGather_new)"
  by (simp add: chunk_inv_def sg_init_def ScatterGather_new_def Let_def)

text \<open>C27: An object in chunk mode, after any sequence of admissions and writebacks of any sizes,
  sets its double buffers up so that every chunk of the next call fits into every buffer it
  touches.\<close>

theorem chunked_transfers_in_bounds:
  assumes "opt_chunk_mode opt" and "b < 2"
    and "s = fold (sg_call_setup P W) calls (sg_init opt given ScatterGather_new)"
  shows "chunk_fits P (sg_call_chunk P W call s) b (sg_call_setup P W call s)"
proof -
  have i: "chunk_inv P s" unfolding assms(3) by (rule sg_calls_inv [OF init_chunk_inv [OF assms(1)]])
  show ?thesis by (rule fits_of_inv [OF sg_call_inv [OF i] sg_call_caps [OF i] assms(2)])
qed

definition sample_options :: sg_options where
  "sample_options = \<lparr>opt_own_stream = True, opt_chunk_mode = True, opt_async_writeback = False, opt_chunk_bytes = 4194304\<rparr>"

theorem chunked_transfers_in_bounds_witness:
  "chunk_fits 108 (sg_call_chunk 108 104 (Writeback 50) (fold (sg_call_setup 108 104) [Transfer 7] (sg_init sample_options None ScatterGather_new)))
     1 (sg_call_setup 108 104 (Writeback 50) (fold (sg_call_setup 108 104) [Transfer 7] (sg_init sample_options None ScatterGather_new)))"
  by (rule chunked_transfers_in_bounds [OF _ _ refl]) (simp_all add: sample_options_def)

subsection \<open>The asynchronous flush\<close>

text \<open>One flush of \<open>n\<close> records: the buffers are ensured, then the packed records are copied out in
  parts of the given numbers of records.\<close>

definition flush_setup :: "nat \<Rightarrow> nat \<Rightarrow> nat \<times> nat list \<Rightarrow> ScatterGather \<Rightarrow> ScatterGather" where
  "flush_setup P W fl s = fold (wb_d2h_setup W) (snd fl) (wb_async_ensure P (fst fl) s)"

definition flush_inv :: "nat \<Rightarrow> nat \<Rightarrow> ScatterGather \<Rightarrow> bool" where
  "flush_inv P W s \<longleftrightarrow>
     cap_vers_elems s * P \<le> bytes (d_packed_vers s) \<and> cap_grids_elems s * 4 \<le> bytes (d_grids_persistent s) \<and>
     length (d_curr_slots_buf s) = 2 \<and> curr_slots_cap_elems s \<le> bytes (d_curr_slots_buf s ! 0) \<and>
     all_at_least (wb_d2h_chunk_cap s * W) (h_wb_d2h_buf s)"

lemma grown_ge: "n \<le> grown cap n"
  by (simp add: grown_def Let_def)

lemma wb_async_ensure_inv:
  assumes "flush_inv P W s"
  shows "flush_inv P W (wb_async_ensure P n s)" and "n \<le> cap_vers_elems (wb_async_ensure P n s)"
    and "n \<le> cap_grids_elems (wb_async_ensure P n s)" and "n \<le> curr_slots_cap_elems (wb_async_ensure P n s)"
  using assms
  by (auto simp: flush_inv_def wb_async_ensure_def ensure_versions_capacity_bytes_def ensure_grids_capacity_def
      ensure_curr_slots_def Let_def grown_ge bytes_def)

lemma wb_d2h_setup_inv:
  assumes "flush_inv P W s"
  shows "flush_inv P W (wb_d2h_setup W m s)" and "m \<noteq> 0 \<Longrightarrow> wb_chunk_elems W m \<le> wb_d2h_chunk_cap (wb_d2h_setup W m s)"
  using assms by (auto simp: flush_inv_def wb_d2h_setup_def Let_def)

lemma flush_setup_inv: "flush_inv P W s \<Longrightarrow> flush_inv P W (flush_setup P W fl s)"
proof -
  have "flush_inv P W s \<Longrightarrow> flush_inv P W (fold (wb_d2h_setup W) ms s)" for ms s
    by (induction ms arbitrary: s) (auto intro: wb_d2h_setup_inv(1))
  then show "flush_inv P W s \<Longrightarrow> flush_inv P W (flush_setup P W fl s)"
    by (simp add: flush_setup_def wb_async_ensure_inv(1))
qed

text \<open>An object used for asynchronous flushes, after any sequence of flushes of any sizes, sets
  its buffers up so that the packed records, their slots and tags, and every chunk copied out
  fit into them.\<close>

lemma flush_in_bounds:
  assumes "W \<le> P" and "s = fold (flush_setup P W) flushes (sg_init opt given ScatterGather_new)"
    and "s1 = wb_async_ensure P n s" and "s2 = wb_d2h_setup W m (fold (wb_d2h_setup W) parts s1)"
  shows "n * W \<le> bytes (d_packed_vers s1) \<and> n * 4 \<le> bytes (d_grids_persistent s1)
       \<and> n \<le> bytes (d_curr_slots_buf s1 ! 0)
       \<and> (\<forall>b < 2. m \<noteq> 0 \<longrightarrow> wb_chunk_elems W m * W \<le> bytes (h_wb_d2h_buf s2 ! b))"
proof -
  have "flush_inv P W (sg_init opt given ScatterGather_new)"
    by (simp add: flush_inv_def sg_init_def ScatterGather_new_def Let_def none2_def) (simp add: none2_def [symmetric])
  then have "flush_inv P W (fold (flush_setup P W) fls (sg_init opt given ScatterGather_new))" for fls
    by (induction fls rule: rev_induct) (simp_all add: flush_setup_inv)
  then have i: "flush_inv P W s" by (simp add: assms(2))
  note E = wb_async_ensure_inv [OF i, of n, folded assms(3)]
  have "flush_inv P W (fold (wb_d2h_setup W) ps s1)" for ps
    by (induction ps rule: rev_induct) (simp_all add: E(1) wb_d2h_setup_inv(1))
  note F = wb_d2h_setup_inv [OF this, of m parts, folded assms(4)]
  have "n * W \<le> cap_vers_elems s1 * P" using E(2) assms(1) by (rule mult_le_mono)
  then have "n * W \<le> bytes (d_packed_vers s1)" using E(1) by (simp add: flush_inv_def)
  moreover have "n * 4 \<le> bytes (d_grids_persistent s1)" "n \<le> bytes (d_curr_slots_buf s1 ! 0)"
    using E by (auto simp: flush_inv_def)
  moreover have "wb_chunk_elems W m * W \<le> bytes (h_wb_d2h_buf s2 ! b)" if "b < 2" "m \<noteq> 0" for b
    using F that by (auto simp: flush_inv_def elim!: all_at_leastD)
  ultimately show ?thesis by blast
qed

lemma flush_in_bounds_example:
  "50 * 104 \<le> bytes (d_packed_vers (wb_async_ensure 108 50
      (fold (flush_setup 108 104) [(20, [10, 10]), (30, [15, 15])] (sg_init sample_options None ScatterGather_new))))"
  using flush_in_bounds [of 104 108 _ "[(20, [10, 10]), (30, [15, 15])]" sample_options None, OF _ refl refl refl,
      where n = 50 and m = 25 and parts = "[25]"]
  by simp

subsection \<open>The unchunked admission\<close>

lemma unchunked_step:
  fixes P :: nat
  assumes "\<not> chunk_mode s" and "n \<noteq> 0"
  defines "t \<equiv> transfer_setup P n s"
  shows "\<not> chunk_mode t"
    and "n \<le> cap_vers_elems s \<Longrightarrow> cap_vers_elems t = cap_vers_elems s \<and> cap_prev_slots_elems t = cap_prev_slots_elems s \<and>
           h_prev_slots t = h_prev_slots s \<and> h_packed_vers t = h_packed_vers s"
    and "cap_vers_elems s < n \<Longrightarrow> cap_prev_slots_elems s < n \<Longrightarrow>
           cap_vers_elems t = grown (cap_vers_elems s) n \<and> cap_prev_slots_elems t = n \<and>
           h_prev_slots t = Some n \<and> h_packed_vers t = Some (grown (cap_vers_elems s) n * P)"
proof -
  define s1 where "s1 = s\<lparr>admit_h2d_payload_bytes_total := admit_h2d_payload_bytes_total s + of_nat n * of_nat P\<rparr>"
  have t: "t = ensure_prev_slots n (ensure_grids_capacity n (ensure_versions_capacity_bytes P n s1))"
    using assms(1,2) by (simp add: t_def transfer_setup_def s1_def Let_def)
  have k: "cap_vers_elems t = cap_vers_elems u \<and> cap_prev_slots_elems t = cap_prev_slots_elems u \<and>
      h_prev_slots t = h_prev_slots u \<and> h_packed_vers t = h_packed_vers u \<and> chunk_mode t = chunk_mode u"
    if "u = ensure_versions_capacity_bytes P n s1" for u
    by (simp add: t that [symmetric] ensure_prev_slots_def ensure_grids_capacity_def Let_def)
  have s1: "cap_vers_elems s1 = cap_vers_elems s" "cap_prev_slots_elems s1 = cap_prev_slots_elems s"
    "h_prev_slots s1 = h_prev_slots s" "h_packed_vers s1 = h_packed_vers s" "chunk_mode s1 = chunk_mode s"
    by (simp_all add: s1_def)
  show "\<not> chunk_mode t" using k [OF refl] assms(1) s1 by (simp add: ensure_versions_capacity_bytes_def Let_def)
  show "cap_vers_elems t = cap_vers_elems s \<and> cap_prev_slots_elems t = cap_prev_slots_elems s \<and>
      h_prev_slots t = h_prev_slots s \<and> h_packed_vers t = h_packed_vers s" if "n \<le> cap_vers_elems s"
    using k [OF refl] that s1 by (simp add: ensure_versions_capacity_bytes_def)
  show "cap_vers_elems t = grown (cap_vers_elems s) n \<and> cap_prev_slots_elems t = n \<and>
      h_prev_slots t = Some n \<and> h_packed_vers t = Some (grown (cap_vers_elems s) n * P)"
    if "cap_vers_elems s < n" "cap_prev_slots_elems s < n"
    using k [OF refl] that s1 by (simp add: ensure_versions_capacity_bytes_def Let_def)
qed

text \<open>C28: Without chunk mode, the previous-slot buffer grows only to the size asked for while the
  record buffer grows by half: of three admissions on a fresh object, after those of \<open>c\<close> and \<open>c + 1\<close> records, an admission of
  \<open>c + c div 2\<close> records finds the record buffer large enough, skips the growth, and writes past
  the end of the previous-slot buffer.\<close>

theorem unchunked_admission_overflows:
  assumes "\<not> opt_chunk_mode opt" and "4 \<le> c"
    and "s = transfer_setup P (c + c div 2) (transfer_setup P (c + 1) (transfer_setup P c (sg_init opt given ScatterGather_new)))"
  shows "bytes (h_prev_slots s) < c + c div 2 \<and> (c + c div 2) * P \<le> bytes (h_packed_vers s)"
proof -
  let ?s0 = "sg_init opt given ScatterGather_new"
  let ?s1 = "transfer_setup P c ?s0"
  let ?s2 = "transfer_setup P (c + 1) ?s1"
  have 0: "\<not> chunk_mode ?s0" "cap_vers_elems ?s0 = 0" "cap_prev_slots_elems ?s0 = 0"
    using assms(1) by (simp_all add: sg_init_def ScatterGather_new_def Let_def)
  have h: "0 < c div 2" "grown 0 c = c" "grown c (c + 1) = c + c div 2"
    using assms(2) by (auto simp: grown_def Let_def)
  have 1: "\<not> chunk_mode ?s1" "cap_vers_elems ?s1 = c" "cap_prev_slots_elems ?s1 = c"
    using unchunked_step(1,3) [OF 0(1), of c P] 0 assms(2) h by simp_all
  have 2: "\<not> chunk_mode ?s2" "cap_vers_elems ?s2 = c + c div 2" "h_prev_slots ?s2 = Some (c + 1)"
    "h_packed_vers ?s2 = Some ((c + c div 2) * P)"
    using unchunked_step(1,3) [OF 1(1), of "c + 1" P] 1 h by simp_all
  have "h_prev_slots s = Some (c + 1)" "h_packed_vers s = Some ((c + c div 2) * P)"
    using unchunked_step(2) [OF 2(1), of "c + c div 2" P] 2 assms(2) by (simp_all add: assms(3))
  moreover have "1 < c div 2" using assms(2) by simp
  ultimately show ?thesis by (simp add: bytes_def)
qed

theorem unchunked_admission_overflows_witness:
  "bytes (h_prev_slots (transfer_setup 108 15 (transfer_setup 108 11 (transfer_setup 108 10
     (sg_init (sample_options\<lparr>opt_chunk_mode := False\<rparr>) None ScatterGather_new))))) < 15"
  using unchunked_admission_overflows [of "sample_options\<lparr>opt_chunk_mode := False\<rparr>" 10, OF _ _ refl, of 108 None]
  by simp

subsection \<open>Reset\<close>

lemma sg_reset_cases:
  "sg_reset s =
     (let t = s\<lparr>d_grids_persistent := None, cap_grids_elems := 0, h_packed_vers := None, d_packed_vers := None,
                h_prev_slots := None, cap_vers_elems := 0, cap_prev_slots_elems := 0, h_packed_vers_buf := none2,
                d_packed_vers_buf := none2, h_prev_slots_buf := none2, d_prev_slots_buf := none2,
                h_curr_slots_buf := none2, d_curr_slots_buf := none2, chunk_ver_cap_elems := 0,
                prev_slots_cap_elems := 0, curr_slots_cap_elems := 0,
                stream := (if own_stream s then None else stream s)\<rparr>
      in if chunk_mode s then reset_chunk_buffers t else t)"
  by (cases "chunk_mode s"; cases "own_stream s"; cases "stream s")
    (simp_all add: sg_reset_def reset_versions_buffers_def reset_chunk_buffers_def Let_def)

text \<open>Resetting twice is resetting once; a reset releases the packed-record and slot buffers,
  and in chunk mode the double buffers, events and internal streams, but not the pinned
  buffers of the chunked copy-out.\<close>

lemma reset_idempotent:
  "sg_reset (sg_reset s) = sg_reset s
   \<and> h_packed_vers (sg_reset s) = None \<and> d_packed_vers (sg_reset s) = None \<and> h_prev_slots (sg_reset s) = None
   \<and> d_grids_persistent (sg_reset s) = None \<and> h_packed_vers_buf (sg_reset s) = none2
   \<and> d_curr_slots_buf (sg_reset s) = none2 \<and> d_prev_slots_buf (sg_reset s) = none2
   \<and> (chunk_mode s \<longrightarrow> d_grids_buf (sg_reset s) = none2 \<and> h_grids_buf (sg_reset s) = none2
        \<and> copy_stream (sg_reset s) = None \<and> compute_stream (sg_reset s) = None \<and> h2d_done (sg_reset s) = [False, False])
   \<and> (own_stream s \<longrightarrow> stream (sg_reset s) = None)
   \<and> h_wb_d2h_buf (sg_reset s) = h_wb_d2h_buf s"
  by (cases s; cases "chunk_mode s"; cases "own_stream s")
    (simp_all add: sg_reset_cases reset_chunk_buffers_def Let_def)

lemma reset_idempotent_example:
  "copy_stream (sg_reset (sg_init sample_options None ScatterGather_new)) = None"
  using reset_idempotent [of "sg_init sample_options None ScatterGather_new"]
  by (simp add: sg_init_def sample_options_def Let_def)

end
