(* ===== verification/Device_Memory.thy ===== *)
theory Device_Memory
  imports Prelude
begin

text \<open>
  Host and device memory as the transaction arrays and their bridges use it
  (\<^verbatim>\<open>util_device_type.h\<close>, \<^verbatim>\<open>util_memory.h\<close>, \<^verbatim>\<open>util_memory.cu\<close>, \<^verbatim>\<open>gpu_txn.cu\<close>,
  \<^verbatim>\<open>util_gpu_transfer.cu\<close>). An allocation is a block of bytes that lives on one device, so two
  arrays can share a block; a stream is a queue of copies, which run in order at any time
  between their submission and the next synchronisation. An access outside a live allocation
  of the right device is an error value. The allocators are assumed not to run out of memory.
\<close>

datatype DeviceType = CPU | GPU

datatype mem_error =
    InvalidCopy | InvalidFree | NoStream
  | AlreadyInitialized | AlreadyDestroyed | NumTxnsMismatch | UnsupportedDevice | AssertFailed

type_synonym ptr = "nat option \<times> nat"
type_synonym copy = "ptr \<times> ptr \<times> nat"

record mem =
  blocks :: "nat \<Rightarrow> (DeviceType \<times> u8 list) option"
  next_block :: nat
  queues :: "nat \<Rightarrow> copy list option"
  next_stream :: nat

subsection \<open>Allocation\<close>

definition alloc_block :: "DeviceType \<Rightarrow> nat \<Rightarrow> mem \<Rightarrow> nat option \<times> mem" where
  "alloc_block dev n m =
     (Some (next_block m),
      m\<lparr>blocks := (blocks m)(next_block m := Some (dev, replicate n 0)), next_block := Suc (next_block m)\<rparr>)"

definition free_block :: "DeviceType \<Rightarrow> nat option \<Rightarrow> mem \<Rightarrow> mem_error + mem" where
  "free_block dev p m =
     (case p of
        None \<Rightarrow> Inr m
      | Some b \<Rightarrow>
        (case blocks m b of
           Some (d, bs) \<Rightarrow> if d = dev then Inr (m\<lparr>blocks := (blocks m)(b := None)\<rparr>) else Inl InvalidFree
         | None \<Rightarrow> Inl InvalidFree))"

definition Malloc :: "nat \<Rightarrow> mem \<Rightarrow> nat option \<times> mem" where
  "Malloc n m = alloc_block CPU n m"

definition Free :: "nat option \<Rightarrow> mem \<Rightarrow> mem_error + mem" where
  "Free p m = free_block CPU p m"

text \<open>An allocation of no bytes on the device gives the null pointer.\<close>

definition createGpuTxnArrayStorage :: "nat \<Rightarrow> mem \<Rightarrow> nat option \<times> mem" where
  "createGpuTxnArrayStorage n m = (if n = 0 then (None, m) else alloc_block GPU n m)"

definition destroyGpuTxnArrayStorage :: "nat option \<Rightarrow> mem \<Rightarrow> mem_error + mem" where
  "destroyGpuTxnArrayStorage p m = free_block GPU p m"

subsection \<open>Reads and copies\<close>

definition read_bytes :: "ptr \<Rightarrow> nat \<Rightarrow> mem \<Rightarrow> u8 list option" where
  "read_bytes p n m =
     (case fst p of
        None \<Rightarrow> None
      | Some b \<Rightarrow>
        (case blocks m b of
           None \<Rightarrow> None
         | Some (d, bs) \<Rightarrow> if snd p + n \<le> length bs then Some (take n (drop (snd p) bs)) else None))"

text \<open>A 32-bit integer, little endian.\<close>

definition le_u32 :: "u8 list \<Rightarrow> u32" where
  "le_u32 bs = foldr (\<lambda>b w. ucast b + 256 * w) bs 0"

definition read_u32 :: "ptr \<Rightarrow> mem \<Rightarrow> u32 option" where
  "read_u32 p m = map_option le_u32 (read_bytes p 4 m)"

definition device_of :: "ptr \<Rightarrow> mem \<Rightarrow> DeviceType option" where
  "device_of p m = (case fst p of None \<Rightarrow> None | Some b \<Rightarrow> map_option fst (blocks m b))"

definition splice :: "nat \<Rightarrow> 'a list \<Rightarrow> 'a list \<Rightarrow> 'a list" where
  "splice off src dst = take off dst @ src @ drop (off + length src) dst"

definition run_copy :: "copy \<Rightarrow> mem \<Rightarrow> mem_error + mem" where
  "run_copy c m =
     (case c of (dst, src, n) \<Rightarrow>
        if n = 0 then Inr m
        else (case (read_bytes src n m, read_bytes dst n m, fst dst) of
           (Some bs, Some old, Some b) \<Rightarrow>
             Inr (m\<lparr>blocks := (blocks m)(b := map_option (map_prod id (splice (snd dst) bs)) (blocks m b))\<rparr>)
         | _ \<Rightarrow> Inl InvalidCopy))"

definition copy_ok :: "DeviceType \<Rightarrow> DeviceType \<Rightarrow> copy \<Rightarrow> mem \<Rightarrow> bool" where
  "copy_ok dst_dev src_dev c m =
     (case c of (dst, src, n) \<Rightarrow>
        n = 0 \<or> (device_of dst m = Some dst_dev \<and> device_of src m = Some src_dev \<and>
                 read_bytes dst n m \<noteq> None \<and> read_bytes src n m \<noteq> None))"

definition memcpy_sync :: "DeviceType \<Rightarrow> DeviceType \<Rightarrow> copy \<Rightarrow> mem \<Rightarrow> mem_error + mem" where
  "memcpy_sync dst_dev src_dev c m = (if copy_ok dst_dev src_dev c m then run_copy c m else Inl InvalidCopy)"

subsection \<open>Streams\<close>

definition createGpuStream :: "mem \<Rightarrow> nat \<times> mem" where
  "createGpuStream m =
     (next_stream m, m\<lparr>queues := (queues m)(next_stream m := Some []), next_stream := Suc (next_stream m)\<rparr>)"

definition memcpy_async :: "DeviceType \<Rightarrow> DeviceType \<Rightarrow> copy \<Rightarrow> nat option \<Rightarrow> mem \<Rightarrow> mem_error + mem" where
  "memcpy_async dst_dev src_dev c stream m =
     (case stream of
        None \<Rightarrow> Inl NoStream
      | Some s \<Rightarrow>
        (case queues m s of
           None \<Rightarrow> Inl NoStream
         | Some q \<Rightarrow> if copy_ok dst_dev src_dev c m then Inr (m\<lparr>queues := (queues m)(s := Some (q @ [c]))\<rparr>)
                     else Inl InvalidCopy))"

definition transferCpuToGpu :: "ptr \<Rightarrow> ptr \<Rightarrow> nat \<Rightarrow> nat option \<Rightarrow> mem \<Rightarrow> mem_error + mem" where
  "transferCpuToGpu dst src n stream m = memcpy_async GPU CPU (dst, src, n) stream m"

definition transferGpuToCpu :: "ptr \<Rightarrow> ptr \<Rightarrow> nat \<Rightarrow> nat option \<Rightarrow> mem \<Rightarrow> mem_error + mem" where
  "transferGpuToCpu dst src n stream m = memcpy_async CPU GPU (dst, src, n) stream m"

text \<open>The copies of a stream run one at a time, in order.\<close>

fun run_copies :: "copy list \<Rightarrow> mem \<Rightarrow> mem_error + mem" where
  "run_copies [] m = Inr m"
| "run_copies (c # cs) m = (case run_copy c m of Inl e \<Rightarrow> Inl e | Inr m' \<Rightarrow> run_copies cs m')"

text \<open>The copy engine runs the first \<open>k\<close> queued copies; synchronising runs all of them.\<close>

definition stream_run :: "nat \<Rightarrow> nat option \<Rightarrow> mem \<Rightarrow> mem_error + mem" where
  "stream_run k stream m =
     (case stream of
        None \<Rightarrow> Inl NoStream
      | Some s \<Rightarrow>
        (case queues m s of
           None \<Rightarrow> Inl NoStream
         | Some q \<Rightarrow> run_copies (take k q) (m\<lparr>queues := (queues m)(s := Some (drop k q))\<rparr>)))"

definition syncGpuStream :: "nat option \<Rightarrow> mem \<Rightarrow> mem_error + mem" where
  "syncGpuStream stream m =
     (case stream of
        None \<Rightarrow> Inl NoStream
      | Some s \<Rightarrow>
        (case queues m s of
           None \<Rightarrow> Inl NoStream
         | Some q \<Rightarrow> run_copies q (m\<lparr>queues := (queues m)(s := Some [])\<rparr>)))"

definition destroyGpuStream :: "nat option \<Rightarrow> mem \<Rightarrow> mem_error + nat option \<times> mem" where
  "destroyGpuStream stream m =
     (case stream of
        None \<Rightarrow> Inl NoStream
      | Some s \<Rightarrow> Inr (None, m\<lparr>queues := (queues m)(s := None)\<rparr>))"

subsection \<open>Facts about memory\<close>

definition mem_ok :: "mem \<Rightarrow> bool" where
  "mem_ok m \<longleftrightarrow> (\<forall>b. blocks m b \<noteq> None \<longrightarrow> b < next_block m) \<and> (\<forall>s. queues m s \<noteq> None \<longrightarrow> s < next_stream m)"

lemma blocks_queues_update [simp]:
  "read_bytes p n (m\<lparr>queues := q\<rparr>) = read_bytes p n m"
  "read_bytes p n (m\<lparr>next_stream := s\<rparr>) = read_bytes p n m"
  "read_u32 p (m\<lparr>queues := q\<rparr>) = read_u32 p m"
  "read_u32 p (m\<lparr>next_stream := s\<rparr>) = read_u32 p m"
  by (simp_all add: read_bytes_def read_u32_def cong: option.case_cong)

lemma length_splice [simp]: "off + length src \<le> length dst \<Longrightarrow> length (splice off src dst) = length dst"
  by (simp add: splice_def)

lemma splice_read: "off + length src \<le> length dst \<Longrightarrow> take (length src) (drop off (splice off src dst)) = src"
  by (simp add: splice_def)

lemma splice_outside:
  assumes "off + length src \<le> length dst" and "i + n \<le> off \<or> off + length src \<le> i"
  shows "take n (drop i (splice off src dst)) = take n (drop i dst)"
  using assms
  by (intro nth_equalityI) (auto simp: splice_def nth_append)

text \<open>A copy of \<open>n\<close> bytes between the starts of two different blocks.\<close>

lemma run_copy_blocks:
  assumes "blocks m d = Some (dd, dbs)" and "blocks m s = Some (sd, sbs)" and "n \<le> length dbs" and "n \<le> length sbs"
  shows "run_copy ((Some d, 0), (Some s, 0), n) m =
         Inr (m\<lparr>blocks := (blocks m)(d := Some (dd, take n sbs @ drop n dbs))\<rparr>)"
proof (cases "n = 0")
  case True
  then show ?thesis using assms(1) by (simp add: run_copy_def fun_upd_idem)
next
  case False
  then show ?thesis using assms by (simp add: run_copy_def read_bytes_def splice_def)
qed

lemma copy_ok_blocks:
  assumes "blocks m d = Some (dd, dbs)" and "blocks m s = Some (sd, sbs)" and "n \<le> length dbs" and "n \<le> length sbs"
  shows "copy_ok dd sd ((Some d, 0), (Some s, 0), n) m"
  using assms by (simp add: copy_ok_def device_of_def read_bytes_def)

lemma run_copies_append:
  "run_copies (xs @ ys) m = (case run_copies xs m of Inl e \<Rightarrow> Inl e | Inr m' \<Rightarrow> run_copies ys m')"
  by (induction xs arbitrary: m) (auto split: sum.splits)

lemma run_copy_queues: "run_copy c (m\<lparr>queues := q\<rparr>) = map_sum id (\<lambda>m. m\<lparr>queues := q\<rparr>) (run_copy c m)"
  by (cases c) (auto simp: run_copy_def split: option.splits prod.splits)

lemma run_copies_queues: "run_copies cs (m\<lparr>queues := q\<rparr>) = map_sum id (\<lambda>m. m\<lparr>queues := q\<rparr>) (run_copies cs m)"
  by (induction cs arbitrary: m) (auto simp: run_copy_queues split: sum.splits)

lemma run_copy_keeps_queues: "run_copy c m = Inr m' \<Longrightarrow> queues m' = queues m"
  by (auto simp: run_copy_def split: option.splits prod.splits if_splits)

lemma run_copies_keeps_queues: "run_copies cs m = Inr m' \<Longrightarrow> queues m' = queues m"
proof (induction cs arbitrary: m)
  case Nil
  then show ?case by simp
next
  case (Cons c cs)
  then show ?case by (auto simp: run_copy_keeps_queues split: sum.splits dest: run_copy_keeps_queues)
qed

text \<open>Whatever part of the queue the copy engine has run before, after the synchronisation the whole
  queue has run.\<close>

lemma stream_run_sync:
  assumes "queues m s = Some q" and "run_copies q m = Inr m'"
  shows "\<exists>m1. stream_run k (Some s) m = Inr m1 \<and>
              syncGpuStream (Some s) m1 = Inr (m'\<lparr>queues := (queues m)(s := Some [])\<rparr>)"
proof -
  let ?m = "m\<lparr>queues := (queues m)(s := Some (drop k q))\<rparr>"
  have "run_copies (take k q @ drop k q) m = Inr m'" using assms(2) by simp
  then obtain m1 where m1: "run_copies (take k q) m = Inr m1" and m': "run_copies (drop k q) m1 = Inr m'"
    by (auto simp only: run_copies_append split: sum.splits)
  let ?m1 = "m1\<lparr>queues := (queues m)(s := Some (drop k q))\<rparr>"
  have run: "stream_run k (Some s) m = Inr ?m1"
    using assms(1) m1 by (simp add: stream_run_def run_copies_queues)
  have "syncGpuStream (Some s) ?m1 = run_copies (drop k q) (m1\<lparr>queues := (queues m)(s := Some [])\<rparr>)"
    by (simp add: syncGpuStream_def)
  also have "\<dots> = Inr (m'\<lparr>queues := (queues m)(s := Some [])\<rparr>)"
    using m' by (simp add: run_copies_queues)
  finally show ?thesis using run by blast
qed

end
