(* ===== verification/Txn_Array.thy ===== *)
theory Txn_Array
  imports Device_Memory
begin

text \<open>
  The transaction arrays of \<^verbatim>\<open>txn.h\<close> and their device views of \<^verbatim>\<open>gpu_txn.cuh\<close>. The type parameter
  of the templates appears as \<open>sz\<close>, the size of one transaction without its header. Sizes of
  plain arrays are 64-bit and of packed arrays 32-bit, as in the source. A failed assertion
  and \<^verbatim>\<open>exit\<close> are error values.
\<close>

definition BaseTxnSize :: "nat \<Rightarrow> nat" where
  "BaseTxnSize sz = 4 + sz"

subsection \<open>The input array\<close>

record TxnInputArray =
  ti_txns :: "nat option"
  ti_num_txns :: u64
  ti_epochs :: u64

definition TxnInputArray_new :: "nat \<Rightarrow> u64 \<Rightarrow> u64 \<Rightarrow> mem \<Rightarrow> TxnInputArray \<times> mem" where
  "TxnInputArray_new sz n e m =
     (let (p, m') = Malloc (unat (of_nat (BaseTxnSize sz) * n * e :: u64)) m
      in (\<lparr>ti_txns = p, ti_num_txns = n, ti_epochs = e\<rparr>, m'))"

definition TxnInputArray_getTxn :: "nat \<Rightarrow> TxnInputArray \<Rightarrow> u64 \<Rightarrow> u64 \<Rightarrow> mem_error + ptr" where
  "TxnInputArray_getTxn sz a epoch index =
     (if \<not> index < ti_num_txns a then Inl AssertFailed
      else if \<not> epoch < ti_epochs a then Inl AssertFailed
      else Inr (ti_txns a, unat ((epoch * ti_num_txns a + index) * of_nat (BaseTxnSize sz) :: u64)))"

subsection \<open>Plain arrays\<close>

record TxnArray =
  ta_txns :: "nat option"
  ta_num_txns :: u64
  ta_device :: DeviceType

definition TxnArray_default :: TxnArray where
  "TxnArray_default = \<lparr>ta_txns = None, ta_num_txns = 0, ta_device = CPU\<rparr>"

definition TxnArray_of_num :: "u64 \<Rightarrow> TxnArray" where
  "TxnArray_of_num n = TxnArray_default\<lparr>ta_num_txns := n\<rparr>"

text \<open>The number of bytes of \<open>n\<close> transactions.\<close>

definition txn_bytes :: "nat \<Rightarrow> u64 \<Rightarrow> nat" where
  "txn_bytes sz n = unat (of_nat (BaseTxnSize sz) * n :: u64)"

definition alloc_on :: "DeviceType \<Rightarrow> nat \<Rightarrow> mem \<Rightarrow> nat option \<times> mem" where
  "alloc_on dev n m = (case dev of CPU \<Rightarrow> Malloc n m | GPU \<Rightarrow> createGpuTxnArrayStorage n m)"

definition TxnArray_new :: "nat \<Rightarrow> u64 \<Rightarrow> DeviceType \<Rightarrow> bool \<Rightarrow> mem \<Rightarrow> TxnArray \<times> mem" where
  "TxnArray_new sz n dev initialize m =
     (let a = \<lparr>ta_txns = None, ta_num_txns = n, ta_device = dev\<rparr>
      in if \<not> initialize then (a, m)
         else let (p, m') = alloc_on dev (txn_bytes sz n) m in (a\<lparr>ta_txns := p\<rparr>, m'))"

definition TxnArray_Initialize :: "nat \<Rightarrow> TxnArray \<Rightarrow> mem \<Rightarrow> mem_error + TxnArray \<times> mem" where
  "TxnArray_Initialize sz a m =
     (if ta_txns a \<noteq> None then Inl AlreadyInitialized
      else let (p, m') = alloc_on (ta_device a) (txn_bytes sz (ta_num_txns a)) m in Inr (a\<lparr>ta_txns := p\<rparr>, m'))"

definition TxnArray_Destroy :: "TxnArray \<Rightarrow> mem \<Rightarrow> mem_error + TxnArray \<times> mem" where
  "TxnArray_Destroy a m =
     (if ta_txns a = None then Inl AlreadyDestroyed
      else (case (case ta_device a of CPU \<Rightarrow> Free (ta_txns a) m
                                    | GPU \<Rightarrow> destroyGpuTxnArrayStorage (ta_txns a) m) of
              Inl e \<Rightarrow> Inl e
            | Inr m' \<Rightarrow> Inr (a\<lparr>ta_txns := None\<rparr>, m')))"

definition TxnArray_getTxn :: "nat \<Rightarrow> TxnArray \<Rightarrow> u64 \<Rightarrow> mem_error + ptr" where
  "TxnArray_getTxn sz a index =
     (if \<not> index < ta_num_txns a then Inl AssertFailed
      else Inr (ta_txns a, unat (index * of_nat (BaseTxnSize sz) :: u64)))"

record GpuTxnArray =
  ga_base_size :: nat
  ga_txns :: "nat option"
  ga_num_txns :: u64

definition GpuTxnArray_of :: "nat \<Rightarrow> TxnArray \<Rightarrow> GpuTxnArray" where
  "GpuTxnArray_of sz a = \<lparr>ga_base_size = BaseTxnSize sz, ga_txns = ta_txns a, ga_num_txns = ta_num_txns a\<rparr>"

definition GpuTxnArray_getTxn :: "GpuTxnArray \<Rightarrow> u64 \<Rightarrow> mem_error + ptr" where
  "GpuTxnArray_getTxn g index =
     (if \<not> index < ga_num_txns g then Inl AssertFailed
      else Inr (ga_txns g, unat (index * of_nat (ga_base_size g) :: u64)))"

subsection \<open>Packed arrays\<close>

record PackedTxnArray =
  pa_num_txns :: u32
  pa_txns :: "nat option"
  pa_index :: "nat option"
  pa_capacity :: u32
  pa_size :: u32
  pa_device :: DeviceType

definition PackedTxnArray_of_num :: "nat \<Rightarrow> u32 \<Rightarrow> PackedTxnArray" where
  "PackedTxnArray_of_num sz n =
     \<lparr>pa_num_txns = n, pa_txns = None, pa_index = None, pa_capacity = of_nat (BaseTxnSize sz) * n, pa_size = 0,
      pa_device = CPU\<rparr>"

text \<open>Storage for the packed bytes and for the index table; the entry count is a 32-bit sum.\<close>

definition packed_storage :: "PackedTxnArray \<Rightarrow> mem \<Rightarrow> PackedTxnArray \<times> mem" where
  "packed_storage a m =
     (let (p, m1) = alloc_on (pa_device a) (unat (pa_capacity a)) m;
          (q, m2) = alloc_on (pa_device a) (unat (pa_num_txns a + 1) * 4) m1
      in (a\<lparr>pa_txns := p, pa_index := q\<rparr>, m2))"

definition PackedTxnArray_new :: "nat \<Rightarrow> u32 \<Rightarrow> DeviceType \<Rightarrow> bool \<Rightarrow> mem \<Rightarrow> PackedTxnArray \<times> mem" where
  "PackedTxnArray_new sz n dev initialize m =
     (let a = (PackedTxnArray_of_num sz n)\<lparr>pa_device := dev\<rparr>
      in if \<not> initialize then (a, m) else packed_storage a m)"

definition PackedTxnArray_Initialize :: "PackedTxnArray \<Rightarrow> mem \<Rightarrow> mem_error + PackedTxnArray \<times> mem" where
  "PackedTxnArray_Initialize a m =
     (if pa_txns a \<noteq> None then Inl AlreadyInitialized else Inr (packed_storage a m))"

definition packed_txn_ptr :: "nat option \<Rightarrow> nat option \<Rightarrow> u32 \<Rightarrow> u32 \<Rightarrow> u64 \<Rightarrow> mem \<Rightarrow> mem_error + ptr" where
  "packed_txn_ptr txns index packed_size n txn_id m =
     (if \<not> unat txn_id < unat n then Inl AssertFailed
      else (case read_u32 (index, unat txn_id * 4) m of
              None \<Rightarrow> Inl InvalidCopy
            | Some off \<Rightarrow> if \<not> off < packed_size then Inl AssertFailed else Inr (txns, unat off)))"

definition PackedTxnArray_getTxn :: "PackedTxnArray \<Rightarrow> u64 \<Rightarrow> mem \<Rightarrow> mem_error + ptr" where
  "PackedTxnArray_getTxn a txn_id m =
     (if pa_device a \<noteq> CPU then Inl UnsupportedDevice
      else packed_txn_ptr (pa_txns a) (pa_index a) (pa_size a) (pa_num_txns a) txn_id m)"

record GpuPackedTxnArray =
  gp_txns :: "nat option"
  gp_index :: "nat option"
  gp_size :: u32
  gp_num_txns :: u32

definition GpuPackedTxnArray_of :: "PackedTxnArray \<Rightarrow> GpuPackedTxnArray" where
  "GpuPackedTxnArray_of a =
     \<lparr>gp_txns = pa_txns a, gp_index = pa_index a, gp_size = pa_size a, gp_num_txns = pa_num_txns a\<rparr>"

definition GpuPackedTxnArray_getTxn :: "GpuPackedTxnArray \<Rightarrow> u64 \<Rightarrow> mem \<Rightarrow> mem_error + ptr" where
  "GpuPackedTxnArray_getTxn g txn_id m = packed_txn_ptr (gp_txns g) (gp_index g) (gp_size g) (gp_num_txns g) txn_id m"

subsection \<open>Slots of the arrays\<close>

lemma txn_bytes_nat: "BaseTxnSize sz * unat n < 2 ^ 64 \<Longrightarrow> txn_bytes sz n = BaseTxnSize sz * unat n"
  by (simp add: txn_bytes_def unat_word_ariths unat_of_nat mod_mult_left_eq)

lemma txn_slot_end:
  assumes "i < n" shows "i * k + k \<le> k * (n :: nat)"
proof -
  have "Suc i * k \<le> n * k" using assms by (intro mult_right_mono) auto
  then show ?thesis by (simp add: algebra_simps)
qed

lemma txn_offset_nat:
  assumes "BaseTxnSize sz * unat n < 2 ^ 64" and "i < n"
  shows "unat (i * of_nat (BaseTxnSize sz) :: u64) = unat i * BaseTxnSize sz"
    and "unat i * BaseTxnSize sz + BaseTxnSize sz \<le> BaseTxnSize sz * unat n"
proof -
  show le: "unat i * BaseTxnSize sz + BaseTxnSize sz \<le> BaseTxnSize sz * unat n"
    using assms(2) by (intro txn_slot_end) (simp add: word_less_nat_alt)
  have "unat i * BaseTxnSize sz < 2 ^ 64" using le assms(1) by linarith
  then show "unat (i * of_nat (BaseTxnSize sz) :: u64) = unat i * BaseTxnSize sz"
    by (simp add: unat_word_ariths unat_of_nat mod_mult_right_eq)
qed

text \<open>An initialised array owns a block of its device of exactly the size of its transactions.\<close>

definition array_ok :: "nat \<Rightarrow> TxnArray \<Rightarrow> mem \<Rightarrow> bool" where
  "array_ok sz a m =
     (case ta_txns a of
        None \<Rightarrow> True
      | Some b \<Rightarrow> (case blocks m b of None \<Rightarrow> False
                  | Some (d, bs) \<Rightarrow> d = ta_device a \<and> length bs = txn_bytes sz (ta_num_txns a)))"

lemma array_okE:
  assumes "array_ok sz a m" and "ta_txns a = Some b"
  obtains bs where "blocks m b = Some (ta_device a, bs)" and "length bs = txn_bytes sz (ta_num_txns a)"
  using assms by (auto simp: array_ok_def split: option.splits)

lemma alloc_on_new:
  assumes "0 < n"
  shows "alloc_on dev n m = (Some (next_block m),
           m\<lparr>blocks := (blocks m)(next_block m := Some (dev, replicate n 0)), next_block := Suc (next_block m)\<rparr>)"
  using assms by (cases dev) (simp_all add: alloc_on_def Malloc_def createGpuTxnArrayStorage_def alloc_block_def)

lemma mem_ok_alloc: "mem_ok m \<Longrightarrow> 0 < n \<Longrightarrow> mem_ok (snd (alloc_on dev n m))"
  by (auto simp: alloc_on_new mem_ok_def less_Suc_eq)

lemma mem_ok_fresh: "mem_ok m \<Longrightarrow> blocks m (next_block m) = None"
  by (metis mem_ok_def less_irrefl)

subsection \<open>Input slots\<close>

lemma input_slot_index:
  assumes "i < n" and "e < (E :: nat)"
  shows "e * n + i < n * E"
proof -
  have "e * n + i < Suc e * n" using assms(1) by simp
  also have "\<dots> \<le> E * n" using assms(2) by (intro mult_right_mono) auto
  finally show ?thesis by (simp add: mult.commute)
qed

lemma slots_disjoint:
  assumes "i < (j :: nat)" shows "i * k + k \<le> j * k"
proof -
  have "Suc i * k \<le> j * k" using assms by (intro mult_right_mono) auto
  then show ?thesis by simp
qed

lemma input_offset:
  assumes fit: "BaseTxnSize sz * unat n * unat E < 2 ^ 64" and i: "i < (n :: u64)" and e: "e < (E :: u64)"
  shows "unat ((e * n + i) * of_nat (BaseTxnSize sz) :: u64) = (unat e * unat n + unat i) * BaseTxnSize sz"
    and "(unat e * unat n + unat i) * BaseTxnSize sz + BaseTxnSize sz \<le> BaseTxnSize sz * unat n * unat E"
proof -
  have idx: "unat e * unat n + unat i < unat n * unat E"
    using i e by (intro input_slot_index) (simp_all add: word_less_nat_alt)
  show le: "(unat e * unat n + unat i) * BaseTxnSize sz + BaseTxnSize sz \<le> BaseTxnSize sz * unat n * unat E"
    using txn_slot_end [OF idx] by (simp add: mult.assoc)
  have lt: "(unat e * unat n + unat i) * BaseTxnSize sz < 2 ^ 64"
    using le fit by (simp add: BaseTxnSize_def)
  have "unat e * unat n + unat i \<le> (unat e * unat n + unat i) * BaseTxnSize sz" by (simp add: BaseTxnSize_def)
  then have small: "unat e * unat n + unat i < 2 ^ 64" using lt by linarith
  have "unat (e * n + i :: u64) = unat e * unat n + unat i"
    using small by (simp add: unat_word_ariths mod_add_left_eq)
  then show "unat ((e * n + i) * of_nat (BaseTxnSize sz) :: u64) = (unat e * unat n + unat i) * BaseTxnSize sz"
    using lt by (simp add: unat_word_ariths unat_of_nat mod_mult_right_eq)
qed

lemma input_slot_inj:
  assumes "i < n" and "i' < n" and "e * n + i = e' * n + (i' :: nat)"
  shows "e = e' \<and> i = i'"
proof -
  have "i = (e * n + i) mod n" using assms(1) by simp
  also have "\<dots> = (e' * n + i') mod n" by (simp only: assms(3))
  also have "\<dots> = i'" using assms(2) by simp
  finally have "i = i'" .
  then show ?thesis using assms by auto
qed

text \<open>The slots of the input array. If the total size does not overflow 64 bits, every epoch and
  index in range gets a slot of one transaction inside the allocation, two different
  (epoch, index) pairs get disjoint slots, and everything out of range fails its assertion.\<close>

lemma input_slots_disjoint:
  assumes fit: "BaseTxnSize sz * unat n * unat E < 2 ^ 64"
    and new: "TxnInputArray_new sz n E m = (a, m')"
    and i: "i < n" and e: "e < E" and i': "i' < n" and e': "e' < E"
  shows "(\<exists>b off off'. ti_txns a = Some b \<and> TxnInputArray_getTxn sz a e i = Inr (Some b, off) \<and>
           TxnInputArray_getTxn sz a e' i' = Inr (Some b, off') \<and>
           read_bytes (Some b, off) (BaseTxnSize sz) m' = Some (replicate (BaseTxnSize sz) 0) \<and>
           ((e, i) \<noteq> (e', i') \<longrightarrow> off + BaseTxnSize sz \<le> off' \<or> off' + BaseTxnSize sz \<le> off)) \<and>
         (\<forall>x y. x < n \<and> y < E \<or> TxnInputArray_getTxn sz a y x = Inl AssertFailed)"
proof -
  let ?k = "BaseTxnSize sz"
  have tot: "unat (of_nat ?k * n * E :: u64) = ?k * unat n * unat E"
    using fit by (simp add: unat_word_ariths unat_of_nat mod_mult_left_eq mod_mult_right_eq)
  have a: "a = \<lparr>ti_txns = Some (next_block m), ti_num_txns = n, ti_epochs = E\<rparr>"
    and m': "blocks m' (next_block m) = Some (CPU, replicate (?k * unat n * unat E) 0)"
    using new by (auto simp: TxnInputArray_new_def Malloc_def alloc_block_def tot)
  let ?p = "(unat e * unat n + unat i) * ?k" and ?q = "(unat e' * unat n + unat i') * ?k"
  have get: "TxnInputArray_getTxn sz a e i = Inr (Some (next_block m), ?p)"
    "TxnInputArray_getTxn sz a e' i' = Inr (Some (next_block m), ?q)"
    using i e i' e' by (simp_all add: a TxnInputArray_getTxn_def input_offset(1) [OF fit i e] input_offset(1) [OF fit i' e'])
  have read: "read_bytes (Some (next_block m), ?p) ?k m' = Some (replicate ?k 0)"
    using input_offset(2) [OF fit i e] by (simp add: read_bytes_def m')
  have "?p + ?k \<le> ?q \<or> ?q + ?k \<le> ?p" if ne: "(e, i) \<noteq> (e', i')"
  proof -
    have "unat e * unat n + unat i \<noteq> unat e' * unat n + unat i'"
      using input_slot_inj [of "unat i" "unat n" "unat i'" "unat e" "unat e'"] i i' ne
      by (auto simp: word_less_nat_alt word_unat_eq_iff)
    then show ?thesis using slots_disjoint by (meson nat_neq_iff)
  qed
  then have "\<exists>b off off'. ti_txns a = Some b \<and> TxnInputArray_getTxn sz a e i = Inr (Some b, off) \<and>
           TxnInputArray_getTxn sz a e' i' = Inr (Some b, off') \<and>
           read_bytes (Some b, off) (BaseTxnSize sz) m' = Some (replicate (BaseTxnSize sz) 0) \<and>
           ((e, i) \<noteq> (e', i') \<longrightarrow> off + BaseTxnSize sz \<le> off' \<or> off' + BaseTxnSize sz \<le> off)"
    using get read by (intro exI [of _ "next_block m"] exI [of _ ?p] exI [of _ ?q]) (simp add: a)
  moreover have "x < n \<and> y < E \<or> TxnInputArray_getTxn sz a y x = Inl AssertFailed" for x y
    by (auto simp: TxnInputArray_getTxn_def a)
  ultimately show ?thesis by blast
qed

definition empty_mem :: mem where
  "empty_mem = \<lparr>blocks = (\<lambda>_. None), next_block = 0, queues = (\<lambda>_. None), next_stream = 0\<rparr>"

lemma input_slots_disjoint_example:
  "\<exists>b off off'. ti_txns (fst (TxnInputArray_new 8 5 3 empty_mem)) = Some b \<and>
     TxnInputArray_getTxn 8 (fst (TxnInputArray_new 8 5 3 empty_mem)) 2 4 = Inr (Some b, off) \<and>
     TxnInputArray_getTxn 8 (fst (TxnInputArray_new 8 5 3 empty_mem)) 1 4 = Inr (Some b, off') \<and>
     (off + BaseTxnSize 8 \<le> off' \<or> off' + BaseTxnSize 8 \<le> off)"
proof -
  have fit: "BaseTxnSize 8 * unat (5 :: u64) * unat (3 :: u64) < 2 ^ 64" by (simp add: BaseTxnSize_def)
  show ?thesis
    using input_slots_disjoint [OF fit prod.collapse [symmetric], of 4 2 4 1 empty_mem] by auto
qed

end
