(* ===== verification/Txn_Bridge.thy ===== *)
theory Txn_Bridge
  imports Txn_Array
begin

text \<open>
  The transfer of transaction arrays between host and device (\<^verbatim>\<open>txn_bridge.h\<close>,
  \<^verbatim>\<open>txn_bridge.cpp\<close>): linking two arrays, starting the asynchronous copies and waiting for them.
  Arrays on the same device share their storage instead. The lemmas show what a linked pair
  of arrays reads as after the transfer, for every progress of the copy engine between start
  and finish, and what happens to arrays of different lengths and to the trailing entry of the
  index of a packed array.
\<close>

subsection \<open>Plain arrays\<close>

record TxnBridge =
  br_src_type :: DeviceType
  br_dst_type :: DeviceType
  br_txn_size :: nat
  br_num_txns :: u64
  br_src_ptr :: "nat option"
  br_dest_ptr :: "nat option"
  br_stream :: "nat option"

definition TxnBridge_new :: TxnBridge where
  "TxnBridge_new =
     \<lparr>br_src_type = CPU, br_dst_type = CPU, br_txn_size = 0, br_num_txns = 0, br_src_ptr = None, br_dest_ptr = None,
      br_stream = None\<rparr>"

definition ensure_initialized :: "nat \<Rightarrow> TxnArray \<Rightarrow> mem \<Rightarrow> mem_error + TxnArray \<times> mem" where
  "ensure_initialized sz a m = (if ta_txns a = None then TxnArray_Initialize sz a m else Inr (a, m))"

definition ensure_stream :: "DeviceType \<Rightarrow> DeviceType \<Rightarrow> nat option \<Rightarrow> mem \<Rightarrow> nat option \<times> mem" where
  "ensure_stream src dst stream m =
     (if (src = GPU \<or> dst = GPU) \<and> stream = None then (let (s, m') = createGpuStream m in (Some s, m'))
      else (stream, m))"

text \<open>A mismatch of the lengths is only logged.\<close>

definition TxnBridge_Link ::
  "nat \<Rightarrow> TxnBridge \<Rightarrow> TxnArray \<Rightarrow> TxnArray \<Rightarrow> mem \<Rightarrow> mem_error + TxnBridge \<times> TxnArray \<times> TxnArray \<times> mem" where
  "TxnBridge_Link sz br src dest m =
     (case ensure_initialized sz src m of
        Inl e \<Rightarrow> Inl e
      | Inr (src1, m1) \<Rightarrow>
        (case (if ta_device src1 = ta_device dest then Inr (dest\<lparr>ta_txns := ta_txns src1\<rparr>, m1)
               else ensure_initialized sz dest m1) of
           Inl e \<Rightarrow> Inl e
         | Inr (dest1, m2) \<Rightarrow>
           let (stream, m3) = ensure_stream (ta_device src1) (ta_device dest1) (br_stream br) m2
           in Inr (\<lparr>br_src_type = ta_device src1, br_dst_type = ta_device dest1, br_txn_size = BaseTxnSize sz,
                    br_num_txns = ta_num_txns src1, br_src_ptr = ta_txns src1, br_dest_ptr = ta_txns dest1,
                    br_stream = stream\<rparr>, src1, dest1, m3)))"

definition TxnBridge_StartTransfer :: "TxnBridge \<Rightarrow> mem \<Rightarrow> mem_error + mem" where
  "TxnBridge_StartTransfer br m =
     (let n = unat (of_nat (br_txn_size br) * br_num_txns br :: u64)
      in if br_src_type br = CPU \<and> br_dst_type br = CPU then Inr m
         else if br_src_type br = GPU \<and> br_dst_type br = GPU then Inr m
         else if br_src_type br = GPU then transferGpuToCpu (br_dest_ptr br, 0) (br_src_ptr br, 0) n (br_stream br) m
         else transferCpuToGpu (br_dest_ptr br, 0) (br_src_ptr br, 0) n (br_stream br) m)"

definition TxnBridge_FinishTransfer :: "TxnBridge \<Rightarrow> mem \<Rightarrow> mem_error + mem" where
  "TxnBridge_FinishTransfer br m =
     (if br_src_type br = CPU \<and> br_dst_type br = CPU then Inr m
      else if br_src_type br = GPU \<and> br_dst_type br = GPU then Inr m
      else syncGpuStream (br_stream br) m)"

text \<open>Between start and finish the copy engine may run \<open>k\<close> of the queued copies.\<close>

definition copy_engine :: "nat \<Rightarrow> nat option \<Rightarrow> mem \<Rightarrow> mem_error + mem" where
  "copy_engine k stream m = (if stream = None then Inr m else stream_run k stream m)"

definition start_and_finish :: "nat \<Rightarrow> TxnBridge \<Rightarrow> mem \<Rightarrow> mem_error + mem" where
  "start_and_finish k br m =
     (case TxnBridge_StartTransfer br m of
        Inl e \<Rightarrow> Inl e
      | Inr m1 \<Rightarrow> (case copy_engine k (br_stream br) m1 of
                    Inl e \<Rightarrow> Inl e
                  | Inr m2 \<Rightarrow> TxnBridge_FinishTransfer br m2))"

subsection \<open>Linking\<close>

definition sized :: "nat \<Rightarrow> u64 \<Rightarrow> bool" where
  "sized sz n \<longleftrightarrow> 0 < n \<and> BaseTxnSize sz * unat n < 2 ^ 64"

lemma sized_bytes: "sized sz n \<Longrightarrow> txn_bytes sz n = BaseTxnSize sz * unat n \<and> 0 < txn_bytes sz n"
  by (auto simp: sized_def txn_bytes_nat BaseTxnSize_def word_less_nat_alt)

lemma ensure_initialized_ok:
  assumes m: "mem_ok m" and a: "array_ok sz a m" and n: "sized sz (ta_num_txns a)"
  obtains a' m' b bs where "ensure_initialized sz a m = Inr (a', m')" and "a' = a\<lparr>ta_txns := Some b\<rparr>"
    and "mem_ok m'" and "blocks m' b = Some (ta_device a, bs)" and "length bs = txn_bytes sz (ta_num_txns a)"
    and "queues m' = queues m" and "\<forall>c x. blocks m c = Some x \<longrightarrow> blocks m' c = Some x"
proof (cases "ta_txns a")
  case None
  let ?n = "txn_bytes sz (ta_num_txns a)"
  let ?m = "m\<lparr>blocks := (blocks m)(next_block m := Some (ta_device a, replicate ?n 0)),
              next_block := Suc (next_block m)\<rparr>"
  have pos: "0 < ?n" using sized_bytes [OF n] by (rule conjunct2)
  have eq: "ensure_initialized sz a m = Inr (a\<lparr>ta_txns := Some (next_block m)\<rparr>, ?m)"
    using None by (simp add: ensure_initialized_def TxnArray_Initialize_def alloc_on_new [OF pos])
  have ok: "mem_ok ?m" using m by (auto simp: mem_ok_def less_Suc_eq)
  have "blocks ?m c = Some x" if "blocks m c = Some x" for c x
    using that mem_ok_fresh [OF m] by auto
  then show ?thesis using that [OF eq refl ok] by simp
next
  case (Some b)
  obtain bs where "blocks m b = Some (ta_device a, bs)" "length bs = txn_bytes sz (ta_num_txns a)"
    using array_okE [OF a Some] .
  then show ?thesis using that [of a m b] Some m by (simp add: ensure_initialized_def)
qed

text \<open>The bridge's own stream, when it has one already, is idle.\<close>

definition idle :: "nat option \<Rightarrow> mem \<Rightarrow> bool" where
  "idle stream m = (case stream of None \<Rightarrow> True | Some s \<Rightarrow> queues m s = Some [])"

lemma ensure_stream_ok:
  assumes "mem_ok m" and "idle stream m"
  obtains stream' m' where "ensure_stream src dst stream m = (stream', m')" and "idle stream' m'"
    and "blocks m' = blocks m" and "next_block m' = next_block m" and "mem_ok m'"
    and "src \<noteq> dst \<Longrightarrow> stream' \<noteq> None"
proof -
  have two: "src \<noteq> dst \<Longrightarrow> src = GPU \<or> dst = GPU" by (cases src; cases dst) auto
  show ?thesis
  proof (cases "(src = GPU \<or> dst = GPU) \<and> stream = None")
    case True
    let ?m = "m\<lparr>queues := (queues m)(next_stream m := Some []), next_stream := Suc (next_stream m)\<rparr>"
    have "ensure_stream src dst stream m = (Some (next_stream m), ?m)"
      using True by (simp add: ensure_stream_def createGpuStream_def)
    moreover have "mem_ok ?m" using assms(1) by (auto simp: mem_ok_def less_Suc_eq)
    ultimately show ?thesis using that by (simp add: idle_def)
  next
    case False
    then have "ensure_stream src dst stream m = (stream, m)" unfolding ensure_stream_def by (rule if_not_P)
    then show ?thesis using that assms False two by blast
  qed
qed

text \<open>What linking establishes.\<close>

definition linked :: "nat \<Rightarrow> TxnBridge \<Rightarrow> TxnArray \<Rightarrow> TxnArray \<Rightarrow> mem \<Rightarrow> bool" where
  "linked sz br src dest m \<longleftrightarrow>
     (\<exists>s d sbs dbs. ta_txns src = Some s \<and> ta_txns dest = Some d \<and>
        blocks m s = Some (ta_device src, sbs) \<and> length sbs = txn_bytes sz (ta_num_txns src) \<and>
        blocks m d = Some (ta_device dest, dbs) \<and>
        (if ta_device src = ta_device dest then d = s else length dbs = txn_bytes sz (ta_num_txns dest)) \<and>
        br_src_type br = ta_device src \<and> br_dst_type br = ta_device dest \<and> br_txn_size br = BaseTxnSize sz \<and>
        br_num_txns br = ta_num_txns src \<and> br_src_ptr br = Some s \<and> br_dest_ptr br = Some d \<and>
        idle (br_stream br) m \<and> (ta_device src \<noteq> ta_device dest \<longrightarrow> br_stream br \<noteq> None))"

lemma idle_queues: "idle stream m \<Longrightarrow> queues m' = queues m \<Longrightarrow> idle stream m'"
  by (simp add: idle_def split: option.splits)

lemma Link_linked:
  assumes m: "mem_ok m" and src: "array_ok sz src m" and dest: "array_ok sz dest m"
    and ns: "sized sz (ta_num_txns src)" and nd: "sized sz (ta_num_txns dest)" and st: "idle (br_stream br) m"
  obtains br' s d m' where
    "TxnBridge_Link sz br src dest m = Inr (br', src\<lparr>ta_txns := Some s\<rparr>, dest\<lparr>ta_txns := Some d\<rparr>, m')"
    and "linked sz br' (src\<lparr>ta_txns := Some s\<rparr>) (dest\<lparr>ta_txns := Some d\<rparr>) m'"
    and "\<forall>c x. blocks m c = Some x \<longrightarrow> blocks m' c = Some x"
    and "ta_txns src \<noteq> None \<longrightarrow> ta_txns src = Some s"
proof -
  obtain src1 m1 s sbs where init: "ensure_initialized sz src m = Inr (src1, m1)"
    and src1: "src1 = src\<lparr>ta_txns := Some s\<rparr>" and m1: "mem_ok m1"
    and sb: "blocks m1 s = Some (ta_device src, sbs)" "length sbs = txn_bytes sz (ta_num_txns src)"
    and q1: "queues m1 = queues m" and keep1: "\<forall>c x. blocks m c = Some x \<longrightarrow> blocks m1 c = Some x"
    using ensure_initialized_ok [OF m src ns] .
  have st1: "idle (br_stream br) m1" by (rule idle_queues [OF st q1])
  have given: "ta_txns src = Some s" if "ta_txns src \<noteq> None"
    using init src1 that by (cases src) (auto simp: ensure_initialized_def)
  let ?step = "if ta_device src1 = ta_device dest then Inr (dest\<lparr>ta_txns := ta_txns src1\<rparr>, m1)
               else ensure_initialized sz dest m1"
  have "\<exists>d dbs m2. ?step = Inr (dest\<lparr>ta_txns := Some d\<rparr>, m2) \<and> mem_ok m2 \<and>
           blocks m2 d = Some (ta_device dest, dbs) \<and>
           (if ta_device src = ta_device dest then d = s else length dbs = txn_bytes sz (ta_num_txns dest)) \<and>
           queues m2 = queues m1 \<and> (\<forall>c x. blocks m1 c = Some x \<longrightarrow> blocks m2 c = Some x)"
  proof (cases "ta_device src = ta_device dest")
    case True
    then show ?thesis using sb m1 by (intro exI [of _ s] exI [of _ sbs] exI [of _ m1]) (simp add: src1)
  next
    case False
    have dest1: "array_ok sz dest m1"
      using dest keep1 by (fastforce simp: array_ok_def split: option.splits)
    obtain dest' m2 d dbs where "ensure_initialized sz dest m1 = Inr (dest', m2)"
      "dest' = dest\<lparr>ta_txns := Some d\<rparr>" "mem_ok m2" "blocks m2 d = Some (ta_device dest, dbs)"
      "length dbs = txn_bytes sz (ta_num_txns dest)" "queues m2 = queues m1"
      "\<forall>c x. blocks m1 c = Some x \<longrightarrow> blocks m2 c = Some x"
      using ensure_initialized_ok [OF m1 dest1 nd] .
    then show ?thesis using False by (intro exI [of _ d] exI [of _ dbs] exI [of _ m2]) (simp add: src1)
  qed
  then obtain d dbs m2 where step: "?step = Inr (dest\<lparr>ta_txns := Some d\<rparr>, m2)" and m2: "mem_ok m2"
    and db: "blocks m2 d = Some (ta_device dest, dbs)"
    and len: "if ta_device src = ta_device dest then d = s else length dbs = txn_bytes sz (ta_num_txns dest)"
    and q2: "queues m2 = queues m1" and keep2: "\<forall>c x. blocks m1 c = Some x \<longrightarrow> blocks m2 c = Some x"
    by blast
  obtain stream m3 where str: "ensure_stream (ta_device src) (ta_device dest) (br_stream br) m2 = (stream, m3)"
    and idle3: "idle stream m3" and b3: "blocks m3 = blocks m2"
    and some: "ta_device src \<noteq> ta_device dest \<Longrightarrow> stream \<noteq> None"
    using ensure_stream_ok [OF m2 idle_queues [OF st1 q2], of "ta_device src" "ta_device dest"] by metis
  let ?br = "\<lparr>br_src_type = ta_device src, br_dst_type = ta_device dest, br_txn_size = BaseTxnSize sz,
              br_num_txns = ta_num_txns src, br_src_ptr = Some s, br_dest_ptr = Some d, br_stream = stream\<rparr>"
  have link: "TxnBridge_Link sz br src dest m = Inr (?br, src\<lparr>ta_txns := Some s\<rparr>, dest\<lparr>ta_txns := Some d\<rparr>, m3)"
    using step str len by (simp add: TxnBridge_Link_def init src1 split: if_splits)
  have "linked sz ?br (src\<lparr>ta_txns := Some s\<rparr>) (dest\<lparr>ta_txns := Some d\<rparr>) m3"
    using sb keep2 db len idle3 some by (auto simp: linked_def b3)
  then show ?thesis using that [OF link] given keep1 keep2 by (simp add: b3)
qed

subsection \<open>Transferring\<close>

lemma DeviceType_two: "a \<noteq> b \<Longrightarrow> a = CPU \<and> b = GPU \<or> a = GPU \<and> b = CPU"
  by (cases a; cases b) auto

lemma linked_copies:
  assumes l: "linked sz br src dest m" and dev: "ta_device src \<noteq> ta_device dest"
    and n: "ta_num_txns src = ta_num_txns dest" and sized: "sized sz (ta_num_txns src)"
  obtains s d sbs m' where "ta_txns src = Some s" and "ta_txns dest = Some d" and "s \<noteq> d"
    and "blocks m s = Some (ta_device src, sbs)" and "length sbs = BaseTxnSize sz * unat (ta_num_txns src)"
    and "start_and_finish k br m = Inr m'" and "blocks m' = (blocks m)(d := Some (ta_device dest, sbs))"
proof -
  obtain s d sbs dbs where p: "ta_txns src = Some s" "ta_txns dest = Some d"
    and sb: "blocks m s = Some (ta_device src, sbs)" "length sbs = txn_bytes sz (ta_num_txns src)"
    and db: "blocks m d = Some (ta_device dest, dbs)" "length dbs = txn_bytes sz (ta_num_txns dest)"
    and br: "br_src_type br = ta_device src" "br_dst_type br = ta_device dest" "br_txn_size br = BaseTxnSize sz"
      "br_num_txns br = ta_num_txns src" "br_src_ptr br = Some s" "br_dest_ptr br = Some d"
    and idle: "idle (br_stream br) m" and some: "br_stream br \<noteq> None"
    using l dev unfolding linked_def by auto
  obtain t where t: "br_stream br = Some t" "queues m t = Some []"
    using idle some by (auto simp: idle_def)
  let ?n = "txn_bytes sz (ta_num_txns src)"
  let ?c = "((Some d, 0), (Some s, 0), ?n)"
  let ?q = "m\<lparr>queues := (queues m)(t := Some [?c])\<rparr>"
  have ok: "copy_ok (ta_device dest) (ta_device src) ?c m"
    using db sb n by (intro copy_ok_blocks) auto
  have start: "TxnBridge_StartTransfer br m = Inr ?q"
    using DeviceType_two [OF dev] ok
    by (auto simp: TxnBridge_StartTransfer_def br t transferCpuToGpu_def transferGpuToCpu_def memcpy_async_def
          txn_bytes_def)
  let ?m = "?q\<lparr>blocks := (blocks m)(d := Some (ta_device dest, sbs))\<rparr>"
  have run: "run_copies [?c] ?q = Inr ?m"
    using run_copy_blocks [of ?q d "ta_device dest" dbs s "ta_device src" sbs ?n] db sb n by simp
  obtain m2 where m2: "stream_run k (Some t) ?q = Inr m2"
    and sync: "syncGpuStream (Some t) m2 = Inr (?m\<lparr>queues := (queues ?q)(t := Some [])\<rparr>)"
    using stream_run_sync [OF _ run, of t k] by auto
  have fin: "start_and_finish k br m = Inr (?m\<lparr>queues := (queues ?q)(t := Some [])\<rparr>)"
    using DeviceType_two [OF dev] sync
    by (auto simp: start_and_finish_def start copy_engine_def t m2 TxnBridge_FinishTransfer_def br)
  have "s \<noteq> d" using sb db dev by auto
  then show ?thesis
    using that [OF p _ sb(1) _ fin] sb(2) sized_bytes [OF sized] by simp
qed

lemma linked_aliases:
  assumes l: "linked sz br src dest m" and dev: "ta_device src = ta_device dest"
  obtains m' where "start_and_finish k br m = Inr m'" and "blocks m' = blocks m" and "ta_txns dest = ta_txns src"
proof -
  have br: "br_src_type br = ta_device src" "br_dst_type br = ta_device src" and t: "ta_txns dest = ta_txns src"
    and idle: "idle (br_stream br) m"
    using l dev unfolding linked_def by auto
  obtain m' where "copy_engine k (br_stream br) m = Inr m'" and "blocks m' = blocks m"
    using idle by (cases "br_stream br") (auto simp: copy_engine_def stream_run_def idle_def)
  then show ?thesis
    using that t by (cases "ta_device src")
      (auto simp: start_and_finish_def TxnBridge_StartTransfer_def TxnBridge_FinishTransfer_def br)
qed

lemma getTxn_slot:
  assumes "sized sz (ta_num_txns a)" and "ta_txns a = Some b" and "i < ta_num_txns a"
    and "blocks m b = Some (dev, bs)" and "length bs = BaseTxnSize sz * unat (ta_num_txns a)"
  shows "TxnArray_getTxn sz a i = Inr (Some b, unat i * BaseTxnSize sz)"
    and "read_bytes (Some b, unat i * BaseTxnSize sz) (BaseTxnSize sz) m =
         Some (take (BaseTxnSize sz) (drop (unat i * BaseTxnSize sz) bs))"
proof -
  have fit: "BaseTxnSize sz * unat (ta_num_txns a) < 2 ^ 64" using assms(1) by (simp add: sized_def)
  show "TxnArray_getTxn sz a i = Inr (Some b, unat i * BaseTxnSize sz)"
    using assms(2,3) txn_offset_nat(1) [OF fit assms(3)] by (simp add: TxnArray_getTxn_def)
  show "read_bytes (Some b, unat i * BaseTxnSize sz) (BaseTxnSize sz) m =
        Some (take (BaseTxnSize sz) (drop (unat i * BaseTxnSize sz) bs))"
    using assms(4,5) txn_offset_nat(2) [OF fit assms(3)] by (simp add: read_bytes_def)
qed

text \<open>C29: Delivery. For two arrays of the same length whose size fits into 64 bits, linking them and
  starting and finishing the transfer always succeeds, whatever the devices, whether or not
  the arrays were allocated before and however far the copy engine gets on its own; then
  every transaction of the destination reads exactly as the transaction of the source with the
  same index, and the source is unchanged.\<close>

theorem bridge_delivers:
  assumes "mem_ok m" and "array_ok sz src m" and "array_ok sz dest m" and "sized sz (ta_num_txns src)"
    and "ta_num_txns src = ta_num_txns dest" and "idle (br_stream br) m"
  shows "\<exists>br' src' dest' m1 m2.
           TxnBridge_Link sz br src dest m = Inr (br', src', dest', m1) \<and> start_and_finish k br' m1 = Inr m2 \<and>
           (\<forall>b. ta_txns src = Some b \<longrightarrow> ta_txns src' = Some b \<and> blocks m2 b = blocks m b) \<and>
           (\<forall>i < ta_num_txns src. \<exists>p q v.
              TxnArray_getTxn sz src' i = Inr p \<and> TxnArray_getTxn sz dest' i = Inr q \<and>
              read_bytes p (BaseTxnSize sz) m1 = Some v \<and> read_bytes q (BaseTxnSize sz) m2 = Some v)"
proof -
  have nd: "sized sz (ta_num_txns dest)" using assms by simp
  obtain br' s d m1 where
    link: "TxnBridge_Link sz br src dest m = Inr (br', src\<lparr>ta_txns := Some s\<rparr>, dest\<lparr>ta_txns := Some d\<rparr>, m1)"
    and l: "linked sz br' (src\<lparr>ta_txns := Some s\<rparr>) (dest\<lparr>ta_txns := Some d\<rparr>) m1"
    and keep: "\<forall>c x. blocks m c = Some x \<longrightarrow> blocks m1 c = Some x"
    and given: "ta_txns src \<noteq> None \<longrightarrow> ta_txns src = Some s"
    using Link_linked [OF assms(1-4) nd assms(6)] .
  let ?src = "src\<lparr>ta_txns := Some s\<rparr>" and ?dest = "dest\<lparr>ta_txns := Some d\<rparr>"
  have "\<exists>sbs m2. blocks m1 s = Some (ta_device src, sbs) \<and> length sbs = BaseTxnSize sz * unat (ta_num_txns src) \<and>
          start_and_finish k br' m1 = Inr m2 \<and> blocks m2 s = blocks m1 s \<and> blocks m2 d = Some (ta_device dest, sbs)"
  proof (cases "ta_device src = ta_device dest")
    case True
    then obtain m2 where "start_and_finish k br' m1 = Inr m2" "blocks m2 = blocks m1" "d = s"
      using linked_aliases [OF l, of k] by auto
    then show ?thesis using l True sized_bytes [OF assms(4)] by (auto simp: linked_def)
  next
    case False
    then have dev: "ta_device ?src \<noteq> ta_device ?dest" by simp
    show ?thesis by (rule linked_copies [OF l dev, of k]) (use assms(4,5) in auto)
  qed
  then obtain sbs m2 where sb: "blocks m1 s = Some (ta_device src, sbs)"
    "length sbs = BaseTxnSize sz * unat (ta_num_txns src)"
    and fin: "start_and_finish k br' m1 = Inr m2" and same: "blocks m2 s = blocks m1 s"
    and db: "blocks m2 d = Some (ta_device dest, sbs)" by blast
  have "\<exists>p q v. TxnArray_getTxn sz ?src i = Inr p \<and> TxnArray_getTxn sz ?dest i = Inr q \<and>
          read_bytes p (BaseTxnSize sz) m1 = Some v \<and> read_bytes q (BaseTxnSize sz) m2 = Some v"
    if i: "i < ta_num_txns src" for i
    using getTxn_slot [of sz ?src s i m1 "ta_device src" sbs] getTxn_slot [of sz ?dest d i m2 "ta_device dest" sbs]
      sb db assms(4,5) i by auto
  moreover have "ta_txns ?src = Some b \<and> blocks m2 b = blocks m b" if b: "ta_txns src = Some b" for b
  proof -
    have "b = s" using given b by simp
    moreover obtain x where "blocks m b = Some x" using array_okE [OF assms(2) b] by metis
    ultimately show ?thesis using keep same by (cases x) simp
  qed
  ultimately show ?thesis using link fin by blast
qed

theorem bridge_delivers_witness:
  "\<exists>br' src' dest' m1 m2.
     TxnBridge_Link 8 TxnBridge_new (TxnArray_of_num 3) \<lparr>ta_txns = None, ta_num_txns = 3, ta_device = GPU\<rparr> empty_mem =
       Inr (br', src', dest', m1) \<and> start_and_finish 1 br' m1 = Inr m2 \<and>
     (\<exists>p q v. TxnArray_getTxn 8 src' 2 = Inr p \<and> TxnArray_getTxn 8 dest' 2 = Inr q \<and>
        read_bytes p 12 m1 = Some v \<and> read_bytes q 12 m2 = Some v)"
proof -
  have "\<exists>br' src' dest' m1 m2.
     TxnBridge_Link 8 TxnBridge_new (TxnArray_of_num 3) \<lparr>ta_txns = None, ta_num_txns = 3, ta_device = GPU\<rparr> empty_mem =
       Inr (br', src', dest', m1) \<and> start_and_finish 1 br' m1 = Inr m2 \<and>
     (\<forall>b. ta_txns (TxnArray_of_num 3) = Some b \<longrightarrow> ta_txns src' = Some b \<and> blocks m2 b = blocks empty_mem b) \<and>
     (\<forall>i < ta_num_txns (TxnArray_of_num 3). \<exists>p q v.
        TxnArray_getTxn 8 src' i = Inr p \<and> TxnArray_getTxn 8 dest' i = Inr q \<and>
        read_bytes p (BaseTxnSize 8) m1 = Some v \<and> read_bytes q (BaseTxnSize 8) m2 = Some v)"
    by (rule bridge_delivers)
      (simp_all add: mem_ok_def empty_mem_def array_ok_def TxnArray_of_num_def TxnArray_default_def sized_def
        BaseTxnSize_def idle_def TxnBridge_new_def)
  then obtain br' src' dest' m1 m2 where
    l: "TxnBridge_Link 8 TxnBridge_new (TxnArray_of_num 3) \<lparr>ta_txns = None, ta_num_txns = 3, ta_device = GPU\<rparr> empty_mem =
        Inr (br', src', dest', m1)" and f: "start_and_finish 1 br' m1 = Inr m2"
    and r: "\<forall>i < ta_num_txns (TxnArray_of_num 3). \<exists>p q v.
        TxnArray_getTxn 8 src' i = Inr p \<and> TxnArray_getTxn 8 dest' i = Inr q \<and>
        read_bytes p (BaseTxnSize 8) m1 = Some v \<and> read_bytes q (BaseTxnSize 8) m2 = Some v" by blast
  have two: "(2 :: u64) < ta_num_txns (TxnArray_of_num 3)" by (simp add: TxnArray_of_num_def)
  have size: "BaseTxnSize 8 = 12" by (simp add: BaseTxnSize_def)
  show ?thesis using l f r [rule_format, OF two] unfolding size by blast
qed

text \<open>Lengths are not checked. If the destination is shorter than the source and on the other
  device, linking still succeeds; it is the transfer that runs past the end of the destination
  block.\<close>

lemma link_accepts_mismatch:
  assumes "mem_ok m" and "array_ok sz src m" and "array_ok sz dest m" and "sized sz (ta_num_txns src)"
    and "sized sz (ta_num_txns dest)" and "idle (br_stream br) m"
    and dev: "ta_device src \<noteq> ta_device dest" and short: "ta_num_txns dest < ta_num_txns src"
  shows "\<exists>br' src' dest' m1. TxnBridge_Link sz br src dest m = Inr (br', src', dest', m1) \<and>
           TxnBridge_StartTransfer br' m1 = Inl InvalidCopy"
proof -
  obtain br' s d m1 where
    link: "TxnBridge_Link sz br src dest m = Inr (br', src\<lparr>ta_txns := Some s\<rparr>, dest\<lparr>ta_txns := Some d\<rparr>, m1)"
    and l: "linked sz br' (src\<lparr>ta_txns := Some s\<rparr>) (dest\<lparr>ta_txns := Some d\<rparr>) m1"
    using Link_linked [OF assms(1-6)] by metis
  obtain dbs where db: "blocks m1 d = Some (ta_device dest, dbs)" "length dbs = txn_bytes sz (ta_num_txns dest)"
    and br: "br_src_type br' = ta_device src" "br_dst_type br' = ta_device dest" "br_txn_size br' = BaseTxnSize sz"
      "br_num_txns br' = ta_num_txns src" "br_src_ptr br' = Some s" "br_dest_ptr br' = Some d"
    and idle: "idle (br_stream br') m1" and some: "br_stream br' \<noteq> None"
    using l dev unfolding linked_def by auto
  obtain t where t: "br_stream br' = Some t" "queues m1 t = Some []" using idle some by (auto simp: idle_def)
  have "length dbs < txn_bytes sz (ta_num_txns src)"
    using short db(2) sized_bytes [OF assms(4)] sized_bytes [OF assms(5)]
    by (simp add: word_less_nat_alt BaseTxnSize_def)
  then have "\<not> copy_ok x y ((Some d, 0), (Some s, 0), txn_bytes sz (ta_num_txns src)) m1" for x y
    using db(1) by (auto simp: copy_ok_def read_bytes_def)
  then have "TxnBridge_StartTransfer br' m1 = Inl InvalidCopy"
    using DeviceType_two [OF dev]
    by (auto simp: TxnBridge_StartTransfer_def br t transferCpuToGpu_def transferGpuToCpu_def memcpy_async_def
          txn_bytes_def [symmetric])
  then show ?thesis using link by blast
qed

lemma link_accepts_mismatch_example:
  "\<exists>br' src' dest' m1. TxnBridge_Link 8 TxnBridge_new (TxnArray_of_num 3)
       \<lparr>ta_txns = None, ta_num_txns = 2, ta_device = GPU\<rparr> empty_mem = Inr (br', src', dest', m1) \<and>
     TxnBridge_StartTransfer br' m1 = Inl InvalidCopy"
  by (rule link_accepts_mismatch)
    (simp_all add: mem_ok_def empty_mem_def array_ok_def TxnArray_of_num_def TxnArray_default_def sized_def
      BaseTxnSize_def idle_def TxnBridge_new_def)

subsection \<open>Packed arrays\<close>

record PackedTxnBridge =
  pb_src_type :: DeviceType
  pb_dst_type :: DeviceType
  pb_txn_size :: nat
  pb_num_txns :: nat
  pb_packed_size :: u32
  pb_src_ptr :: "nat option"
  pb_src_index_ptr :: "nat option"
  pb_dest_ptr :: "nat option"
  pb_dest_index_ptr :: "nat option"
  pb_stream :: "nat option"

definition PackedTxnBridge_new :: PackedTxnBridge where
  "PackedTxnBridge_new =
     \<lparr>pb_src_type = CPU, pb_dst_type = CPU, pb_txn_size = 0, pb_num_txns = 0, pb_packed_size = 0, pb_src_ptr = None,
      pb_src_index_ptr = None, pb_dest_ptr = None, pb_dest_index_ptr = None, pb_stream = None\<rparr>"

definition ensure_packed_initialized :: "PackedTxnArray \<Rightarrow> mem \<Rightarrow> mem_error + PackedTxnArray \<times> mem" where
  "ensure_packed_initialized a m = (if pa_txns a = None then PackedTxnArray_Initialize a m else Inr (a, m))"

definition PackedTxnBridge_Link ::
  "nat \<Rightarrow> PackedTxnBridge \<Rightarrow> PackedTxnArray \<Rightarrow> PackedTxnArray \<Rightarrow> mem \<Rightarrow>
   mem_error + PackedTxnBridge \<times> PackedTxnArray \<times> PackedTxnArray \<times> mem" where
  "PackedTxnBridge_Link sz br src dest m =
     (if pa_num_txns src \<noteq> pa_num_txns dest then Inl NumTxnsMismatch
      else (case ensure_packed_initialized src m of
        Inl e \<Rightarrow> Inl e
      | Inr (src1, m1) \<Rightarrow>
        (case (if pa_device src1 = pa_device dest
               then Inr (dest\<lparr>pa_txns := pa_txns src1, pa_index := pa_index src1\<rparr>, m1)
               else ensure_packed_initialized dest m1) of
           Inl e \<Rightarrow> Inl e
         | Inr (dest1, m2) \<Rightarrow>
           let (stream, m3) = ensure_stream (pa_device src1) (pa_device dest1) (pb_stream br) m2
           in Inr (br\<lparr>pb_src_type := pa_device src1, pb_dst_type := pa_device dest1, pb_txn_size := BaseTxnSize sz,
                      pb_num_txns := unat (pa_num_txns src1), pb_src_ptr := pa_txns src1,
                      pb_src_index_ptr := pa_index src1, pb_dest_ptr := pa_txns dest1,
                      pb_dest_index_ptr := pa_index dest1, pb_stream := stream\<rparr>, src1, dest1, m3))))"

text \<open>The two arrays are passed along because the bridge keeps pointers to their size fields.\<close>

definition PackedTxnBridge_StartTransfer ::
  "PackedTxnBridge \<Rightarrow> PackedTxnArray \<Rightarrow> PackedTxnArray \<Rightarrow> mem \<Rightarrow>
   mem_error + PackedTxnBridge \<times> PackedTxnArray \<times> PackedTxnArray \<times> mem" where
  "PackedTxnBridge_StartTransfer br src dest m =
     (if pb_src_type br = CPU \<and> pb_dst_type br = CPU then Inr (br, src, dest, m)
      else if pb_src_type br = GPU \<and> pb_dst_type br = GPU then Inr (br, src, dest, m)
      else if pb_src_type br = GPU then
        (case read_u32 (pb_src_index_ptr br, pb_num_txns br * 4) m of
           None \<Rightarrow> Inl InvalidCopy
         | Some packed_size \<Rightarrow>
           (case transferGpuToCpu (pb_dest_ptr br, 0) (pb_src_ptr br, 0) (unat packed_size) (pb_stream br) m of
              Inl e \<Rightarrow> Inl e
            | Inr m1 \<Rightarrow>
              (case transferGpuToCpu (pb_dest_index_ptr br, 0) (pb_src_index_ptr br, 0) (pb_num_txns br * 4)
                      (pb_stream br) m1 of
                 Inl e \<Rightarrow> Inl e
               | Inr m2 \<Rightarrow> Inr (br\<lparr>pb_packed_size := packed_size\<rparr>, src\<lparr>pa_size := packed_size\<rparr>,
                               dest\<lparr>pa_size := packed_size\<rparr>, m2))))
      else
        (case transferCpuToGpu (pb_dest_ptr br, 0) (pb_src_ptr br, 0) (unat (pa_size src)) (pb_stream br) m of
           Inl e \<Rightarrow> Inl e
         | Inr m1 \<Rightarrow>
           (case transferCpuToGpu (pb_dest_index_ptr br, 0) (pb_src_index_ptr br, 0) (pb_num_txns br * 4)
                   (pb_stream br) m1 of
              Inl e \<Rightarrow> Inl e
            | Inr m2 \<Rightarrow> Inr (br\<lparr>pb_packed_size := pa_size src\<rparr>, src, dest\<lparr>pa_size := pa_size src\<rparr>, m2))))"

definition PackedTxnBridge_FinishTransfer :: "PackedTxnBridge \<Rightarrow> mem \<Rightarrow> mem_error + mem" where
  "PackedTxnBridge_FinishTransfer br m =
     (if pb_src_type br = CPU \<and> pb_dst_type br = CPU then Inr m
      else if pb_src_type br = GPU \<and> pb_dst_type br = GPU then Inr m
      else syncGpuStream (pb_stream br) m)"

definition packed_start_and_finish ::
  "nat \<Rightarrow> PackedTxnBridge \<Rightarrow> PackedTxnArray \<Rightarrow> PackedTxnArray \<Rightarrow> mem \<Rightarrow>
   mem_error + PackedTxnArray \<times> PackedTxnArray \<times> mem" where
  "packed_start_and_finish k br src dest m =
     (case PackedTxnBridge_StartTransfer br src dest m of
        Inl e \<Rightarrow> Inl e
      | Inr (br1, src1, dest1, m1) \<Rightarrow>
        (case copy_engine k (pb_stream br1) m1 of
           Inl e \<Rightarrow> Inl e
         | Inr m2 \<Rightarrow> (case PackedTxnBridge_FinishTransfer br1 m2 of Inl e \<Rightarrow> Inl e | Inr m3 \<Rightarrow> Inr (src1, dest1, m3))))"

subsection \<open>Linking and transferring packed arrays\<close>

text \<open>Two blocks of a device, for the packed bytes and for the index with its trailing entry.\<close>

definition packed_blocks :: "PackedTxnArray \<Rightarrow> u8 list \<Rightarrow> u8 list \<Rightarrow> mem \<Rightarrow> bool" where
  "packed_blocks a bs xs m \<longleftrightarrow>
     (\<exists>t x. pa_txns a = Some t \<and> pa_index a = Some x \<and> t \<noteq> x \<and>
        blocks m t = Some (pa_device a, bs) \<and> blocks m x = Some (pa_device a, xs) \<and>
        length bs = unat (pa_capacity a) \<and> length xs = 4 * (unat (pa_num_txns a) + 1))"

definition packed_ok :: "PackedTxnArray \<Rightarrow> mem \<Rightarrow> bool" where
  "packed_ok a m \<longleftrightarrow> 0 < pa_capacity a \<and> pa_num_txns a \<noteq> - 1 \<and> (pa_txns a = None \<or> (\<exists>bs xs. packed_blocks a bs xs m))"

lemma unat_num_entries: "(n :: u32) \<noteq> - 1 \<Longrightarrow> unat (n + 1) = unat n + 1"
proof -
  assume "n \<noteq> - 1"
  then have "n \<noteq> sentinel" by (simp add: sentinel_max)
  then have "unat n + 1 < 2 ^ 32" by (simp add: less_sentinel_iff)
  then show ?thesis by (simp add: unat_word_ariths)
qed

lemma packed_blocks_keep:
  "packed_blocks a bs xs m \<Longrightarrow> \<forall>c y. blocks m c = Some y \<longrightarrow> blocks m' c = Some y \<Longrightarrow> packed_blocks a bs xs m'"
  by (auto simp: packed_blocks_def)

lemma packed_ok_keep:
  "packed_ok a m \<Longrightarrow> \<forall>c y. blocks m c = Some y \<longrightarrow> blocks m' c = Some y \<Longrightarrow> packed_ok a m'"
  unfolding packed_ok_def using packed_blocks_keep by blast

lemma ensure_packed_ok:
  assumes m: "mem_ok m" and a: "packed_ok a m"
  obtains t x m' bs xs where "ensure_packed_initialized a m = Inr (a\<lparr>pa_txns := Some t, pa_index := Some x\<rparr>, m')"
    and "mem_ok m'" and "packed_blocks (a\<lparr>pa_txns := Some t, pa_index := Some x\<rparr>) bs xs m'"
    and "queues m' = queues m" and "\<forall>c y. blocks m c = Some y \<longrightarrow> blocks m' c = Some y"
    and "pa_txns a = None \<longrightarrow> xs = replicate (4 * (unat (pa_num_txns a) + 1)) 0"
    and "pa_txns a \<noteq> None \<longrightarrow> pa_txns a = Some t \<and> pa_index a = Some x \<and> m' = m"
proof (cases "pa_txns a")
  case None
  let ?b = "next_block m" and ?n = "unat (pa_capacity a)" and ?i = "4 * (unat (pa_num_txns a) + 1)"
  let ?m = "m\<lparr>blocks := (blocks m)(?b := Some (pa_device a, replicate ?n 0), Suc ?b := Some (pa_device a, replicate ?i 0)),
              next_block := Suc (Suc ?b)\<rparr>"
  have pos: "0 < ?n" and one: "pa_num_txns a \<noteq> - 1" using a by (auto simp: packed_ok_def word_less_nat_alt)
  have alloc: "alloc_on (pa_device a) ?n m =
      (Some ?b, m\<lparr>blocks := (blocks m)(?b := Some (pa_device a, replicate ?n 0)), next_block := Suc ?b\<rparr>)"
    by (rule alloc_on_new [OF pos])
  have eq: "ensure_packed_initialized a m = Inr (a\<lparr>pa_txns := Some ?b, pa_index := Some (Suc ?b)\<rparr>, ?m)"
    using None unat_num_entries [OF one]
    by (simp add: ensure_packed_initialized_def PackedTxnArray_Initialize_def packed_storage_def alloc
        alloc_on_new mult.commute)
  have ok: "mem_ok ?m" using m by (auto simp: mem_ok_def less_Suc_eq)
  have own: "packed_blocks (a\<lparr>pa_txns := Some ?b, pa_index := Some (Suc ?b)\<rparr>) (replicate ?n 0) (replicate ?i 0) ?m"
    by (simp add: packed_blocks_def)
  have "blocks m ?b = None" "blocks m (Suc ?b) = None"
    using m unfolding mem_ok_def by (metis less_irrefl, metis lessI not_less_iff_gr_or_eq)
  then have keep: "\<forall>c y. blocks m c = Some y \<longrightarrow> blocks ?m c = Some y" by auto
  show ?thesis by (rule that [OF eq ok own _ keep]) (use None in simp_all)
next
  case (Some t)
  then obtain bs xs where "packed_blocks a bs xs m" using a by (auto simp: packed_ok_def)
  then obtain x where x: "pa_index a = Some x" by (auto simp: packed_blocks_def)
  have same: "a\<lparr>pa_txns := Some t, pa_index := Some x\<rparr> = a" using Some x by (cases a) simp
  have eq: "ensure_packed_initialized a m = Inr (a, m)" using Some by (simp add: ensure_packed_initialized_def)
  show ?thesis
    by (rule that [of x t m bs xs, unfolded same, OF eq m \<open>packed_blocks a bs xs m\<close> refl]) (simp_all add: Some x)
qed

definition packed_linked ::
  "PackedTxnBridge \<Rightarrow> PackedTxnArray \<Rightarrow> PackedTxnArray \<Rightarrow> u8 list \<times> u8 list \<Rightarrow> u8 list \<times> u8 list \<Rightarrow> mem \<Rightarrow> bool" where
  "packed_linked br src dest sb db m \<longleftrightarrow>
     packed_blocks src (fst sb) (snd sb) m \<and> packed_blocks dest (fst db) (snd db) m \<and>
     pb_src_type br = pa_device src \<and> pb_dst_type br = pa_device dest \<and> pb_num_txns br = unat (pa_num_txns src) \<and>
     pb_src_ptr br = pa_txns src \<and> pb_src_index_ptr br = pa_index src \<and>
     pb_dest_ptr br = pa_txns dest \<and> pb_dest_index_ptr br = pa_index dest \<and>
     pb_stream br \<noteq> None \<and> idle (pb_stream br) m"

lemma packed_Link_linked:
  assumes m: "mem_ok m" and src: "packed_ok src m" and dest: "packed_ok dest m"
    and n: "pa_num_txns src = pa_num_txns dest" and dev: "pa_device src \<noteq> pa_device dest"
    and st: "idle (pb_stream br) m" and init: "pa_txns src \<noteq> None"
  obtains br' sb dest' db m' where "PackedTxnBridge_Link sz br src dest m = Inr (br', src, dest', m')"
    and "packed_linked br' src dest' sb db m'" and "packed_blocks src (fst sb) (snd sb) m" and "mem_ok m'"
    and "pa_num_txns dest' = pa_num_txns dest" and "pa_capacity dest' = pa_capacity dest"
    and "pa_device dest' = pa_device dest" and "pa_size dest' = pa_size dest"
    and "pa_txns dest = None \<longrightarrow> snd db = replicate (4 * (unat (pa_num_txns dest) + 1)) 0"
proof -
  obtain sbs sxs where sb: "packed_blocks src sbs sxs m" using src init by (auto simp: packed_ok_def)
  have src1: "ensure_packed_initialized src m = Inr (src, m)"
    using init by (auto simp: ensure_packed_initialized_def)
  obtain t x m2 bs xs where d: "ensure_packed_initialized dest m = Inr (dest\<lparr>pa_txns := Some t, pa_index := Some x\<rparr>, m2)"
    and m2: "mem_ok m2" and db: "packed_blocks (dest\<lparr>pa_txns := Some t, pa_index := Some x\<rparr>) bs xs m2"
    and q2: "queues m2 = queues m" and keep: "\<forall>c y. blocks m c = Some y \<longrightarrow> blocks m2 c = Some y"
    and new: "pa_txns dest = None \<longrightarrow> xs = replicate (4 * (unat (pa_num_txns dest) + 1)) 0"
    and "pa_txns dest \<noteq> None \<longrightarrow> pa_txns dest = Some t \<and> pa_index dest = Some x \<and> m2 = m"
    using ensure_packed_ok [OF m dest] .
  let ?dest = "dest\<lparr>pa_txns := Some t, pa_index := Some x\<rparr>"
  obtain stream m3 where str: "ensure_stream (pa_device src) (pa_device dest) (pb_stream br) m2 = (stream, m3)"
    and idle3: "idle stream m3" and b3: "blocks m3 = blocks m2" and m3: "mem_ok m3" and some: "stream \<noteq> None"
    using ensure_stream_ok [OF m2 idle_queues [OF st q2], of "pa_device src" "pa_device dest"] dev by metis
  let ?br = "br\<lparr>pb_src_type := pa_device src, pb_dst_type := pa_device dest, pb_txn_size := BaseTxnSize sz,
                pb_num_txns := unat (pa_num_txns src), pb_src_ptr := pa_txns src,
                pb_src_index_ptr := pa_index src, pb_dest_ptr := Some t,
                pb_dest_index_ptr := Some x, pb_stream := stream\<rparr>"
  have link: "PackedTxnBridge_Link sz br src dest m = Inr (?br, src, ?dest, m3)"
    using n dev str by (simp add: PackedTxnBridge_Link_def src1 d)
  have "packed_blocks src sbs sxs m3" "packed_blocks ?dest bs xs m3"
    using packed_blocks_keep [OF sb keep] db b3 by (simp_all add: packed_blocks_def)
  then have "packed_linked ?br src ?dest (sbs, sxs) (bs, xs) m3"
    using idle3 some by (simp add: packed_linked_def)
  then show ?thesis using that [OF link] sb m3 new by simp
qed

text \<open>The number of packed bytes: the host array records it, a device array keeps it behind its index.\<close>

definition packed_length :: "PackedTxnArray \<Rightarrow> mem \<Rightarrow> u32 option" where
  "packed_length a m =
     (case pa_device a of CPU \<Rightarrow> Some (pa_size a) | GPU \<Rightarrow> read_u32 (pa_index a, unat (pa_num_txns a) * 4) m)"

lemma le_u32_entry:
  assumes "packed_blocks a bs xs m" and "i \<le> unat (pa_num_txns a)"
  shows "read_u32 (pa_index a, i * 4) m = Some (le_u32 (take 4 (drop (i * 4) xs)))"
proof -
  have "i * 4 + 4 \<le> 4 * (unat (pa_num_txns a) + 1)" using assms(2) by simp
  then show ?thesis using assms(1) by (auto simp: packed_blocks_def read_u32_def read_bytes_def)
qed

lemma packed_transfer:
  assumes l: "packed_linked br src dest sb db m" and dev: "pa_device src \<noteq> pa_device dest"
    and n: "pa_num_txns src = pa_num_txns dest" and cap: "pa_capacity src = pa_capacity dest"
    and size: "packed_length src m = Some sz" and fits: "sz \<le> pa_capacity src" and m: "mem_ok m"
  obtains m' where
    "packed_start_and_finish k br src dest m = Inr (src\<lparr>pa_size := sz\<rparr>, dest\<lparr>pa_size := sz\<rparr>, m')"
    and "packed_blocks src (fst sb) (snd sb) m'"
    and "packed_blocks dest (take (unat sz) (fst sb) @ drop (unat sz) (fst db))
           (take (unat (pa_num_txns src) * 4) (snd sb) @ drop (unat (pa_num_txns src) * 4) (snd db)) m'"
    and "idle (pb_stream br) m'" and "mem_ok m'"
proof -
  obtain t x where src: "pa_txns src = Some t" "pa_index src = Some x" "t \<noteq> x"
    and sb: "blocks m t = Some (pa_device src, fst sb)" "blocks m x = Some (pa_device src, snd sb)"
      "length (fst sb) = unat (pa_capacity src)" "length (snd sb) = 4 * (unat (pa_num_txns src) + 1)"
    using l by (auto simp: packed_linked_def packed_blocks_def)
  obtain t' x' where dest: "pa_txns dest = Some t'" "pa_index dest = Some x'" "t' \<noteq> x'"
    and db: "blocks m t' = Some (pa_device dest, fst db)" "blocks m x' = Some (pa_device dest, snd db)"
      "length (fst db) = unat (pa_capacity src)" "length (snd db) = 4 * (unat (pa_num_txns src) + 1)"
    using l n cap by (auto simp: packed_linked_def packed_blocks_def)
  have ne: "t \<noteq> t'" "t \<noteq> x'" "x \<noteq> t'" "x \<noteq> x'" using sb db dev by auto
  have br: "pb_src_type br = pa_device src" "pb_dst_type br = pa_device dest" "pb_num_txns br = unat (pa_num_txns src)"
    "pb_src_ptr br = Some t" "pb_src_index_ptr br = Some x" "pb_dest_ptr br = Some t'" "pb_dest_index_ptr br = Some x'"
    using l src dest by (auto simp: packed_linked_def)
  obtain q where q: "pb_stream br = Some q" "queues m q = Some []"
    using l by (auto simp: packed_linked_def idle_def)
  let ?n = "unat (pa_num_txns src) * 4"
  let ?c1 = "((Some t', 0), (Some t, 0), unat sz)" and ?c2 = "((Some x', 0), (Some x, 0), ?n)"
  have le: "unat sz \<le> unat (pa_capacity src)" using fits by (simp add: word_le_nat_alt)
  have ok: "copy_ok (pa_device dest) (pa_device src) ?c1 m" "copy_ok (pa_device dest) (pa_device src) ?c2 (m\<lparr>queues := u\<rparr>)"
    for u using sb db le by (auto intro!: copy_ok_blocks)
  let ?q = "m\<lparr>queues := (queues m)(q := Some [?c1, ?c2])\<rparr>"
  have start: "PackedTxnBridge_StartTransfer br src dest m =
      Inr (br\<lparr>pb_packed_size := sz\<rparr>, src\<lparr>pa_size := sz\<rparr>, dest\<lparr>pa_size := sz\<rparr>, ?q)"
    using DeviceType_two [OF dev] ok size src
    by (auto simp: PackedTxnBridge_StartTransfer_def br q transferCpuToGpu_def transferGpuToCpu_def memcpy_async_def
          packed_length_def)
  let ?bs = "take (unat sz) (fst sb) @ drop (unat sz) (fst db)" and ?xs = "take ?n (snd sb) @ drop ?n (snd db)"
  let ?m1 = "?q\<lparr>blocks := (blocks m)(t' := Some (pa_device dest, ?bs))\<rparr>"
  let ?m = "?q\<lparr>blocks := (blocks m)(t' := Some (pa_device dest, ?bs), x' := Some (pa_device dest, ?xs))\<rparr>"
  have "run_copy ?c1 ?q = Inr ?m1"
    using run_copy_blocks [of ?q t' "pa_device dest" "fst db" t "pa_device src" "fst sb" "unat sz"] db sb le by simp
  moreover have "run_copy ?c2 ?m1 = Inr ?m"
    using run_copy_blocks [of ?m1 x' "pa_device dest" "snd db" x "pa_device src" "snd sb" ?n] db sb ne dest(3)
    by simp
  ultimately have run: "run_copies [?c1, ?c2] ?q = Inr ?m" by simp
  obtain m2 where m2: "stream_run k (Some q) ?q = Inr m2"
    and sync: "syncGpuStream (Some q) m2 = Inr (?m\<lparr>queues := (queues ?q)(q := Some [])\<rparr>)"
    using stream_run_sync [OF _ run, of q k] by auto
  let ?f = "?m\<lparr>queues := (queues ?q)(q := Some [])\<rparr>"
  have fin: "packed_start_and_finish k br src dest m = Inr (src\<lparr>pa_size := sz\<rparr>, dest\<lparr>pa_size := sz\<rparr>, ?f)"
    using DeviceType_two [OF dev] sync
    by (auto simp: packed_start_and_finish_def start copy_engine_def q m2 PackedTxnBridge_FinishTransfer_def br)
  have "packed_blocks src (fst sb) (snd sb) ?f" using src sb ne by (simp add: packed_blocks_def)
  moreover have "packed_blocks dest ?bs ?xs ?f"
    using dest sb db le n cap by (simp add: packed_blocks_def min_def)
  moreover have "mem_ok ?f" using m db q(2) by (auto simp: mem_ok_def)
  moreover have "idle (pb_stream br) ?f" by (simp add: idle_def q)
  ultimately show ?thesis using that [OF fin] by blast
qed

lemma take_drop_prefix:
  "off + len \<le> k \<Longrightarrow> k \<le> length xs \<Longrightarrow> take len (drop off (take k xs @ ys)) = take len (drop off xs)"
  by (simp add: take_drop min_def)

lemma packed_read:
  assumes "packed_blocks a bs xs m" and "off + len \<le> unat (pa_capacity a)"
  shows "read_bytes (pa_txns a, off) len m = Some (take len (drop off bs))"
  using assms by (auto simp: packed_blocks_def read_bytes_def)

lemma packed_view:
  assumes "packed_blocks a bs xs m"
  shows "GpuPackedTxnArray_getTxn (GpuPackedTxnArray_of (a\<lparr>pa_size := sz\<rparr>)) i m =
         (if \<not> unat i < unat (pa_num_txns a) then Inl AssertFailed
          else let off = le_u32 (take 4 (drop (unat i * 4) xs))
               in if \<not> off < sz then Inl AssertFailed else Inr (pa_txns a, unat off))"
  using le_u32_entry [OF assms, of "unat i"]
  by (simp add: GpuPackedTxnArray_getTxn_def GpuPackedTxnArray_of_def packed_txn_ptr_def Let_def)

text \<open>C30: Delivery of packed arrays. If the packed bytes fit into the capacity, linking and
  transferring to an array of the same shape on the other device succeeds in both directions.
  Afterwards both arrays record the packed size, every transaction that the source finds is found by
  the destination at the same offset, and all of its packed bytes read the same.\<close>

theorem packed_bridge_delivers:
  assumes "mem_ok m" and "packed_ok src m" and "packed_ok dest m" and "pa_num_txns src = pa_num_txns dest"
    and dev: "pa_device src \<noteq> pa_device dest" and "idle (pb_stream br) m" and "pa_txns src \<noteq> None"
    and cap: "pa_capacity src = pa_capacity dest" and size: "packed_length src m = Some sz"
    and fits: "sz \<le> pa_capacity src"
  shows "\<exists>br' src1 dest1 m1 src2 dest2 m2.
           PackedTxnBridge_Link tsz br src dest m = Inr (br', src1, dest1, m1) \<and>
           packed_start_and_finish k br' src1 dest1 m1 = Inr (src2, dest2, m2) \<and>
           pa_size src2 = sz \<and> pa_size dest2 = sz \<and>
           (\<forall>i p off. GpuPackedTxnArray_getTxn (GpuPackedTxnArray_of src2) i m = Inr (p, off) \<longrightarrow>
              (\<exists>q. GpuPackedTxnArray_getTxn (GpuPackedTxnArray_of dest2) i m2 = Inr (q, off) \<and>
                 (\<forall>len. off + len \<le> unat sz \<longrightarrow> read_bytes (q, off) len m2 = read_bytes (p, off) len m)))"
proof -
  obtain br' sb dest' db m1 where link: "PackedTxnBridge_Link tsz br src dest m = Inr (br', src, dest', m1)"
    and l: "packed_linked br' src dest' sb db m1" and s: "packed_blocks src (fst sb) (snd sb) m" and m1: "mem_ok m1"
    and d: "pa_num_txns dest' = pa_num_txns dest" "pa_capacity dest' = pa_capacity dest"
      "pa_device dest' = pa_device dest"
    using packed_Link_linked [OF assms(1-7), of tsz] by metis
  have s1: "packed_blocks src (fst sb) (snd sb) m1" using l by (simp add: packed_linked_def)
  have len: "packed_length src m1 = Some sz"
    using size le_u32_entry [OF s, of "unat (pa_num_txns src)"] le_u32_entry [OF s1, of "unat (pa_num_txns src)"]
    by (simp add: packed_length_def split: DeviceType.splits)
  have dev': "pa_device src \<noteq> pa_device dest'" and n': "pa_num_txns src = pa_num_txns dest'"
    and cap': "pa_capacity src = pa_capacity dest'" using d dev cap assms(4) by simp_all
  let ?n = "unat (pa_num_txns src) * 4"
  let ?bs = "take (unat sz) (fst sb) @ drop (unat sz) (fst db)" and ?xs = "take ?n (snd sb) @ drop ?n (snd db)"
  obtain m2 where fin: "packed_start_and_finish k br' src dest' m1 = Inr (src\<lparr>pa_size := sz\<rparr>, dest'\<lparr>pa_size := sz\<rparr>, m2)"
    and t: "packed_blocks dest' ?bs ?xs m2"
    using packed_transfer [OF l dev' n' cap' len fits m1] by metis
  have le: "unat sz \<le> unat (pa_capacity src)" using fits by (simp add: word_le_nat_alt)
  have "\<exists>q. GpuPackedTxnArray_getTxn (GpuPackedTxnArray_of (dest'\<lparr>pa_size := sz\<rparr>)) i m2 = Inr (q, off) \<and>
          (\<forall>len. off + len \<le> unat sz \<longrightarrow> read_bytes (q, off) len m2 = read_bytes (p, off) len m)"
    if get: "GpuPackedTxnArray_getTxn (GpuPackedTxnArray_of (src\<lparr>pa_size := sz\<rparr>)) i m = Inr (p, off)" for i p off
  proof -
    have i: "unat i < unat (pa_num_txns src)" and p: "p = pa_txns src"
      using get unfolding packed_view [OF s] by (auto simp: Let_def split: if_splits)
    have lx: "?n \<le> length (snd sb)" and lb: "unat sz \<le> length (fst sb)"
      using s le by (auto simp: packed_blocks_def)
    have "take 4 (drop (unat i * 4) ?xs) = take 4 (drop (unat i * 4) (snd sb))"
      using i lx by (intro take_drop_prefix) auto
    then have "GpuPackedTxnArray_getTxn (GpuPackedTxnArray_of (dest'\<lparr>pa_size := sz\<rparr>)) i m2 = Inr (pa_txns dest', off)"
      using get n' unfolding packed_view [OF s] packed_view [OF t] by (auto simp: Let_def split: if_splits)
    moreover have "read_bytes (pa_txns dest', off) len m2 = read_bytes (p, off) len m" if "off + len \<le> unat sz" for len
      using packed_read [OF t, of off len] packed_read [OF s, of off len] that le cap' lb
        take_drop_prefix [OF that lb] by (simp add: p)
    ultimately show ?thesis by blast
  qed
  then show ?thesis
    using link fin by (intro exI [of _ br'] exI [of _ src] exI [of _ dest'] exI [of _ m1]
        exI [of _ "src\<lparr>pa_size := sz\<rparr>"] exI [of _ "dest'\<lparr>pa_size := sz\<rparr>"] exI [of _ m2]) simp
qed

definition sample_src :: PackedTxnArray where
  "sample_src = \<lparr>pa_num_txns = 2, pa_txns = Some 0, pa_index = Some 1, pa_capacity = 16, pa_size = 16, pa_device = CPU\<rparr>"

definition sample_blocks :: mem where
  "sample_blocks =
     \<lparr>blocks = (\<lambda>_. None)(0 := Some (CPU, [1, 2, 3, 4, 5, 6, 7, 8, 9, 10, 11, 12, 13, 14, 15, 16]),
                        1 := Some (CPU, [0, 0, 0, 0, 8, 0, 0, 0, 16, 0, 0, 0])),
      next_block = 2, queues = (\<lambda>_. None), next_stream = 0\<rparr>"

lemma sample_src_ok: "packed_ok sample_src sample_blocks"
  by (auto simp: packed_ok_def packed_blocks_def sample_src_def sample_blocks_def)

lemma fresh_packed_ok: "packed_ok ((PackedTxnArray_of_num 4 2)\<lparr>pa_device := d\<rparr>) m"
  by (simp add: packed_ok_def PackedTxnArray_of_num_def BaseTxnSize_def)

lemma sample_mem_ok: "mem_ok sample_blocks"
  by (auto simp: mem_ok_def sample_blocks_def)

lemmas sample_defs = sample_src_def PackedTxnArray_of_num_def BaseTxnSize_def idle_def PackedTxnBridge_new_def
  packed_length_def

theorem packed_bridge_delivers_witness:
  "\<exists>dest2 m2 q. pa_size dest2 = 16 \<and>
     GpuPackedTxnArray_getTxn (GpuPackedTxnArray_of dest2) 1 m2 = Inr (q, 8) \<and>
     read_bytes (q, 8) 8 m2 = Some [9, 10, 11, 12, 13, 14, 15, 16]"
proof -
  have "\<exists>br' src1 dest1 m1 src2 dest2 m2.
           PackedTxnBridge_Link 4 PackedTxnBridge_new sample_src ((PackedTxnArray_of_num 4 2)\<lparr>pa_device := GPU\<rparr>)
             sample_blocks = Inr (br', src1, dest1, m1) \<and>
           packed_start_and_finish 1 br' src1 dest1 m1 = Inr (src2, dest2, m2) \<and>
           pa_size src2 = 16 \<and> pa_size dest2 = 16 \<and>
           (\<forall>i p off. GpuPackedTxnArray_getTxn (GpuPackedTxnArray_of src2) i sample_blocks = Inr (p, off) \<longrightarrow>
              (\<exists>q. GpuPackedTxnArray_getTxn (GpuPackedTxnArray_of dest2) i m2 = Inr (q, off) \<and>
                 (\<forall>len. off + len \<le> unat (16 :: u32) \<longrightarrow> read_bytes (q, off) len m2 = read_bytes (p, off) len sample_blocks)))"
    by (rule packed_bridge_delivers [OF sample_mem_ok sample_src_ok fresh_packed_ok]) (simp_all add: sample_defs)
  then obtain br' src1 dest1 m1 src2 dest2 m2 where
    link: "PackedTxnBridge_Link 4 PackedTxnBridge_new sample_src ((PackedTxnArray_of_num 4 2)\<lparr>pa_device := GPU\<rparr>)
             sample_blocks = Inr (br', src1, dest1, m1)"
    and fin: "packed_start_and_finish 1 br' src1 dest1 m1 = Inr (src2, dest2, m2)" and size: "pa_size dest2 = 16"
    and all: "\<And>i p off. GpuPackedTxnArray_getTxn (GpuPackedTxnArray_of src2) i sample_blocks = Inr (p, off) \<Longrightarrow>
              (\<exists>q. GpuPackedTxnArray_getTxn (GpuPackedTxnArray_of dest2) i m2 = Inr (q, off) \<and>
                 (\<forall>len. off + len \<le> unat (16 :: u32) \<longrightarrow> read_bytes (q, off) len m2 = read_bytes (p, off) len sample_blocks))"
    by blast
  have "src1 = sample_src" using link by (auto simp: PackedTxnBridge_Link_def ensure_packed_initialized_def sample_src_def
        split: sum.splits if_splits prod.splits)
  then have src2: "src2 = sample_src"
    using fin link by (auto simp: packed_start_and_finish_def PackedTxnBridge_StartTransfer_def PackedTxnBridge_Link_def
        sample_src_def Let_def split: sum.splits if_splits prod.splits option.splits)
  have "GpuPackedTxnArray_getTxn (GpuPackedTxnArray_of src2) 1 sample_blocks = Inr (Some 0, 8)"
    by (simp add: src2 GpuPackedTxnArray_getTxn_def GpuPackedTxnArray_of_def packed_txn_ptr_def sample_src_def
        read_u32_def read_bytes_def sample_blocks_def le_u32_def)
  from all [OF this] show ?thesis
    using size by (fastforce simp: read_bytes_def sample_blocks_def dest: spec [of _ 8])
qed

text \<open>C31: The trailing index entry is not delivered. The transfer leaves the entry of the destination's
  index that holds the total size as it was, so an array that is sent to a fresh device array
  and linked back to a host array arrives with size 0, and every lookup in it fails.\<close>

theorem packed_round_trip_empty:
  assumes "mem_ok m" and "packed_ok src m" and "packed_ok dev m" and "packed_ok back m"
    and "pa_num_txns src = pa_num_txns dev" and "pa_num_txns dev = pa_num_txns back"
    and "pa_device src = CPU" and "pa_device dev = GPU" and "pa_device back = CPU"
    and "pa_capacity src = pa_capacity dev" and "pa_capacity dev = pa_capacity back"
    and "pa_txns src \<noteq> None" and "pa_txns dev = None" and "pa_txns back = None" and "pa_size src \<le> pa_capacity src"
    and "idle (pb_stream br1) m" and "pb_stream br2 = None"
  shows "\<exists>br1' src1 dev1 m1 src2 dev2 m2 br2' dev3 back1 m3 dev4 back2 m4.
           PackedTxnBridge_Link tsz br1 src dev m = Inr (br1', src1, dev1, m1) \<and>
           packed_start_and_finish k br1' src1 dev1 m1 = Inr (src2, dev2, m2) \<and>
           PackedTxnBridge_Link tsz br2 dev2 back m2 = Inr (br2', dev3, back1, m3) \<and>
           packed_start_and_finish k' br2' dev3 back1 m3 = Inr (dev4, back2, m4) \<and>
           pa_size dev2 = pa_size src \<and> pa_size back2 = 0 \<and>
           (\<forall>i. PackedTxnArray_getTxn back2 i m4 = Inl AssertFailed)"
proof -
  have ne: "pa_device src \<noteq> pa_device dev" using assms by simp
  let ?n = "unat (pa_num_txns src)"
  obtain br1' sb dev1 db m1 where link: "PackedTxnBridge_Link tsz br1 src dev m = Inr (br1', src, dev1, m1)"
    and l: "packed_linked br1' src dev1 sb db m1" and m1: "mem_ok m1"
    and d: "pa_num_txns dev1 = pa_num_txns dev" "pa_capacity dev1 = pa_capacity dev" "pa_device dev1 = pa_device dev"
    and zero: "pa_txns dev = None \<longrightarrow> snd db = replicate (4 * (unat (pa_num_txns dev) + 1)) 0"
    using packed_Link_linked [OF assms(1-3,5) ne assms(16,12), of tsz] by metis
  have len: "packed_length src m1 = Some (pa_size src)" using assms(7) by (simp add: packed_length_def)
  have ne1: "pa_device src \<noteq> pa_device dev1" and n1: "pa_num_txns src = pa_num_txns dev1"
    and c1: "pa_capacity src = pa_capacity dev1" using d assms by simp_all
  let ?dev2 = "dev1\<lparr>pa_size := pa_size src\<rparr>"
  obtain m2 bs where fin: "packed_start_and_finish k br1' src dev1 m1 = Inr (src\<lparr>pa_size := pa_size src\<rparr>, ?dev2, m2)"
    and t: "packed_blocks dev1 bs (take (?n * 4) (snd sb) @ drop (?n * 4) (snd db)) m2" and m2: "mem_ok m2"
    using packed_transfer [OF l ne1 n1 c1 len assms(15) m1, of k] by metis
  let ?xs = "take (?n * 4) (snd sb) @ drop (?n * 4) (snd db)"
  have t2: "packed_blocks ?dev2 bs ?xs m2" using t by (simp add: packed_blocks_def)
  have ok2: "packed_ok ?dev2 m2" using t2 assms(3) d unfolding packed_ok_def by auto
  have rb: "packed_ok back m2" using assms(4,14) by (simp add: packed_ok_def)
  have init: "pa_txns ?dev2 \<noteq> None" using t by (auto simp: packed_blocks_def)
  have ne2: "pa_device ?dev2 \<noteq> pa_device back" and n2: "pa_num_txns ?dev2 = pa_num_txns back"
    and st: "idle (pb_stream br2) m2" using d assms by (simp_all add: idle_def)
  obtain br2' sb2 back1 db2 m3 where link2: "PackedTxnBridge_Link tsz br2 ?dev2 back m2 = Inr (br2', ?dev2, back1, m3)"
    and l2: "packed_linked br2' ?dev2 back1 sb2 db2 m3" and s2: "packed_blocks ?dev2 (fst sb2) (snd sb2) m2"
    and m3: "mem_ok m3"
    and b: "pa_num_txns back1 = pa_num_txns back" "pa_capacity back1 = pa_capacity back" "pa_device back1 = pa_device back"
    using packed_Link_linked [OF m2 ok2 rb n2 ne2 st init, of tsz] by metis
  have "snd sb2 = ?xs" using s2 t2 by (auto simp: packed_blocks_def)
  moreover have "length (snd sb) = 4 * (?n + 1)" using l by (auto simp: packed_linked_def packed_blocks_def)
  ultimately have "take 4 (drop (?n * 4) (snd sb2)) = replicate 4 0"
    using zero assms(13) assms(5) by simp
  then have "le_u32 (take 4 (drop (?n * 4) (snd sb2))) = 0" by (simp add: le_u32_def eval_nat_numeral)
  moreover have "packed_blocks ?dev2 (fst sb2) (snd sb2) m3" using l2 by (simp add: packed_linked_def)
  ultimately have len2: "packed_length ?dev2 m3 = Some 0"
    using le_u32_entry [of ?dev2 "fst sb2" "snd sb2" m3 ?n] d assms(5,8) by (simp add: packed_length_def)
  have ne3: "pa_device ?dev2 \<noteq> pa_device back1" and n3: "pa_num_txns ?dev2 = pa_num_txns back1"
    and c3: "pa_capacity ?dev2 = pa_capacity back1" and z: "(0 :: u32) \<le> pa_capacity ?dev2"
    using d b assms by simp_all
  obtain m4 bs4 xs4 where fin2: "packed_start_and_finish k' br2' ?dev2 back1 m3 =
      Inr (?dev2\<lparr>pa_size := 0\<rparr>, back1\<lparr>pa_size := 0\<rparr>, m4)" and t4: "packed_blocks back1 bs4 xs4 m4"
    using packed_transfer [OF l2 ne3 n3 c3 len2 z m3, of k'] by metis
  have lost: "PackedTxnArray_getTxn (back1\<lparr>pa_size := 0\<rparr>) i m4 = Inl AssertFailed" for i
    using le_u32_entry [OF t4, of "unat i"] b assms(9)
    by (simp add: PackedTxnArray_getTxn_def packed_txn_ptr_def)
  show ?thesis
    by (intro exI, intro conjI, rule link, rule fin, rule link2, rule fin2) (simp_all add: lost)
qed

theorem packed_round_trip_empty_witness:
  "\<exists>back2 m4. pa_size sample_src = 16 \<and> pa_size back2 = 0 \<and> PackedTxnArray_getTxn back2 1 m4 = Inl AssertFailed"
proof -
  have "\<exists>br1' src1 dev1 m1 src2 dev2 m2 br2' dev3 back1 m3 dev4 back2 m4.
     PackedTxnBridge_Link 4 PackedTxnBridge_new sample_src ((PackedTxnArray_of_num 4 2)\<lparr>pa_device := GPU\<rparr>) sample_blocks =
       Inr (br1', src1, dev1, m1) \<and>
     packed_start_and_finish 0 br1' src1 dev1 m1 = Inr (src2, dev2, m2) \<and>
     PackedTxnBridge_Link 4 PackedTxnBridge_new dev2 ((PackedTxnArray_of_num 4 2)\<lparr>pa_device := CPU\<rparr>) m2 =
       Inr (br2', dev3, back1, m3) \<and>
     packed_start_and_finish 0 br2' dev3 back1 m3 = Inr (dev4, back2, m4) \<and>
     pa_size dev2 = pa_size sample_src \<and> pa_size back2 = 0 \<and>
     (\<forall>i. PackedTxnArray_getTxn back2 i m4 = Inl AssertFailed)"
    by (rule packed_round_trip_empty [OF sample_mem_ok sample_src_ok fresh_packed_ok fresh_packed_ok])
      (simp_all add: sample_defs)
  then show ?thesis by (auto simp: sample_src_def)
qed

end
