(* ===== verification/Host_Index.thy ===== *)
theory Host_Index
  imports Prelude
begin

text \<open>
  The host indices that map keys to row ids: \<^verbatim>\<open>StdHashtableIndex\<close> (\<^verbatim>\<open>hashtable_index.h\<close>),
  \<^verbatim>\<open>StdUnorderedMapIndex\<close> (\<^verbatim>\<open>std_unordered_map_index.h\<close>) and \<^verbatim>\<open>StdMapIndex\<close> (\<^verbatim>\<open>std_map_index.h\<close>).
  Each takes row ids from a queue of free rows. An unordered map is a partial function, an
  ordered map the list of its entries in key order, and an iterator of the latter a position
  in that list. Exceptions, and reads that the container's contract leaves undefined (the front of an
  empty queue, an iterator at the end), are error values. The locale \<open>row_index\<close> is the common
  contract of the three indices, and its lemmas hold for each of them.
\<close>

datatype index_error = FrontOfEmpty | NoFreeRow | RangeUnsupported

type_synonym row = u32

definition INVALID_ROW_ID :: row where
  "INVALID_ROW_ID = - 1"

text \<open>The free list that the constructors build; \<open>n\<close> is less than \<open>2 ^ 32\<close>.\<close>

definition initial_free_list :: "nat \<Rightarrow> row list" where
  "initial_free_list n = map of_nat [0..<n]"

subsection \<open>The hash table with epochs\<close>

record Element =
  row_id :: row
  epoch_id :: u32

record 'k StdHashtableIndex =
  hi_free_list :: "row list"
  hi_map :: "'k \<Rightarrow> Element option"

definition StdHashtableIndex_new :: "nat \<Rightarrow> 'k StdHashtableIndex" where
  "StdHashtableIndex_new n = \<lparr>hi_free_list = initial_free_list n, hi_map = (\<lambda>_. None)\<rparr>"

definition findOrInsertRow ::
  "u32 \<Rightarrow> 'k \<Rightarrow> 'k StdHashtableIndex \<Rightarrow> index_error + row \<times> bool \<times> 'k StdHashtableIndex" where
  "findOrInsertRow epoch key s =
     (case hi_free_list s of
        [] \<Rightarrow> Inl FrontOfEmpty
      | v # vs \<Rightarrow>
        (case hi_map s key of
           None \<Rightarrow> Inr (v, True, s\<lparr>hi_free_list := vs,
                                  hi_map := (hi_map s)(key := Some \<lparr>row_id = v, epoch_id = epoch\<rparr>)\<rparr>)
         | Some e \<Rightarrow>
           Inr (row_id e, False,
                if epoch_id e \<noteq> epoch then s\<lparr>hi_map := (hi_map s)(key := Some (e\<lparr>epoch_id := epoch\<rparr>))\<rparr> else s)))"

definition findRow :: "u32 \<Rightarrow> 'k \<Rightarrow> 'k StdHashtableIndex \<Rightarrow> row \<times> 'k StdHashtableIndex" where
  "findRow epoch key s =
     (case hi_map s key of
        None \<Rightarrow> (INVALID_ROW_ID, s)
      | Some e \<Rightarrow>
        (row_id e,
         if epoch_id e \<noteq> epoch then s\<lparr>hi_map := (hi_map s)(key := Some (e\<lparr>epoch_id := epoch\<rparr>))\<rparr> else s))"

definition deleteRow :: "u32 \<Rightarrow> 'k \<Rightarrow> 'k StdHashtableIndex \<Rightarrow> 'k StdHashtableIndex" where
  "deleteRow epoch key s =
     (case hi_map s key of
        None \<Rightarrow> s
      | Some e \<Rightarrow>
        if epoch < epoch_id e then s
        else s\<lparr>hi_free_list := hi_free_list s @ [row_id e], hi_map := (hi_map s)(key := None)\<rparr>)"

subsection \<open>The unordered map\<close>

record 'k StdUnorderedMapIndex =
  ui_free_list :: "row list"
  ui_map :: "'k \<Rightarrow> row option"

definition StdUnorderedMapIndex_new :: "nat \<Rightarrow> 'k StdUnorderedMapIndex" where
  "StdUnorderedMapIndex_new n = \<lparr>ui_free_list = initial_free_list n, ui_map = (\<lambda>_. None)\<rparr>"

definition ui_searchOrInsert ::
  "'k \<Rightarrow> 'k StdUnorderedMapIndex \<Rightarrow> index_error + row \<times> bool \<times> 'k StdUnorderedMapIndex" where
  "ui_searchOrInsert key s =
     (case ui_free_list s of
        [] \<Rightarrow> Inl FrontOfEmpty
      | v # vs \<Rightarrow>
        (case ui_map s key of
           None \<Rightarrow> Inr (v, True, s\<lparr>ui_free_list := vs, ui_map := (ui_map s)(key := Some v)\<rparr>)
         | Some w \<Rightarrow> Inr (w, False, s)))"

definition ui_search :: "'k \<Rightarrow> 'k StdUnorderedMapIndex \<Rightarrow> row" where
  "ui_search key s = (case ui_map s key of None \<Rightarrow> INVALID_ROW_ID | Some v \<Rightarrow> v)"

definition ui_searchRange :: "'k \<Rightarrow> 'k \<Rightarrow> 'k StdUnorderedMapIndex \<Rightarrow> index_error + row list" where
  "ui_searchRange start_key end_key s = Inl RangeUnsupported"

subsection \<open>The ordered map\<close>

record 'k StdMapIndex =
  mi_free_list :: "row list"
  mi_map :: "('k \<times> row) list"

definition StdMapIndex_new :: "nat \<Rightarrow> 'k StdMapIndex" where
  "StdMapIndex_new n = \<lparr>mi_free_list = initial_free_list n, mi_map = []\<rparr>"

fun emplace :: "'k::linorder \<Rightarrow> row \<Rightarrow> ('k \<times> row) list \<Rightarrow> ('k \<times> row) list" where
  "emplace k v [] = [(k, v)]"
| "emplace k v ((k', v') # xs) =
     (if k < k' then (k, v) # (k', v') # xs
      else if k = k' then (k', v') # xs
      else (k', v') # emplace k v xs)"

definition mi_searchOrInsert ::
  "'k::linorder \<Rightarrow> 'k StdMapIndex \<Rightarrow> index_error + row \<times> bool \<times> 'k StdMapIndex" where
  "mi_searchOrInsert key s =
     (case mi_free_list s of
        [] \<Rightarrow> Inl NoFreeRow
      | v # vs \<Rightarrow>
        (case map_of (mi_map s) key of
           None \<Rightarrow> Inr (v, True, s\<lparr>mi_free_list := vs, mi_map := emplace key v (mi_map s)\<rparr>)
         | Some w \<Rightarrow> Inr (w, False, s)))"

definition mi_search :: "'k \<Rightarrow> 'k StdMapIndex \<Rightarrow> row" where
  "mi_search key s = (case map_of (mi_map s) key of None \<Rightarrow> INVALID_ROW_ID | Some v \<Rightarrow> v)"

text \<open>Iterators. A forward iterator is the position of its entry, a reverse iterator the position
  behind its entry.\<close>

definition lower_bound :: "'k::linorder \<Rightarrow> ('k \<times> row) list \<Rightarrow> nat" where
  "lower_bound k xs = length (takeWhile (\<lambda>e. fst e < k) xs)"

definition upper_bound :: "'k::linorder \<Rightarrow> ('k \<times> row) list \<Rightarrow> nat" where
  "upper_bound k xs = length (takeWhile (\<lambda>e. fst e \<le> k) xs)"

record map_iterator =
  current :: nat
  end_pos :: nat

definition isValid :: "map_iterator \<Rightarrow> bool" where
  "isValid it \<longleftrightarrow> current it \<noteq> end_pos it"

definition advance :: "map_iterator \<Rightarrow> map_iterator" where
  "advance it = (if isValid it then it\<lparr>current := current it + 1\<rparr> else it)"

definition advance_reverse :: "map_iterator \<Rightarrow> map_iterator" where
  "advance_reverse it = (if isValid it then it\<lparr>current := current it - 1\<rparr> else it)"

definition deref :: "map_iterator \<Rightarrow> ('k \<times> row) list \<Rightarrow> ('k \<times> row) option" where
  "deref it xs = (if current it < length xs then Some (xs ! current it) else None)"

definition deref_reverse :: "map_iterator \<Rightarrow> ('k \<times> row) list \<Rightarrow> ('k \<times> row) option" where
  "deref_reverse it xs = (if 0 < current it \<and> current it \<le> length xs then Some (xs ! (current it - 1)) else None)"

definition searchRange :: "'k::linorder \<Rightarrow> 'k \<Rightarrow> 'k StdMapIndex \<Rightarrow> map_iterator" where
  "searchRange start_key end_key s =
     \<lparr>current = lower_bound start_key (mi_map s), end_pos = upper_bound end_key (mi_map s)\<rparr>"

definition searchRangeReverse :: "'k::linorder \<Rightarrow> 'k \<Rightarrow> 'k StdMapIndex \<Rightarrow> map_iterator" where
  "searchRangeReverse start_key end_key s =
     \<lparr>current = upper_bound start_key (mi_map s), end_pos = lower_bound end_key (mi_map s)\<rparr>"

definition searchAfter :: "'k::linorder \<Rightarrow> 'k StdMapIndex \<Rightarrow> map_iterator" where
  "searchAfter start_key s = \<lparr>current = upper_bound start_key (mi_map s), end_pos = length (mi_map s)\<rparr>"

text \<open>The loop of a client that reads an iterator to its end, with fuel; \<open>None\<close> if it reads an entry that does
  not exist or does not end within its fuel.\<close>

fun drain :: "nat \<Rightarrow> map_iterator \<Rightarrow> ('k \<times> row) list \<Rightarrow> ('k \<times> row) list option" where
  "drain fuel it xs =
     (if \<not> isValid it then Some []
      else (case fuel of
              0 \<Rightarrow> None
            | Suc f \<Rightarrow> (case deref it xs of
                         None \<Rightarrow> None
                       | Some e \<Rightarrow> map_option ((#) e) (drain f (advance it) xs))))"

fun drain_reverse :: "nat \<Rightarrow> map_iterator \<Rightarrow> ('k \<times> row) list \<Rightarrow> ('k \<times> row) list option" where
  "drain_reverse fuel it xs =
     (if \<not> isValid it then Some []
      else (case fuel of
              0 \<Rightarrow> None
            | Suc f \<Rightarrow> (case deref_reverse it xs of
                         None \<Rightarrow> None
                       | Some e \<Rightarrow> map_option ((#) e) (drain_reverse f (advance_reverse it) xs))))"

declare drain.simps [simp del] drain_reverse.simps [simp del]

subsection \<open>The contract of a row index\<close>

text \<open>A load: one search-or-insert per key, in order.\<close>

fun load_keys :: "('k \<Rightarrow> 's \<Rightarrow> index_error + row \<times> bool \<times> 's) \<Rightarrow> 'k list \<Rightarrow> 's \<Rightarrow> index_error + row list \<times> 's" where
  "load_keys f [] s = Inr ([], s)"
| "load_keys f (k # ks) s =
     (case f k s of
        Inl e \<Rightarrow> Inl e
      | Inr (v, ins, s1) \<Rightarrow>
        (case load_keys f ks s1 of Inl e \<Rightarrow> Inl e | Inr (vs, s2) \<Rightarrow> Inr (v # vs, s2)))"

text \<open>What a load returns: the row of a bound key, and the next free row for a new one.\<close>

fun spec_load :: "'k list \<Rightarrow> ('k \<Rightarrow> row option) \<Rightarrow> row list \<Rightarrow> row list" where
  "spec_load [] b free = []"
| "spec_load (k # ks) b free =
     (case b k of
        Some v \<Rightarrow> v # spec_load ks b free
      | None \<Rightarrow> hd free # spec_load ks (b(k := Some (hd free))) (tl free))"

locale row_index =
  fixes idx_ok :: "'s \<Rightarrow> bool"
    and bound_row :: "'s \<Rightarrow> 'k \<Rightarrow> row option"
    and free_rows :: "'s \<Rightarrow> row list"
    and search_or_insert :: "'k \<Rightarrow> 's \<Rightarrow> index_error + row \<times> bool \<times> 's"
  assumes hit: "idx_ok s \<Longrightarrow> bound_row s k = Some v \<Longrightarrow> free_rows s \<noteq> [] \<Longrightarrow>
      \<exists>s'. search_or_insert k s = Inr (v, False, s') \<and> idx_ok s' \<and> bound_row s' = bound_row s \<and> free_rows s' = free_rows s"
    and miss: "idx_ok s \<Longrightarrow> bound_row s k = None \<Longrightarrow> free_rows s = v # vs \<Longrightarrow>
      \<exists>s'. search_or_insert k s = Inr (v, True, s') \<and> idx_ok s' \<and> bound_row s' = (bound_row s)(k := Some v) \<and> free_rows s' = vs"
    and exhausted: "idx_ok s \<Longrightarrow> free_rows s = [] \<Longrightarrow> \<exists>e. search_or_insert k s = Inl e"
    and rows_unique: "idx_ok s \<Longrightarrow> bound_row s k = Some v \<Longrightarrow> bound_row s k' = Some v \<Longrightarrow> k = k'"
begin

lemma step:
  assumes "idx_ok s" and "free_rows s \<noteq> []"
  obtains v ins s' where "search_or_insert k s = Inr (v, ins, s')" and "idx_ok s'" and "bound_row s' k = Some v"
    and "\<forall>k'. k' \<noteq> k \<longrightarrow> bound_row s' k' = bound_row s k'" and "bound_row s k \<noteq> None \<longrightarrow> bound_row s k = Some v"
    and "length (free_rows s) \<le> Suc (length (free_rows s'))"
proof (cases "bound_row s k")
  case None
  obtain v vs where "free_rows s = v # vs" using assms(2) by (cases "free_rows s") auto
  from miss [OF assms(1) None this] this show ?thesis using that None by fastforce
next
  case (Some v)
  from hit [OF assms(1) Some assms(2)] obtain s' where "search_or_insert k s = Inr (v, False, s')" "idx_ok s'"
    "bound_row s' = bound_row s" "free_rows s' = free_rows s" by blast
  with Some show ?thesis by (intro that [of v False s']) simp_all
qed

lemma load_rows:
  assumes "idx_ok s" and "length ks \<le> length (free_rows s)"
  shows "\<exists>rows s'. load_keys search_or_insert ks s = Inr (rows, s') \<and> idx_ok s' \<and> length rows = length ks \<and>
           (\<forall>i < length ks. bound_row s' (ks ! i) = Some (rows ! i)) \<and>
           (\<forall>k v. bound_row s k = Some v \<longrightarrow> bound_row s' k = Some v) \<and>
           (\<forall>k. k \<notin> set ks \<longrightarrow> bound_row s' k = bound_row s k)"
  using assms
proof (induction ks arbitrary: s)
  case Nil
  then show ?case by simp
next
  case (Cons k ks)
  have "free_rows s \<noteq> []" using Cons.prems(2) by auto
  then obtain v ins s1 where s1: "search_or_insert k s = Inr (v, ins, s1)" and ok1: "idx_ok s1"
    and b: "bound_row s1 k = Some v" and other: "\<forall>k'. k' \<noteq> k \<longrightarrow> bound_row s1 k' = bound_row s k'"
    and same: "bound_row s k \<noteq> None \<longrightarrow> bound_row s k = Some v"
    and len: "length (free_rows s) \<le> Suc (length (free_rows s1))"
    using step [OF Cons.prems(1)] by metis
  have "length ks \<le> length (free_rows s1)" using Cons.prems(2) len by simp
  from Cons.IH [OF ok1 this] obtain rows s' where IH: "load_keys search_or_insert ks s1 = Inr (rows, s')" "idx_ok s'"
    "length rows = length ks" "\<forall>i < length ks. bound_row s' (ks ! i) = Some (rows ! i)"
    "\<forall>k v. bound_row s1 k = Some v \<longrightarrow> bound_row s' k = Some v" "\<forall>k. k \<notin> set ks \<longrightarrow> bound_row s' k = bound_row s1 k"
    by blast
  have keep: "bound_row s' k' = Some w" if "bound_row s k' = Some w" for k' w
    using that IH(5) other same b by (cases "k' = k") auto
  show ?case
    using s1 IH keep b other by (intro exI [of _ "v # rows"] exI [of _ s']) (auto simp: nth_Cons split: nat.splits)
qed

text \<open>The rows a load returns depend on the bound and the free rows only.\<close>

lemma load_spec:
  assumes "idx_ok s" and "length ks \<le> length (free_rows s)"
  shows "\<exists>s'. load_keys search_or_insert ks s = Inr (spec_load ks (bound_row s) (free_rows s), s')"
  using assms
proof (induction ks arbitrary: s)
  case Nil
  then show ?case by simp
next
  case (Cons k ks)
  obtain v vs where f: "free_rows s = v # vs" using Cons.prems(2) by (cases "free_rows s") auto
  show ?case
  proof (cases "bound_row s k")
    case None
    from miss [OF Cons.prems(1) None f] obtain s1 where s1: "search_or_insert k s = Inr (v, True, s1)" "idx_ok s1"
      "bound_row s1 = (bound_row s)(k := Some v)" "free_rows s1 = vs" by blast
    have "length ks \<le> length (free_rows s1)" using Cons.prems(2) f s1(4) by simp
    from Cons.IH [OF s1(2) this] obtain s2 where
      "load_keys search_or_insert ks s1 = Inr (spec_load ks ((bound_row s)(k := Some v)) vs, s2)"
      unfolding s1(3,4) by blast
    then show ?thesis using s1(1) f None by simp
  next
    case (Some w)
    have "free_rows s \<noteq> []" using f by simp
    from hit [OF Cons.prems(1) Some this] obtain s1 where s1: "search_or_insert k s = Inr (w, False, s1)" "idx_ok s1"
      "bound_row s1 = bound_row s" "free_rows s1 = free_rows s" by blast
    have "length ks \<le> length (free_rows s1)" using Cons.prems(2) s1(4) by simp
    from Cons.IH [OF s1(2) this] show ?thesis using s1 Some by auto
  qed
qed

text \<open>Equal keys get equal rows and different keys different rows.\<close>

lemma load_injective:
  assumes "idx_ok s" and "length ks \<le> length (free_rows s)"
  shows "\<exists>rows s'. load_keys search_or_insert ks s = Inr (rows, s') \<and> idx_ok s' \<and> length rows = length ks \<and>
           (\<forall>i < length ks. bound_row s' (ks ! i) = Some (rows ! i)) \<and>
           (\<forall>i < length ks. \<forall>j < length ks. rows ! i = rows ! j \<longleftrightarrow> ks ! i = ks ! j)"
proof -
  obtain rows s' where l: "load_keys search_or_insert ks s = Inr (rows, s')" "idx_ok s'" "length rows = length ks"
    and b: "\<forall>i < length ks. bound_row s' (ks ! i) = Some (rows ! i)"
    using load_rows [OF assms] by blast
  have "rows ! i = rows ! j \<longleftrightarrow> ks ! i = ks ! j" if "i < length ks" "j < length ks" for i j
    using b that rows_unique [OF l(2)] by (metis option.inject)
  then show ?thesis using l b by blast
qed

end

subsection \<open>Free and bound rows\<close>

text \<open>Every row id below the maximum is free, once, or bound to exactly one key.\<close>

definition rows_ok :: "nat \<Rightarrow> row list \<Rightarrow> ('k \<Rightarrow> row option) \<Rightarrow> bool" where
  "rows_ok n free b \<longleftrightarrow>
     distinct free \<and> set free \<inter> ran b = {} \<and> set free \<union> ran b = of_nat ` {0..<n} \<and>
     (\<forall>k k' v. b k = Some v \<longrightarrow> b k' = Some v \<longrightarrow> k = k')"

lemma rows_ok_new: "n \<le> 2 ^ 32 \<Longrightarrow> rows_ok n (initial_free_list n) (\<lambda>_. None)"
  by (auto simp: rows_ok_def initial_free_list_def distinct_map inj_on_def of_nat_u32_inj)

lemma rows_ok_unique: "rows_ok n free b \<Longrightarrow> b k = Some v \<Longrightarrow> b k' = Some v \<Longrightarrow> k = k'"
  unfolding rows_ok_def by blast

lemma rows_okD:
  assumes "rows_ok n free b"
  shows "distinct free" and "set free \<inter> ran b = {}" and "set free \<union> ran b = of_nat ` {0..<n}"
  using assms unfolding rows_ok_def by simp_all

lemma rows_okI:
  assumes "distinct free" and "set free \<inter> ran b = {}" and "set free \<union> ran b = of_nat ` {0..<n}"
    and "\<And>k k' v. b k = Some v \<Longrightarrow> b k' = Some v \<Longrightarrow> k = k'"
  shows "rows_ok n free b"
  using assms(1-3) assms(4) unfolding rows_ok_def by blast

lemma rows_ok_bind:
  assumes ok: "rows_ok n (v # vs) b" and "b k = None"
  shows "rows_ok n vs (b(k := Some v))"
proof (rule rows_okI)
  have v: "v \<notin> ran b" "v \<notin> set vs" using rows_okD(1,2) [OF ok] by auto
  have ran: "ran (b(k := Some v)) = insert v (ran b)" using assms(2) by (rule ran_map_upd)
  show "distinct vs" using rows_okD(1) [OF ok] by simp
  show "set vs \<inter> ran (b(k := Some v)) = {}" using rows_okD(2) [OF ok] v ran by auto
  show "set vs \<union> ran (b(k := Some v)) = of_nat ` {0..<n}" using rows_okD(3) [OF ok] ran by simp
  show "k1 = k2" if "(b(k := Some v)) k1 = Some w" "(b(k := Some v)) k2 = Some w" for k1 k2 w
    using that rows_ok_unique [OF ok] v(1) by (metis fun_upd_apply option.inject ranI)
qed

lemma rows_ok_unbind:
  assumes ok: "rows_ok n free b" and k: "b k = Some v"
  shows "rows_ok n (free @ [v]) (b(k := None))"
proof (rule rows_okI)
  have only: "k' = k" if "b k' = Some v" for k' by (rule rows_ok_unique [OF ok that k])
  have ran: "ran b = insert v (ran (b(k := None)))" using k by (force simp: ran_def)
  have v: "v \<notin> ran (b(k := None))" using only by (auto simp: ran_def split: if_splits)
  have free: "v \<notin> set free" using rows_okD(2) [OF ok] ran by auto
  show "distinct (free @ [v])" using rows_okD(1) [OF ok] free by simp
  show "set (free @ [v]) \<inter> ran (b(k := None)) = {}" using rows_okD(2) [OF ok] ran v by auto
  show "set (free @ [v]) \<union> ran (b(k := None)) = of_nat ` {0..<n}" using rows_okD(3) [OF ok] ran by simp
  show "k1 = k2" if "(b(k := None)) k1 = Some w" "(b(k := None)) k2 = Some w" for k1 k2 w
    using that rows_ok_unique [OF ok] by (metis fun_upd_apply option.distinct(1))
qed

definition hi_bound :: "'k StdHashtableIndex \<Rightarrow> 'k \<Rightarrow> row option" where
  "hi_bound s k = map_option row_id (hi_map s k)"

lemma hi_bound_upd: "hi_bound (s\<lparr>hi_map := (hi_map s)(k := e)\<rparr>) = (hi_bound s)(k := map_option row_id e)"
  by (auto simp: hi_bound_def)

lemma hi_bound_free [simp]: "hi_bound (s\<lparr>hi_free_list := vs\<rparr>) = hi_bound s"
  by (auto simp: hi_bound_def)

interpretation hash: row_index "\<lambda>s. rows_ok n (hi_free_list s) (hi_bound s)" hi_bound hi_free_list "findOrInsertRow epoch"
  for n epoch
proof
  fix s :: "'k StdHashtableIndex" and k v
  assume ok: "rows_ok n (hi_free_list s) (hi_bound s)" and b: "hi_bound s k = Some v" and f: "hi_free_list s \<noteq> []"
  obtain e where e: "hi_map s k = Some e" "row_id e = v" using b by (auto simp: hi_bound_def)
  obtain w ws where w: "hi_free_list s = w # ws" using f by (cases "hi_free_list s") auto
  have "hi_bound (s\<lparr>hi_map := (hi_map s)(k := Some (e\<lparr>epoch_id := epoch\<rparr>))\<rparr>) = hi_bound s"
    using e by (auto simp: hi_bound_def)
  then show "\<exists>s'. findOrInsertRow epoch k s = Inr (v, False, s') \<and> rows_ok n (hi_free_list s') (hi_bound s') \<and>
      hi_bound s' = hi_bound s \<and> hi_free_list s' = hi_free_list s"
    using ok e w by (simp add: findOrInsertRow_def)
next
  fix s :: "'k StdHashtableIndex" and k v vs
  assume ok: "rows_ok n (hi_free_list s) (hi_bound s)" and b: "hi_bound s k = None" and f: "hi_free_list s = v # vs"
  let ?s = "s\<lparr>hi_free_list := vs, hi_map := (hi_map s)(k := Some \<lparr>row_id = v, epoch_id = epoch\<rparr>)\<rparr>"
  have bound: "hi_bound ?s = (hi_bound s)(k := Some v)" by (auto simp: hi_bound_def)
  have "findOrInsertRow epoch k s = Inr (v, True, ?s)"
    using b f by (simp add: findOrInsertRow_def hi_bound_def)
  then show "\<exists>s'. findOrInsertRow epoch k s = Inr (v, True, s') \<and> rows_ok n (hi_free_list s') (hi_bound s') \<and>
      hi_bound s' = (hi_bound s)(k := Some v) \<and> hi_free_list s' = vs"
    using rows_ok_bind [of n v vs "hi_bound s" k] ok b f bound by (intro exI [of _ ?s]) simp
qed (auto simp: findOrInsertRow_def intro: rows_ok_unique)

interpretation unordered: row_index "\<lambda>s. rows_ok n (ui_free_list s) (ui_map s)" ui_map ui_free_list ui_searchOrInsert
  for n
proof
  fix s :: "'k StdUnorderedMapIndex" and k v vs
  assume ok: "rows_ok n (ui_free_list s) (ui_map s)" and b: "ui_map s k = None" and f: "ui_free_list s = v # vs"
  then show "\<exists>s'. ui_searchOrInsert k s = Inr (v, True, s') \<and> rows_ok n (ui_free_list s') (ui_map s') \<and>
      ui_map s' = (ui_map s)(k := Some v) \<and> ui_free_list s' = vs"
    using rows_ok_bind [of n v vs "ui_map s" k] by (simp add: ui_searchOrInsert_def)
qed (auto simp: ui_searchOrInsert_def neq_Nil_conv intro: rows_ok_unique)

definition keys_sorted :: "('k::linorder \<times> row) list \<Rightarrow> bool" where
  "keys_sorted xs \<longleftrightarrow> sorted_wrt (<) (map fst xs)"

lemma map_of_emplace:
  "keys_sorted xs \<Longrightarrow> map_of xs k = None \<Longrightarrow> map_of (emplace k v xs) = (map_of xs)(k := Some v)"
  by (induction k v xs rule: emplace.induct) (auto simp: keys_sorted_def split: if_splits)

lemma set_emplace: "fst ` set (emplace k v xs) = insert k (fst ` set xs)"
  by (induction k v xs rule: emplace.induct) auto

lemma sorted_emplace: "keys_sorted xs \<Longrightarrow> keys_sorted (emplace k v xs)"
proof (induction k v xs rule: emplace.induct)
  case (2 k v k' v' xs)
  then show ?case using set_emplace [of k v xs] by (auto simp: keys_sorted_def)
qed (simp add: keys_sorted_def)

interpretation ordered: row_index "\<lambda>s. keys_sorted (mi_map s) \<and> rows_ok n (mi_free_list s) (map_of (mi_map s))"
  "\<lambda>s. map_of (mi_map s)" mi_free_list mi_searchOrInsert
  for n
proof
  fix s :: "('k::linorder) StdMapIndex" and k v vs
  assume ok: "keys_sorted (mi_map s) \<and> rows_ok n (mi_free_list s) (map_of (mi_map s))"
    and b: "map_of (mi_map s) k = None" and f: "mi_free_list s = v # vs"
  then show "\<exists>s'. mi_searchOrInsert k s = Inr (v, True, s') \<and>
      (keys_sorted (mi_map s') \<and> rows_ok n (mi_free_list s') (map_of (mi_map s'))) \<and>
      map_of (mi_map s') = (map_of (mi_map s))(k := Some v) \<and> mi_free_list s' = vs"
    using rows_ok_bind [of n v vs "map_of (mi_map s)" k] sorted_emplace [of "mi_map s" k v]
    by (simp add: mi_searchOrInsert_def map_of_emplace)
qed (auto simp: mi_searchOrInsert_def neq_Nil_conv intro: rows_ok_unique)

subsection \<open>Properties of the indices\<close>

lemma length_initial [simp]: "length (initial_free_list n) = n"
  by (simp add: initial_free_list_def)

lemma hash_new:
  "n \<le> 2 ^ 32 \<Longrightarrow> rows_ok n (hi_free_list (StdHashtableIndex_new n)) (hi_bound (StdHashtableIndex_new n))"
  using rows_ok_new by (simp add: StdHashtableIndex_new_def hi_bound_def [abs_def])

lemma unordered_new:
  "n \<le> 2 ^ 32 \<Longrightarrow> rows_ok n (ui_free_list (StdUnorderedMapIndex_new n)) (ui_map (StdUnorderedMapIndex_new n))"
  using rows_ok_new by (simp add: StdUnorderedMapIndex_new_def)

lemma ordered_new:
  "n \<le> 2 ^ 32 \<Longrightarrow> keys_sorted (mi_map (StdMapIndex_new n)) \<and>
     rows_ok n (mi_free_list (StdMapIndex_new n)) (map_of (mi_map (StdMapIndex_new n)))"
  using rows_ok_new by (simp add: StdMapIndex_new_def keys_sorted_def)

text \<open>C32: The three indices agree. Loading the same keys into new indices with room for them succeeds in each
  and returns the same rows; two rows are equal exactly if their keys are; and afterwards a
  lookup of each key finds its row in all three.\<close>

theorem host_indices_agree:
  fixes ks :: "'k::linorder list"
  assumes n: "n \<le> 2 ^ 32" and len: "length ks \<le> n"
  shows "\<exists>rows h u m.
      load_keys (findOrInsertRow epoch) ks (StdHashtableIndex_new n) = Inr (rows, h) \<and>
      load_keys ui_searchOrInsert ks (StdUnorderedMapIndex_new n) = Inr (rows, u) \<and>
      load_keys mi_searchOrInsert ks (StdMapIndex_new n) = Inr (rows, m) \<and>
      (\<forall>i < length ks. fst (findRow epoch (ks ! i) h) = rows ! i \<and> ui_search (ks ! i) u = rows ! i \<and>
                       mi_search (ks ! i) m = rows ! i) \<and>
      (\<forall>i < length ks. \<forall>j < length ks. rows ! i = rows ! j \<longleftrightarrow> ks ! i = ks ! j)"
proof -
  have free: "hi_free_list (StdHashtableIndex_new n) = initial_free_list n"
    "ui_free_list (StdUnorderedMapIndex_new n) = initial_free_list n" "mi_free_list (StdMapIndex_new n) = initial_free_list n"
    and none: "hi_bound (StdHashtableIndex_new n) = (\<lambda>_. None)" "ui_map (StdUnorderedMapIndex_new n) = (\<lambda>_. None)"
      "map_of (mi_map (StdMapIndex_new n)) = (\<lambda>_. None)"
    by (simp_all add: StdHashtableIndex_new_def StdUnorderedMapIndex_new_def StdMapIndex_new_def hi_bound_def [abs_def])
  let ?rows = "spec_load ks (\<lambda>_. None) (initial_free_list n)"
  have lens: "length ks \<le> length (hi_free_list (StdHashtableIndex_new n))"
    "length ks \<le> length (ui_free_list (StdUnorderedMapIndex_new n))"
    "length ks \<le> length (mi_free_list (StdMapIndex_new n))" using len by (simp_all add: free)
  obtain h where h: "load_keys (findOrInsertRow epoch) ks (StdHashtableIndex_new n) = Inr (?rows, h)"
    using hash.load_spec [OF hash_new [OF n] lens(1)] by (auto simp: free none)
  obtain u where u: "load_keys ui_searchOrInsert ks (StdUnorderedMapIndex_new n) = Inr (?rows, u)"
    using unordered.load_spec [OF unordered_new [OF n] lens(2)] by (auto simp: free none)
  obtain m where m: "load_keys mi_searchOrInsert ks (StdMapIndex_new n) = Inr (?rows, m)"
    using ordered.load_spec [OF ordered_new [OF n] lens(3)] by (auto simp: free none)
  have hb: "\<forall>i < length ks. hi_bound h (ks ! i) = Some (?rows ! i)"
    and inj: "\<forall>i < length ks. \<forall>j < length ks. ?rows ! i = ?rows ! j \<longleftrightarrow> ks ! i = ks ! j"
    using hash.load_injective [OF hash_new [OF n] lens(1), of epoch] h by auto
  have ub: "\<forall>i < length ks. ui_map u (ks ! i) = Some (?rows ! i)"
    using unordered.load_injective [OF unordered_new [OF n] lens(2)] u by auto
  have mb: "\<forall>i < length ks. map_of (mi_map m) (ks ! i) = Some (?rows ! i)"
    using ordered.load_injective [OF ordered_new [OF n] lens(3)] m by auto
  have "fst (findRow epoch (ks ! i) h) = ?rows ! i \<and> ui_search (ks ! i) u = ?rows ! i \<and> mi_search (ks ! i) m = ?rows ! i"
    if "i < length ks" for i
    using hb ub mb that by (auto simp: findRow_def ui_search_def mi_search_def hi_bound_def split: option.splits)
  then show ?thesis using h u m inj by blast
qed

definition sample_keys :: "nat list" where "sample_keys = [30, 10, 30]"

theorem host_indices_agree_witness:
  "\<exists>rows h u m.
      load_keys (findOrInsertRow 7) sample_keys (StdHashtableIndex_new 4) = Inr (rows, h) \<and>
      load_keys ui_searchOrInsert sample_keys (StdUnorderedMapIndex_new 4) = Inr (rows, u) \<and>
      load_keys mi_searchOrInsert sample_keys (StdMapIndex_new 4) = Inr (rows, m) \<and> rows ! 0 = rows ! 2 \<and>
      ui_search (sample_keys ! 1) u = rows ! 1"
proof -
  have "\<exists>rows h u m.
      load_keys (findOrInsertRow 7) sample_keys (StdHashtableIndex_new 4) = Inr (rows, h) \<and>
      load_keys ui_searchOrInsert sample_keys (StdUnorderedMapIndex_new 4) = Inr (rows, u) \<and>
      load_keys mi_searchOrInsert sample_keys (StdMapIndex_new 4) = Inr (rows, m) \<and>
      (\<forall>i < length sample_keys. fst (findRow 7 (sample_keys ! i) h) = rows ! i \<and>
          ui_search (sample_keys ! i) u = rows ! i \<and> mi_search (sample_keys ! i) m = rows ! i) \<and>
      (\<forall>i < length sample_keys. \<forall>j < length sample_keys.
          rows ! i = rows ! j \<longleftrightarrow> sample_keys ! i = sample_keys ! j)"
    by (rule host_indices_agree) (simp_all add: sample_keys_def)
  then obtain rows h u m where
    l: "load_keys (findOrInsertRow 7) sample_keys (StdHashtableIndex_new 4) = Inr (rows, h)"
      "load_keys ui_searchOrInsert sample_keys (StdUnorderedMapIndex_new 4) = Inr (rows, u)"
      "load_keys mi_searchOrInsert sample_keys (StdMapIndex_new 4) = Inr (rows, m)"
    and f: "\<forall>i < length sample_keys. fst (findRow 7 (sample_keys ! i) h) = rows ! i \<and>
          ui_search (sample_keys ! i) u = rows ! i \<and> mi_search (sample_keys ! i) m = rows ! i"
    and e: "\<forall>i < length sample_keys. \<forall>j < length sample_keys.
          rows ! i = rows ! j \<longleftrightarrow> sample_keys ! i = sample_keys ! j" by blast
  have len: "0 < length sample_keys" "1 < length sample_keys" "2 < length sample_keys"
    and same: "sample_keys ! 0 = sample_keys ! 2" by (simp_all add: sample_keys_def)
  have "rows ! 0 = rows ! 2" using e len same by blast
  moreover have "ui_search (sample_keys ! 1) u = rows ! 1" using f len(2) by blast
  ultimately show ?thesis using l by blast
qed

subsection \<open>Rows of the hash table over its whole life\<close>

inductive hash_step :: "'k StdHashtableIndex \<Rightarrow> 'k StdHashtableIndex \<Rightarrow> bool" where
  find_or_insert: "findOrInsertRow epoch k s = Inr (v, ins, s') \<Longrightarrow> hash_step s s'"
| find: "hash_step s (snd (findRow epoch k s))"
| delete: "hash_step s (deleteRow epoch k s)"

lemma findRow_bound: "hi_bound (snd (findRow epoch k s)) = hi_bound s" "hi_free_list (snd (findRow epoch k s)) = hi_free_list s"
  by (auto simp: findRow_def hi_bound_def split: option.splits)

lemma hash_step_rows:
  assumes "hash_step s s'" and ok: "rows_ok n (hi_free_list s) (hi_bound s)"
  shows "rows_ok n (hi_free_list s') (hi_bound s')"
  using assms(1)
proof cases
  case (find_or_insert epoch k v ins)
  then have ne: "hi_free_list s \<noteq> []" by (auto simp: findOrInsertRow_def)
  show ?thesis using hash.step [OF ok ne, of epoch k] find_or_insert by (metis Inr_inject prod.inject)
next
  case (find epoch k)
  then show ?thesis using ok by (simp add: findRow_bound)
next
  case (delete epoch k)
  show ?thesis
  proof (cases "hi_map s k")
    case None
    then show ?thesis using ok delete by (simp add: deleteRow_def)
  next
    case (Some e)
    then have "hi_bound s k = Some (row_id e)" by (simp add: hi_bound_def)
    from rows_ok_unbind [OF ok this]
    have freed: "rows_ok n (hi_free_list s @ [row_id e]) ((hi_bound s)(k := None))" .
    let ?d = "s\<lparr>hi_free_list := hi_free_list s @ [row_id e], hi_map := (hi_map s)(k := None)\<rparr>"
    have bound: "hi_bound ?d = (hi_bound s)(k := None)" by (auto simp: hi_bound_def)
    have "s' = (if epoch < epoch_id e then s else ?d)" using delete Some by (simp add: deleteRow_def)
    then show ?thesis using ok freed bound by simp
  qed
qed

lemma hash_reachable_rows:
  "hash_step\<^sup>*\<^sup>* (StdHashtableIndex_new n) s \<Longrightarrow> n \<le> 2 ^ 32 \<Longrightarrow> rows_ok n (hi_free_list s) (hi_bound s)"
  by (induction rule: rtranclp_induct) (auto intro: hash_new hash_step_rows)

text \<open>C33: No row is lost or shared. After any sequence of insertions, lookups and deletions of a hash
  table of \<open>n\<close> rows, the free list has no duplicates and every row below \<open>n\<close> is either in it or bound to
  exactly one key, never both.\<close>

theorem hash_rows_conserved:
  assumes "n \<le> 2 ^ 32" and "hash_step\<^sup>*\<^sup>* (StdHashtableIndex_new n) s" and "i < n"
  shows "distinct (hi_free_list s) \<and>
         (of_nat i \<in> set (hi_free_list s) \<longleftrightarrow> \<not> (\<exists>!k. map_option row_id (hi_map s k) = Some (of_nat i)))"
proof -
  have ok: "rows_ok n (hi_free_list s) (hi_bound s)" by (rule hash_reachable_rows [OF assms(2,1)])
  have "of_nat i \<in> set (hi_free_list s) \<union> ran (hi_bound s)" using rows_okD(3) [OF ok] assms(3) by auto
  then have "of_nat i \<in> set (hi_free_list s) \<longleftrightarrow> of_nat i \<notin> ran (hi_bound s)" using rows_okD(2) [OF ok] by auto
  moreover have "of_nat i \<in> ran (hi_bound s) \<longleftrightarrow> (\<exists>!k. hi_bound s k = Some (of_nat i))"
    unfolding ran_def using rows_ok_unique [OF ok] by blast
  ultimately show ?thesis using rows_okD(1) [OF ok] by (simp add: hi_bound_def)
qed

definition sample_hash :: "nat StdHashtableIndex" where
  "sample_hash = \<lparr>hi_free_list = [1], hi_map = (\<lambda>_. None)(5 := Some \<lparr>row_id = 0, epoch_id = 3\<rparr>)\<rparr>"

lemma sample_hash_steps: "hash_step\<^sup>*\<^sup>* (StdHashtableIndex_new 2) (deleteRow 4 5 sample_hash)"
proof -
  have "findOrInsertRow 3 5 (StdHashtableIndex_new 2) = Inr (0, True, sample_hash)"
    by (simp add: findOrInsertRow_def StdHashtableIndex_new_def initial_free_list_def sample_hash_def upt_rec)
  then have "hash_step (StdHashtableIndex_new 2) sample_hash" by (rule hash_step.find_or_insert)
  then show ?thesis by (rule converse_rtranclp_into_rtranclp) (rule r_into_rtranclp, rule hash_step.delete)
qed

theorem hash_rows_conserved_witness:
  "distinct (hi_free_list (deleteRow 4 5 sample_hash)) \<and>
   ((of_nat 0 :: row) \<in> set (hi_free_list (deleteRow 4 5 sample_hash)) \<longleftrightarrow>
    \<not> (\<exists>!k. map_option row_id (hi_map (deleteRow 4 5 sample_hash) k) = Some (of_nat 0)))"
  by (rule hash_rows_conserved [OF _ sample_hash_steps]) simp_all

subsection \<open>Range scans of the ordered map\<close>

lemma drain_positions:
  assumes "i \<le> j" and "j \<le> length xs" and "j - i \<le> fuel"
  shows "drain fuel \<lparr>current = i, end_pos = j\<rparr> xs = Some (take (j - i) (drop i xs))"
  using assms
proof (induction fuel arbitrary: i)
  case 0
  then show ?case by (simp add: drain.simps isValid_def)
next
  case (Suc f)
  show ?case
  proof (cases "i = j")
    case True
    then show ?thesis by (simp add: drain.simps isValid_def)
  next
    case False
    then have i: "i < j" "i < length xs" using Suc.prems by simp_all
    have "drain f \<lparr>current = Suc i, end_pos = j\<rparr> xs = Some (take (j - Suc i) (drop (Suc i) xs))"
      using Suc.IH [of "Suc i"] Suc.prems i by simp
    moreover have "take (j - i) (drop i xs) = xs ! i # take (j - Suc i) (drop (Suc i) xs)"
      using i by (simp add: Cons_nth_drop_Suc [symmetric] take_Cons' Suc_diff_Suc [symmetric])
    ultimately show ?thesis
      using False i by (subst drain.simps) (simp add: isValid_def deref_def advance_def)
  qed
qed

lemma drain_reverse_positions:
  assumes "j \<le> i" and "i \<le> length xs" and "i - j \<le> fuel"
  shows "drain_reverse fuel \<lparr>current = i, end_pos = j\<rparr> xs = Some (rev (take (i - j) (drop j xs)))"
  using assms
proof (induction fuel arbitrary: i)
  case 0
  then show ?case by (simp add: drain_reverse.simps isValid_def)
next
  case (Suc f)
  show ?case
  proof (cases "i = j")
    case True
    then show ?thesis by (simp add: drain_reverse.simps isValid_def)
  next
    case False
    then obtain k where k: "i = Suc k" "j \<le> k" "k < length xs" using Suc.prems by (cases i) auto
    have "drain_reverse f \<lparr>current = k, end_pos = j\<rparr> xs = Some (rev (take (k - j) (drop j xs)))"
      using Suc.IH [of k] Suc.prems k by simp
    moreover have "take (Suc k - j) (drop j xs) = take (k - j) (drop j xs) @ [xs ! k]"
      using k by (simp add: Suc_diff_le take_Suc_conv_app_nth)
    ultimately show ?thesis
      using k by (subst drain_reverse.simps) (simp add: isValid_def deref_reverse_def advance_reverse_def)
  qed
qed

lemma sorted_ConsD: "keys_sorted ((k, v) # xs) \<Longrightarrow> keys_sorted xs \<and> (\<forall>e \<in> set xs. k < fst e)"
  by (auto simp: keys_sorted_def)

lemma drop_lower_bound: "keys_sorted xs \<Longrightarrow> drop (lower_bound k xs) xs = filter (\<lambda>e. k \<le> fst e) xs"
proof (induction xs)
  case (Cons e xs)
  obtain k' v where e: "e = (k', v)" by (cases e)
  have s: "keys_sorted xs" "\<forall>e \<in> set xs. k' < fst e" using sorted_ConsD Cons.prems e by blast+
  show ?case
  proof (cases "k' < k")
    case True
    then show ?thesis using Cons.IH [OF s(1)] by (simp add: e lower_bound_def)
  next
    case False
    then have "filter (\<lambda>e. k \<le> fst e) xs = xs" using s(2) by (intro filter_True) force
    then show ?thesis using False by (simp add: e lower_bound_def)
  qed
qed (simp add: lower_bound_def)

lemma take_upper_bound: "keys_sorted xs \<Longrightarrow> take (upper_bound k xs) xs = filter (\<lambda>e. fst e \<le> k) xs"
proof (induction xs)
  case (Cons e xs)
  obtain k' v where e: "e = (k', v)" by (cases e)
  have s: "keys_sorted xs" "\<forall>e \<in> set xs. k' < fst e" using sorted_ConsD Cons.prems e by blast+
  show ?case
  proof (cases "k' \<le> k")
    case True
    then show ?thesis using Cons.IH [OF s(1)] by (simp add: e upper_bound_def)
  next
    case False
    then have "filter (\<lambda>e. fst e \<le> k) xs = []" using s(2) by (intro filter_False) force
    then show ?thesis using False by (simp add: e upper_bound_def)
  qed
qed (simp add: upper_bound_def)

lemma drop_upper_bound: "keys_sorted xs \<Longrightarrow> drop (upper_bound k xs) xs = filter (\<lambda>e. k < fst e) xs"
proof (induction xs)
  case (Cons e xs)
  obtain k' v where e: "e = (k', v)" by (cases e)
  have s: "keys_sorted xs" "\<forall>e \<in> set xs. k' < fst e" using sorted_ConsD Cons.prems e by blast+
  show ?case
  proof (cases "k' \<le> k")
    case True
    then show ?thesis using Cons.IH [OF s(1)] by (simp add: e upper_bound_def)
  next
    case False
    then have "filter (\<lambda>e. k < fst e) xs = xs" using s(2) by (intro filter_True) force
    then show ?thesis using False by (simp add: e upper_bound_def)
  qed
qed (simp add: upper_bound_def)

lemma keys_sorted_filter: "keys_sorted xs \<Longrightarrow> keys_sorted (filter P xs)"
  by (induction xs) (auto simp: keys_sorted_def)

lemma bounds_order:
  assumes "a \<le> b" shows "lower_bound a xs \<le> upper_bound b xs" and "upper_bound b xs \<le> length xs"
proof -
  show "lower_bound a xs \<le> upper_bound b xs"
    using assms by (induction xs) (auto simp: lower_bound_def upper_bound_def)
  show "upper_bound b xs \<le> length xs" by (simp add: upper_bound_def length_takeWhile_le)
qed

lemma lower_bound_filter:
  "a \<le> b \<Longrightarrow> keys_sorted xs \<Longrightarrow> lower_bound a (filter (\<lambda>e. fst e \<le> b) xs) = lower_bound a xs"
proof (induction xs)
  case (Cons e xs)
  then show ?case
  proof (cases "fst e < a")
    case True
    moreover have "fst e \<le> b" using True Cons.prems(1) by simp
    ultimately show ?thesis using Cons by (simp add: lower_bound_def keys_sorted_def)
  next
    case False
    then have "\<forall>e' \<in> set (filter (\<lambda>e. fst e \<le> b) (e # xs)). \<not> fst e' < a"
      using Cons.prems(2) by (auto simp: keys_sorted_def dest: less_trans)
    then show ?thesis using False by (cases "filter (\<lambda>e. fst e \<le> b) (e # xs)") (auto simp: lower_bound_def)
  qed
qed simp

lemma range_slice:
  assumes "a \<le> b" and "keys_sorted xs"
  shows "take (upper_bound b xs - lower_bound a xs) (drop (lower_bound a xs) xs) =
         filter (\<lambda>e. a \<le> fst e \<and> fst e \<le> b) xs"
proof -
  have "take (upper_bound b xs - lower_bound a xs) (drop (lower_bound a xs) xs) =
        drop (lower_bound a xs) (take (upper_bound b xs) xs)"
    using bounds_order(1) [OF assms(1), of xs] by (simp add: take_drop)
  also have "\<dots> = drop (lower_bound a (filter (\<lambda>e. fst e \<le> b) xs)) (filter (\<lambda>e. fst e \<le> b) xs)"
    using lower_bound_filter [OF assms] take_upper_bound [OF assms(2), of b] by simp
  also have "\<dots> = filter (\<lambda>e. a \<le> fst e) (filter (\<lambda>e. fst e \<le> b) xs)"
    by (rule drop_lower_bound [OF keys_sorted_filter [OF assms(2)]])
  finally show ?thesis by (simp add: conj_commute)
qed

lemma load_sorted:
  assumes "n \<le> 2 ^ 32" and "load_keys mi_searchOrInsert ks (StdMapIndex_new n) = Inr (rows, s)" and "length ks \<le> n"
  shows "keys_sorted (mi_map s)"
proof -
  have "length ks \<le> length (mi_free_list (StdMapIndex_new n))" using assms(3) by (simp add: StdMapIndex_new_def)
  from ordered.load_rows [OF ordered_new [OF assms(1)] this] show ?thesis using assms(2) by auto
qed

text \<open>C34: Range scans. On an ordered map that was loaded with keys, reading the iterator of a range
  from \<open>a\<close> to \<open>b\<close> with \<open>a \<le> b\<close> ends after at most as many steps as there are entries and returns
  exactly the entries whose keys lie in the range, in ascending order; the reverse scan from \<open>b\<close>
  down to \<open>a\<close> returns them in descending order; and a scan after \<open>a\<close> returns the entries with greater keys.\<close>

theorem range_scans:
  fixes ks :: "'k::linorder list"
  assumes "n \<le> 2 ^ 32" and "load_keys mi_searchOrInsert ks (StdMapIndex_new n) = Inr (rows, s)" and "length ks \<le> n"
    and ab: "a \<le> b" and fuel: "length (mi_map s) \<le> fuel"
  shows "drain fuel (searchRange a b s) (mi_map s) = Some (filter (\<lambda>e. a \<le> fst e \<and> fst e \<le> b) (mi_map s)) \<and>
         drain_reverse fuel (searchRangeReverse b a s) (mi_map s) =
           Some (rev (filter (\<lambda>e. a \<le> fst e \<and> fst e \<le> b) (mi_map s))) \<and>
         drain fuel (searchAfter a s) (mi_map s) = Some (filter (\<lambda>e. a < fst e) (mi_map s)) \<and>
         sorted_wrt (<) (map fst (mi_map s))"
proof -
  have sorted: "keys_sorted (mi_map s)" by (rule load_sorted [OF assms(1-3)])
  note ord = bounds_order [OF ab, of "mi_map s"] bounds_order(2) [OF order_refl, of a "mi_map s"]
  have "drain fuel (searchRange a b s) (mi_map s) = Some (filter (\<lambda>e. a \<le> fst e \<and> fst e \<le> b) (mi_map s))"
    using drain_positions [OF ord(1,2), of fuel] ord fuel by (simp add: searchRange_def range_slice [OF ab sorted])
  moreover have "drain_reverse fuel (searchRangeReverse b a s) (mi_map s) =
      Some (rev (filter (\<lambda>e. a \<le> fst e \<and> fst e \<le> b) (mi_map s)))"
    using drain_reverse_positions [OF ord(1,2), of fuel] ord fuel
    by (simp add: searchRangeReverse_def range_slice [OF ab sorted])
  moreover have "drain fuel (searchAfter a s) (mi_map s) = Some (filter (\<lambda>e. a < fst e) (mi_map s))"
    using drain_positions [OF ord(3) order_refl, of fuel] fuel
    by (simp add: searchAfter_def drop_upper_bound [OF sorted, symmetric])
  ultimately show ?thesis using sorted by (simp add: keys_sorted_def)
qed

theorem range_scans_witness:
  "drain 2 (searchRange 10 20 \<lparr>mi_free_list = [2, 3], mi_map = [(10, 1), (30 :: nat, 0)]\<rparr>) [(10, 1), (30 :: nat, 0)] =
   Some [(10, 1)]"
proof -
  let ?s = "\<lparr>mi_free_list = [2, 3], mi_map = [(10, 1), (30 :: nat, 0)]\<rparr>"
  have load: "load_keys mi_searchOrInsert [30, 10] (StdMapIndex_new 4) = Inr ([0, 1], ?s)"
    by (simp add: mi_searchOrInsert_def StdMapIndex_new_def initial_free_list_def upt_rec)
  show ?thesis using range_scans [OF _ load, of 10 20 2] by simp
qed

end
