(* ===== verification/Endianness.thy ===== *)
theory Endianness
  imports Prelude
begin

text \<open>
  Byte order of integer keys (\<^verbatim>\<open>util_endianness.h\<close>). The bytes of an integer in the memory of the
  host are listed from the least significant one. The lemmas show that swapping the bytes of
  a key is an involution and makes the order of its bytes in memory, as \<^verbatim>\<open>memcmp\<close> compares them, the
  order of the keys.
\<close>

subsection \<open>Bytes of a number\<close>

fun digits :: "nat \<Rightarrow> nat \<Rightarrow> u8 list" where
  "digits 0 x = []"
| "digits (Suc n) x = of_nat x # digits n (x div 256)"

fun le_value :: "u8 list \<Rightarrow> nat" where
  "le_value [] = 0"
| "le_value (b # bs) = unat b + 256 * le_value bs"

definition memory_bytes :: "'a::len word \<Rightarrow> u8 list" where
  "memory_bytes w = digits (LENGTH('a) div 8) (unat w)"

definition of_memory_bytes :: "u8 list \<Rightarrow> 'a::len word" where
  "of_memory_bytes bs = of_nat (le_value bs)"

text \<open>The byte swap, for every width; the source selects the builtin for 16, 32 or 64 bits.\<close>

definition endian_swap :: "'a::len word \<Rightarrow> 'a word" where
  "endian_swap x = of_memory_bytes (rev (memory_bytes x))"

fun memcmp_less :: "u8 list \<Rightarrow> u8 list \<Rightarrow> bool" where
  "memcmp_less [] ys \<longleftrightarrow> ys \<noteq> []"
| "memcmp_less (x # xs) [] \<longleftrightarrow> False"
| "memcmp_less (x # xs) (y # ys) \<longleftrightarrow> x < y \<or> x = y \<and> memcmp_less xs ys"

subsection \<open>Numbers and bytes\<close>

lemma length_digits [simp]: "length (digits n x) = n"
  by (induction n arbitrary: x) auto

lemma unat_u8: "unat (of_nat x :: u8) = x mod 256"
  by (simp add: unat_of_nat)

lemma le_value_digits: "le_value (digits n x) = x mod 256 ^ n"
proof (induction n arbitrary: x)
  case (Suc n)
  have "le_value (digits (Suc n) x) = x mod 256 + 256 * (x div 256 mod 256 ^ n)"
    using Suc.IH by (simp add: unat_u8)
  also have "\<dots> = x mod (256 * 256 ^ n)" by (simp add: mod_mult2_eq)
  finally show ?case by simp
qed simp

lemma le_value_less: "le_value bs < 256 ^ length bs"
proof (induction bs)
  case (Cons b bs)
  have "unat b < 256" using unsigned_less [of b] by simp
  then have "unat b + 256 * le_value bs < 256 * Suc (le_value bs)" by simp
  also have "\<dots> \<le> 256 * 256 ^ length bs" using Cons.IH by (intro mult_left_mono) auto
  finally show ?case by simp
qed simp

lemma digits_le_value: "digits (length bs) (le_value bs) = bs"
proof (induction bs)
  case (Cons b bs)
  have b: "unat b < 256" using unsigned_less [of b] by simp
  have "of_nat (unat b + 256 * le_value bs) = b"
    by (simp only: word_unat_eq_iff unat_u8) (use b in simp)
  moreover have "(unat b + 256 * le_value bs) div 256 = le_value bs" using b by simp
  ultimately show ?case using Cons.IH by simp
qed simp

lemma le_value_append: "le_value (xs @ ys) = le_value xs + 256 ^ length xs * le_value ys"
  by (induction xs) (auto simp: algebra_simps)

text \<open>Lists of the same length, most significant byte first.\<close>

lemma memcmp_le_value:
  "length xs = length ys \<Longrightarrow> memcmp_less xs ys \<longleftrightarrow> le_value (rev xs) < le_value (rev ys)"
proof (induction xs ys rule: memcmp_less.induct)
  case (3 x xs y ys)
  let ?p = "256 ^ length xs :: nat"
  have len: "length xs = length ys" using "3.prems" by simp
  have bound: "le_value (rev xs) < ?p" "le_value (rev ys) < ?p"
    using le_value_less [of "rev xs"] le_value_less [of "rev ys"] len by simp_all
  have val: "le_value (rev (x # xs)) = le_value (rev xs) + ?p * unat x"
    "le_value (rev (y # ys)) = le_value (rev ys) + ?p * unat y"
    using len by (simp_all add: le_value_append)
  have step: "u + ?p * a < v + ?p * b" if "a < b" "u < ?p" for a b u v :: nat
  proof -
    have "u + ?p * a < ?p * Suc a" using that(2) by simp
    also have "\<dots> \<le> ?p * b" using that(1) by (intro mult_left_mono) auto
    finally show ?thesis by simp
  qed
  consider "unat x < unat y" | "unat x = unat y" | "unat y < unat x" by linarith
  then show ?case
  proof cases
    case 1
    then show ?thesis using step [OF 1 bound(1)] unfolding val by (simp add: word_less_nat_alt)
  next
    case 2
    then have "x = y" by (simp add: word_unat_eq_iff)
    then show ?thesis using "3.IH" len unfolding val by simp
  next
    case 3
    then have "\<not> le_value (rev xs) + ?p * unat x < le_value (rev ys) + ?p * unat y"
      using step [OF 3 bound(2)] by (meson less_asym)
    then show ?thesis using 3 unfolding val by (auto simp: word_less_nat_alt)
  qed
qed auto

subsection \<open>Swapped keys\<close>

lemma width_bytes: "8 dvd LENGTH('a::len) \<Longrightarrow> (256 :: nat) ^ (LENGTH('a) div 8) = 2 ^ LENGTH('a)"
proof -
  assume "8 dvd LENGTH('a)"
  then obtain n where n: "LENGTH('a) = 8 * n" by blast
  have "(256 :: nat) ^ n = (2 ^ 8) ^ n" by simp
  also have "\<dots> = 2 ^ (8 * n)" by (simp only: power_mult)
  finally show ?thesis by (simp add: n)
qed

lemma of_memory_memory:
  fixes w :: "'a::len word"
  assumes "8 dvd LENGTH('a)"
  shows "of_memory_bytes (memory_bytes w) = w"
  using width_bytes [OF assms] unsigned_less [of w]
  by (simp add: of_memory_bytes_def memory_bytes_def le_value_digits)

lemma memory_of_memory:
  assumes "8 dvd LENGTH('a::len)" and "length bs = LENGTH('a) div 8"
  shows "memory_bytes (of_memory_bytes bs :: 'a word) = bs"
proof -
  have "le_value bs < 2 ^ LENGTH('a)" using le_value_less [of bs] width_bytes [OF assms(1)] assms(2) by simp
  then have "unat (of_nat (le_value bs) :: 'a word) = le_value bs" by (simp add: unat_of_nat)
  then show ?thesis using digits_le_value [of bs] assms(2) by (simp add: memory_bytes_def of_memory_bytes_def)
qed

lemma length_memory_bytes [simp]: "length (memory_bytes (w :: 'a::len word)) = LENGTH('a) div 8"
  by (simp add: memory_bytes_def)

lemma memory_swap:
  fixes w :: "'a::len word"
  assumes "8 dvd LENGTH('a)"
  shows "memory_bytes (endian_swap w) = rev (memory_bytes w)"
  by (simp add: endian_swap_def memory_of_memory [OF assms])

lemma endian_swap_swap:
  fixes w :: "'a::len word"
  assumes "8 dvd LENGTH('a)"
  shows "endian_swap (endian_swap w) = w"
  by (simp add: endian_swap_def [of "endian_swap w"] memory_swap [OF assms] of_memory_memory [OF assms])

lemma swapped_order:
  fixes v w :: "'a::len word"
  assumes "8 dvd LENGTH('a)"
  shows "memcmp_less (memory_bytes (endian_swap v)) (memory_bytes (endian_swap w)) \<longleftrightarrow> v < w"
proof -
  have "le_value (memory_bytes x) = unat x" for x :: "'a word"
    using width_bytes [OF assms] unsigned_less [of x] by (simp add: memory_bytes_def le_value_digits)
  then show ?thesis
    using memcmp_le_value [of "rev (memory_bytes v)" "rev (memory_bytes w)"]
    by (simp add: memory_swap [OF assms] word_less_nat_alt)
qed

text \<open>Swapped keys. For every width of whole bytes, swapping twice gives the key back, and
  comparing the swapped keys byte by byte as they lie in memory compares the keys themselves.\<close>

lemma endian_swap_orders:
  fixes v w :: "'a::len word"
  assumes "8 dvd LENGTH('a)"
  shows "endian_swap (endian_swap v) = v \<and>
         (memcmp_less (memory_bytes (endian_swap v)) (memory_bytes (endian_swap w)) \<longleftrightarrow> v < w)"
  using endian_swap_swap [OF assms] swapped_order [OF assms] by simp

lemma endian_swap_orders_example:
  "endian_swap (endian_swap (0x11223344 :: u32)) = 0x11223344 \<and> endian_swap (0x1122 :: u16) = 0x2211 \<and>
   (memcmp_less (memory_bytes (endian_swap (0x0201 :: u16))) (memory_bytes (endian_swap (0x0102 :: u16))) \<longleftrightarrow>
    (0x0201 :: u16) < 0x0102)"
proof -
  have "endian_swap (endian_swap (0x11223344 :: u32)) = 0x11223344"
    using endian_swap_orders [of "0x11223344 :: u32" 0] by simp
  moreover have "memcmp_less (memory_bytes (endian_swap (0x0201 :: u16))) (memory_bytes (endian_swap (0x0102 :: u16))) \<longleftrightarrow>
    (0x0201 :: u16) < 0x0102" using endian_swap_orders [of "0x0201 :: u16" "0x0102"] by simp
  moreover have "endian_swap (0x1122 :: u16) = 0x2211"
    by code_simp
  ultimately show ?thesis by blast
qed

end
