(* ===== verification/Aux_Index.thy ===== *)
theory Aux_Index
  imports Endianness
begin

text \<open>
  The auxiliary range index of the host (\<^verbatim>\<open>cpu_auxiliary_range_index.h\<close>), a typed layer over a Masstree
  that is not part of the repository: it stores a key under the bytes of its swapped value.
  The tree is a parameter: a lookup \<open>get\<close>, an insertion of a new key \<open>put\<close>, and the
  sequences of entries that its forward and reverse scan iterators deliver from a first key. What the
  index relies on is the predicate \<open>masstree_ok\<close>: lookups see insertions and scans
  deliver, in byte order, all entries from the first key on. The lemmas show that the index then
  is an ordered map over the numeric order of the keys.
\<close>

definition key_string :: "'a::len word \<Rightarrow> u8 list" where
  "key_string key = memory_bytes (endian_swap key)"

definition invalid_value :: "'v::len word" where
  "invalid_value = - 1"

definition aux_searchOrInsert ::
  "('t \<Rightarrow> u8 list \<Rightarrow> 'v option) \<Rightarrow> ('t \<Rightarrow> u8 list \<Rightarrow> 'v \<Rightarrow> 't) \<Rightarrow> 'a::len word \<Rightarrow> 'v \<Rightarrow> 't \<Rightarrow> 'v \<times> 't" where
  "aux_searchOrInsert get put key v t =
     (case get t (key_string key) of
        Some old \<Rightarrow> (old, t)
      | None \<Rightarrow> (v, put t (key_string key) v))"

definition aux_search :: "('t \<Rightarrow> u8 list \<Rightarrow> ('v::len word) option) \<Rightarrow> 'a::len word \<Rightarrow> 't \<Rightarrow> 'v word" where
  "aux_search get key t = (case get t (key_string key) of Some v \<Rightarrow> v | None \<Rightarrow> invalid_value)"

subsection \<open>Iterators\<close>

text \<open>The entries a scan has not delivered yet, the current key and value, and the end key.\<close>

record ('a, 'v) aux_iterator =
  rest :: "(u8 list \<times> 'v) list"
  curr_key :: 'a
  curr_value :: 'v
  end_key :: 'a

definition adapt :: "('a::len word, 'v) aux_iterator \<Rightarrow> ('a word, 'v) aux_iterator" where
  "adapt it =
     (case rest it of
        [] \<Rightarrow> it
      | (k, v) # _ \<Rightarrow> it\<lparr>curr_key := endian_swap (of_memory_bytes k), curr_value := v\<rparr>)"

definition get_next :: "('a::len word, 'v) aux_iterator \<Rightarrow> ('a word, 'v) aux_iterator" where
  "get_next it = adapt (it\<lparr>rest := tl (rest it)\<rparr>)"

definition forward_is_valid :: "('a::len word, 'v) aux_iterator \<Rightarrow> bool" where
  "forward_is_valid it \<longleftrightarrow> rest it \<noteq> [] \<and> \<not> end_key it < curr_key it"

definition reverse_is_valid :: "('a::len word, 'v) aux_iterator \<Rightarrow> bool" where
  "reverse_is_valid it \<longleftrightarrow> rest it \<noteq> [] \<and> \<not> curr_key it < end_key it"

text \<open>Key and value of a new iterator are unset before \<open>adapt\<close>; \<open>junk\<close> stands for what they hold.\<close>

definition searchIterator ::
  "('t \<Rightarrow> u8 list \<Rightarrow> (u8 list \<times> 'v) list) \<Rightarrow> 'a::len word \<times> 'v \<Rightarrow> 'a word \<Rightarrow> 'a word \<Rightarrow> 't \<Rightarrow> ('a word, 'v) aux_iterator" where
  "searchIterator scan junk start_key last_key t =
     adapt \<lparr>rest = scan t (key_string start_key), curr_key = fst junk, curr_value = snd junk, end_key = last_key\<rparr>"

lemma rest_adapt [simp]: "rest (adapt it) = rest it"
  by (simp add: adapt_def split: list.split prod.split)

lemma end_key_adapt [simp]: "end_key (adapt it) = end_key it"
  by (simp add: adapt_def split: list.split prod.split)

text \<open>The loop of a client that reads an iterator to its end.\<close>

function drain_aux ::
  "(('a::len word, 'v) aux_iterator \<Rightarrow> bool) \<Rightarrow> ('a word, 'v) aux_iterator \<Rightarrow> ('a word \<times> 'v) list" where
  "drain_aux valid it =
     (if rest it = [] \<or> \<not> valid it then [] else (curr_key it, curr_value it) # drain_aux valid (get_next it))"
  by pat_completeness auto
termination
  by (relation "measure (\<lambda>(_, it). length (rest it))") (auto simp: get_next_def)

declare drain_aux.simps [simp del]

subsection \<open>What the index relies on\<close>

definition masstree_ok ::
  "('t \<Rightarrow> u8 list \<Rightarrow> 'v option) \<Rightarrow> ('t \<Rightarrow> u8 list \<Rightarrow> 'v \<Rightarrow> 't) \<Rightarrow> ('t \<Rightarrow> u8 list \<Rightarrow> (u8 list \<times> 'v) list) \<Rightarrow>
   ('t \<Rightarrow> u8 list \<Rightarrow> (u8 list \<times> 'v) list) \<Rightarrow> bool" where
  "masstree_ok get put scan rscan \<longleftrightarrow>
     (\<forall>t k v k'. get t k = None \<longrightarrow> get (put t k v) k' = (if k' = k then Some v else get t k')) \<and>
     (\<forall>t k. sorted_wrt (\<lambda>x y. memcmp_less (fst x) (fst y)) (scan t k) \<and>
            set (scan t k) = {(b, v). get t b = Some v \<and> \<not> memcmp_less b k}) \<and>
     (\<forall>t k. sorted_wrt (\<lambda>x y. memcmp_less (fst y) (fst x)) (rscan t k) \<and>
            set (rscan t k) = {(b, v). get t b = Some v \<and> \<not> memcmp_less k b})"

lemma masstree_put:
  "masstree_ok get put scan rscan \<Longrightarrow> get t k = None \<Longrightarrow> get (put t k v) k' = (if k' = k then Some v else get t k')"
  unfolding masstree_ok_def by blast

lemma masstree_scan:
  assumes "masstree_ok get put scan rscan"
  shows "sorted_wrt (\<lambda>x y. memcmp_less (fst x) (fst y)) (scan t k)"
    and "set (scan t k) = {(b, v). get t b = Some v \<and> \<not> memcmp_less b k}"
    and "sorted_wrt (\<lambda>x y. memcmp_less (fst y) (fst x)) (rscan t k)"
    and "set (rscan t k) = {(b, v). get t b = Some v \<and> \<not> memcmp_less k b}"
  using assms unfolding masstree_ok_def by blast+

subsection \<open>The map of a loaded index\<close>

fun aux_load ::
  "('t \<Rightarrow> u8 list \<Rightarrow> 'v option) \<Rightarrow> ('t \<Rightarrow> u8 list \<Rightarrow> 'v \<Rightarrow> 't) \<Rightarrow> ('a::len word \<times> 'v) list \<Rightarrow> 't \<Rightarrow> 't" where
  "aux_load get put [] t = t"
| "aux_load get put ((k, v) # kvs) t = aux_load get put kvs (snd (aux_searchOrInsert get put k v t))"

lemma key_string_inj: "8 dvd LENGTH('a::len) \<Longrightarrow> key_string (k :: 'a word) = key_string k' \<longleftrightarrow> k = k'"
  unfolding key_string_def by (metis endian_swap_swap of_memory_memory)

lemma key_string_less: "8 dvd LENGTH('a::len) \<Longrightarrow> memcmp_less (key_string (k :: 'a word)) (key_string k') \<longleftrightarrow> k < k'"
  unfolding key_string_def by (rule swapped_order)

lemma adapt_key: "8 dvd LENGTH('a::len) \<Longrightarrow> endian_swap (of_memory_bytes (key_string (k :: 'a word))) = k"
  by (simp add: key_string_def of_memory_memory endian_swap_swap)

text \<open>The table holds exactly the entries of \<open>m\<close>, under the strings of their keys.\<close>

definition holds :: "('t \<Rightarrow> u8 list \<Rightarrow> 'v option) \<Rightarrow> 't \<Rightarrow> ('a::len word \<Rightarrow> 'v option) \<Rightarrow> bool" where
  "holds get t m \<longleftrightarrow> (\<forall>b v. get t b = Some v \<longleftrightarrow> (\<exists>k. b = key_string k \<and> m k = Some v))"

lemma holds_get:
  fixes m :: "'a::len word \<Rightarrow> 'v option"
  assumes "8 dvd LENGTH('a)" and "holds get t m"
  shows "get t (key_string k) = m k"
proof (cases "m k")
  case None
  then have "get t (key_string k) \<noteq> Some v" for v
    using assms(2) key_string_inj [OF assms(1), of k] unfolding holds_def by auto
  then show ?thesis using None by (cases "get t (key_string k)") auto
next
  case (Some v)
  then have "get t (key_string k) = Some v" using assms(2) unfolding holds_def by blast
  then show ?thesis using Some by simp
qed

lemma holds_insert:
  fixes m :: "'a::len word \<Rightarrow> 'v option"
  assumes w: "8 dvd LENGTH('a)" and ok: "masstree_ok get put scan rscan" and h: "holds get t m"
  shows "holds get (snd (aux_searchOrInsert get put k v t)) (if m k = None then m(k := Some v) else m)"
proof (cases "m k")
  case None
  then have g: "get t (key_string k) = None" using holds_get [OF w h] by simp
  have "get (put t (key_string k) v) b = Some u \<longleftrightarrow> (\<exists>k'. b = key_string k' \<and> (m(k := Some v)) k' = Some u)" for b u
  proof (cases "b = key_string k")
    case True
    then show ?thesis using masstree_put [OF ok g] key_string_inj [OF w, of k] by auto
  next
    case False
    then have "get (put t (key_string k) v) b = get t b" using masstree_put [OF ok g] by simp
    then show ?thesis using h False unfolding holds_def by (metis fun_upd_other)
  qed
  then show ?thesis using None g by (simp add: aux_searchOrInsert_def holds_def)
next
  case (Some u)
  then have "get t (key_string k) = Some u" using holds_get [OF w h] by simp
  then show ?thesis using Some h by (simp add: aux_searchOrInsert_def)
qed

lemma holds_load:
  fixes kvs :: "('a::len word \<times> 'v) list"
  assumes "8 dvd LENGTH('a)" and "masstree_ok get put scan rscan" and "holds get t m"
  shows "holds get (aux_load get put kvs t) (map_of kvs ++ m)"
  using assms(3)
proof (induction kvs arbitrary: t m)
  case Nil
  then show ?case by simp
next
  case (Cons kv kvs)
  obtain k v where kv: "kv = (k, v)" by (cases kv)
  from Cons.IH [OF holds_insert [OF assms(1,2) Cons.prems]]
  have "holds get (aux_load get put (kv # kvs) t) (map_of kvs ++ (if m k = None then m(k := Some v) else m))"
    by (simp add: kv)
  moreover have "map_of (kv # kvs) ++ m = map_of kvs ++ (if m k = None then m(k := Some v) else m)"
    by (rule ext) (auto simp: kv map_add_def split: option.splits)
  ultimately show ?case by (simp only:)
qed

subsection \<open>Scans\<close>

text \<open>The numeric entries of a scan.\<close>

definition entry :: "u8 list \<times> 'v \<Rightarrow> 'a::len word \<times> 'v" where
  "entry e = (endian_swap (of_memory_bytes (fst e)), snd e)"

lemma adapt_Cons:
  "rest it = e # es \<Longrightarrow> (curr_key (adapt it), curr_value (adapt it)) = entry e"
  by (cases e) (simp add: adapt_def entry_def)

lemma drain_takeWhile:
  fixes it :: "('a::len word, 'v) aux_iterator"
  assumes "\<And>it :: ('a word, 'v) aux_iterator. valid it \<longleftrightarrow> rest it \<noteq> [] \<and> P (end_key it) (curr_key it)"
  shows "drain_aux valid (adapt it) = takeWhile (\<lambda>e. P (end_key it) (fst e)) (map entry (rest it))"
proof (induction "rest it" arbitrary: it)
  case Nil
  then show ?case by (subst drain_aux.simps) simp
next
  case (Cons e es)
  let ?it = "(adapt it)\<lparr>rest := es\<rparr>"
  have next_it: "drain_aux valid (get_next (adapt it)) = takeWhile (\<lambda>e. P (end_key it) (fst e)) (map entry es)"
    using Cons.hyps(1) [of ?it] Cons.hyps(2) [symmetric] by (simp add: get_next_def)
  show ?case
    using Cons.hyps(2) [symmetric] adapt_Cons [OF Cons.hyps(2) [symmetric], symmetric] next_it
    by (subst drain_aux.simps) (simp add: assms)
qed

lemma takeWhile_sorted:
  assumes "sorted_wrt R xs" and "\<And>x y. R x y \<Longrightarrow> P y \<Longrightarrow> P x"
  shows "takeWhile P xs = filter P xs"
  using assms(1)
proof (induction xs)
  case (Cons x xs)
  show ?case
  proof (cases "P x")
    case True
    then show ?thesis using Cons by simp
  next
    case False
    then have "filter P xs = []" using Cons.prems assms(2) by (intro filter_False) auto
    then show ?thesis using False by simp
  qed
qed simp

lemma holds_entries:
  fixes m :: "'a::len word \<Rightarrow> 'v option"
  assumes w: "8 dvd LENGTH('a)" and h: "holds get t m"
    and set: "set es = {(b, v). get t b = Some v \<and> Q b}"
  shows "set (map entry es) = {(k :: 'a word, v). m k = Some v \<and> Q (key_string k)}"
    and "\<forall>e \<in> set es. fst e = key_string (fst (entry e) :: 'a word)"
proof -
  have key: "\<exists>k :: 'a word. fst e = key_string k \<and> m k = Some (snd e)" if "e \<in> set es" for e
    using that set h unfolding holds_def by auto
  then show all: "\<forall>e \<in> set es. fst e = key_string (fst (entry e) :: 'a word)"
    by (auto simp: entry_def adapt_key [OF w] dest!: key)
  have "(k, v) \<in> set (map entry es) \<longleftrightarrow> m k = Some v \<and> Q (key_string k)" for k :: "'a word" and v
  proof
    assume "(k, v) \<in> set (map entry es)"
    then obtain e where e: "e \<in> set es" "entry e = (k, v)" by auto
    obtain k' :: "'a word" where k': "fst e = key_string k'" "m k' = Some (snd e)" using key [OF e(1)] by blast
    have "k = k'" "v = snd e" using e(2) k'(1) by (auto simp: entry_def adapt_key [OF w])
    then show "m k = Some v \<and> Q (key_string k)" using k' e(1) set by auto
  next
    assume mk: "m k = Some v \<and> Q (key_string k)"
    then have "(key_string k, v) \<in> set es" using holds_get [OF w h, of k] set by auto
    moreover have "entry (key_string k, v) = (k, v)" by (simp add: entry_def adapt_key [OF w])
    ultimately show "(k, v) \<in> set (map entry es)" by (metis image_eqI list.set_map)
  qed
  then show "set (map entry es) = {(k :: 'a word, v). m k = Some v \<and> Q (key_string k)}" by auto
qed

lemma sorted_entries:
  assumes "sorted_wrt R es" and "\<And>x y. x \<in> set es \<Longrightarrow> y \<in> set es \<Longrightarrow> R x y \<Longrightarrow> S (entry x) (entry y)"
  shows "sorted_wrt S (map entry es)"
  using assms by (induction es) auto

text \<open>C35: The auxiliary index is an ordered map. For a tree that behaves as relied on, load key and value
  pairs into an empty index: a lookup returns the value first inserted under the key; reading a
  forward iterator from \<open>a\<close> to \<open>b\<close> delivers exactly the entries with keys between \<open>a\<close> and \<open>b\<close> in ascending
  order of the keys as numbers; a reverse iterator from \<open>b\<close> down to \<open>a\<close> delivers them in descending order.\<close>

theorem aux_index_is_ordered_map:
  fixes kvs :: "('a::len word \<times> 'v::len word) list"
  assumes w: "8 dvd LENGTH('a)" and ok: "masstree_ok get put scan rscan" and empty: "\<forall>b. get t0 b = None"
    and t: "t = aux_load get put kvs t0"
  shows "(\<forall>k. aux_search get k t = (case map_of kvs k of Some v \<Rightarrow> v | None \<Rightarrow> invalid_value)) \<and>
         (let es = drain_aux forward_is_valid (searchIterator scan junk a b t)
          in sorted_wrt (<) (map fst es) \<and> set es = {(k, v). map_of kvs k = Some v \<and> a \<le> k \<and> k \<le> b}) \<and>
         (let es = drain_aux reverse_is_valid (searchIterator rscan junk b a t)
          in sorted_wrt (>) (map fst es) \<and> set es = {(k, v). map_of kvs k = Some v \<and> a \<le> k \<and> k \<le> b})"
proof -
  have "holds get t0 (Map.empty :: 'a word \<Rightarrow> 'v word option)" using empty by (simp add: holds_def)
  from holds_load [OF w ok this] have h: "holds get t (map_of kvs)" by (simp add: t)
  have look: "aux_search get k t = (case map_of kvs k of Some v \<Rightarrow> v | None \<Rightarrow> invalid_value)" for k
    using holds_get [OF w h] by (simp add: aux_search_def)
  note less = key_string_less [OF w]
  let ?f = "map entry (scan t (key_string a)) :: ('a word \<times> 'v word) list"
  let ?r = "map entry (rscan t (key_string b)) :: ('a word \<times> 'v word) list"
  note fs = masstree_scan(1,2) [OF ok, of t "key_string a"] and rs = masstree_scan(3,4) [OF ok, of t "key_string b"]
  have f: "set ?f = {(k, v). map_of kvs k = Some v \<and> a \<le> k}"
    using holds_entries(1) [OF w h fs(2)] by (simp add: less linorder_not_less)
  have r: "set ?r = {(k, v). map_of kvs k = Some v \<and> k \<le> b}"
    using holds_entries(1) [OF w h rs(2)] by (simp add: less linorder_not_less)
  have fo: "sorted_wrt (\<lambda>x y. fst x < fst y) ?f"
    by (rule sorted_entries [OF fs(1)]) (metis holds_entries(2) [OF w h fs(2)] less)
  have ro: "sorted_wrt (\<lambda>x y. fst y < fst x) ?r"
    by (rule sorted_entries [OF rs(1)]) (metis holds_entries(2) [OF w h rs(2)] less)
  have fd: "drain_aux forward_is_valid (searchIterator scan junk a b t) = filter (\<lambda>e. \<not> b < fst e) ?f"
    unfolding searchIterator_def
    by (subst drain_takeWhile [of forward_is_valid "\<lambda>e k. \<not> e < k"])
      (auto simp: forward_is_valid_def intro!: takeWhile_sorted [OF fo])
  have rd: "drain_aux reverse_is_valid (searchIterator rscan junk b a t) = filter (\<lambda>e. \<not> fst e < a) ?r"
    unfolding searchIterator_def
    by (subst drain_takeWhile [of reverse_is_valid "\<lambda>e k. \<not> k < e"])
      (auto simp: reverse_is_valid_def intro!: takeWhile_sorted [OF ro])
  have "sorted_wrt (<) (map fst (filter (\<lambda>e. \<not> b < fst e) ?f))"
    "sorted_wrt (>) (map fst (filter (\<lambda>e. \<not> fst e < a) ?r))"
    using fo ro by (simp_all only: sorted_wrt_map sorted_wrt_filter)
  moreover have "set (filter (\<lambda>e. \<not> b < fst e) ?f) = {(k, v). map_of kvs k = Some v \<and> a \<le> k \<and> k \<le> b}"
    "set (filter (\<lambda>e. \<not> fst e < a) ?r) = {(k, v). map_of kvs k = Some v \<and> a \<le> k \<and> k \<le> b}"
    unfolding set_filter f r by (auto simp: linorder_not_less)
  ultimately show ?thesis using look by (simp only: fd rd Let_def) simp
qed

subsection \<open>A tree that behaves as relied on\<close>

lemma memcmp_total: "memcmp_less x y \<or> x = y \<or> memcmp_less y x"
  by (induction x y rule: memcmp_less.induct) auto

lemma memcmp_trans: "memcmp_less x y \<Longrightarrow> memcmp_less y z \<Longrightarrow> memcmp_less x z"
proof (induction x y arbitrary: z rule: memcmp_less.induct)
  case (1 ys)
  then show ?case by (cases ys; cases z) auto
next
  case (3 x xs y ys)
  then show ?case by (cases z) auto
qed simp

lemma memcmp_irrefl: "\<not> memcmp_less x x"
  by (induction x) auto

fun list_put :: "u8 list \<Rightarrow> 'v \<Rightarrow> (u8 list \<times> 'v) list \<Rightarrow> (u8 list \<times> 'v) list" where
  "list_put k v [] = [(k, v)]"
| "list_put k v ((k', v') # es) =
     (if memcmp_less k k' then (k, v) # (k', v') # es
      else if k = k' then (k, v) # es else (k', v') # list_put k v es)"

definition list_tree :: "(u8 list \<times> 'v) list \<Rightarrow> (u8 list \<times> 'v) list" where
  "list_tree t = foldr (\<lambda>(k, v). list_put k v) t []"

abbreviation byte_sorted :: "(u8 list \<times> 'v) list \<Rightarrow> bool" where
  "byte_sorted es \<equiv> sorted_wrt (\<lambda>x y. memcmp_less (fst x) (fst y)) es"

lemma keys_list_put: "fst ` set (list_put k v es) = insert k (fst ` set es)"
  by (induction k v es rule: list_put.induct) auto

lemma list_put_sorted: "byte_sorted es \<Longrightarrow> byte_sorted (list_put k v es)"
proof (induction k v es rule: list_put.induct)
  case (2 k v k' v' es)
  have "\<forall>e \<in> set (list_put k v es). fst e = k \<or> fst e \<in> fst ` set es" using keys_list_put [of k v es] by auto
  then show ?case using 2 memcmp_total [of k k'] by (force intro: memcmp_trans)
qed simp

lemma list_put_map: "map_of (list_put k v es) x = ((map_of es)(k := Some v)) x"
  by (induction k v es rule: list_put.induct) auto

lemma list_tree_sorted: "byte_sorted (list_tree t)"
  by (induction t) (auto simp: list_tree_def list_put_sorted split: prod.split)

lemma list_tree_put: "map_of (list_tree ((k, v) # t)) = (map_of (list_tree t))(k := Some v)"
  by (rule ext) (simp add: list_tree_def list_put_map)

lemma byte_sorted_set: "byte_sorted es \<Longrightarrow> set es = {(b, v). map_of es b = Some v}"
proof -
  assume s: "byte_sorted es"
  have "distinct (map fst es)" using s by (induction es) (auto simp: memcmp_irrefl)
  then show ?thesis by auto
qed

definition list_get :: "(u8 list \<times> 'v) list \<Rightarrow> u8 list \<Rightarrow> 'v option" where
  "list_get t b = map_of (list_tree t) b"

definition list_scan :: "(u8 list \<times> 'v) list \<Rightarrow> u8 list \<Rightarrow> (u8 list \<times> 'v) list" where
  "list_scan t k = filter (\<lambda>e. \<not> memcmp_less (fst e) k) (list_tree t)"

definition list_rscan :: "(u8 list \<times> 'v) list \<Rightarrow> u8 list \<Rightarrow> (u8 list \<times> 'v) list" where
  "list_rscan t k = rev (filter (\<lambda>e. \<not> memcmp_less k (fst e)) (list_tree t))"

lemma list_masstree_ok: "masstree_ok (list_get :: (u8 list \<times> 'v) list \<Rightarrow> _) (\<lambda>t k v. (k, v) # t) list_scan list_rscan"
proof -
  have "sorted_wrt (\<lambda>x y. memcmp_less (fst x) (fst y)) (list_scan t k)" for t :: "(u8 list \<times> 'v) list" and k
    unfolding list_scan_def by (rule sorted_wrt_filter [OF list_tree_sorted])
  moreover have "sorted_wrt (\<lambda>x y. memcmp_less (fst y) (fst x)) (list_rscan t k)" for t :: "(u8 list \<times> 'v) list" and k
    unfolding list_rscan_def sorted_wrt_rev by (rule sorted_wrt_filter [OF list_tree_sorted])
  moreover have "set (list_scan t k) = {(b, v). list_get t b = Some v \<and> \<not> memcmp_less b k}"
    "set (list_rscan t k) = {(b, v). list_get t b = Some v \<and> \<not> memcmp_less k b}" for t :: "(u8 list \<times> 'v) list" and k
    using byte_sorted_set [OF list_tree_sorted, of t]
    by (auto simp: list_scan_def list_rscan_def list_get_def)
  ultimately show ?thesis by (simp add: masstree_ok_def list_get_def list_tree_put)
qed

theorem aux_index_is_ordered_map_witness:
  "\<exists>t. (let es = drain_aux forward_is_valid (searchIterator list_scan (0 :: u32, 0 :: u32) 2 300 t)
        in sorted_wrt (<) (map fst es) \<and>
           set es = {(k, v). map_of [(256, 1), (2, 2), (400, 3)] k = Some v \<and> 2 \<le> k \<and> k \<le> 300})"
proof -
  have width: "8 dvd LENGTH(32)" by simp
  have "\<forall>b. list_get ([] :: (u8 list \<times> u32) list) b = None" by (simp add: list_get_def list_tree_def)
  note facts = aux_index_is_ordered_map [OF width list_masstree_ok this refl]
  show ?thesis by (rule exI, rule facts [THEN conjunct2, THEN conjunct1])
qed

end
