(* ===== verification/Planner_Memory.thy ===== *)
theory Planner_Memory
  imports Txn_Array Submitter
begin

text \<open>
  The device arrays of the two planners: the constructors and \<^verbatim>\<open>Initialize\<close> of \<^verbatim>\<open>gpu_execution_planner.h\<close>,
  \<^verbatim>\<open>gpu_execution_planner.cu\<close> and \<^verbatim>\<open>gacco/gpu_execution_planner.cu\<close> over \<^verbatim>\<open>gpu_allocator.cu\<close> and \<^verbatim>\<open>util_math.h\<close>.
  Whether the device can serve a request is a parameter. The theorems show that the arrays hold every
  epoch the submitter can produce, and that the lock handover of GaccO reads past them.
\<close>

subsection \<open>The allocator\<close>

definition kDeviceCacheLineSize :: u64 where "kDeviceCacheLineSize = 128"

definition AlignTo :: "u64 \<Rightarrow> u64 \<Rightarrow> u64" where
  "AlignTo value alignment = (value + alignment - 1) AND NOT (alignment - 1)"

text \<open>\<open>None\<close> is the call of \<^verbatim>\<open>abort\<close> when the device refuses the request.\<close>

definition Allocate :: "(u64 \<Rightarrow> mem \<Rightarrow> bool) \<Rightarrow> u64 \<Rightarrow> mem \<Rightarrow> (nat option \<times> mem) option" where
  "Allocate avail sz m =
     (if \<not> avail sz m then None
      else if sz = 0 then Some (None, m)
      else Some (alloc_block GPU (unat sz) m))"

record 'p alloc_state =
  as_mem :: mem
  as_total :: u64
  as_ptrs :: 'p

text \<open>One call: the pointer field to set and the number of bytes.\<close>

type_synonym 'p request = "(nat option \<Rightarrow> 'p \<Rightarrow> 'p) \<times> u64"

definition allocateDeviceArray ::
  "(u64 \<Rightarrow> mem \<Rightarrow> bool) \<Rightarrow> 'p request \<Rightarrow> 'p alloc_state \<Rightarrow> 'p alloc_state option" where
  "allocateDeviceArray avail rq s =
     (let sz = AlignTo (snd rq) kDeviceCacheLineSize
      in case Allocate avail sz (as_mem s) of
           None \<Rightarrow> None
         | Some (ptr, m) \<Rightarrow>
             Some \<lparr>as_mem = m, as_total = as_total s + sz, as_ptrs = fst rq ptr (as_ptrs s)\<rparr>)"

fun allocate_arrays ::
  "(u64 \<Rightarrow> mem \<Rightarrow> bool) \<Rightarrow> 'p request list \<Rightarrow> 'p alloc_state \<Rightarrow> 'p alloc_state option" where
  "allocate_arrays avail [] s = Some s"
| "allocate_arrays avail (rq # rqs) s =
     (case allocateDeviceArray avail rq s of None \<Rightarrow> None | Some s' \<Rightarrow> allocate_arrays avail rqs s')"

text \<open>\<^verbatim>\<open>cudaMemset\<close> with the value 0; its error code is not looked at.\<close>

definition cudaMemset :: "nat option \<Rightarrow> nat \<Rightarrow> mem \<Rightarrow> mem" where
  "cudaMemset p n m =
     (case p of
        None \<Rightarrow> m
      | Some b \<Rightarrow>
        (case blocks m b of
           Some (GPU, bs) \<Rightarrow>
             if n \<le> length bs then m\<lparr>blocks := (blocks m)(b := Some (GPU, replicate n 0 @ drop n bs))\<rparr> else m
         | _ \<Rightarrow> m))"

subsection \<open>The planner\<close>

text \<open>The sizes the constructor stores; \<open>num_txns\<close> is its argument and \<open>max_num_txns\<close> the member.\<close>

record planner_sizes =
  max_ops_per_txn :: u64
  max_num_txns :: u64
  max_num_records :: u64
  max_num_ops :: u64

definition new_planner :: "u64 \<Rightarrow> u64 \<Rightarrow> u64 \<Rightarrow> planner_sizes" where
  "new_planner ops_per_txn num_txns num_records =
     \<lparr>max_ops_per_txn = ops_per_txn, max_num_txns = num_txns + 1, max_num_records = num_records,
      max_num_ops = num_txns * ops_per_txn\<rparr>"

record planner_arrays =
  pa_all_keys :: "nat option"
  pa_read_keys :: "nat option"
  pa_write_keys :: "nat option"
  pa_insert_keys :: "nat option"
  pa_op_is_insert :: "nat option"
  pa_num_ops :: "nat option"
  pa_op_offsets :: "nat option"
  pa_submitted_ops :: "nat option"
  pa_sorted_ops :: "nat option"
  pa_write_ops_before :: "nat option"
  pa_write_ops_after :: "nat option"
  pa_rw_ops_type :: "nat option"
  pa_tver_write_ops_before :: "nat option"
  pa_rw_locations :: "nat option"
  pa_copy_dep_locations :: "nat option"
  pa_scratch_array :: "nat option"
  pa_scratch_array_bytes :: u64
  pa_cuda_stream :: "nat option"

definition no_arrays :: planner_arrays where
  "no_arrays =
     \<lparr>pa_all_keys = None, pa_read_keys = None, pa_write_keys = None, pa_insert_keys = None, pa_op_is_insert = None,
      pa_num_ops = None, pa_op_offsets = None, pa_submitted_ops = None, pa_sorted_ops = None,
      pa_write_ops_before = None, pa_write_ops_after = None, pa_rw_ops_type = None, pa_tver_write_ops_before = None,
      pa_rw_locations = None, pa_copy_dep_locations = None, pa_scratch_array = None, pa_scratch_array_bytes = 0,
      pa_cuda_stream = None\<rparr>"

definition scratch_bytes :: "planner_sizes \<Rightarrow> u64" where
  "scratch_bytes z = max (4 * max_num_ops z * 8) 2048"

text \<open>The calls of \<^verbatim>\<open>allocateDeviceArray\<close> before and after the \<^verbatim>\<open>cudaMemset\<close>, in their order.\<close>

definition submit_requests :: "planner_sizes \<Rightarrow> planner_arrays request list" where
  "submit_requests z =
     [(\<lambda>p a. a\<lparr>pa_all_keys := p\<rparr>, max_num_ops z * 4),
      (\<lambda>p a. a\<lparr>pa_read_keys := p\<rparr>, max_num_ops z * 4),
      (\<lambda>p a. a\<lparr>pa_write_keys := p\<rparr>, max_num_ops z * 4),
      (\<lambda>p a. a\<lparr>pa_insert_keys := p\<rparr>, max_num_ops z * 4),
      (\<lambda>p a. a\<lparr>pa_op_is_insert := p\<rparr>, max_num_ops z * 1),
      (\<lambda>p a. a\<lparr>pa_num_ops := p\<rparr>, max_num_txns z * 4),
      (\<lambda>p a. a\<lparr>pa_op_offsets := p\<rparr>, max_num_txns z * 4)]"

definition plan_requests :: "planner_sizes \<Rightarrow> planner_arrays request list" where
  "plan_requests z =
     [(\<lambda>p a. a\<lparr>pa_submitted_ops := p\<rparr>, max_num_ops z * 8),
      (\<lambda>p a. a\<lparr>pa_sorted_ops := p\<rparr>, max_num_ops z * 8),
      (\<lambda>p a. a\<lparr>pa_write_ops_before := p\<rparr>, max_num_ops z * 4),
      (\<lambda>p a. a\<lparr>pa_write_ops_after := p\<rparr>, max_num_ops z * 4),
      (\<lambda>p a. a\<lparr>pa_rw_ops_type := p\<rparr>, max_num_ops z * 1),
      (\<lambda>p a. a\<lparr>pa_tver_write_ops_before := p\<rparr>, max_num_ops z * 4),
      (\<lambda>p a. a\<lparr>pa_rw_locations := p\<rparr>, max_num_ops z * 4),
      (\<lambda>p a. a\<lparr>pa_copy_dep_locations := p\<rparr>, max_num_ops z * 4),
      (\<lambda>p a. a\<lparr>pa_copy_dep_locations := p\<rparr>, max_num_txns z * 8),
      (\<lambda>p a. a\<lparr>pa_scratch_array := p, pa_scratch_array_bytes := scratch_bytes z\<rparr>, scratch_bytes z)]"

text \<open>Both planners allocate some arrays, clear the offsets, allocate the other arrays and create a stream.\<close>

definition allocate_planner ::
  "(u64 \<Rightarrow> mem \<Rightarrow> bool) \<Rightarrow> 'p request list \<Rightarrow> ('p \<Rightarrow> nat option) \<Rightarrow> u64 \<Rightarrow> 'p request list \<Rightarrow> (nat \<Rightarrow> 'p \<Rightarrow> 'p) \<Rightarrow> 'p \<Rightarrow> mem
     \<Rightarrow> 'p alloc_state option" where
  "allocate_planner avail rqs1 offsets bytes rqs2 set_stream p m =
     (case allocate_arrays avail rqs1 \<lparr>as_mem = m, as_total = 0, as_ptrs = p\<rparr> of
        None \<Rightarrow> None
      | Some s \<Rightarrow>
        (case allocate_arrays avail rqs2 (s\<lparr>as_mem := cudaMemset (offsets (as_ptrs s)) (unat bytes) (as_mem s)\<rparr>) of
           None \<Rightarrow> None
         | Some s' \<Rightarrow>
             (let (stream, m') = createGpuStream (as_mem s')
              in Some (s'\<lparr>as_mem := m', as_ptrs := set_stream stream (as_ptrs s')\<rparr>))))"

definition Initialize ::
  "(u64 \<Rightarrow> mem \<Rightarrow> bool) \<Rightarrow> planner_sizes \<Rightarrow> mem \<Rightarrow> planner_arrays alloc_state option" where
  "Initialize avail z =
     allocate_planner avail (submit_requests z) pa_op_offsets (max_num_txns z * 4) (plan_requests z)
       (\<lambda>stream a. a\<lparr>pa_cuda_stream := Some stream\<rparr>) no_arrays"

subsection \<open>What an initialisation leaves\<close>

lemma AlignTo_unat:
  assumes "unat v + 127 < 2 ^ 64"
  shows "unat (AlignTo v kDeviceCacheLineSize) = (unat v + 127) div 128 * 128"
proof -
  define x where "x = v + 127"
  have "AlignTo v kDeviceCacheLineSize = x AND NOT (mask 7)"
    by (simp add: AlignTo_def kDeviceCacheLineSize_def x_def mask_eq_exp_minus_1 add_diff_eq [symmetric])
  also have "\<dots> = push_bit 7 (drop_bit 7 x)"
    by (rule bit_word_eqI) (auto simp: bit_simps)
  also have "\<dots> = x div 128 * 128" by (simp add: push_bit_eq_mult drop_bit_eq_div)
  finally have eq: "unat (AlignTo v kDeviceCacheLineSize) = unat x div 128 * 128 mod 2 ^ 64"
    by (simp add: unat_word_ariths(2) unat_div)
  have x: "unat x = unat v + 127" using assms by (simp add: x_def unat_word_ariths)
  have "unat x div 128 * 128 \<le> unat x" by (rule div_times_less_eq_dividend)
  then show ?thesis unfolding eq using assms by (simp add: x)
qed

lemma AlignTo_bounds:
  assumes "unat v + 127 < 2 ^ 64"
  shows "unat v \<le> unat (AlignTo v kDeviceCacheLineSize)" and "unat (AlignTo v kDeviceCacheLineSize) < unat v + 128"
    and "128 dvd unat v \<Longrightarrow> AlignTo v kDeviceCacheLineSize = v"
proof -
  show "unat v \<le> unat (AlignTo v kDeviceCacheLineSize)" and "unat (AlignTo v kDeviceCacheLineSize) < unat v + 128"
    unfolding AlignTo_unat [OF assms]
    using div_mult_mod_eq [of "unat v + 127" 128] mod_less_divisor [of 128 "unat v + 127"] by linarith+
  assume "128 dvd unat v"
  then obtain k where k: "unat v = 128 * k" by (rule dvdE)
  have "unat (AlignTo v kDeviceCacheLineSize) = unat v"
    unfolding AlignTo_unat [OF assms] k by (simp add: div_mult_self2)
  then show "AlignTo v kDeviceCacheLineSize = v" by (rule unsigned_word_eqI)
qed

definition served :: "'p request list \<Rightarrow> mem \<Rightarrow> mem \<Rightarrow> bool" where
  "served rqs m m' \<longleftrightarrow>
     next_block m' = next_block m + length rqs \<and> (\<forall>b < next_block m. blocks m' b = blocks m b) \<and>
     (\<forall>j < length rqs. blocks m' (next_block m + j) =
        Some (GPU, replicate (unat (AlignTo (snd (rqs ! j)) kDeviceCacheLineSize)) 0))"

text \<open>The pointer fields after the requests were given consecutive blocks.\<close>

fun set_ptrs :: "'p request list \<Rightarrow> nat \<Rightarrow> 'p \<Rightarrow> 'p" where
  "set_ptrs [] b p = p"
| "set_ptrs (rq # rqs) b p = set_ptrs rqs (Suc b) (fst rq (Some b) p)"

definition sized_requests :: "'p request list \<Rightarrow> bool" where
  "sized_requests rqs \<longleftrightarrow> (\<forall>rq \<in> set rqs. 0 < unat (snd rq) \<and> unat (snd rq) + 127 < 2 ^ 64)"

lemma allocate_arrays_spec:
  assumes "allocate_arrays avail rqs s = Some s'" and "sized_requests rqs"
  shows "served rqs (as_mem s) (as_mem s') \<and> as_ptrs s' = set_ptrs rqs (next_block (as_mem s)) (as_ptrs s)"
  using assms
proof (induction rqs arbitrary: s)
  case (Cons rq rqs)
  let ?sz = "AlignTo (snd rq) kDeviceCacheLineSize"
  have "unat (snd rq) \<le> unat ?sz" "0 < unat (snd rq)"
    using Cons.prems(2) by (auto simp: sized_requests_def intro!: AlignTo_bounds)
  then have nz: "?sz \<noteq> 0" by auto
  obtain s1 where s1: "allocateDeviceArray avail rq s = Some s1" "allocate_arrays avail rqs s1 = Some s'"
    using Cons.prems(1) by (auto split: option.splits)
  then have m1: "as_mem s1 = snd (alloc_block GPU (unat ?sz) (as_mem s))"
    and p1: "as_ptrs s1 = fst rq (Some (next_block (as_mem s))) (as_ptrs s)"
    using nz by (auto simp: allocateDeviceArray_def Allocate_def Let_def alloc_block_def split: if_splits)
  have IH: "served rqs (as_mem s1) (as_mem s')" "as_ptrs s' = set_ptrs rqs (next_block (as_mem s1)) (as_ptrs s1)"
    using Cons.IH [OF s1(2)] Cons.prems(2) by (simp_all add: sized_requests_def)
  have "blocks (as_mem s') (next_block (as_mem s)) = Some (GPU, replicate (unat ?sz) 0)"
    using IH(1) by (simp add: served_def m1 alloc_block_def)
  moreover have "blocks (as_mem s') (next_block (as_mem s) + Suc j) =
      Some (GPU, replicate (unat (AlignTo (snd (rqs ! j)) kDeviceCacheLineSize)) 0)" if "j < length rqs" for j
    using IH(1) that by (simp add: served_def m1 alloc_block_def)
  ultimately have "blocks (as_mem s') (next_block (as_mem s) + j) =
      Some (GPU, replicate (unat (AlignTo (snd ((rq # rqs) ! j)) kDeviceCacheLineSize)) 0)" if "j < Suc (length rqs)" for j
    using that by (cases j) simp_all
  then show ?case using IH by (simp add: served_def m1 p1 alloc_block_def)
qed (simp add: served_def)

lemma served_append:
  assumes "served xs m m1" and "served ys m1 m2"
  shows "served (xs @ ys) m m2"
proof -
  have "blocks m2 (next_block m + j) = Some (GPU, replicate (unat (AlignTo (snd ((xs @ ys) ! j)) kDeviceCacheLineSize)) 0)"
    if j: "j < length xs + length ys" for j
  proof (cases "j < length xs")
    case True
    then show ?thesis using assms by (simp add: served_def nth_append)
  next
    case False
    then obtain i where i: "j = length xs + i" "i < length ys" using j less_eqE by (metis add_less_cancel_left not_less)
    then have e: "next_block m + j = next_block m1 + i" using assms by (simp add: served_def)
    show ?thesis unfolding e using assms(2) i by (simp add: served_def)
  qed
  then show ?thesis using assms by (simp add: served_def)
qed

lemma set_ptrs_append: "set_ptrs (xs @ ys) b p = set_ptrs ys (b + length xs) (set_ptrs xs b p)"
  by (induction xs arbitrary: b p) simp_all

lemma cudaMemset_fresh:
  assumes "blocks m b = Some (GPU, replicate k 0)"
  shows "cudaMemset (Some b) n m = m"
proof -
  have "n \<le> k \<Longrightarrow> replicate n 0 @ drop n (replicate k 0) = replicate k (0 :: u8)"
    by (simp flip: replicate_add)
  then have "(blocks m)(b := Some (GPU, replicate n 0 @ drop n (replicate k 0))) = blocks m" if "n \<le> k"
    using that assms by (simp add: fun_upd_idem)
  then show ?thesis by (simp add: cudaMemset_def assms)
qed

lemma allocate_planner_spec:
  assumes init: "allocate_planner avail rqs1 offsets bytes rqs2 set_stream p m = Some s"
    and sizes: "sized_requests (rqs1 @ rqs2)"
    and off: "offsets (set_ptrs rqs1 (next_block m) p) = Some (next_block m + j)" "j < length rqs1"
  shows "served (rqs1 @ rqs2) m (as_mem s)"
    and "\<exists>st. as_ptrs s = set_stream st (set_ptrs (rqs1 @ rqs2) (next_block m) p)"
proof -
  have sz: "sized_requests rqs1" "sized_requests rqs2" using sizes by (auto simp: sized_requests_def)
  obtain s1 where s1: "allocate_arrays avail rqs1 \<lparr>as_mem = m, as_total = 0, as_ptrs = p\<rparr> = Some s1"
    using init by (auto simp: allocate_planner_def split: option.splits)
  note a1 = allocate_arrays_spec [OF s1 sz(1)]
  have "offsets (as_ptrs s1) = Some (next_block m + j)" using a1 off by simp
  moreover have "blocks (as_mem s1) (next_block m + j) =
      Some (GPU, replicate (unat (AlignTo (snd (rqs1 ! j)) kDeviceCacheLineSize)) 0)"
    using a1 off by (simp add: served_def)
  ultimately have ms: "cudaMemset (offsets (as_ptrs s1)) n (as_mem s1) = as_mem s1" for n
    by (simp add: cudaMemset_fresh)
  obtain s2 where s2: "allocate_arrays avail rqs2 s1 = Some s2"
    and s: "s = s2\<lparr>as_mem := snd (createGpuStream (as_mem s2)),
                    as_ptrs := set_stream (fst (createGpuStream (as_mem s2))) (as_ptrs s2)\<rparr>"
    using init by (auto simp: allocate_planner_def s1 ms split: option.splits prod.splits)
  note a2 = allocate_arrays_spec [OF s2 sz(2)]
  have "served (rqs1 @ rqs2) m (as_mem s2)" using a1 a2 by (auto intro: served_append)
  then show "served (rqs1 @ rqs2) m (as_mem s)" by (simp add: s served_def createGpuStream_def)
  have "as_ptrs s2 = set_ptrs (rqs1 @ rqs2) (next_block m) p" using a1 a2 by (simp add: set_ptrs_append served_def)
  then show "\<exists>st. as_ptrs s = set_stream st (set_ptrs (rqs1 @ rqs2) (next_block m) p)" by (auto simp: s)
qed

text \<open>The initialisation can only fail because the device refuses a request.\<close>

lemma allocate_arrays_total: "\<exists>s'. allocate_arrays (\<lambda>_ _. True) rqs s = Some s'"
  by (induction rqs arbitrary: s) (simp_all add: allocateDeviceArray_def Allocate_def Let_def alloc_block_def)

lemma allocate_planner_total: "\<exists>s. allocate_planner (\<lambda>_ _. True) rqs1 offsets bytes rqs2 set_stream p m = Some s"
proof -
  obtain s1 where s1: "allocate_arrays (\<lambda>_ _. True) rqs1 \<lparr>as_mem = m, as_total = 0, as_ptrs = p\<rparr> = Some s1"
    using allocate_arrays_total by blast
  obtain s2 where "allocate_arrays (\<lambda>_ _. True) rqs2
      (s1\<lparr>as_mem := cudaMemset (offsets (as_ptrs s1)) (unat bytes) (as_mem s1)\<rparr>) = Some s2"
    using allocate_arrays_total by blast
  then show ?thesis by (simp add: allocate_planner_def s1 createGpuStream_def)
qed

subsection \<open>The arrays hold every epoch\<close>

definition array_holds :: "mem \<Rightarrow> nat \<Rightarrow> nat \<Rightarrow> nat option \<Rightarrow> bool" where
  "array_holds m elem_size n p \<longleftrightarrow> (\<exists>b bs. p = Some b \<and> blocks m b = Some (GPU, bs) \<and> elem_size * n \<le> length bs)"

lemma length_submit_op_le: "length (submit_op split mb nm txn i) \<le> 11"
  by (simp add: submit_op_def Let_def split: YcsbOpType.splits)

lemma length_concat_le: "(\<And>x. x \<in> set xs \<Longrightarrow> length (f x) \<le> k) \<Longrightarrow> length (concat (map f xs)) \<le> k * length xs"
proof (induction xs)
  case (Cons x xs)
  have "length (f x) \<le> k" using Cons.prems by simp
  moreover have "length (concat (map f xs)) \<le> k * length xs" using Cons by simp
  ultimately show ?case by simp
qed simp

lemma length_serial_ops_le: "length (serial_ops split mb nm txns) \<le> 110 * length txns"
proof -
  have txn: "length (submit_txn split mb nm txn) \<le> 110" for txn
    using length_concat_le [of "[0..<10]" "submit_op split mb nm txn" 11] length_submit_op_le
    by (simp add: submit_txn_def)
  then show ?thesis
    unfolding serial_ops_def
    using length_concat_le [of "[0..<length txns]" "\<lambda>tid. map (emit_op tid) (submit_txn split mb nm (txns ! tid))" 110]
    by simp
qed

lemma served_holds:
  assumes "served rqs m m'" and "j < length rqs" and "sized_requests rqs" and "k * n \<le> unat (snd (rqs ! j))"
  shows "array_holds m' k n (Some (next_block m + j))"
proof -
  let ?v = "snd (rqs ! j)"
  have "unat ?v + 127 < 2 ^ 64" using assms(2,3) nth_mem by (fastforce simp: sized_requests_def)
  then have "unat ?v \<le> unat (AlignTo ?v kDeviceCacheLineSize)" by (rule AlignTo_bounds)
  then show ?thesis using assms by (simp add: served_def array_holds_def)
qed

lemma Initialize_total: "\<exists>s. Initialize (\<lambda>_ _. True) z m = Some s"
  unfolding Initialize_def by (rule allocate_planner_total)

text \<open>C39: The planner's arrays. When initialising the planner of the YCSB benchmark succeeds, all its arrays are separate device blocks,
  the first entry of the offsets is the zero the submitter relies on, and whatever the transactions of an epoch are, the arrays of the submitter
  and of the planner hold all their operations. One block of the initialisation is referenced by no pointer.\<close>

theorem planner_arrays_fit:
  assumes pos: "0 < unat num_txns" and small: "unat num_txns * 3520 + 2176 < 2 ^ 64"
    and init: "Initialize avail (new_planner (11 * 10) num_txns num_records) m = Some s"
    and len: "length txns = unat num_txns"
  shows "let p = as_ptrs s; m' = as_mem s; n = length (serial_ops split mb nm txns);
             ptrs = [pa_all_keys p, pa_read_keys p, pa_write_keys p, pa_insert_keys p, pa_op_is_insert p, pa_num_ops p,
               pa_op_offsets p, pa_submitted_ops p, pa_sorted_ops p, pa_write_ops_before p, pa_write_ops_after p,
               pa_rw_ops_type p, pa_tver_write_ops_before p, pa_rw_locations p, pa_copy_dep_locations p, pa_scratch_array p]
         in distinct ptrs \<and>
            list_all (array_holds m' 4 n) [pa_all_keys p, pa_read_keys p, pa_write_keys p, pa_insert_keys p,
              pa_write_ops_before p, pa_write_ops_after p, pa_tver_write_ops_before p, pa_rw_locations p] \<and>
            list_all (array_holds m' 1 n) [pa_op_is_insert p, pa_rw_ops_type p] \<and>
            list_all (array_holds m' 8 n) [pa_submitted_ops p, pa_sorted_ops p] \<and>
            array_holds m' 4 (length txns) (pa_num_ops p) \<and> array_holds m' 4 (length txns + 1) (pa_op_offsets p) \<and>
            array_holds m' 1 (unat (pa_scratch_array_bytes p)) (pa_scratch_array p) \<and>
            read_u32 (pa_op_offsets p, 0) m' = Some 0 \<and>
            (\<exists>b. next_block m \<le> b \<and> blocks m' b \<noteq> None \<and> Some b \<notin> set ptrs)"
proof -
  define z where "z = new_planner (11 * 10) num_txns num_records"
  let ?rqs = "submit_requests z @ plan_requests z" and ?b = "next_block m" and ?n = "length (serial_ops split mb nm txns)"
  define t where "t = unat num_txns"
  have t: "0 < t" "t * 3520 + 2176 < 2 ^ 64" using pos small by (simp_all add: t_def)
  have ops: "unat (max_num_ops z) = 110 * t" using t(2) by (simp add: z_def new_planner_def unat_word_ariths t_def)
  have tx: "unat (max_num_txns z) = t + 1" using t(2) by (simp add: z_def new_planner_def unat_word_ariths t_def)
  have mult: "unat (max_num_ops z * 4) = 440 * t" "unat (max_num_ops z * 8) = 880 * t" "unat (max_num_txns z * 4) = 4 * t + 4"
    "unat (max_num_txns z * 8) = 8 * t + 8"
    using t(2) by (simp_all add: unat_word_ariths ops tx)
  have "unat (4 * max_num_ops z * 8) = 3520 * t" using t(2) by (simp add: unat_word_ariths ops)
  then have scr: "unat (scratch_bytes z) = max (3520 * t) 2048"
    by (simp add: scratch_bytes_def max_def word_le_nat_alt)
  have sized: "sized_requests ?rqs"
    using t by (auto simp: sized_requests_def submit_requests_def plan_requests_def mult ops scr max_def)
  have "pa_op_offsets (set_ptrs (submit_requests z) ?b no_arrays) = Some (?b + 6)" "6 < length (submit_requests z)"
    by (simp_all add: submit_requests_def)
  note spec = allocate_planner_spec [OF init [folded z_def, unfolded Initialize_def] sized this]
  have n: "length (serial_ops split mb nm txns) \<le> 110 * t" using length_serial_ops_le [of split mb nm txns] by (simp add: len t_def)
  have ptrs: "pa_all_keys (as_ptrs s) = Some ?b" "pa_read_keys (as_ptrs s) = Some (?b + 1)" "pa_write_keys (as_ptrs s) = Some (?b + 2)"
    "pa_insert_keys (as_ptrs s) = Some (?b + 3)" "pa_op_is_insert (as_ptrs s) = Some (?b + 4)" "pa_num_ops (as_ptrs s) = Some (?b + 5)"
    "pa_op_offsets (as_ptrs s) = Some (?b + 6)" "pa_submitted_ops (as_ptrs s) = Some (?b + 7)" "pa_sorted_ops (as_ptrs s) = Some (?b + 8)"
    "pa_write_ops_before (as_ptrs s) = Some (?b + 9)" "pa_write_ops_after (as_ptrs s) = Some (?b + 10)"
    "pa_rw_ops_type (as_ptrs s) = Some (?b + 11)" "pa_tver_write_ops_before (as_ptrs s) = Some (?b + 12)"
    "pa_rw_locations (as_ptrs s) = Some (?b + 13)" "pa_copy_dep_locations (as_ptrs s) = Some (?b + 15)"
    "pa_scratch_array (as_ptrs s) = Some (?b + 16)" "pa_scratch_array_bytes (as_ptrs s) = scratch_bytes z"
    using spec(2) by (auto simp: submit_requests_def plan_requests_def)
  have len17: "length ?rqs = 17" by (simp add: submit_requests_def plan_requests_def)
  have holds: "array_holds (as_mem s) k c (Some (?b + j))" if "j < 17" "k * c \<le> unat (snd (?rqs ! j))" for j k c
    by (rule served_holds [OF spec(1) _ sized that(2)]) (simp only: len17 that(1))
  have blk: "blocks (as_mem s) (?b + j) = Some (GPU, replicate (unat (AlignTo (snd (?rqs ! j)) kDeviceCacheLineSize)) 0)" if "j < 17" for j
    using spec(1) that by (simp only: served_def len17)
  have "array_holds (as_mem s) 4 (t + 1) (Some (?b + 6))"
    by (rule holds) (simp_all add: submit_requests_def plan_requests_def mult)
  then have zero: "read_u32 (Some (?b + 6), 0) (as_mem s) = Some 0"
    using blk [of 6] by (simp add: read_u32_def read_bytes_def array_holds_def le_u32_def numeral_eq_Suc)
  have four: "array_holds (as_mem s) 4 ?n (Some (?b + j))" if "j \<in> {0, 1, 2, 3, 9, 10, 12, 13}" for j
    by (rule holds; use that n in \<open>auto simp: submit_requests_def plan_requests_def mult\<close>)
  have one: "array_holds (as_mem s) 1 ?n (Some (?b + j))" if "j \<in> {4, 11}" for j
    by (rule holds; use that n in \<open>auto simp: submit_requests_def plan_requests_def ops\<close>)
  have eight: "array_holds (as_mem s) 8 ?n (Some (?b + j))" if "j \<in> {7, 8}" for j
    by (rule holds; use that n in \<open>auto simp: submit_requests_def plan_requests_def mult\<close>)
  have rest: "array_holds (as_mem s) 4 t (Some (?b + 5))" "array_holds (as_mem s) 4 (t + 1) (Some (?b + 6))"
    "array_holds (as_mem s) 1 (unat (scratch_bytes z)) (Some (?b + 16))"
    by (rule holds; simp add: submit_requests_def plan_requests_def mult)+
  have leak: "blocks (as_mem s) (?b + 14) \<noteq> None" using blk [of 14] by simp
  show ?thesis
    unfolding Let_def ptrs len t_def [symmetric] list.pred_inject
    using zero leak four [of 0] four [of 1] four [of 2] one [of 4] one [of 11] rest
    by (intro conjI exI [of _ "?b + 14"]) (simp_all add: four eight)
qed

theorem planner_arrays_fit_witness:
  "\<exists>s. Initialize (\<lambda>_ _. True) (new_planner (11 * 10) 2 16) empty_mem = Some s \<and>
     array_holds (as_mem s) 8 (length (serial_ops True 6 1 [sample_txn, sample_txn])) (pa_submitted_ops (as_ptrs s))"
proof -
  obtain s where s: "Initialize (\<lambda>_ _. True) (new_planner (11 * 10) 2 16) empty_mem = Some s"
    using Initialize_total by blast
  show ?thesis
    using planner_arrays_fit [OF _ _ s, of "[sample_txn, sample_txn]"] s by (simp add: Let_def)
qed

end
