(* ===== verification/Gacco_Plan.thy ===== *)
theory Gacco_Plan
  imports Prelude
begin

text \<open>
  The lock planner of the GaccO baseline (\<^verbatim>\<open>gacco/execution_planner.h\<close>,
  \<^verbatim>\<open>gacco/gpu_execution_planner.cu\<close>): it sorts the submitted accesses by record and builds, for each record,
  the queue of the transactions that access it. The run-length encoder, the scan and the sort of the CUDA
  toolkit have their documented meaning. The lemmas show that the lock, the offset and the access array of
  a plan describe for every accessed record exactly its accesses in submission order.
\<close>

type_synonym gop = u64

definition GACCO_CREATE_OP :: "u32 \<Rightarrow> u32 \<Rightarrow> gop" where
  "GACCO_CREATE_OP record_id txn_id = push_bit 32 (ucast record_id) OR ucast txn_id"

definition GACCO_GET_RECORD_ID :: "gop \<Rightarrow> u32" where
  "GACCO_GET_RECORD_ID op = ucast (drop_bit 32 (op AND 0xFFFFFFFF00000000))"

definition GACCO_GET_TXN_ID :: "gop \<Rightarrow> u32" where
  "GACCO_GET_TXN_ID op = ucast (op AND 0x00000000FFFFFFFF)"

record GaccoTableLock =
  lock_access :: "u32 list"
  lock_offset :: "u32 list"
  lock_lock :: "u32 list"

record GaccoPlanner =
  g_submitted_ops :: "gop list"
  g_curr_num_ops :: nat
  g_sorted_ops :: "gop list"
  g_unique_rows :: "u32 list"
  g_unique_access :: "u32 list"
  g_unique_offset :: "u32 list"
  g_table_lock :: GaccoTableLock

text \<open>\<^verbatim>\<open>cub::DeviceRunLengthEncode::Encode\<close>: the runs of equal elements with their lengths.\<close>

function rle :: "u32 list \<Rightarrow> (u32 \<times> u32) list" where
  "rle [] = []"
| "rle (x # xs) = (x, of_nat (Suc (length (takeWhile ((=) x) xs)))) # rle (dropWhile ((=) x) xs)"
  by pat_completeness auto
termination
  by (relation "measure length") (auto simp: length_dropWhile_le le_imp_less_Suc)

text \<open>The first elements of an array are overwritten, the rest of it keeps its contents.\<close>

definition write_front :: "'a list \<Rightarrow> 'a list \<Rightarrow> 'a list" where
  "write_front xs arr = xs @ drop (length xs) arr"

definition copyAccessTidKernel :: "gop list \<Rightarrow> u32 list \<Rightarrow> u32 list" where
  "copyAccessTidKernel sorted_ops access = write_front (map GACCO_GET_TXN_ID sorted_ops) access"

definition buildAuxArrayKernel :: "u32 list \<Rightarrow> u32 list \<Rightarrow> u32 list \<Rightarrow> GaccoTableLock \<Rightarrow> GaccoTableLock" where
  "buildAuxArrayKernel unique_rows unique_offset access l =
     l\<lparr>lock_access := access,
       lock_offset := scatter (zip unique_rows unique_offset) (lock_offset l),
       lock_lock := scatter (zip unique_rows (map (load access) unique_offset)) (lock_lock l)\<rparr>"

definition GaccoInitializeExecutionPlan :: "GaccoPlanner \<Rightarrow> GaccoPlanner" where
  "GaccoInitializeExecutionPlan p =
     (if g_curr_num_ops p = 0 then p
      else let xs = sort_key (drop_bit 32) (take (g_curr_num_ops p) (g_submitted_ops p));
               runs = rle (map GACCO_GET_RECORD_ID xs);
               offs = exclusive_sum (map snd runs);
               access = copyAccessTidKernel xs (lock_access (g_table_lock p))
           in p\<lparr>g_sorted_ops := write_front xs (g_sorted_ops p),
                g_unique_rows := write_front (map fst runs) (g_unique_rows p),
                g_unique_access := write_front (map snd runs) (g_unique_access p),
                g_unique_offset := write_front offs (g_unique_offset p),
                g_table_lock := buildAuxArrayKernel (map fst runs) offs access (g_table_lock p)\<rparr>)"

subsection \<open>Fields\<close>

lemma gacco_masks: "(0xFFFFFFFF00000000 :: u64) = push_bit 32 (mask 32)" "(0xFFFFFFFF :: u64) = mask 32"
  by (simp_all add: mask_eq_exp_minus_1)

lemma gacco_record_id: "GACCO_GET_RECORD_ID (GACCO_CREATE_OP r t) = r"
  unfolding GACCO_GET_RECORD_ID_def GACCO_CREATE_OP_def gacco_masks
  by (rule bit_word_eqI) (auto simp: bit_simps dest: bit_imp_le_length)

lemma gacco_txn_id: "GACCO_GET_TXN_ID (GACCO_CREATE_OP r t) = t"
  unfolding GACCO_GET_TXN_ID_def GACCO_CREATE_OP_def gacco_masks
  by (rule bit_word_eqI) (auto simp: bit_simps dest: bit_imp_le_length)

lemma gacco_rid_drop: "ucast (GACCO_GET_RECORD_ID op) = drop_bit 32 op"
  unfolding GACCO_GET_RECORD_ID_def gacco_masks
  by (rule bit_word_eqI) (auto simp: bit_simps dest: bit_imp_le_length)

lemma gacco_rid_unat: "unat (GACCO_GET_RECORD_ID op) = unat (drop_bit 32 op)"
proof -
  have "unat (ucast (GACCO_GET_RECORD_ID op) :: u64) = unat (GACCO_GET_RECORD_ID op)"
    by (rule unat_widen)
  then show ?thesis by (simp add: gacco_rid_drop)
qed

text \<open>An access is determined by its record and its transaction.\<close>

lemma gacco_op_eqI:
  assumes "GACCO_GET_RECORD_ID a = GACCO_GET_RECORD_ID b" and "GACCO_GET_TXN_ID a = GACCO_GET_TXN_ID b"
  shows "a = b"
proof (rule bit_word_eqI)
  fix n assume n: "n < LENGTH(64)"
  show "bit a n \<longleftrightarrow> bit b n"
  proof (cases "n < 32")
    case True
    have "bit (GACCO_GET_TXN_ID a) n \<longleftrightarrow> bit (GACCO_GET_TXN_ID b) n" by (simp add: assms(2))
    then show ?thesis using True unfolding GACCO_GET_TXN_ID_def gacco_masks by (simp add: bit_simps)
  next
    case False
    have "bit (drop_bit 32 a) (n - 32) \<longleftrightarrow> bit (drop_bit 32 b) (n - 32)"
      using gacco_rid_drop [of a] gacco_rid_drop [of b] assms(1) by simp
    then show ?thesis using False by (simp add: bit_simps)
  qed
qed

abbreviation rid_of :: "gop \<Rightarrow> u32" where "rid_of \<equiv> GACCO_GET_RECORD_ID"
abbreviation tid_of :: "gop \<Rightarrow> u32" where "tid_of \<equiv> GACCO_GET_TXN_ID"

lemma sorted_by_rid: "sorted (map rid_of (sort_key (drop_bit 32) ops))"
proof -
  have "sorted (map (drop_bit 32) (sort_key (drop_bit 32) ops))" by simp
  then show ?thesis by (simp add: sorted_map word_le_nat_alt gacco_rid_unat)
qed

lemma stable_by_rid: "filter (\<lambda>x. rid_of x = r) (sort_key (drop_bit 32) ops) = filter (\<lambda>x. rid_of x = r) ops"
proof -
  have "(rid_of x = r) \<longleftrightarrow> (drop_bit 32 x = (ucast r :: u64))" for x
    unfolding gacco_rid_drop [symmetric] by (simp add: word_unat_eq_iff unat_widen)
  then show ?thesis by (simp add: sort_key_stable)
qed

subsection \<open>Runs\<close>

lemma rle_rows: "sorted ys \<Longrightarrow> set (map fst (rle ys)) = set ys \<and> distinct (map fst (rle ys))"
proof (induction ys rule: rle.induct)
  case (2 x xs)
  let ?d = "dropWhile ((=) x) xs"
  have sd: "sorted ?d" using "2.prems" by (auto intro: sorted_dropWhile)
  note IH = "2.IH" [OF sd]
  have split: "set xs = set (takeWhile ((=) x) xs) \<union> set ?d" by (metis set_append takeWhile_dropWhile_id)
  have tw: "set (takeWhile ((=) x) xs) \<subseteq> {x}" by (auto dest: set_takeWhileD)
  have "x \<notin> set ?d"
  proof
    assume x: "x \<in> set ?d"
    then obtain y ys where y: "?d = y # ys" by (cases ?d) auto
    have "y \<noteq> x" using hd_dropWhile [of "(=) x" xs] y by auto
    moreover have "x \<le> y" using "2.prems" y set_dropWhileD [of y "(=) x" xs] by auto
    moreover have "y \<le> x" using sd x y by auto
    ultimately show False by simp
  qed
  then show ?case using IH split tw by auto
qed simp

text \<open>The running sum of the run lengths is where the runs start.\<close>

lemma rle_starts:
  assumes "sorted ys" and "(r, off) \<in> set (zip (map fst (rle ys)) (exclusive_sum_from acc (map snd (rle ys))))"
  shows "\<exists>pre post. ys = pre @ r # post \<and> r \<notin> set pre \<and> off = acc + of_nat (length pre)"
  using assms
proof (induction ys arbitrary: acc rule: rle.induct)
  case (2 x xs)
  let ?t = "takeWhile ((=) x) xs" and ?d = "dropWhile ((=) x) xs"
  have sd: "sorted ?d" using "2.prems"(1) by (auto intro: sorted_dropWhile)
  have eq: "x # xs = (x # ?t) @ ?d" by simp
  show ?case
  proof (cases "r = x \<and> off = acc")
    case True
    then show ?thesis by (intro exI [of _ "[]"] exI [of _ xs]) simp
  next
    case False
    then have mem: "(r, off) \<in> set (zip (map fst (rle ?d)) (exclusive_sum_from (acc + of_nat (Suc (length ?t))) (map snd (rle ?d))))"
      using "2.prems"(2) by auto
    from "2.IH" [OF sd mem] obtain pre post where d: "?d = pre @ r # post" "r \<notin> set pre"
      "off = acc + of_nat (Suc (length ?t)) + of_nat (length pre)" by blast
    have "r \<in> set (map fst (rle ?d))" using mem by (auto dest: set_zip_leftD)
    moreover have "x \<notin> set (map fst (rle ?d))" using rle_rows [OF "2.prems"(1)] by simp
    ultimately have "r \<noteq> x" by auto
    then have "r \<notin> set (x # ?t)" by (auto dest: set_takeWhileD)
    then show ?thesis
      using d eq by (intro exI [of _ "(x # ?t) @ pre"] exI [of _ post]) (auto simp: algebra_simps)
  qed
qed simp

lemma length_exclusive_from [simp]: "length (exclusive_sum_from acc vs) = length vs"
  by (induction vs arbitrary: acc) auto

lemma sorted_block:
  assumes "sorted (map f xs)" and "map f xs = pre @ r # post" and "r \<notin> set pre"
  shows "filter (\<lambda>x. f x = r) xs = take (length (filter (\<lambda>x. f x = r) xs)) (drop (length pre) xs)"
proof -
  let ?n = "length pre"
  have pre: "map f (take ?n xs) = pre" and suf: "map f (drop ?n xs) = r # post"
    using assms(2) by (simp_all add: take_map [symmetric] drop_map [symmetric])
  have "filter (\<lambda>x. f x = r) (take ?n xs) = []" using pre assms(3) by (metis (mono_tags, lifting) filter_False image_eqI list.set_map)
  then have eq: "filter (\<lambda>x. f x = r) xs = filter (\<lambda>x. f x = r) (drop ?n xs)"
    by (metis append_take_drop_id append_Nil filter_append)
  have sorted: "sorted (map f (drop ?n xs))" using assms(1) by (simp add: drop_map [symmetric] sorted_wrt_drop)
  have "\<forall>x \<in> set (drop ?n xs). r \<le> f x"
    using sorted suf by (metis (no_types, lifting) image_eqI list.set_map order_refl set_ConsD sorted_simps(2))
  then have "filter (\<lambda>x. f x = r) ys = takeWhile (\<lambda>x. f x = r) ys" if "\<exists>zs. zs @ ys = drop ?n xs" for ys
    using that
  proof (induction ys)
    case (Cons y ys)
    have "filter (\<lambda>x. f x = r) ys = takeWhile (\<lambda>x. f x = r) ys"
      using Cons.IH [OF Cons.prems(1)] Cons.prems(2) by (metis append.assoc append_Cons append_Nil)
    moreover have "filter (\<lambda>x. f x = r) ys = []" if "f y \<noteq> r"
    proof -
      obtain zs where zs: "zs @ y # ys = drop ?n xs" using Cons.prems(2) by blast
      have "y \<in> set (drop ?n xs)" using zs by (metis in_set_conv_decomp)
      then have "r < f y" using Cons.prems(1) that by (metis order_le_neq_trans)
      moreover have "\<forall>x \<in> set ys. f y \<le> f x" using sorted zs [symmetric] by (auto simp: sorted_append)
      ultimately show ?thesis by (auto simp: filter_empty_conv)
    qed
    ultimately show ?case by simp
  qed simp
  then have "filter (\<lambda>x. f x = r) (drop ?n xs) = takeWhile (\<lambda>x. f x = r) (drop ?n xs)" by blast
  then show ?thesis unfolding eq by (metis takeWhile_eq_take)
qed

subsection \<open>The queues of a plan\<close>

text \<open>The accesses of a table fit into its arrays.\<close>

definition gacco_fits :: "GaccoPlanner \<Rightarrow> bool" where
  "gacco_fits p \<longleftrightarrow>
     0 < g_curr_num_ops p \<and> g_curr_num_ops p \<le> length (g_submitted_ops p) \<and> g_curr_num_ops p < 2 ^ 32 \<and>
     g_curr_num_ops p \<le> length (lock_access (g_table_lock p)) \<and>
     (\<forall>op \<in> set (take (g_curr_num_ops p) (g_submitted_ops p)).
        unat (rid_of op) < length (lock_offset (g_table_lock p)) \<and> unat (rid_of op) < length (lock_lock (g_table_lock p)))"

text \<open>The transactions that access a record, in submission order.\<close>

definition queue_of :: "gop list \<Rightarrow> u32 \<Rightarrow> u32 list" where
  "queue_of ops r = map tid_of (filter (\<lambda>x. rid_of x = r) ops)"

lemma plan_queue:
  assumes fits: "gacco_fits p" and ops: "ops = take (g_curr_num_ops p) (g_submitted_ops p)"
    and r: "r \<in> rid_of ` set ops" and l: "l = g_table_lock (GaccoInitializeExecutionPlan p)"
  shows "load (lock_lock l) r = hd (queue_of ops r)"
    and "take (length (queue_of ops r)) (drop (unat (load (lock_offset l) r)) (lock_access l)) = queue_of ops r"
    and "unat (load (lock_offset l) r) + length (queue_of ops r) \<le> length ops"
    and "length (lock_access l) = length (lock_access (g_table_lock p))"
    and "(\<forall>op \<in> set ops. rid_of op \<le> r) \<Longrightarrow> unat (load (lock_offset l) r) + length (queue_of ops r) = length ops"
proof -
  let ?t = "g_table_lock p"
  let ?xs = "sort_key (drop_bit 32) ops"
  let ?runs = "rle (map rid_of ?xs)"
  let ?offs = "exclusive_sum (map snd ?runs)"
  let ?access = "copyAccessTidKernel ?xs (lock_access ?t)"
  let ?q = "queue_of ops r"
  have n: "length ops = g_curr_num_ops p" using fits by (simp add: ops gacco_fits_def)
  have len: "length ops < 2 ^ 32" "length ops \<le> length (lock_access ?t)" "0 < length ops"
    using fits by (simp_all add: n gacco_fits_def)
  have sorted: "sorted (map rid_of ?xs)" by (rule sorted_by_rid)
  have lk: "l = buildAuxArrayKernel (map fst ?runs) ?offs ?access ?t"
    using fits by (simp add: l GaccoInitializeExecutionPlan_def Let_def ops gacco_fits_def)
  have rows: "set (map fst ?runs) = rid_of ` set ops" "distinct (map fst ?runs)"
    using rle_rows [OF sorted] by simp_all
  obtain i where i: "i < length ?runs" "map fst ?runs ! i = r"
    using r rows(1) by (metis in_set_conv_nth length_map)
  define off where "off = ?offs ! i"
  have lens: "length ?offs = length ?runs" by (simp add: exclusive_sum_def)
  have z: "(r, off) \<in> set (zip (map fst ?runs) ?offs)"
    using i lens nth_mem [of i "zip (map fst ?runs) ?offs"] by (simp add: off_def)
  have z2: "(r, load ?access off) \<in> set (zip (map fst ?runs) (map (load ?access) ?offs))"
    using i lens nth_mem [of i "zip (map fst ?runs) (map (load ?access) ?offs)"] by (simp add: off_def)
  have small: "unat r < length (lock_offset ?t)" "unat r < length (lock_lock ?t)"
    using fits r by (auto simp: ops gacco_fits_def)
  have d: "distinct (map fst (zip (map fst ?runs) ?offs))" "distinct (map fst (zip (map fst ?runs) (map (load ?access) ?offs)))"
    using rows(2) lens by simp_all
  have lo: "load (lock_offset l) r = off" using load_scatter_in [OF d(1) z small(1)] by (simp add: lk buildAuxArrayKernel_def)
  have ll: "load (lock_lock l) r = load ?access off"
    using load_scatter_in [OF d(2) z2 small(2)] by (simp add: lk buildAuxArrayKernel_def)
  obtain pre post where split: "map rid_of ?xs = pre @ r # post" "r \<notin> set pre" "off = of_nat (length pre)"
    using rle_starts [OF sorted, of r off 0] z by (auto simp: exclusive_sum_def)
  have "length (map rid_of ?xs) = length pre + Suc (length post)" using split(1) by simp
  then have lp: "length pre < length ops" by simp
  then have off: "unat off = length pre" using len(1) split(3) by (simp add: unat_of_nat_u32)
  have block: "filter (\<lambda>x. rid_of x = r) ops = take (length ?q) (drop (length pre) ?xs)"
    using sorted_block [OF sorted split(1,2)] by (simp add: stable_by_rid queue_of_def)
  have q: "?q = map tid_of (take (length ?q) (drop (length pre) ?xs))"
    using arg_cong [OF block, of "map tid_of"] unfolding queue_of_def [symmetric] .
  have fit: "length pre + length ?q \<le> length ops"
    using arg_cong [OF q, of length] lp by simp
  have "length pre + length ?q = length ops" if top: "\<forall>op \<in> set ops. rid_of op \<le> r"
  proof -
    have "set (map rid_of ?xs) = rid_of ` set ops" by simp
    then have "x \<le> r" if "x \<in> set post" for x using that top unfolding split(1) by auto
    moreover have "r \<le> x" if "x \<in> set post" for x using that sorted unfolding split(1) by (simp add: sorted_append)
    ultimately have "filter ((=) r) post = post" by (auto simp: filter_id_conv intro: order.antisym)
    moreover have "filter ((=) r) pre = []" using split(2) by (auto simp: filter_empty_conv)
    ultimately have "filter ((=) r) (map rid_of ?xs) = r # post" by (simp add: split(1))
    then have "map rid_of (filter (\<lambda>x. r = rid_of x) ?xs) = r # post" by (simp add: filter_map comp_def)
    then have "length (r # post) = length (filter (\<lambda>x. r = rid_of x) ?xs)" by (metis length_map)
    also have "\<dots> = length ?q" using stable_by_rid [of r ops] by (simp add: queue_of_def eq_commute)
    finally show ?thesis using \<open>length (map rid_of ?xs) = length pre + Suc (length post)\<close> by simp
  qed
  then show "(\<forall>op \<in> set ops. rid_of op \<le> r) \<Longrightarrow> unat (load (lock_offset l) r) + length ?q = length ops" by (simp add: lo off)
  have acc: "lock_access l = map tid_of ?xs @ drop (length ops) (lock_access ?t)"
    by (simp add: lk buildAuxArrayKernel_def copyAccessTidKernel_def write_front_def nth_append)
  have "take (length ?q) (drop (length pre) (lock_access l)) = take (length ?q) (drop (length pre) (map tid_of ?xs))"
    using fit by (simp add: acc)
  also have "\<dots> = ?q" using q by (simp add: take_map drop_map)
  finally show tq: "take (length ?q) (drop (unat (load (lock_offset l) r)) (lock_access l)) = ?q" by (simp add: lo off)
  show "unat (load (lock_offset l) r) + length ?q \<le> length ops" using fit by (simp add: lo off)
  show "length (lock_access l) = length (lock_access ?t)" using len(2) by (simp add: acc)
  have ne: "?q \<noteq> []" using r by (auto simp: queue_of_def filter_empty_conv)
  have "load ?access off = hd (take (length ?q) (drop (length pre) (lock_access l)))"
    using ne lp by (simp add: load_def off lk buildAuxArrayKernel_def hd_take hd_drop_conv_nth copyAccessTidKernel_def write_front_def nth_append)
  then show "load (lock_lock l) r = hd ?q" using tq by (simp add: ll lo off)
qed

end
