(* ===== verification/Gacco_Locks.thy ===== *)
theory Gacco_Locks
  imports Gacco_Plan
begin

text \<open>
  The record locks of the GaccO executor (\<^verbatim>\<open>acquireLock\<close> and \<^verbatim>\<open>releaseLock\<close> of
  \<^verbatim>\<open>gacco/benchmarks/ycsb_gpu_executor.cu\<close>) on the plan of \<open>Gacco_Plan\<close>, as a step relation on the pieces
  of an epoch: a piece spins until the lock of its record names its transaction, runs, then advances the
  offset of the record and, in a second atomic step, hands the lock to the transaction found there. The
  state keeps a log of the pieces in the order in which they entered, which the code does not have. The lemmas
  show by rule induction that the pieces of a record run one at a time in submission order, and that the
  epoch never deadlocks.
\<close>

datatype phase = Spinning | Running | Releasing u32 | Done

record gacco_state =
  gs_offset :: "u32 list"
  gs_lock :: "u32 list"
  gs_phase :: "phase list"
  gs_log :: "nat list"

text \<open>One atomic step of piece \<open>i\<close>, whose access is \<open>ops ! i\<close>; \<open>None\<close> if the piece has to wait, has
  finished or reads past the end of the access array.\<close>

definition acquireLock :: "gop list \<Rightarrow> nat \<Rightarrow> gacco_state \<Rightarrow> gacco_state option" where
  "acquireLock ops i s =
     (if gs_phase s ! i = Spinning \<and> load (gs_lock s) (rid_of (ops ! i)) = tid_of (ops ! i)
      then Some (s\<lparr>gs_phase := (gs_phase s)[i := Running], gs_log := gs_log s @ [i]\<rparr>) else None)"

definition releaseLock_offset :: "gop list \<Rightarrow> nat \<Rightarrow> gacco_state \<Rightarrow> gacco_state option" where
  "releaseLock_offset ops i s =
     (if gs_phase s ! i = Running
      then let r = rid_of (ops ! i); new_lock_offset = load (gs_offset s) r + 1
           in Some (s\<lparr>gs_offset := store (gs_offset s) r new_lock_offset,
                      gs_phase := (gs_phase s)[i := Releasing new_lock_offset]\<rparr>)
      else None)"

definition releaseLock_pass :: "u32 list \<Rightarrow> gop list \<Rightarrow> nat \<Rightarrow> gacco_state \<Rightarrow> gacco_state option" where
  "releaseLock_pass access ops i s =
     (case gs_phase s ! i of
        Releasing new_lock_offset \<Rightarrow>
          if unat new_lock_offset < length access
          then Some (s\<lparr>gs_lock := store (gs_lock s) (rid_of (ops ! i)) (load access new_lock_offset),
                       gs_phase := (gs_phase s)[i := Done]\<rparr>)
          else None
      | _ \<Rightarrow> None)"

definition gacco_start :: "gop list \<Rightarrow> GaccoTableLock \<Rightarrow> gacco_state" where
  "gacco_start ops l =
     \<lparr>gs_offset = lock_offset l, gs_lock = lock_lock l, gs_phase = replicate (length ops) Spinning, gs_log = []\<rparr>"

inductive gacco_step :: "u32 list \<Rightarrow> gop list \<Rightarrow> gacco_state \<Rightarrow> gacco_state \<Rightarrow> bool" for access ops where
  acquire: "i < length ops \<Longrightarrow> acquireLock ops i s = Some s' \<Longrightarrow> gacco_step access ops s s'"
| advance: "i < length ops \<Longrightarrow> releaseLock_offset ops i s = Some s' \<Longrightarrow> gacco_step access ops s s'"
| pass: "i < length ops \<Longrightarrow> releaseLock_pass access ops i s = Some s' \<Longrightarrow> gacco_step access ops s s'"

subsection \<open>The pieces of a record\<close>

definition pieces :: "gop list \<Rightarrow> u32 \<Rightarrow> nat list" where
  "pieces ops r = filter (\<lambda>i. rid_of (ops ! i) = r) [0..<length ops]"

lemma set_pieces: "i \<in> set (pieces ops r) \<longleftrightarrow> i < length ops \<and> rid_of (ops ! i) = r"
  by (auto simp: pieces_def)

lemma distinct_pieces: "distinct (pieces ops r)"
  by (simp add: pieces_def)

lemma queue_pieces: "queue_of ops r = map (\<lambda>i. tid_of (ops ! i)) (pieces ops r)"
proof -
  have "filter (\<lambda>x. rid_of x = r) (map ((!) ops) [0..<length ops]) = map ((!) ops) (pieces ops r)"
    by (simp only: filter_map comp_def pieces_def)
  then have "filter (\<lambda>x. rid_of x = r) ops = map ((!) ops) (pieces ops r)" by (simp only: map_nth)
  then show ?thesis by (simp add: queue_of_def comp_def)
qed

text \<open>Where record \<open>r\<close> stands when \<open>n\<close> of its pieces have entered; \<open>base\<close> is the start of its queue.\<close>

definition record_inv :: "gop list \<Rightarrow> u32 \<Rightarrow> nat \<Rightarrow> gacco_state \<Rightarrow> nat \<Rightarrow> bool" where
  "record_inv ops r base s n \<longleftrightarrow>
     n \<le> length (pieces ops r) \<and> filter (\<lambda>i. rid_of (ops ! i) = r) (gs_log s) = take n (pieces ops r) \<and>
     (\<forall>k < length (pieces ops r). n \<le> k \<longrightarrow> gs_phase s ! (pieces ops r ! k) = Spinning) \<and>
     (\<forall>k. Suc k < n \<longrightarrow> gs_phase s ! (pieces ops r ! k) = Done) \<and>
     (case (if n = 0 then Done else gs_phase s ! (pieces ops r ! (n - 1))) of
        Done \<Rightarrow> unat (load (gs_offset s) r) = base + n \<and>
                (n < length (pieces ops r) \<longrightarrow> load (gs_lock s) r = queue_of ops r ! n)
      | Running \<Rightarrow> unat (load (gs_offset s) r) + 1 = base + n \<and> load (gs_lock s) r = queue_of ops r ! (n - 1)
      | Releasing c \<Rightarrow> unat c = base + n \<and> unat (load (gs_offset s) r) = base + n \<and>
                       load (gs_lock s) r = queue_of ops r ! (n - 1)
      | Spinning \<Rightarrow> False)"

lemma distinct_queue: "distinct ops \<Longrightarrow> distinct (queue_of ops r)"
  unfolding queue_of_def by (auto simp: distinct_map inj_on_def intro: gacco_op_eqI)

lemma record_inv_frame:
  assumes "record_inv ops r base s n" and "load (gs_offset s') r = load (gs_offset s) r"
    and "load (gs_lock s') r = load (gs_lock s) r"
    and "\<And>i. i \<in> set (pieces ops r) \<Longrightarrow> gs_phase s' ! i = gs_phase s ! i"
    and "filter (\<lambda>i. rid_of (ops ! i) = r) (gs_log s') = filter (\<lambda>i. rid_of (ops ! i) = r) (gs_log s)"
  shows "record_inv ops r base s' n"
proof -
  have n: "n \<le> length (pieces ops r)" using assms(1) by (simp add: record_inv_def)
  have ph: "gs_phase s' ! (pieces ops r ! k) = gs_phase s ! (pieces ops r ! k)" if "k < length (pieces ops r)" for k
    using assms(4) that by simp
  have "\<forall>k. Suc k < n \<longrightarrow> gs_phase s' ! (pieces ops r ! k) = gs_phase s ! (pieces ops r ! k)" using ph n by auto
  moreover have "(if n = 0 then Done else gs_phase s' ! (pieces ops r ! (n - 1))) =
      (if n = 0 then Done else gs_phase s ! (pieces ops r ! (n - 1)))" using ph n by auto
  ultimately show ?thesis using assms(1) ph unfolding record_inv_def assms(2,3,5) by simp
qed

text \<open>The position in its queue of a piece in a given phase.\<close>

lemma phase_position:
  assumes inv: "record_inv ops r base s n" and k: "k < length (pieces ops r)"
  shows "gs_phase s ! (pieces ops r ! k) = Spinning \<longleftrightarrow> n \<le> k"
    and "gs_phase s ! (pieces ops r ! k) \<noteq> Spinning \<Longrightarrow> gs_phase s ! (pieces ops r ! k) \<noteq> Done \<Longrightarrow> n = Suc k"
proof -
  have spin: "n \<le> k \<Longrightarrow> gs_phase s ! (pieces ops r ! k) = Spinning" using inv k by (simp add: record_inv_def)
  have dn: "Suc k < n \<Longrightarrow> gs_phase s ! (pieces ops r ! k) = Done" using inv by (simp add: record_inv_def)
  have last: "n = Suc k \<Longrightarrow> gs_phase s ! (pieces ops r ! k) \<noteq> Spinning" using inv by (auto simp: record_inv_def)
  show "gs_phase s ! (pieces ops r ! k) = Spinning \<longleftrightarrow> n \<le> k"
    using spin dn last by (metis not_less_eq_eq le_less_Suc_eq not_less phase.distinct(5) Suc_leI)
  show "gs_phase s ! (pieces ops r ! k) \<noteq> Spinning \<Longrightarrow> gs_phase s ! (pieces ops r ! k) \<noteq> Done \<Longrightarrow> n = Suc k"
    using spin dn by (metis linorder_neqE_nat not_less_eq not_less)
qed

text \<open>What the arrays of the plan give for a record.\<close>

definition record_ok :: "u32 list \<Rightarrow> gop list \<Rightarrow> u32 \<Rightarrow> nat \<Rightarrow> gacco_state \<Rightarrow> bool" where
  "record_ok access ops r base s \<longleftrightarrow>
     distinct ops \<and> length ops < 2 ^ 32 \<and> base + length (pieces ops r) \<le> length ops \<and>
     (\<forall>k < length (pieces ops r). base + k < length access \<and> access ! (base + k) = queue_of ops r ! k) \<and>
     unat r < length (gs_offset s) \<and> unat r < length (gs_lock s) \<and> length (gs_phase s) = length ops"

lemma length_queue [simp]: "length (queue_of ops r) = length (pieces ops r)"
  by (simp add: queue_pieces)

lemma pieces_inj: "j < length (pieces ops r) \<Longrightarrow> k < length (pieces ops r) \<Longrightarrow> pieces ops r ! j = pieces ops r ! k \<longleftrightarrow> j = k"
  by (simp add: nth_eq_iff_index_eq [OF distinct_pieces])

lemma piece_lt: "k < length (pieces ops r) \<Longrightarrow> pieces ops r ! k < length ops \<and> rid_of (ops ! (pieces ops r ! k)) = r"
  using set_pieces nth_mem by blast

lemma acquire_inv:
  assumes ok: "record_ok access ops r base s" and inv: "record_inv ops r base s n" and k: "k < length (pieces ops r)"
    and step: "acquireLock ops (pieces ops r ! k) s = Some s'"
  shows "record_inv ops r base s' (Suc n)" and "k = n"
proof -
  let ?i = "pieces ops r ! k"
  have i: "?i < length ops" "rid_of (ops ! ?i) = r" using piece_lt [OF k] by auto
  have spin: "gs_phase s ! ?i = Spinning" and lock: "load (gs_lock s) r = tid_of (ops ! ?i)"
    and s': "s' = s\<lparr>gs_phase := (gs_phase s)[?i := Running], gs_log := gs_log s @ [?i]\<rparr>"
    using step i by (auto simp: acquireLock_def split: if_splits)
  have nk: "n \<le> k" using phase_position(1) [OF inv k] spin by simp
  have q: "queue_of ops r ! k = load (gs_lock s) r" using lock k by (simp add: queue_pieces)
  have dq: "j = k" if "queue_of ops r ! j = queue_of ops r ! k" "j < length (pieces ops r)" for j
    using that distinct_queue [of ops r] ok k by (simp add: record_ok_def nth_eq_iff_index_eq)
  have fin: "n = 0 \<or> gs_phase s ! (pieces ops r ! (n - 1)) = Done"
  proof (rule ccontr)
    assume "\<not> ?thesis"
    then have "load (gs_lock s) r = queue_of ops r ! (n - 1)" "0 < n"
      using inv by (auto simp: record_inv_def split: phase.splits)
    moreover have "n - 1 < length (pieces ops r)" using nk k by linarith
    ultimately have "n - 1 = k" using dq q by simp
    then show False using \<open>0 < n\<close> nk by linarith
  qed
  then have off: "unat (load (gs_offset s) r) = base + n" and lk: "load (gs_lock s) r = queue_of ops r ! n"
    using inv nk k by (auto simp: record_inv_def split: if_splits)
  show kn: "k = n" using dq [of n] lk q nk k by simp
  have ph: "gs_phase s' ! (pieces ops r ! j) = (if j = n then Running else gs_phase s ! (pieces ops r ! j))"
    if "j < length (pieces ops r)" for j
    using that kn k i ok by (simp add: s' pieces_inj nth_list_update record_ok_def)
  have "filter (\<lambda>i. rid_of (ops ! i) = r) (gs_log s') = take (Suc n) (pieces ops r)"
    using inv i kn k by (simp add: s' record_inv_def take_Suc_conv_app_nth)
  moreover have "\<forall>j. Suc j < Suc n \<longrightarrow> gs_phase s' ! (pieces ops r ! j) = Done"
  proof (intro allI impI)
    fix j assume j: "Suc j < Suc n"
    show "gs_phase s' ! (pieces ops r ! j) = Done"
    proof (cases "Suc j < n")
      case True
      then show ?thesis using inv ph [of j] kn k by (simp add: record_inv_def)
    next
      case False
      then have "j = n - 1" "0 < n" using j by auto
      then show ?thesis using fin ph [of j] kn k by auto
    qed
  qed
  moreover have "\<forall>j < length (pieces ops r). Suc n \<le> j \<longrightarrow> gs_phase s' ! (pieces ops r ! j) = Spinning"
    using inv ph by (auto simp: record_inv_def)
  ultimately show "record_inv ops r base s' (Suc n)"
    using ph [of n] kn k off lk by (simp add: record_inv_def s')
qed

lemma last_piece_inv:
  assumes inv: "record_inv ops r base s (Suc k)" and k: "k < length (pieces ops r)"
    and ph: "\<And>j. j < length (pieces ops r) \<Longrightarrow>
               gs_phase s' ! (pieces ops r ! j) = (if j = k then x else gs_phase s ! (pieces ops r ! j))"
    and log: "gs_log s' = gs_log s"
    and x: "case x of
        Done \<Rightarrow> unat (load (gs_offset s') r) = base + Suc k \<and>
                (Suc k < length (pieces ops r) \<longrightarrow> load (gs_lock s') r = queue_of ops r ! Suc k)
      | Running \<Rightarrow> unat (load (gs_offset s') r) + 1 = base + Suc k \<and> load (gs_lock s') r = queue_of ops r ! k
      | Releasing c \<Rightarrow> unat c = base + Suc k \<and> unat (load (gs_offset s') r) = base + Suc k \<and>
                       load (gs_lock s') r = queue_of ops r ! k
      | Spinning \<Rightarrow> False"
  shows "record_inv ops r base s' (Suc k)"
proof -
  have "\<forall>j < length (pieces ops r). Suc k \<le> j \<longrightarrow> gs_phase s' ! (pieces ops r ! j) = Spinning"
    using inv ph by (auto simp: record_inv_def)
  moreover have "\<forall>j. Suc j < Suc k \<longrightarrow> gs_phase s' ! (pieces ops r ! j) = Done"
    using inv ph k by (simp add: record_inv_def)
  ultimately show ?thesis using inv ph [OF k] x log k by (cases x) (simp_all add: record_inv_def)
qed

lemma phase_update:
  assumes "record_ok access ops r base s" and "k < length (pieces ops r)" and "j < length (pieces ops r)"
  shows "(gs_phase s)[pieces ops r ! k := x] ! (pieces ops r ! j) = (if j = k then x else gs_phase s ! (pieces ops r ! j))"
  using assms piece_lt [OF assms(2)] by (auto simp: pieces_inj nth_list_update record_ok_def)

lemma advance_inv:
  assumes ok: "record_ok access ops r base s" and inv: "record_inv ops r base s n" and k: "k < length (pieces ops r)"
    and step: "releaseLock_offset ops (pieces ops r ! k) s = Some s'"
  shows "record_inv ops r base s' n"
proof -
  let ?i = "pieces ops r ! k" and ?o = "load (gs_offset s) r + 1"
  have i: "rid_of (ops ! ?i) = r" using piece_lt [OF k] by auto
  have run: "gs_phase s ! ?i = Running"
    and s': "s' = s\<lparr>gs_offset := store (gs_offset s) r ?o, gs_phase := (gs_phase s)[?i := Releasing ?o]\<rparr>"
    using step i by (auto simp: releaseLock_offset_def Let_def split: if_splits)
  have n: "n = Suc k" using phase_position(2) [OF inv k] run by simp
  have o: "unat (load (gs_offset s) r) + 1 = base + n" "load (gs_lock s) r = queue_of ops r ! k"
    using inv run n by (simp_all add: record_inv_def)
  have "base + n < 2 ^ 32" using ok n k by (simp add: record_ok_def)
  then have o': "unat ?o = base + n" using o(1) by (simp add: unat_word_ariths)
  have inv': "record_inv ops r base s (Suc k)" using inv n by simp
  show ?thesis unfolding n
    by (rule last_piece_inv [OF inv' k, where x = "Releasing ?o"])
      (use phase_update [OF ok k] o' o(2) n ok in \<open>simp_all add: s' record_ok_def\<close>)
qed

lemma pass_inv:
  assumes ok: "record_ok access ops r base s" and inv: "record_inv ops r base s n" and k: "k < length (pieces ops r)"
    and step: "releaseLock_pass access ops (pieces ops r ! k) s = Some s'"
  shows "record_inv ops r base s' n"
proof -
  let ?i = "pieces ops r ! k"
  have i: "rid_of (ops ! ?i) = r" using piece_lt [OF k] by auto
  obtain c where run: "gs_phase s ! ?i = Releasing c"
    and s': "s' = s\<lparr>gs_lock := store (gs_lock s) r (load access c), gs_phase := (gs_phase s)[?i := Done]\<rparr>"
    using step i by (auto simp: releaseLock_pass_def split: phase.splits if_splits)
  have n: "n = Suc k" using phase_position(2) [OF inv k] run by simp
  have o: "unat c = base + n" "unat (load (gs_offset s) r) = base + n"
    using inv run n by (simp_all add: record_inv_def)
  have q: "load access c = queue_of ops r ! n" if "n < length (pieces ops r)"
    using ok that o(1) by (simp add: record_ok_def load_def)
  have inv': "record_inv ops r base s (Suc k)" using inv n by simp
  show ?thesis unfolding n
    by (rule last_piece_inv [OF inv' k, where x = Done])
      (use phase_update [OF ok k] o q n ok in \<open>simp_all add: s' record_ok_def\<close>)
qed

subsection \<open>All records\<close>

lemma step_keeps:
  assumes "gacco_step access ops s s'" and "record_ok access ops r base s"
  shows "record_ok access ops r base s'"
  using assms by (auto elim!: gacco_step.cases
      simp: record_ok_def acquireLock_def releaseLock_offset_def releaseLock_pass_def Let_def
      split: if_splits phase.splits)

lemma step_other:
  assumes "acquireLock ops i s = Some s' \<or> releaseLock_offset ops i s = Some s' \<or> releaseLock_pass access ops i s = Some s'"
  shows "\<exists>v. gs_offset s' = gs_offset s \<or> gs_offset s' = store (gs_offset s) (rid_of (ops ! i)) v"
    and "\<exists>v. gs_lock s' = gs_lock s \<or> gs_lock s' = store (gs_lock s) (rid_of (ops ! i)) v"
    and "gs_log s' = gs_log s \<or> gs_log s' = gs_log s @ [i]"
    and "\<exists>x. gs_phase s' = (gs_phase s)[i := x]"
  using assms unfolding acquireLock_def releaseLock_offset_def releaseLock_pass_def Let_def
  by (elim disjE; force split: if_splits phase.splits)+

lemma step_inv:
  assumes step: "gacco_step access ops s s'" and ok: "record_ok access ops r base s" and inv: "record_inv ops r base s n"
  shows "\<exists>n'. record_inv ops r base s' n'"
proof -
  obtain i where i: "i < length ops"
    and cases: "acquireLock ops i s = Some s' \<or> releaseLock_offset ops i s = Some s' \<or> releaseLock_pass access ops i s = Some s'"
    using step by (auto elim!: gacco_step.cases)
  show ?thesis
  proof (cases "rid_of (ops ! i) = r")
    case True
    then obtain k where k: "k < length (pieces ops r)" "i = pieces ops r ! k"
      using i set_pieces [of i ops r] by (metis in_set_conv_nth)
    then show ?thesis
      using cases acquire_inv(1) [OF ok inv k(1)] advance_inv [OF ok inv k(1)] pass_inv [OF ok inv k(1)] by blast
  next
    case False
    have "record_inv ops r base s' n"
    proof (rule record_inv_frame [OF inv])
      note other = step_other [OF cases]
      show "load (gs_offset s') r = load (gs_offset s) r" "load (gs_lock s') r = load (gs_lock s) r"
        "filter (\<lambda>i. rid_of (ops ! i) = r) (gs_log s') = filter (\<lambda>i. rid_of (ops ! i) = r) (gs_log s)"
        using other False by auto
      show "gs_phase s' ! j = gs_phase s ! j" if "j \<in> set (pieces ops r)" for j
        using other(4) False that by (metis nth_list_update_neq set_pieces)
    qed
    then show ?thesis by blast
  qed
qed

lemma steps_inv:
  assumes "(gacco_step access ops)\<^sup>*\<^sup>* s s'" and "record_ok access ops r base s" and "record_inv ops r base s n"
  shows "record_ok access ops r base s' \<and> (\<exists>n'. record_inv ops r base s' n')"
  using assms(1)
proof (induction rule: rtranclp_induct)
  case base
  then show ?case using assms(2,3) by blast
next
  case (step y z)
  then show ?case using step_keeps step_inv by blast
qed

subsection \<open>From the plan\<close>

lemma start_inv:
  assumes fits: "gacco_fits p" and ops: "ops = take (g_curr_num_ops p) (g_submitted_ops p)" and d: "distinct ops"
    and l: "l = g_table_lock (GaccoInitializeExecutionPlan p)" and r: "r \<in> rid_of ` set ops"
    and base: "base = unat (load (lock_offset l) r)"
  shows "record_ok (lock_access l) ops r base (gacco_start ops l)" and "record_inv ops r base (gacco_start ops l) 0"
proof -
  note q = plan_queue [OF fits ops r l]
  have n: "length ops = g_curr_num_ops p" using fits by (simp add: ops gacco_fits_def)
  have acc: "length ops \<le> length (lock_access l)" "length ops < 2 ^ 32"
    using fits q(4) by (simp_all add: n gacco_fits_def)
  have lens: "length (lock_offset l) = length (lock_offset (g_table_lock p))"
    "length (lock_lock l) = length (lock_lock (g_table_lock p))"
    by (simp_all add: l GaccoInitializeExecutionPlan_def Let_def buildAuxArrayKernel_def)
  have small: "unat r < length (lock_offset l)" "unat r < length (lock_lock l)"
    using fits r by (auto simp: lens ops gacco_fits_def)
  have len: "base + length (pieces ops r) \<le> length ops" using q(3) by (simp add: base)
  have "base + k < length (lock_access l) \<and> lock_access l ! (base + k) = queue_of ops r ! k" if k: "k < length (pieces ops r)" for k
  proof
    show lt: "base + k < length (lock_access l)" using len acc k by simp
    have "queue_of ops r ! k = take (length (queue_of ops r)) (drop base (lock_access l)) ! k" using q(2) by (simp add: base)
    also have "\<dots> = lock_access l ! (base + k)" using k lt by simp
    finally show "lock_access l ! (base + k) = queue_of ops r ! k" by simp
  qed
  then show "record_ok (lock_access l) ops r base (gacco_start ops l)"
    using d acc(2) len small by (simp add: record_ok_def gacco_start_def)
  have ne: "pieces ops r \<noteq> []" using r set_pieces [of _ ops r] by (metis empty_iff imageE in_set_conv_nth list.set(1))
  then have "queue_of ops r ! 0 = hd (queue_of ops r)" by (metis hd_conv_nth length_0_conv length_queue)
  then show "record_inv ops r base (gacco_start ops l) 0"
    using q(1) base set_pieces [of _ ops r] by (simp add: record_inv_def gacco_start_def piece_lt)
qed

lemma reachable_inv:
  assumes "gacco_fits p" and "ops = take (g_curr_num_ops p) (g_submitted_ops p)" and "distinct ops"
    and "l = g_table_lock (GaccoInitializeExecutionPlan p)" and "(gacco_step (lock_access l) ops)\<^sup>*\<^sup>* (gacco_start ops l) s"
    and "r \<in> rid_of ` set ops"
  obtains base n where "record_ok (lock_access l) ops r base s" and "record_inv ops r base s n"
  using steps_inv [OF assms(5) start_inv [OF assms(1-4,6) refl]] by blast

lemma record_progress:
  assumes ok: "record_ok access ops r base s" and inv: "record_inv ops r base s n" and k: "k < length (pieces ops r)"
    and nd: "gs_phase s ! (pieces ops r ! k) \<noteq> Done" and room: "length ops < length access"
  shows "\<exists>s'. gacco_step access ops s s'"
proof -
  have act: "\<exists>s'. gacco_step access ops s s'"
    if j: "j < length (pieces ops r)" "gs_phase s ! (pieces ops r ! j) \<noteq> Done" "gs_phase s ! (pieces ops r ! j) \<noteq> Spinning" for j
  proof (cases "gs_phase s ! (pieces ops r ! j)")
    case Running
    then have "\<exists>s'. releaseLock_offset ops (pieces ops r ! j) s = Some s'" by (simp add: releaseLock_offset_def Let_def)
    then show ?thesis using gacco_step.advance piece_lt [OF j(1)] by blast
  next
    case (Releasing c)
    have n: "n = Suc j" using phase_position(2) [OF inv j(1)] j by simp
    then have "unat c = base + n" using inv Releasing by (simp add: record_inv_def)
    then have "unat c < length access" using ok n j(1) room by (simp add: record_ok_def)
    then have "\<exists>s'. releaseLock_pass access ops (pieces ops r ! j) s = Some s'"
      using Releasing by (simp add: releaseLock_pass_def)
    then show ?thesis using gacco_step.pass piece_lt [OF j(1)] by blast
  qed (use j in simp_all)
  show ?thesis
  proof (cases "gs_phase s ! (pieces ops r ! k) = Spinning")
    case False
    then show ?thesis using act [OF k nd] by blast
  next
    case True
    then have nk: "n \<le> k" using phase_position(1) [OF inv k] by simp
    show ?thesis
    proof (cases "n = 0 \<or> gs_phase s ! (pieces ops r ! (n - 1)) = Done")
      case True
      then have "load (gs_lock s) r = queue_of ops r ! n" using inv nk k by (auto simp: record_inv_def split: if_splits)
      moreover have n: "n < length (pieces ops r)" using nk k by simp
      moreover have "gs_phase s ! (pieces ops r ! n) = Spinning" using phase_position(1) [OF inv n] by simp
      ultimately have "\<exists>s'. acquireLock ops (pieces ops r ! n) s = Some s'"
        using piece_lt [OF n] by (simp add: acquireLock_def queue_pieces)
      then show ?thesis using gacco_step.acquire piece_lt [OF n] by blast
    next
      case False
      then have j: "n - 1 < length (pieces ops r)" "gs_phase s ! (pieces ops r ! (n - 1)) \<noteq> Done" "\<not> n \<le> n - 1"
        using nk k by auto
      then show ?thesis using act phase_position(1) [OF inv j(1)] by blast
    qed
  qed
qed

text \<open>C36: The locks are fair queues. For a plan whose accesses fit its arrays and in which no transaction
  accesses a record twice, in every reachable state and for every record: the pieces that entered are
  the first ones of the record in submission order; at most one piece is inside at a time; and as long as
  some piece of the epoch has not finished and the access array has a spare entry, some piece can step.\<close>

theorem gacco_locks_fifo:
  assumes "gacco_fits p" and ops: "ops = take (g_curr_num_ops p) (g_submitted_ops p)" and "distinct ops"
    and "l = g_table_lock (GaccoInitializeExecutionPlan p)"
    and "(gacco_step (lock_access l) ops)\<^sup>*\<^sup>* (gacco_start ops l) s"
  shows "(\<forall>r \<in> rid_of ` set ops. \<exists>n. filter (\<lambda>i. rid_of (ops ! i) = r) (gs_log s) = take n (pieces ops r)) \<and>
         (\<forall>i < length ops. \<forall>j < length ops. rid_of (ops ! i) = rid_of (ops ! j) \<and>
            gs_phase s ! i = Running \<and> gs_phase s ! j = Running \<longrightarrow> i = j) \<and>
         (length ops < length (lock_access l) \<and> (\<exists>i < length ops. gs_phase s ! i \<noteq> Done) \<longrightarrow>
            (\<exists>s'. gacco_step (lock_access l) ops s s'))"
proof (intro conjI ballI allI impI)
  fix r assume r: "r \<in> rid_of ` set ops"
  show "\<exists>n. filter (\<lambda>i. rid_of (ops ! i) = r) (gs_log s) = take n (pieces ops r)"
    using reachable_inv [OF assms r] unfolding record_inv_def by metis
next
  fix i j assume i: "i < length ops" and j: "j < length ops"
    and h: "rid_of (ops ! i) = rid_of (ops ! j) \<and> gs_phase s ! i = Running \<and> gs_phase s ! j = Running"
  define u where "u = rid_of (ops ! i)"
  have r: "u \<in> rid_of ` set ops" using i by (simp add: u_def)
  obtain base n where inv: "record_inv ops u base s n" using reachable_inv [OF assms r] by metis
  have mem: "i \<in> set (pieces ops u)" "j \<in> set (pieces ops u)" using i j h by (simp_all add: set_pieces u_def)
  obtain a where a: "a < length (pieces ops u)" "i = pieces ops u ! a" using mem(1) by (metis in_set_conv_nth)
  obtain b where b: "b < length (pieces ops u)" "j = pieces ops u ! b" using mem(2) by (metis in_set_conv_nth)
  have "n = Suc a" "n = Suc b" using phase_position(2) [OF inv a(1)] phase_position(2) [OF inv b(1)] h a(2) b(2) by simp_all
  then show "i = j" using a b by simp
next
  assume h: "length ops < length (lock_access l) \<and> (\<exists>i < length ops. gs_phase s ! i \<noteq> Done)"
  then obtain i where i: "i < length ops" "gs_phase s ! i \<noteq> Done" by blast
  define u where "u = rid_of (ops ! i)"
  have r: "u \<in> rid_of ` set ops" using i by (simp add: u_def)
  obtain base n where ok: "record_ok (lock_access l) ops u base s" and inv: "record_inv ops u base s n"
    using reachable_inv [OF assms r] .
  obtain k where k: "k < length (pieces ops u)" "i = pieces ops u ! k"
    using i set_pieces [of i ops u] u_def by (metis in_set_conv_nth)
  show "\<exists>s'. gacco_step (lock_access l) ops s s'"
    by (rule record_progress [OF ok inv k(1)]) (use i k(2) h in auto)
qed

definition sample_gacco :: GaccoPlanner where
  "sample_gacco =
     \<lparr>g_submitted_ops = [GACCO_CREATE_OP 1 0, GACCO_CREATE_OP 0 0, GACCO_CREATE_OP 1 1], g_curr_num_ops = 3,
      g_sorted_ops = replicate 3 0, g_unique_rows = replicate 2 0, g_unique_access = replicate 2 0,
      g_unique_offset = replicate 2 0,
      g_table_lock = \<lparr>lock_access = replicate 4 0, lock_offset = replicate 2 0, lock_lock = replicate 2 0\<rparr>\<rparr>"

lemma gacco_create_inj: "GACCO_CREATE_OP r t = GACCO_CREATE_OP r' t' \<longleftrightarrow> r = r' \<and> t = t'"
  by (metis gacco_record_id gacco_txn_id)

theorem gacco_locks_fifo_witness:
  "\<exists>s'. gacco_step (lock_access (g_table_lock (GaccoInitializeExecutionPlan sample_gacco))) (g_submitted_ops sample_gacco)
     (gacco_start (g_submitted_ops sample_gacco) (g_table_lock (GaccoInitializeExecutionPlan sample_gacco))) s'"
proof -
  have fits: "gacco_fits sample_gacco"
    by (simp add: gacco_fits_def sample_gacco_def gacco_record_id)
  have ops: "g_submitted_ops sample_gacco = take (g_curr_num_ops sample_gacco) (g_submitted_ops sample_gacco)"
    by (simp add: sample_gacco_def)
  have d: "distinct (g_submitted_ops sample_gacco)" by (simp add: sample_gacco_def gacco_create_inj)
  have mem: "GACCO_CREATE_OP 1 0 \<in> set (g_submitted_ops sample_gacco)" by (simp add: sample_gacco_def)
  have "length (lock_access (g_table_lock (GaccoInitializeExecutionPlan sample_gacco))) = 4"
    using plan_queue(4) [OF fits ops imageI [OF mem] refl] by (simp add: sample_gacco_def)
  moreover have "length (g_submitted_ops sample_gacco) = 3" by (simp add: sample_gacco_def)
  moreover have "\<exists>i < length (g_submitted_ops sample_gacco). gs_phase (gacco_start (g_submitted_ops sample_gacco)
      (g_table_lock (GaccoInitializeExecutionPlan sample_gacco))) ! i \<noteq> Done"
    by (rule exI [of _ 0]) (simp add: gacco_start_def sample_gacco_def)
  ultimately show ?thesis
    using gacco_locks_fifo [OF fits ops d refl rtranclp.rtrancl_refl] by simp
qed

end
