(* ===== verification/Gacco_Handover.thy ===== *)
theory Gacco_Handover
  imports Gacco_Locks
begin

text \<open>
  How far the lock handover of GaccO (\<open>Gacco_Locks\<close>) reads into the access array: the pieces of one record can be run one after
  the other, and the last piece of the record with the largest id hands over at the entry behind the last access.
\<close>

subsection \<open>Running the pieces of one record\<close>

lemma piece_enters:
  assumes ok: "record_ok access ops r base s" and inv: "record_inv ops r base s n" and n: "n < length (pieces ops r)"
    and prev: "n = 0 \<or> gs_phase s ! (pieces ops r ! (n - 1)) = Done"
  shows "\<exists>s' c. (gacco_step access ops)\<^sup>*\<^sup>* s s' \<and> record_ok access ops r base s' \<and> record_inv ops r base s' (Suc n) \<and>
           gs_phase s' ! (pieces ops r ! n) = Releasing c"
proof -
  let ?i = "pieces ops r ! n"
  have i: "?i < length ops" "rid_of (ops ! ?i) = r" using piece_lt [OF n] by auto
  have "load (gs_lock s) r = queue_of ops r ! n" using inv n prev by (auto simp: record_inv_def split: if_splits)
  moreover have "gs_phase s ! ?i = Spinning" using phase_position(1) [OF inv n] by simp
  ultimately obtain s1 where s1: "acquireLock ops ?i s = Some s1" "gs_phase s1 ! ?i = Running"
    using i n ok by (simp add: acquireLock_def queue_pieces record_ok_def)
  have step1: "gacco_step access ops s s1" using s1(1) i(1) by (rule gacco_step.acquire [rotated])
  have ok1: "record_ok access ops r base s1" by (rule step_keeps [OF step1 ok])
  have inv1: "record_inv ops r base s1 (Suc n)" by (rule acquire_inv(1) [OF ok inv n s1(1)])
  obtain s2 c where s2: "releaseLock_offset ops ?i s1 = Some s2" "gs_phase s2 ! ?i = Releasing c"
    using s1(2) i ok1 by (simp add: releaseLock_offset_def Let_def record_ok_def)
  have step2: "gacco_step access ops s1 s2" using s2(1) i(1) by (rule gacco_step.advance [rotated])
  show ?thesis
    using step1 step2 step_keeps [OF step2 ok1] advance_inv [OF ok1 inv1 n s2(1)] s2(2)
    by (meson converse_rtranclp_into_rtranclp r_into_rtranclp)
qed

lemma piece_leaves:
  assumes ok: "record_ok access ops r base s" and inv: "record_inv ops r base s (Suc n)" and n: "Suc n < length (pieces ops r)"
    and ph: "gs_phase s ! (pieces ops r ! n) = Releasing c"
  shows "\<exists>s'. gacco_step access ops s s' \<and> record_ok access ops r base s' \<and> record_inv ops r base s' (Suc n) \<and>
           gs_phase s' ! (pieces ops r ! n) = Done"
proof -
  let ?i = "pieces ops r ! n"
  have n': "n < length (pieces ops r)" using n by simp
  have i: "?i < length ops" using piece_lt [OF n'] by simp
  have "base + Suc n < length access" using ok n unfolding record_ok_def by blast
  then have "unat c < length access" using inv ph by (simp add: record_inv_def)
  then obtain s' where s': "releaseLock_pass access ops ?i s = Some s'" "gs_phase s' ! ?i = Done"
    using ph i ok by (simp add: releaseLock_pass_def record_ok_def)
  have step: "gacco_step access ops s s'" using s'(1) i by (rule gacco_step.pass [rotated])
  show ?thesis using step step_keeps [OF step ok] pass_inv [OF ok inv n' s'(1)] s'(2) by blast
qed

text \<open>Each piece of a record can be brought to the point where it hands the lock over.\<close>

lemma pieces_run:
  assumes "record_ok access ops r base s" and "record_inv ops r base s 0" and "n < length (pieces ops r)"
  shows "\<exists>s' c. (gacco_step access ops)\<^sup>*\<^sup>* s s' \<and> record_ok access ops r base s' \<and> record_inv ops r base s' (Suc n) \<and>
           gs_phase s' ! (pieces ops r ! n) = Releasing c"
  using assms(3)
proof (induction n)
  case 0
  then show ?case using piece_enters [OF assms(1,2)] by simp
next
  case (Suc n)
  then obtain s1 c where s1: "(gacco_step access ops)\<^sup>*\<^sup>* s s1" "record_ok access ops r base s1"
    "record_inv ops r base s1 (Suc n)" "gs_phase s1 ! (pieces ops r ! n) = Releasing c" by auto
  obtain s2 where s2: "gacco_step access ops s1 s2" "record_ok access ops r base s2" "record_inv ops r base s2 (Suc n)"
    "gs_phase s2 ! (pieces ops r ! n) = Done" using piece_leaves [OF s1(2,3) Suc.prems s1(4)] by blast
  have "Suc n = 0 \<or> gs_phase s2 ! (pieces ops r ! (Suc n - 1)) = Done" using s2(4) by simp
  from piece_enters [OF s2(2,3) Suc.prems this] show ?case
    using s1(1) s2(1) by (meson rtranclp.rtrancl_into_rtrancl rtranclp_trans)
qed

text \<open>The last piece of the record with the largest id hands over at the entry behind the last access.\<close>

lemma handover_reaches_end:
  assumes fits: "gacco_fits p" and ops: "ops = take (g_curr_num_ops p) (g_submitted_ops p)" and d: "distinct ops"
    and l: "l = g_table_lock (GaccoInitializeExecutionPlan p)"
  shows "\<exists>s i c. (gacco_step (lock_access l) ops)\<^sup>*\<^sup>* (gacco_start ops l) s \<and> i < length ops \<and>
           gs_phase s ! i = Releasing c \<and> unat c = length ops"
proof -
  have ne: "ops \<noteq> []" using fits by (auto simp: ops gacco_fits_def)
  define r where "r = Max (rid_of ` set ops)"
  have r: "r \<in> rid_of ` set ops" and top: "\<forall>op \<in> set ops. rid_of op \<le> r"
    using ne by (auto simp: r_def intro: Max_in)
  let ?base = "unat (load (lock_offset l) r)" and ?k = "length (pieces ops r) - 1"
  have full: "?base + length (pieces ops r) = length ops" using plan_queue(5) [OF fits ops r l top] by simp
  have "pieces ops r \<noteq> []" using r set_pieces [of _ ops r] by (metis empty_iff imageE in_set_conv_nth list.set(1))
  then have k: "?k < length (pieces ops r)" "Suc ?k = length (pieces ops r)" by (cases "pieces ops r"; simp)+
  obtain s c where s: "(gacco_step (lock_access l) ops)\<^sup>*\<^sup>* (gacco_start ops l) s" "record_inv ops r ?base s (Suc ?k)"
    "gs_phase s ! (pieces ops r ! ?k) = Releasing c"
    using pieces_run [OF start_inv [OF fits ops d l r refl] k(1)] by blast
  have "unat c = ?base + Suc ?k" using s(2,3) by (simp add: record_inv_def)
  then show ?thesis using s full k piece_lt [OF k(1)] by metis
qed

lemma handover_bound:
  assumes "gacco_fits p" and "ops = take (g_curr_num_ops p) (g_submitted_ops p)" and "distinct ops"
    and "l = g_table_lock (GaccoInitializeExecutionPlan p)" and "(gacco_step (lock_access l) ops)\<^sup>*\<^sup>* (gacco_start ops l) s"
    and i: "i < length ops" and c: "gs_phase s ! i = Releasing c"
  shows "unat c \<le> length ops"
proof -
  define r where "r = rid_of (ops ! i)"
  have r: "r \<in> rid_of ` set ops" using i by (simp add: r_def)
  obtain base n where ok: "record_ok (lock_access l) ops r base s" and inv: "record_inv ops r base s n"
    using reachable_inv [OF assms(1-5) r] .
  obtain k where k: "k < length (pieces ops r)" "i = pieces ops r ! k"
    using i set_pieces [of i ops r] r_def by (metis in_set_conv_nth)
  have "n = Suc k" using phase_position(2) [OF inv k(1)] c k(2) by simp
  then have "unat c = base + n" using inv c k(2) by (simp add: record_inv_def)
  then show ?thesis using ok inv by (simp add: record_ok_def record_inv_def)
qed

end
