(* ===== verification/Gacco_Memory.thy ===== *)
theory Gacco_Memory
  imports Planner_Memory Gacco_Handover
begin

text \<open>
  The arrays of the GaccO planner (\<^verbatim>\<open>Initialize\<close> of \<^verbatim>\<open>gacco/gpu_execution_planner.cu\<close>) with the submitter of its YCSB
  benchmark (\<^verbatim>\<open>gacco/benchmarks/ycsb_gpu_submitter.cu\<close>). The lock arrays of \<open>Gacco_Locks\<close> are read from the
  device memory the initialisation leaves. The lemmas show that every epoch fits the arrays; the theorem
  shows when the handover of a lock reads past the access array.
\<close>

subsection \<open>The arrays\<close>

record gacco_arrays =
  ga_num_ops :: "nat option"
  ga_op_offsets :: "nat option"
  ga_submitted_ops :: "nat option"
  ga_scratch_array :: "nat option"
  ga_sorted_ops :: "nat option"
  ga_unique_rows :: "nat option"
  ga_unique_access :: "nat option"
  ga_unique_offset :: "nat option"
  ga_access :: "nat option"
  ga_offset :: "nat option"
  ga_lock :: "nat option"
  ga_num_unique_rows :: "nat option"
  ga_scratch_array_bytes :: u64
  ga_cuda_stream :: "nat option"

definition no_gacco_arrays :: gacco_arrays where
  "no_gacco_arrays =
     \<lparr>ga_num_ops = None, ga_op_offsets = None, ga_submitted_ops = None, ga_scratch_array = None, ga_sorted_ops = None,
      ga_unique_rows = None, ga_unique_access = None, ga_unique_offset = None, ga_access = None, ga_offset = None,
      ga_lock = None, ga_num_unique_rows = None, ga_scratch_array_bytes = 0, ga_cuda_stream = None\<rparr>"

text \<open>The parameter \<open>cub\<close> is the temporary storage that \<^verbatim>\<open>getCubTempArraySize\<close> asks the CUDA toolkit for.\<close>

definition gacco_counts :: "planner_sizes \<Rightarrow> gacco_arrays request list" where
  "gacco_counts z =
     [(\<lambda>p a. a\<lparr>ga_num_ops := p\<rparr>, max_num_txns z * 4),
      (\<lambda>p a. a\<lparr>ga_op_offsets := p\<rparr>, max_num_txns z * 4)]"

definition gacco_requests :: "(u64 \<Rightarrow> u64 \<Rightarrow> u64) \<Rightarrow> planner_sizes \<Rightarrow> gacco_arrays request list" where
  "gacco_requests cub z =
     (let scratch = cub (max_num_ops z) (max_num_records z)
      in [(\<lambda>p a. a\<lparr>ga_submitted_ops := p\<rparr>, max_num_ops z * 8),
          (\<lambda>p a. a\<lparr>ga_scratch_array := p, ga_scratch_array_bytes := scratch\<rparr>, scratch),
          (\<lambda>p a. a\<lparr>ga_sorted_ops := p\<rparr>, max_num_ops z * 8),
          (\<lambda>p a. a\<lparr>ga_unique_rows := p\<rparr>, max_num_records z * 4),
          (\<lambda>p a. a\<lparr>ga_unique_access := p\<rparr>, max_num_records z * 4),
          (\<lambda>p a. a\<lparr>ga_unique_offset := p\<rparr>, max_num_records z * 4),
          (\<lambda>p a. a\<lparr>ga_access := p\<rparr>, max_num_ops z * 4),
          (\<lambda>p a. a\<lparr>ga_offset := p\<rparr>, max_num_records z * 4),
          (\<lambda>p a. a\<lparr>ga_lock := p\<rparr>, max_num_records z * 4),
          (\<lambda>p a. a\<lparr>ga_num_unique_rows := p\<rparr>, 4)])"

definition GaccoInitialize ::
  "(u64 \<Rightarrow> mem \<Rightarrow> bool) \<Rightarrow> (u64 \<Rightarrow> u64 \<Rightarrow> u64) \<Rightarrow> planner_sizes \<Rightarrow> mem \<Rightarrow> gacco_arrays alloc_state option" where
  "GaccoInitialize avail cub z =
     allocate_planner avail (gacco_counts z) ga_op_offsets (max_num_txns z * 4) (gacco_requests cub z)
       (\<lambda>stream a. a\<lparr>ga_cuda_stream := Some stream\<rparr>) no_gacco_arrays"

text \<open>A block as an array of little-endian words of \<open>k\<close> bytes, and the planner over the blocks.\<close>

definition array_view :: "nat \<Rightarrow> mem \<Rightarrow> nat option \<Rightarrow> 'w::len word list" where
  "array_view k m p =
     (case p of
        None \<Rightarrow> []
      | Some b \<Rightarrow>
        (case blocks m b of
           None \<Rightarrow> []
         | Some (d, bs) \<Rightarrow>
             map (\<lambda>i. foldr (\<lambda>x w. ucast x + 256 * w) (take k (drop (k * i) bs)) 0) [0..<length bs div k]))"

definition gacco_planner :: "gacco_arrays alloc_state \<Rightarrow> GaccoPlanner" where
  "gacco_planner s =
     (let m = as_mem s; p = as_ptrs s
      in \<lparr>g_submitted_ops = array_view 8 m (ga_submitted_ops p), g_curr_num_ops = 0,
          g_sorted_ops = array_view 8 m (ga_sorted_ops p), g_unique_rows = array_view 4 m (ga_unique_rows p),
          g_unique_access = array_view 4 m (ga_unique_access p), g_unique_offset = array_view 4 m (ga_unique_offset p),
          g_table_lock = \<lparr>lock_access = array_view 4 m (ga_access p), lock_offset = array_view 4 m (ga_offset p),
                          lock_lock = array_view 4 m (ga_lock p)\<rparr>\<rparr>)"

text \<open>The stores of one thread of the submitter, and its \<^verbatim>\<open>submit\<close>; \<open>order\<close> is the order in which the threads run.\<close>

definition gacco_submitYcsbTxn :: "YcsbTxnParam list \<Rightarrow> nat \<Rightarrow> (u32 \<times> gop) list" where
  "gacco_submitYcsbTxn txns txn_id =
     (let op_idx_base = of_nat txn_id * 10
      in map (\<lambda>i. (op_idx_base + of_nat i, GACCO_CREATE_OP (record_ids (txns ! txn_id) ! i) (of_nat txn_id))) [0..<10])"

definition gacco_submit :: "nat list \<Rightarrow> YcsbTxnParam list \<Rightarrow> GaccoPlanner \<Rightarrow> GaccoPlanner" where
  "gacco_submit order txns p =
     p\<lparr>g_submitted_ops := scatter (concat (map (gacco_submitYcsbTxn txns) order)) (g_submitted_ops p),
       g_curr_num_ops := unat (of_nat (length txns) * 10 :: u32)\<rparr>"

subsection \<open>The submitted accesses\<close>

lemma load_scatter_fun:
  assumes "\<And>j v. (j, v) \<in> set ps \<Longrightarrow> v = f j" and "i \<in> fst ` set ps" and "unat i < length xs"
  shows "load (scatter ps xs) i = f i"
  using assms
proof (induction ps arbitrary: xs)
  case (Cons q ps)
  obtain j v where q: "q = (j, v)" by force
  show ?case
  proof (cases "i \<in> fst ` set ps")
    case True
    then show ?thesis using Cons by (simp add: q)
  next
    case False
    then have "j = i" using Cons.prems(2) q by auto
    moreover have "v = f j" using Cons.prems(1) q by simp
    moreover have "load (scatter ps (store xs j v)) i = load (store xs j v) i"
      using False by (intro load_scatter_notin) auto
    ultimately show ?thesis using Cons.prems(3) by (simp add: q)
  qed
qed simp

definition gacco_op :: "YcsbTxnParam list \<Rightarrow> nat \<Rightarrow> gop" where
  "gacco_op txns k = GACCO_CREATE_OP (record_ids (txns ! (k div 10)) ! (k mod 10)) (of_nat (k div 10))"

lemma gacco_submit_ops:
  assumes order: "set order = {0..<length txns}" and small: "10 * length txns < 2 ^ 32"
    and room: "10 * length txns \<le> length (g_submitted_ops p)"
  shows "take (g_curr_num_ops (gacco_submit order txns p)) (g_submitted_ops (gacco_submit order txns p)) =
           map (gacco_op txns) [0..<10 * length txns]"
    and "g_curr_num_ops (gacco_submit order txns p) = 10 * length txns"
proof -
  let ?ps = "concat (map (gacco_submitYcsbTxn txns) order)"
  show n: "g_curr_num_ops (gacco_submit order txns p) = 10 * length txns"
    using small by (simp add: gacco_submit_def unat_word_ariths unat_of_nat mod_mult_left_eq)
  have idx: "of_nat t * 10 + of_nat i = (of_nat (10 * t + i) :: u32)" for t i by simp
  have fn: "v = gacco_op txns (unat j)" if jv: "(j, v) \<in> set ?ps" for j v
  proof -
    obtain t i where t: "t < length txns" "i < 10" "j = of_nat t * 10 + of_nat i"
      "v = GACCO_CREATE_OP (record_ids (txns ! t) ! i) (of_nat t)"
      using jv order by (auto simp: gacco_submitYcsbTxn_def Let_def)
    then have "unat j = 10 * t + i" unfolding t(3) idx using small by (intro unat_of_nat_u32) simp
    then show ?thesis using t by (simp add: gacco_op_def)
  qed
  have "g_submitted_ops (gacco_submit order txns p) ! k = gacco_op txns k" if k: "k < 10 * length txns" for k
  proof -
    have t: "k div 10 \<in> set order" using k order by (simp add: less_mult_imp_div_less mult.commute)
    have "(of_nat (10 * (k div 10) + k mod 10) :: u32) \<in> fst ` set (gacco_submitYcsbTxn txns (k div 10))"
      unfolding gacco_submitYcsbTxn_def Let_def idx [symmetric] by (force simp: image_image)
    then have "of_nat k \<in> fst ` set ?ps" using t by (auto simp: image_iff)
    then have "load (scatter ?ps (g_submitted_ops p)) (of_nat k) = gacco_op txns (unat (of_nat k :: u32))"
      using fn k room small by (intro load_scatter_fun [where f = "\<lambda>j. gacco_op txns (unat j)"]) (auto simp: unat_of_nat_u32)
    then show ?thesis using k small by (simp add: gacco_submit_def load_def unat_of_nat_u32)
  qed
  then show "take (g_curr_num_ops (gacco_submit order txns p)) (g_submitted_ops (gacco_submit order txns p)) =
      map (gacco_op txns) [0..<10 * length txns]"
    unfolding n using room by (intro nth_equalityI) (simp_all add: gacco_submit_def)
qed

lemma gacco_ops_distinct:
  assumes valid: "\<forall>txn \<in> set txns. length (record_ids txn) = 10 \<and> distinct (record_ids txn)"
    and small: "10 * length txns < 2 ^ 32"
  shows "distinct (map (gacco_op txns) [0..<10 * length txns])"
proof -
  have "j = k" if j: "j < 10 * length txns" and k: "k < 10 * length txns" and eq: "gacco_op txns j = gacco_op txns k" for j k
  proof -
    have t: "j div 10 < length txns" "k div 10 < length txns" using j k by (simp_all add: less_mult_imp_div_less mult.commute)
    have ids: "record_ids (txns ! (j div 10)) ! (j mod 10) = record_ids (txns ! (k div 10)) ! (k mod 10)"
      and "(of_nat (j div 10) :: u32) = of_nat (k div 10)"
      using eq by (simp_all add: gacco_op_def gacco_create_inj)
    then have d: "j div 10 = k div 10" using t small of_nat_u32_inj [of "j div 10" "k div 10"] by simp
    have "length (record_ids (txns ! (k div 10))) = 10" "distinct (record_ids (txns ! (k div 10)))" using valid t(2) by auto
    then have "j mod 10 = k mod 10" using ids unfolding d by (simp add: nth_eq_iff_index_eq)
    then show "j = k" using d by (metis div_mult_mod_eq)
  qed
  then show ?thesis by (auto simp: distinct_map inj_on_def)
qed

subsection \<open>The arrays of an epoch\<close>

lemma view_length: "array_holds m k n p \<Longrightarrow> 0 < k \<Longrightarrow> n \<le> length (array_view k m p)"
  by (auto simp: array_holds_def array_view_def less_eq_div_iff_mult_less_eq mult.commute)

text \<open>The number of bytes of the access array for \<open>t\<close> transactions.\<close>

definition access_bytes :: "nat \<Rightarrow> nat" where
  "access_bytes t = (40 * t + 127) div 128 * 128"

lemma access_bytes_le: "40 * t \<le> access_bytes t"
  using div_mult_mod_eq [of "40 * t + 127" 128] mod_less_divisor [of 128 "40 * t + 127"] by (simp add: access_bytes_def)

lemma access_bytes_exact: "access_bytes t < 40 * t + 4 \<longleftrightarrow> 16 dvd t"
proof -
  define q where "q = (40 * t + 127) div 128"
  have b: "access_bytes t = 128 * q" by (simp add: access_bytes_def q_def)
  have q: "40 * t \<le> 128 * q" using access_bytes_le [of t] by (simp add: b)
  show ?thesis
  proof
    assume "access_bytes t < 40 * t + 4"
    then have "16 * q = 5 * t" using q by (simp add: b)
    then have "16 dvd 5 * t" by (metis dvd_triv_left)
    then show "16 dvd t" by presburger
  next
    assume "16 dvd t"
    then obtain k where k: "t = 16 * k" by (rule dvdE)
    then have "40 * t + 127 = 127 + (5 * k) * 128" by simp
    then have "(40 * t + 127) div 128 = 5 * k + 127 div 128" by (simp only: div_mult_self1)
    then show "access_bytes t < 40 * t + 4" by (simp add: access_bytes_def k)
  qed
qed

lemma gacco_arrays_fit:
  assumes t: "t = unat num_txns" "0 < t" "10 * t < 2 ^ 32"
    and recs: "0 < unat num_records" "4 * unat num_records + 127 < 2 ^ 64"
    and cub: "\<And>a b. 0 < unat (cub a b) \<and> unat (cub a b) + 127 < 2 ^ 64"
    and init: "GaccoInitialize avail cub (new_planner 10 num_txns num_records) m = Some s"
  shows "10 * t \<le> length (g_submitted_ops (gacco_planner s))"
    and "unat num_records \<le> length (lock_offset (g_table_lock (gacco_planner s)))"
    and "unat num_records \<le> length (lock_lock (g_table_lock (gacco_planner s)))"
    and "length (lock_access (g_table_lock (gacco_planner s))) = access_bytes t div 4"
    and "\<exists>b. ga_access (as_ptrs s) = Some b \<and> blocks (as_mem s) b = Some (GPU, replicate (access_bytes t) 0)"
proof -
  define z where "z = new_planner 10 num_txns num_records"
  let ?rqs = "gacco_counts z @ gacco_requests cub z" and ?b = "next_block m"
  have ops: "unat (max_num_ops z) = 10 * t" using t by (simp add: z_def new_planner_def unat_word_ariths)
  have tx: "unat (max_num_txns z) = t + 1" using t by (simp add: z_def new_planner_def unat_word_ariths)
  have rc: "max_num_records z = num_records" by (simp add: z_def new_planner_def)
  have mult: "unat (max_num_ops z * 4) = 40 * t" "unat (max_num_ops z * 8) = 80 * t" "unat (max_num_txns z * 4) = 4 * t + 4"
    "unat (num_records * 4) = 4 * unat num_records"
    using t recs by (simp_all add: unat_word_ariths ops tx)
  have sized: "sized_requests ?rqs"
    using t recs cub by (simp add: sized_requests_def gacco_counts_def gacco_requests_def mult rc Let_def)
  have "ga_op_offsets (set_ptrs (gacco_counts z) ?b no_gacco_arrays) = Some (?b + 1)" "1 < length (gacco_counts z)"
    by (simp_all add: gacco_counts_def)
  note spec = allocate_planner_spec [OF init [folded z_def, unfolded GaccoInitialize_def] sized this]
  have ptrs: "ga_submitted_ops (as_ptrs s) = Some (?b + 2)" "ga_access (as_ptrs s) = Some (?b + 8)"
    "ga_offset (as_ptrs s) = Some (?b + 9)" "ga_lock (as_ptrs s) = Some (?b + 10)"
    using spec(2) by (auto simp: gacco_counts_def gacco_requests_def Let_def)
  have len: "length ?rqs = 12" by (simp add: gacco_counts_def gacco_requests_def Let_def)
  have holds: "array_holds (as_mem s) k c (Some (?b + j))" if "j < 12" "k * c \<le> unat (snd (?rqs ! j))" for j k c
    by (rule served_holds [OF spec(1) _ sized that(2)]) (simp only: len that(1))
  have h: "array_holds (as_mem s) 8 (10 * t) (Some (?b + 2))" "array_holds (as_mem s) 4 (unat num_records) (Some (?b + 9))"
    "array_holds (as_mem s) 4 (unat num_records) (Some (?b + 10))"
    by (rule holds; simp add: gacco_counts_def gacco_requests_def Let_def mult rc)+
  have blk: "blocks (as_mem s) (?b + j) = Some (GPU, replicate (unat (AlignTo (snd (?rqs ! j)) kDeviceCacheLineSize)) 0)" if "j < 12" for j
    using spec(1) that by (simp only: served_def len)
  have "snd (?rqs ! 8) = max_num_ops z * 4" by (simp add: gacco_counts_def gacco_requests_def Let_def)
  then have b8: "blocks (as_mem s) (?b + 8) = Some (GPU, replicate (unat (AlignTo (max_num_ops z * 4) kDeviceCacheLineSize)) 0)"
    using blk [of 8] by simp
  have "unat (AlignTo (max_num_ops z * 4) kDeviceCacheLineSize) = access_bytes t"
    using AlignTo_unat [of "max_num_ops z * 4"] t by (simp add: mult access_bytes_def)
  then have acc: "blocks (as_mem s) (?b + 8) = Some (GPU, replicate (access_bytes t) 0)" using b8 by simp
  show "10 * t \<le> length (g_submitted_ops (gacco_planner s))"
    "unat num_records \<le> length (lock_offset (g_table_lock (gacco_planner s)))"
    "unat num_records \<le> length (lock_lock (g_table_lock (gacco_planner s)))"
    using h by (simp_all add: gacco_planner_def Let_def ptrs view_length)
  show "length (lock_access (g_table_lock (gacco_planner s))) = access_bytes t div 4"
    by (simp add: gacco_planner_def Let_def ptrs array_view_def acc)
  show "\<exists>b. ga_access (as_ptrs s) = Some b \<and> blocks (as_mem s) b = Some (GPU, replicate (access_bytes t) 0)"
    using acc ptrs by blast
qed

lemma gacco_epoch_fits:
  assumes "p = gacco_submit order txns (gacco_planner s)" and order: "set order = {0..<length txns}"
    and t: "length txns = unat num_txns" "0 < length txns" "10 * length txns < 2 ^ 32"
    and recs: "0 < unat num_records" "4 * unat num_records + 127 < 2 ^ 64"
    and cub: "\<And>a b. 0 < unat (cub a b) \<and> unat (cub a b) + 127 < 2 ^ 64"
    and init: "GaccoInitialize avail cub (new_planner 10 num_txns num_records) m = Some s"
    and ids: "\<forall>txn \<in> set txns. length (record_ids txn) = 10 \<and> (\<forall>r \<in> set (record_ids txn). unat r < unat num_records)"
  shows "gacco_fits p"
    and "take (g_curr_num_ops p) (g_submitted_ops p) = map (gacco_op txns) [0..<10 * length txns]"
proof -
  note arr = gacco_arrays_fit [OF t recs cub init]
  note sub = gacco_submit_ops [OF order t(3) arr(1), folded assms(1)]
  show xs: "take (g_curr_num_ops p) (g_submitted_ops p) = map (gacco_op txns) [0..<10 * length txns]" by (rule sub(1))
  have lock: "g_table_lock p = g_table_lock (gacco_planner s)" "length (g_submitted_ops p) = length (g_submitted_ops (gacco_planner s))"
    by (simp_all add: assms(1) gacco_submit_def)
  have room: "10 * length txns \<le> access_bytes (length txns) div 4" using access_bytes_le [of "length txns"] by simp
  have "unat (rid_of op) < unat num_records" if op: "op \<in> set (map (gacco_op txns) [0..<10 * length txns])" for op
  proof -
    obtain k where k: "k < 10 * length txns" "op = gacco_op txns k" using op by auto
    then have "txns ! (k div 10) \<in> set txns" by (simp add: less_mult_imp_div_less mult.commute)
    then show ?thesis using ids by (simp add: k gacco_op_def gacco_record_id)
  qed
  then have rows: "\<forall>op \<in> set (map (gacco_op txns) [0..<10 * length txns]).
      unat (rid_of op) < length (lock_offset (g_table_lock p)) \<and> unat (rid_of op) < length (lock_lock (g_table_lock p))"
    unfolding lock using arr(2,3) order.strict_trans2 by blast
  have "0 < g_curr_num_ops p" "g_curr_num_ops p \<le> length (g_submitted_ops p)" "g_curr_num_ops p < 2 ^ 32"
    "g_curr_num_ops p \<le> length (lock_access (g_table_lock p))"
    unfolding sub(2) lock arr(4) using t(2,3) arr(1) room by simp_all
  then show "gacco_fits p" unfolding gacco_fits_def xs using rows by blast
qed

text \<open>C40: The end of the access array. In the YCSB benchmark of GaccO every epoch fits the arrays of its planner, and the lock handover reads past
  the access array in some execution of an epoch exactly when the number of transactions is a multiple of 16: the
  array has no entry behind the last access except for the padding of its allocation.\<close>

theorem gacco_handover_range:
  assumes t: "length txns = unat num_txns" "0 < length txns" "10 * length txns < 2 ^ 32"
    and recs: "0 < unat num_records" "4 * unat num_records + 127 < 2 ^ 64"
    and cub: "\<And>a b. 0 < unat (cub a b) \<and> unat (cub a b) + 127 < 2 ^ 64"
    and init: "GaccoInitialize avail cub (new_planner 10 num_txns num_records) m = Some s"
    and order: "set order = {0..<length txns}"
    and ids: "\<forall>txn \<in> set txns. length (record_ids txn) = 10 \<and> distinct (record_ids txn) \<and>
                (\<forall>r \<in> set (record_ids txn). unat r < unat num_records)"
    and p: "p = gacco_submit order txns (gacco_planner s)" and xs: "xs = take (g_curr_num_ops p) (g_submitted_ops p)"
    and l: "l = g_table_lock (GaccoInitializeExecutionPlan p)"
  shows "gacco_fits p \<and>
    ((\<exists>st i c. (gacco_step (lock_access l) xs)\<^sup>*\<^sup>* (gacco_start xs l) st \<and> i < length xs \<and> gs_phase st ! i = Releasing c \<and>
        read_u32 (ga_access (as_ptrs s), 4 * unat c) (as_mem s) = None) \<longleftrightarrow> 16 dvd length txns)"
proof -
  have ids': "\<forall>txn \<in> set txns. length (record_ids txn) = 10 \<and> (\<forall>r \<in> set (record_ids txn). unat r < unat num_records)"
    using ids by blast
  note fits = gacco_epoch_fits [OF p order t recs cub init ids']
  have n: "length xs = 10 * length txns" using fits(2) by (simp add: xs)
  have d: "distinct xs" unfolding xs fits(2) by (rule gacco_ops_distinct) (use ids t in auto)
  obtain b where b: "ga_access (as_ptrs s) = Some b" "blocks (as_mem s) b = Some (GPU, replicate (access_bytes (length txns)) 0)"
    using gacco_arrays_fit(5) [OF t recs cub init] by blast
  have read: "read_u32 (ga_access (as_ptrs s), 4 * k) (as_mem s) = None \<longleftrightarrow> access_bytes (length txns) < 4 * k + 4" for k
    by (simp add: read_u32_def read_bytes_def b not_le)
  have "16 dvd length txns"
    if st: "(gacco_step (lock_access l) xs)\<^sup>*\<^sup>* (gacco_start xs l) st" and i: "i < length xs" and c: "gs_phase st ! i = Releasing c"
      and none: "read_u32 (ga_access (as_ptrs s), 4 * unat c) (as_mem s) = None" for st i c
  proof -
    have "unat c \<le> length xs" by (rule handover_bound [OF fits(1) xs d l st i c])
    then have "access_bytes (length txns) < 40 * length txns + 4" using none unfolding read n by simp
    then show ?thesis by (simp add: access_bytes_exact)
  qed
  moreover have "\<exists>st i c. (gacco_step (lock_access l) xs)\<^sup>*\<^sup>* (gacco_start xs l) st \<and> i < length xs \<and> gs_phase st ! i = Releasing c \<and>
      read_u32 (ga_access (as_ptrs s), 4 * unat c) (as_mem s) = None" if "16 dvd length txns"
    using handover_reaches_end [OF fits(1) xs d l] that unfolding read by (force simp: n simp flip: access_bytes_exact)
  ultimately show ?thesis using fits(1) by blast
qed

definition sample_epoch :: "YcsbTxnParam list" where
  "sample_epoch = replicate 16 (sample_txn\<lparr>record_ids := [0, 1, 2, 3, 4, 5, 6, 7, 8, 9]\<rparr>)"

theorem gacco_handover_range_witness:
  "\<exists>s p. GaccoInitialize (\<lambda>_ _. True) (\<lambda>_ _. 256) (new_planner 10 16 10) empty_mem = Some s \<and>
     p = gacco_submit [0..<16] sample_epoch (gacco_planner s) \<and>
     (\<exists>st i c. (gacco_step (lock_access (g_table_lock (GaccoInitializeExecutionPlan p))) (take (g_curr_num_ops p) (g_submitted_ops p)))\<^sup>*\<^sup>*
        (gacco_start (take (g_curr_num_ops p) (g_submitted_ops p)) (g_table_lock (GaccoInitializeExecutionPlan p))) st \<and>
        gs_phase st ! i = Releasing c \<and> read_u32 (ga_access (as_ptrs s), 4 * unat c) (as_mem s) = None)"
proof -
  obtain s where s: "GaccoInitialize (\<lambda>_ _. True) (\<lambda>_ _. 256) (new_planner 10 16 10) empty_mem = Some s"
    unfolding GaccoInitialize_def using allocate_planner_total by metis
  have len: "length sample_epoch = 16" by (simp add: sample_epoch_def)
  have ids: "\<forall>txn \<in> set sample_epoch. length (record_ids txn) = 10 \<and> distinct (record_ids txn) \<and>
      (\<forall>r \<in> set (record_ids txn). unat r < unat (10 :: u64))"
    by (simp add: sample_epoch_def)
  have dvd: "16 dvd length sample_epoch" by (simp add: len)
  show ?thesis
    using gacco_handover_range [OF _ _ _ _ _ _ s, of sample_epoch "[0..<16]", OF _ _ _ _ _ _ _ ids refl refl refl] dvd s
    by (simp add: len atLeast0LessThan del: upt_rec_numeral) blast
qed

end
