(* ===== verification/Durable_Store.thy ===== *)
theory Durable_Store
  imports Prelude
begin

text \<open>
  Durable allocation of the Primary Store (\<^verbatim>\<open>MallocDurable\<close> of \<^verbatim>\<open>util_memory.cu\<close>): a region
  that is a shared mapping of a file, so that its bytes outlive the process. The state is the contents of the
  files; the environment variables and whether the system calls succeed are parameters. The lemmas show that
  a store written before a crash is read back unchanged by the recovering process, and that creating a
  pinned region over an existing file keeps the old bytes.
\<close>

type_synonym files = "string \<Rightarrow> u8 list option"

datatype region = Private "u8 list" | Mapped string nat

record sys_calls =
  open_ok :: bool
  ftruncate_ok :: bool
  mmap_ok :: bool

record durable_env =
  recover_from :: "string option"
  durable_store :: "string option"

definition malloc_region :: "nat \<Rightarrow> region" where
  "malloc_region n = Private (replicate n 0)"

text \<open>\<^verbatim>\<open>ftruncate\<close>: cut or extended with zeros.\<close>

definition resize :: "nat \<Rightarrow> u8 list \<Rightarrow> u8 list" where
  "resize n bs = take n bs @ replicate (n - length bs) 0"

definition durable_path :: "string \<Rightarrow> string \<Rightarrow> string" where
  "durable_path dir name = dir @ ''/'' @ name @ ''.bin''"

definition MallocDurable ::
  "durable_env \<Rightarrow> sys_calls \<Rightarrow> string \<Rightarrow> nat \<Rightarrow> bool \<Rightarrow> files \<Rightarrow> region \<times> files" where
  "MallocDurable env io name n pin fs =
     (let recover = (recover_from env \<noteq> None)
      in case (if recover then recover_from env else durable_store env) of
           None \<Rightarrow> (malloc_region n, fs)
         | Some dir \<Rightarrow>
           let path = durable_path dir name
           in if \<not> open_ok io \<or> recover \<and> fs path = None then (malloc_region n, fs)
              else let fs1 = (if fs path = None then fs(path := Some []) else fs);
                       fs2 = (if \<not> recover \<and> ftruncate_ok io then fs1(path := map_option (resize n) (fs1 path)) else fs1)
                   in if \<not> mmap_ok io then (malloc_region n, fs2)
                      else if pin then (Mapped path n, fs2)
                      else if \<not> recover
                           then (Mapped path n,
                                 fs2(path := map_option (\<lambda>bs. replicate (min n (length bs)) 0 @ drop n bs) (fs2 path)))
                           else (Mapped path n, fs2))"

text \<open>The bytes of a region; a mapping reads its file, and past the end of the file it faults.\<close>

definition read_region :: "region \<Rightarrow> files \<Rightarrow> u8 list option" where
  "read_region reg fs =
     (case reg of
        Private bs \<Rightarrow> Some bs
      | Mapped path n \<Rightarrow>
        (case fs path of None \<Rightarrow> None | Some bs \<Rightarrow> if n \<le> length bs then Some (take n bs) else None))"

definition write_region :: "nat \<Rightarrow> u8 \<Rightarrow> region \<times> files \<Rightarrow> region \<times> files" where
  "write_region i b rf =
     (case rf of (reg, fs) \<Rightarrow>
        (case reg of
           Private bs \<Rightarrow> (Private (bs[i := b]), fs)
         | Mapped path n \<Rightarrow> (reg, if i < n then fs(path := map_option (\<lambda>bs. bs[i := b]) (fs path)) else fs)))"

definition all_calls_ok :: sys_calls where
  "all_calls_ok = \<lparr>open_ok = True, ftruncate_ok = True, mmap_ok = True\<rparr>"

subsection \<open>Recovery\<close>

lemma length_resize [simp]: "length (resize n bs) = n"
  by (simp add: resize_def)

definition store_bytes :: "(nat \<times> u8) list \<Rightarrow> u8 list \<Rightarrow> u8 list" where
  "store_bytes ws bs = fold (\<lambda>(i, b) bs. bs[i := b]) ws bs"

lemma length_store_bytes [simp]: "length (store_bytes ws bs) = length bs"
  unfolding store_bytes_def by (induction ws arbitrary: bs) (auto split: prod.split)

lemma writes_mapped:
  assumes "fs path = Some bs" and "\<forall>(i, b) \<in> set ws. i < n"
  shows "fold (\<lambda>(i, b). write_region i b) ws (Mapped path n, fs) = (Mapped path n, fs(path := Some (store_bytes ws bs)))"
  using assms
proof (induction ws arbitrary: fs bs)
  case Nil
  then show ?case by (simp add: store_bytes_def fun_upd_idem)
next
  case (Cons w ws)
  obtain i b where w: "w = (i, b)" by (cases w)
  have ws: "\<forall>(i, b) \<in> set ws. i < n" using Cons.prems(2) by simp
  have "write_region i b (Mapped path n, fs) = (Mapped path n, fs(path := Some (bs[i := b])))"
    using Cons.prems w by (simp add: write_region_def)
  moreover have "fold (\<lambda>(i, b). write_region i b) ws (Mapped path n, fs(path := Some (bs[i := b]))) =
      (Mapped path n, fs(path := Some (store_bytes ws (bs[i := b]))))"
    using Cons.IH [where fs = "fs(path := Some (bs[i := b]))" and bs = "bs[i := b]", OF fun_upd_same ws]
    by (simp only: fun_upd_upd)
  ultimately show ?case by (simp add: w store_bytes_def fun_upd_def)
qed

text \<open>The bytes a created region starts with: zeros when it is not pinned; when it is pinned, the default, what the file
  held before, cut or extended with zeros to the size of the region.\<close>

definition created_bytes :: "bool \<Rightarrow> nat \<Rightarrow> u8 list option \<Rightarrow> u8 list" where
  "created_bytes pin n old = (if pin then resize n (case old of None \<Rightarrow> [] | Some bs \<Rightarrow> bs) else replicate n 0)"

text \<open>C37: Durability, when the system calls succeed. A process that creates a durable region starts from zeros when it
  does not pin it and from the resized former contents of the file when it does; after any writes inside the region
  and the death of the process, a process that recovers from the same directory maps, pinned or not, exactly those bytes with
  the writes applied.\<close>

theorem durable_recovery:
  assumes create: "MallocDurable \<lparr>recover_from = None, durable_store = Some dir\<rparr> all_calls_ok name n pin fs = (reg, fs1)"
    and run: "fold (\<lambda>(i, b). write_region i b) ws (reg, fs1) = (reg', fs2)"
    and inside: "\<forall>(i, b) \<in> set ws. i < n"
    and recover: "MallocDurable \<lparr>recover_from = Some dir, durable_store = ds\<rparr> all_calls_ok name n pin' fs2 = (reg2, fs3)"
    and start: "start = created_bytes pin n (fs (durable_path dir name))"
  shows "read_region reg fs1 = Some start \<and> read_region reg2 fs3 = Some (store_bytes ws start)"
proof -
  let ?path = "durable_path dir name"
  have len: "length start = n" by (simp add: start created_bytes_def)
  have c: "reg = Mapped ?path n" "fs1 ?path = Some start"
    using create by (auto simp: MallocDurable_def Let_def all_calls_ok_def start created_bytes_def split: if_splits)
  have "fs2 = fs1(?path := Some (store_bytes ws start))"
    using writes_mapped [of fs1 ?path start ws n, OF c(2) inside] run by (simp add: c(1))
  moreover have "reg2 = Mapped ?path n" "fs3 = fs2"
    using recover calculation by (auto simp: MallocDurable_def Let_def all_calls_ok_def split: if_splits)
  ultimately show ?thesis using c len by (simp add: read_region_def)
qed

theorem durable_recovery_witness:
  "read_region (Mapped ''d/x.bin'' 2) ((\<lambda>_. None)(''d/x.bin'' := Some [9, 7])) = Some (store_bytes [(1, 7)] [9, 0])"
proof -
  let ?f0 = "(\<lambda>_. None)(''d/x.bin'' := Some [9 :: u8])"
  let ?f1 = "(\<lambda>_. None)(''d/x.bin'' := Some [9, 0 :: u8])" and ?f2 = "(\<lambda>_. None)(''d/x.bin'' := Some [9, 7 :: u8])"
  have create: "MallocDurable \<lparr>recover_from = None, durable_store = Some ''d''\<rparr> all_calls_ok ''x'' 2 True ?f0 = (Mapped ''d/x.bin'' 2, ?f1)"
    by (simp add: MallocDurable_def Let_def all_calls_ok_def durable_path_def resize_def numeral_2_eq_2)
  have run: "fold (\<lambda>(i, b). write_region i b) [(1, 7)] (Mapped ''d/x.bin'' 2, ?f1) = (Mapped ''d/x.bin'' 2, ?f2)"
    by (simp add: write_region_def)
  have recover: "MallocDurable \<lparr>recover_from = Some ''d'', durable_store = None\<rparr> all_calls_ok ''x'' 2 True ?f2 =
      (Mapped ''d/x.bin'' 2, ?f2)"
    by (simp add: MallocDurable_def Let_def all_calls_ok_def durable_path_def)
  have start: "[9, 0] = created_bytes True 2 (?f0 (durable_path ''d'' ''x''))"
    by (simp add: created_bytes_def resize_def durable_path_def)
  have "\<forall>(i, b) \<in> set [(1, 7 :: u8)]. i < (2 :: nat)" by simp
  from conjunct2 [OF durable_recovery [OF create run this recover start]] show ?thesis .
qed

text \<open>Pinned creation keeps old bytes. When the file already exists with the size of the region, a
  process that creates the region pinned, the default, reads what an earlier run left in the file, not zeros.\<close>

lemma pinned_create_keeps_bytes:
  assumes "fs (durable_path dir name) = Some old" and "length old = n"
    and "MallocDurable \<lparr>recover_from = None, durable_store = Some dir\<rparr> all_calls_ok name n True fs = (reg, fs1)"
  shows "read_region reg fs1 = Some old"
  using assms by (auto simp: MallocDurable_def Let_def all_calls_ok_def read_region_def resize_def split: if_splits)

lemma pinned_create_keeps_bytes_example:
  "read_region (Mapped ''d/x.bin'' 2) ((\<lambda>_. None)(''d/x.bin'' := Some [3, 4])) = Some [3, 4]"
proof -
  have "MallocDurable \<lparr>recover_from = None, durable_store = Some ''d''\<rparr> all_calls_ok ''x'' 2 True
      ((\<lambda>_. None)(''d/x.bin'' := Some [3, 4])) = (Mapped ''d/x.bin'' 2, (\<lambda>_. None)(''d/x.bin'' := Some [3, 4]))"
    by (simp add: MallocDurable_def Let_def all_calls_ok_def durable_path_def resize_def)
  then show ?thesis
    using pinned_create_keeps_bytes [of "(\<lambda>_. None)(''d/x.bin'' := Some [3, 4])" "''d''" "''x''" "[3, 4]" 2]
    by (simp add: durable_path_def)
qed

end
