(* ===== verification/Options.thy ===== *)
theory Options
  imports Durable_Store Device_Memory Complex_Main
begin

text \<open>
  Program entry (\<^verbatim>\<open>main.cpp\<close>) with the configuration records it fills (\<^verbatim>\<open>ycsb_config.h\<close>, \<^verbatim>\<open>tpcc_config.h\<close>): the loop over
  the options \<^verbatim>\<open>getopt_long\<close> delivers, the environment of the durable store and the choice of the benchmark. Numbers
  are read as \<^verbatim>\<open>strtoul\<close> reads them. A \<^verbatim>\<open>double\<close> is an exact fraction, and \<open>strtod\<close> is a parameter. The theorem shows
  that every accepted command line gives a well-formed configuration and reaches a benchmark.
\<close>

subsection \<open>Reading numbers\<close>

definition digit_val :: "char \<Rightarrow> nat option" where
  "digit_val c =
     (let n = of_char c
      in if 48 \<le> n \<and> n \<le> 57 then Some (n - 48)
         else if 97 \<le> n \<and> n \<le> 122 then Some (n - 87)
         else if 65 \<le> n \<and> n \<le> 90 then Some (n - 55) else None)"

definition is_space :: "char \<Rightarrow> bool" where
  "is_space c \<longleftrightarrow> (let n = of_char c in n = (32 :: nat) \<or> 9 \<le> n \<and> n \<le> 13)"

fun digits :: "nat \<Rightarrow> nat \<Rightarrow> string \<Rightarrow> nat \<times> string" where
  "digits b acc [] = (acc, [])"
| "digits b acc (c # cs) =
     (case digit_val c of
        Some d \<Rightarrow> if d < b then digits b (acc * b + d) cs else (acc, c # cs)
      | None \<Rightarrow> (acc, c # cs))"

text \<open>The value, what follows the number, and whether the value is out of range; without digits the whole
  text remains.\<close>

definition strtoul :: "nat \<Rightarrow> string \<Rightarrow> u64 \<times> string \<times> bool" where
  "strtoul base s =
     (let s1 = dropWhile is_space s;
          neg = (take 1 s1 = ''-'');
          s2 = (if take 1 s1 = ''-'' \<or> take 1 s1 = ''+'' then drop 1 s1 else s1);
          hex = ((base = 0 \<or> base = 16) \<and> (take 2 s2 = ''0x'' \<or> take 2 s2 = ''0X'') \<and>
                 (case drop 2 s2 of [] \<Rightarrow> False | c # cs \<Rightarrow> (case digit_val c of None \<Rightarrow> False | Some d \<Rightarrow> d < 16)));
          b = (if hex then 16 else if base = 0 then (if take 1 s2 = ''0'' then 8 else 10) else base);
          s3 = (if hex then drop 2 s2 else s2);
          r = digits b 0 s3
      in if snd r = s3 then (0, s, False)
         else if 2 ^ 64 \<le> fst r then (- 1, snd r, True)
         else (if neg then - of_nat (fst r) else of_nat (fst r), snd r, False))"

subsection \<open>Configurations\<close>

datatype ExecMode = CPU_ONLY | GPU_ONLY | HYBRID_STAGING

record YcsbTxnMix =
  num_reads :: u64
  num_writes :: u64
  num_rmw :: u64
  num_inserts :: u64
  num_deletes :: u64

record YcsbConfig =
  y_txn_mix :: YcsbTxnMix
  num_records :: u64
  y_num_txns :: u64
  starting_num_records :: u64
  y_epochs :: u64
  skew_factor :: rat
  y_index_device :: DeviceType
  y_initialize_device :: DeviceType
  y_execution_device :: DeviceType
  y_execution_mode :: ExecMode
  y_split_field :: bool
  full_record_read :: bool
  y_cpu_exec_num_threads :: u32
  gpu_capacity :: u32
  y_overlap_flush :: bool
  adversarial_deletes :: bool
  recent_read_bias :: rat
  recent_window_size :: u32

record TpccTxnMix =
  new_order :: u32
  payment :: u32
  order_status :: u32
  delivery :: u32
  stock_level :: u32

record TpccConfig =
  t_txn_mix :: TpccTxnMix
  t_num_txns :: u64
  t_epochs :: u64
  num_warehouses :: u64
  order_table_size :: u64
  orderline_table_size :: u64
  t_index_device :: DeviceType
  t_initialize_device :: DeviceType
  t_execution_device :: DeviceType
  t_execution_mode :: ExecMode
  gacco_separate_txn_queue :: bool
  gacco_use_atomic :: bool
  gacco_tpcc_stock_use_atomic :: bool
  t_cpu_exec_num_threads :: u32
  t_overlap_flush :: bool
  verify_tpcc :: bool
  cache_capacity_warehouse :: u64
  cache_capacity_district :: u64
  cache_capacity_customer :: u64
  cache_capacity_item :: u64
  cache_capacity_stock :: u64
  cache_capacity_new_order :: u64
  cache_capacity_order :: u64
  cache_capacity_order_line :: u64
  hybrid_hbm_reserve_bytes :: u64
  hybrid_hbm_budget_bytes :: u64

definition YcsbConfig_default :: YcsbConfig where
  "YcsbConfig_default =
     \<lparr>y_txn_mix = \<lparr>num_reads = 10, num_writes = 0, num_rmw = 0, num_inserts = 0, num_deletes = 0\<rparr>,
      num_records = 2500000, y_num_txns = 100000, starting_num_records = 2500000, y_epochs = 20, skew_factor = 0,
      y_index_device = GPU, y_initialize_device = GPU, y_execution_device = GPU, y_execution_mode = GPU_ONLY, y_split_field = True, full_record_read = True,
      y_cpu_exec_num_threads = 1, gpu_capacity = 0, y_overlap_flush = False, adversarial_deletes = False,
      recent_read_bias = 0, recent_window_size = 0\<rparr>"

definition TpccConfig_default :: TpccConfig where
  "TpccConfig_default =
     \<lparr>t_txn_mix = \<lparr>new_order = 50, payment = 50, order_status = 0, delivery = 0, stock_level = 0\<rparr>,
      t_num_txns = 100000, t_epochs = 20, num_warehouses = 8, order_table_size = 1000000, orderline_table_size = 15000000,
      t_index_device = GPU, t_initialize_device = GPU, t_execution_device = GPU, t_execution_mode = GPU_ONLY,
      gacco_separate_txn_queue = True, gacco_use_atomic = False, gacco_tpcc_stock_use_atomic = True, t_cpu_exec_num_threads = 1,
      t_overlap_flush = False, verify_tpcc = False, cache_capacity_warehouse = 0, cache_capacity_district = 0,
      cache_capacity_customer = 0, cache_capacity_item = 0, cache_capacity_stock = 0,
      cache_capacity_new_order = 0, cache_capacity_order = 0, cache_capacity_order_line = 0,
      hybrid_hbm_reserve_bytes = 4 * 1024 * 1024 * 1024, hybrid_hbm_budget_bytes = 0\<rparr>"

text \<open>The local variables of \<^verbatim>\<open>main\<close>.\<close>

record main_state =
  tpcc_config :: TpccConfig
  ycsb_config :: YcsbConfig
  bench :: string
  db :: string
  commutative_ops :: bool
  starting_num_records_set :: bool
  durable_dir :: string
  recover_mode :: bool

definition main_start :: main_state where
  "main_start = \<lparr>tpcc_config = TpccConfig_default, ycsb_config = YcsbConfig_default, bench = ''tpcc'', db = ''epic'',
     commutative_ops = False, starting_num_records_set = False, durable_dir = [], recover_mode = False\<rparr>"

subsection \<open>The options\<close>

definition set_ycsb :: "(YcsbConfig \<Rightarrow> YcsbConfig) \<Rightarrow> main_state \<Rightarrow> main_state" where
  "set_ycsb f s = s\<lparr>ycsb_config := f (ycsb_config s)\<rparr>"

definition set_tpcc :: "(TpccConfig \<Rightarrow> TpccConfig) \<Rightarrow> main_state \<Rightarrow> main_state" where
  "set_tpcc f s = s\<lparr>tpcc_config := f (tpcc_config s)\<rparr>"

definition ycsb_mix :: "u64 \<Rightarrow> u64 \<Rightarrow> u64 \<Rightarrow> u64 \<Rightarrow> u64 \<Rightarrow> main_state \<Rightarrow> main_state" where
  "ycsb_mix r w m i d s =
     set_ycsb (\<lambda>c. c\<lparr>y_txn_mix := \<lparr>num_reads = r, num_writes = w, num_rmw = m, num_inserts = i, num_deletes = d\<rparr>\<rparr>)
       (s\<lparr>bench := ''ycsb''\<rparr>)"

definition tpcc_mix :: "u32 \<Rightarrow> u32 \<Rightarrow> u32 \<Rightarrow> u32 \<Rightarrow> u32 \<Rightarrow> main_state \<Rightarrow> main_state" where
  "tpcc_mix n p os d sl s =
     set_tpcc (\<lambda>c. c\<lparr>t_txn_mix := \<lparr>new_order = n, payment = p, order_status = os, delivery = d, stock_level = sl\<rparr>\<rparr>)
       (s\<lparr>bench := ''tpcc''\<rparr>)"

definition set_bench :: "string \<Rightarrow> main_state \<Rightarrow> string + main_state" where
  "set_bench b s =
     (if b = ''ycsba'' then Inr (ycsb_mix 50 50 0 0 0 s)
      else if b = ''ycsbb'' then Inr (ycsb_mix 95 5 0 0 0 s)
      else if b = ''ycsbc'' then Inr (ycsb_mix 100 0 0 0 0 s)
      else if b = ''ycsbf'' then Inr (ycsb_mix 50 0 50 0 0 s)
      else if b = ''ycsbi'' then
        Inr (set_ycsb (\<lambda>c. c\<lparr>recent_read_bias := 3 / 10, recent_window_size := 100000\<rparr>) (ycsb_mix 20 0 30 50 0 s))
      else if b = ''ycsbw'' then Inr (ycsb_mix 60 20 0 10 10 s)
      else if b = ''ycsbx'' then Inr (set_ycsb (\<lambda>c. c\<lparr>adversarial_deletes := True\<rparr>) (ycsb_mix 60 20 0 10 10 s))
      else if b = ''tpccn'' then Inr (tpcc_mix 100 0 0 0 0 s)
      else if b = ''tpccp'' then Inr (tpcc_mix 0 100 0 0 0 s)
      else if b = ''tpcc'' then Inr (tpcc_mix 50 50 0 0 0 s)
      else if b = ''tpccfull'' then Inr (tpcc_mix 45 43 4 4 4 s)
      else if b = ''tpccdeck'' then Inr (tpcc_mix 10 10 1 1 1 s)
      else Inl ''Invalid benchmark name'')"

text \<open>A checked number, a number that is not checked, and a truth value.\<close>

definition with_number :: "string \<Rightarrow> string \<Rightarrow> (u64 \<Rightarrow> main_state) \<Rightarrow> string + main_state" where
  "with_number arg err f =
     (case strtoul 0 arg of (v, rest, erange) \<Rightarrow>
       if erange \<or> rest = arg \<or> rest \<noteq> [] then Inl err else Inr (f v))"

definition strtoull :: "string \<Rightarrow> u64" where "strtoull arg = fst (strtoul 10 arg)"

definition with_bool :: "string \<Rightarrow> string \<Rightarrow> (bool \<Rightarrow> main_state) \<Rightarrow> string + main_state" where
  "with_bool arg err f =
     (if arg = ''true'' then Inr (f True) else if arg = ''false'' then Inr (f False) else Inl err)"

text \<open>What \<^verbatim>\<open>getopt_long\<close> returns: a short option or the number of a long one.\<close>

datatype optval = Short char | Long nat

definition gib :: u64 where "gib = 1024 * 1024 * 1024"

definition short_option ::
  "(string \<Rightarrow> rat \<times> string \<times> bool) \<Rightarrow> char \<Rightarrow> string \<Rightarrow> main_state \<Rightarrow> string + main_state" where
  "short_option strtod c arg s =
     (if c = CHR ''b'' then set_bench arg s
      else if c = CHR ''d'' then
        (if arg \<noteq> ''epic'' \<and> arg \<noteq> ''gacco'' then Inl ''Invalid database name'' else Inr (s\<lparr>db := arg\<rparr>))
      else if c = CHR ''w'' then
        with_number arg ''Invalid number of warehouses'' (\<lambda>v. set_tpcc (\<lambda>c. c\<lparr>num_warehouses := v\<rparr>) s)
      else if c = CHR ''a'' then
        (case strtod arg of (v, rest, erange) \<Rightarrow>
          if erange \<or> rest = arg \<or> rest \<noteq> [] then Inl ''Invalid skew factor''
          else Inr (set_ycsb (\<lambda>c. c\<lparr>skew_factor := v\<rparr>) s))
      else if c = CHR ''r'' then
        with_bool arg ''Invalid full record read'' (\<lambda>v. set_ycsb (\<lambda>c. c\<lparr>full_record_read := v\<rparr>) s)
      else if c = CHR ''c'' then
        with_number arg ''Invalid number of CPU execution threads''
          (\<lambda>v. set_tpcc (\<lambda>c. c\<lparr>t_cpu_exec_num_threads := ucast v\<rparr>) (set_ycsb (\<lambda>c. c\<lparr>y_cpu_exec_num_threads := ucast v\<rparr>) s))
      else if c = CHR ''e'' then
        with_number arg ''Invalid number of epochs''
          (\<lambda>v. set_ycsb (\<lambda>c. c\<lparr>y_epochs := v\<rparr>) (set_tpcc (\<lambda>c. c\<lparr>t_epochs := v\<rparr>) s))
      else if c = CHR ''s'' then
        with_number arg ''Invalid number of transactions''
          (\<lambda>v. set_ycsb (\<lambda>c. c\<lparr>y_num_txns := v\<rparr>) (set_tpcc (\<lambda>c. c\<lparr>t_num_txns := v\<rparr>) s))
      else if c = CHR ''f'' then
        with_bool arg ''Invalid split fields'' (\<lambda>v. set_ycsb (\<lambda>c. c\<lparr>y_split_field := v\<rparr>) s)
      else if c = CHR ''m'' then
        with_bool arg ''Invalid commutative ops'' (\<lambda>v. s\<lparr>commutative_ops := v\<rparr>)
      else if c = CHR ''n'' then
        with_number arg ''Invalid number of records''
          (\<lambda>v. let s1 = set_ycsb (\<lambda>c. c\<lparr>num_records := v\<rparr>) s
               in if \<not> starting_num_records_set s1
                  then set_ycsb (\<lambda>c. c\<lparr>starting_num_records := num_records c * 80 div 100\<rparr>) s1 else s1)
      else if c = CHR ''N'' then
        with_number arg ''Invalid starting number of records''
          (\<lambda>v. (set_ycsb (\<lambda>c. c\<lparr>starting_num_records := v\<rparr>) s)\<lparr>starting_num_records_set := True\<rparr>)
      else if c = CHR ''x'' then
        (if arg = ''cpu'' then Inr (set_ycsb (\<lambda>c. c\<lparr>y_execution_device := CPU\<rparr>) (set_tpcc (\<lambda>c. c\<lparr>t_execution_device := CPU\<rparr>) s))
         else if arg = ''gpu'' then Inr (set_ycsb (\<lambda>c. c\<lparr>y_execution_device := GPU\<rparr>) (set_tpcc (\<lambda>c. c\<lparr>t_execution_device := GPU\<rparr>) s))
         else Inl ''Invalid execution device'')
      else if c = CHR ''y'' then
        (let mode = (\<lambda>m. Inr (set_ycsb (\<lambda>c. c\<lparr>y_execution_mode := m\<rparr>) (set_tpcc (\<lambda>c. c\<lparr>t_execution_mode := m\<rparr>) s)))
         in if arg = ''cpu_only'' then mode CPU_ONLY else if arg = ''gpu_only'' then mode GPU_ONLY
            else if arg = ''hybrid_staging'' then mode HYBRID_STAGING else Inl ''Invalid execution mode'')
      else if c = CHR ''z'' then
        with_bool arg ''Invalid overlap flush''
          (\<lambda>v. set_ycsb (\<lambda>c. c\<lparr>y_overlap_flush := v\<rparr>) (set_tpcc (\<lambda>c. c\<lparr>t_overlap_flush := v\<rparr>) s))
      else Inl ''Invalid option'')"

definition long_option :: "nat \<Rightarrow> string \<Rightarrow> main_state \<Rightarrow> string + main_state" where
  "long_option k arg s =
     (if k = 300 then Inr (set_tpcc (\<lambda>c. c\<lparr>verify_tpcc := True\<rparr>) s)
      else if k = 301 then Inr (set_tpcc (\<lambda>c. c\<lparr>cache_capacity_order_line := strtoull arg\<rparr>) s)
      else if k = 302 then Inr (set_tpcc (\<lambda>c. c\<lparr>hybrid_hbm_reserve_bytes := strtoull arg * gib\<rparr>) s)
      else if k = 303 then Inr (set_tpcc (\<lambda>c. c\<lparr>hybrid_hbm_budget_bytes := strtoull arg * gib\<rparr>) s)
      else if k = 304 then Inr (set_tpcc (\<lambda>c. c\<lparr>cache_capacity_customer := strtoull arg\<rparr>) s)
      else if k = 305 then Inr (set_tpcc (\<lambda>c. c\<lparr>cache_capacity_stock := strtoull arg\<rparr>) s)
      else if k = 306 then Inr (set_tpcc (\<lambda>c. c\<lparr>cache_capacity_new_order := strtoull arg\<rparr>) s)
      else if k = 307 then Inr (set_tpcc (\<lambda>c. c\<lparr>cache_capacity_order := strtoull arg\<rparr>) s)
      else if k = 308 then Inr (s\<lparr>durable_dir := arg\<rparr>)
      else if k = 309 then Inr (s\<lparr>recover_mode := True\<rparr>)
      else Inl ''Invalid option'')"

definition option_step ::
  "(string \<Rightarrow> rat \<times> string \<times> bool) \<Rightarrow> optval \<times> string \<Rightarrow> main_state \<Rightarrow> string + main_state" where
  "option_step strtod op s =
     (case fst op of Short c \<Rightarrow> short_option strtod c (snd op) s | Long k \<Rightarrow> long_option k (snd op) s)"

fun parse_options ::
  "(string \<Rightarrow> rat \<times> string \<times> bool) \<Rightarrow> (optval \<times> string) list \<Rightarrow> main_state \<Rightarrow> string + main_state" where
  "parse_options strtod [] s = Inr s"
| "parse_options strtod (op # opts) s =
     (case option_step strtod op s of Inl err \<Rightarrow> Inl err | Inr s' \<Rightarrow> parse_options strtod opts s')"

subsection \<open>After the options\<close>

definition durable_setup :: "main_state \<Rightarrow> durable_env \<Rightarrow> string + durable_env" where
  "durable_setup s env =
     (if durable_dir s \<noteq> []
      then (if recover_mode s then Inr (env\<lparr>recover_from := Some (durable_dir s)\<rparr>)
            else Inr (env\<lparr>durable_store := Some (durable_dir s)\<rparr>))
      else if recover_mode s then Inl ''--recover requires --durable_store <dir>''
      else Inr env)"

definition gacco_flags :: "main_state \<Rightarrow> TpccConfig" where
  "gacco_flags s =
     (let c = tpcc_config s
      in if commutative_ops s then c\<lparr>gacco_use_atomic := True, gacco_tpcc_stock_use_atomic := True\<rparr>
         else if 0 < new_order (t_txn_mix c) then c\<lparr>gacco_use_atomic := True, gacco_tpcc_stock_use_atomic := False\<rparr>
         else c\<lparr>gacco_use_atomic := False, gacco_tpcc_stock_use_atomic := False\<rparr>)"

datatype Benchmark = EpicTpcc TpccConfig | GaccoTpcc TpccConfig | EpicYcsb YcsbConfig | GaccoYcsb YcsbConfig

text \<open>The benchmark pointer; \<open>None\<close> is the null pointer, which the calls after it would dereference.\<close>

definition make_benchmark :: "main_state \<Rightarrow> string + Benchmark option" where
  "make_benchmark s =
     (if bench s = ''tpcc'' then
        (if db s = ''epic'' then Inr (Some (EpicTpcc (gacco_flags s)))
         else if db s = ''gacco'' then Inr (Some (GaccoTpcc (gacco_flags s)))
         else Inl ''Invalid database name'')
      else if bench s = ''ycsb'' then
        (if db s = ''epic'' then Inr (Some (EpicYcsb (ycsb_config s)))
         else if db s = ''gacco'' then Inr (Some (GaccoYcsb (ycsb_config s)))
         else Inl ''Invalid database name'')
      else Inr None)"

definition main_run ::
  "(string \<Rightarrow> rat \<times> string \<times> bool) \<Rightarrow> (optval \<times> string) list \<Rightarrow> durable_env \<Rightarrow> string + Benchmark option \<times> durable_env" where
  "main_run strtod opts env =
     (case parse_options strtod opts main_start of
        Inl err \<Rightarrow> Inl err
      | Inr s \<Rightarrow> (case durable_setup s env of
          Inl err \<Rightarrow> Inl err
        | Inr env' \<Rightarrow> (case make_benchmark s of Inl err \<Rightarrow> Inl err | Inr b \<Rightarrow> Inr (b, env'))))"

subsection \<open>Well-formed configurations\<close>

definition ycsb_mix_total :: "YcsbTxnMix \<Rightarrow> u64" where
  "ycsb_mix_total m = num_reads m + num_writes m + num_rmw m + num_inserts m + num_deletes m"

definition totalWeight :: "TpccTxnMix \<Rightarrow> u32" where
  "totalWeight m = new_order m + payment m + order_status m + delivery m + stock_level m"

definition state_inv :: "main_state \<Rightarrow> bool" where
  "state_inv s \<longleftrightarrow> (db s = ''epic'' \<or> db s = ''gacco'') \<and> (bench s = ''tpcc'' \<or> bench s = ''ycsb'') \<and>
     totalWeight (t_txn_mix (tpcc_config s)) \<noteq> 0 \<and>
     (bench s = ''ycsb'' \<longrightarrow> ycsb_mix_total (y_txn_mix (ycsb_config s)) = 100)"

lemma main_start_inv: "state_inv main_start"
  by (simp add: state_inv_def main_start_def TpccConfig_default_def totalWeight_def)

lemma set_bench_inv: "set_bench b s = Inr s' \<Longrightarrow> state_inv s \<Longrightarrow> state_inv s'"
  unfolding set_bench_def
  by (auto simp: state_inv_def ycsb_mix_def tpcc_mix_def set_ycsb_def set_tpcc_def ycsb_mix_total_def totalWeight_def
      split: if_splits)

text \<open>Every other option leaves the invariant alone.\<close>

definition mix_kept :: "main_state \<Rightarrow> main_state \<Rightarrow> bool" where
  "mix_kept s s' \<longleftrightarrow> bench s' = bench s \<and> t_txn_mix (tpcc_config s') = t_txn_mix (tpcc_config s) \<and>
     y_txn_mix (ycsb_config s') = y_txn_mix (ycsb_config s) \<and> (db s' = db s \<or> db s' = ''epic'' \<or> db s' = ''gacco'')"

lemma mix_kept_inv: "mix_kept s s' \<Longrightarrow> state_inv s \<Longrightarrow> state_inv s'"
  by (auto simp: mix_kept_def state_inv_def)

lemma with_number_cases:
  "with_number arg err f = Inr s' \<longleftrightarrow> (\<exists>v. strtoul 0 arg = (v, [], False) \<and> arg \<noteq> [] \<and> s' = f v)"
  by (auto simp: with_number_def split: prod.splits)

lemma with_bool_cases: "with_bool arg err f = Inr s' \<Longrightarrow> \<exists>v. s' = f v"
  by (auto simp: with_bool_def split: if_splits)

lemma if_InrE: "(if P then x else y) = Inr s \<Longrightarrow> (P \<Longrightarrow> x = Inr s \<Longrightarrow> R) \<Longrightarrow> (\<not> P \<Longrightarrow> y = Inr s \<Longrightarrow> R) \<Longrightarrow> R"
  by (simp split: if_splits)

lemma with_numberE:
  "with_number arg err f = Inr s' \<Longrightarrow> (\<And>v. strtoul 0 arg = (v, [], False) \<Longrightarrow> s' = f v \<Longrightarrow> R) \<Longrightarrow> R"
  by (auto simp: with_number_cases)

lemma with_boolE: "with_bool arg err f = Inr s' \<Longrightarrow> (\<And>v. s' = f v \<Longrightarrow> R) \<Longrightarrow> R"
  by (auto dest: with_bool_cases)

lemma short_option_mix:
  assumes "short_option strtod c arg s = Inr s'" and "c \<noteq> CHR ''b''"
  shows "mix_kept s s'"
  using assms(1) unfolding short_option_def if_not_P [OF assms(2)] Let_def
  by (elim if_InrE with_numberE with_boolE)
    (auto simp: mix_kept_def set_ycsb_def set_tpcc_def split: prod.splits if_splits)

lemma long_option_mix: "long_option k arg s = Inr s' \<Longrightarrow> mix_kept s s'"
  unfolding long_option_def
  by (elim if_InrE) (auto simp: mix_kept_def set_tpcc_def)

lemma short_option_bench: "short_option strtod (CHR ''b'') arg s = set_bench arg s"
  by (simp add: short_option_def)

lemma option_step_inv:
  assumes "option_step strtod op s = Inr s'" and "state_inv s"
  shows "state_inv s'"
proof (cases "fst op = Short (CHR ''b'')")
  case True
  then have "set_bench (snd op) s = Inr s'" using assms(1) by (simp add: option_step_def short_option_bench)
  then show ?thesis using set_bench_inv assms(2) by blast
next
  case False
  then have "mix_kept s s'"
    using assms(1) short_option_mix long_option_mix by (cases "fst op") (auto simp: option_step_def)
  then show ?thesis using mix_kept_inv assms(2) by blast
qed

lemma parse_options_inv: "parse_options strtod opts s = Inr s' \<Longrightarrow> state_inv s \<Longrightarrow> state_inv s'"
proof (induction opts arbitrary: s)
  case (Cons op opts)
  then obtain s1 where "option_step strtod op s = Inr s1" "parse_options strtod opts s1 = Inr s'"
    by (auto split: sum.splits)
  then show ?case using Cons option_step_inv by blast
qed simp

subsection \<open>The number of preloaded records\<close>

text \<open>The accepted values of a numeric option, in order.\<close>

definition values_of :: "char \<Rightarrow> (optval \<times> string) list \<Rightarrow> u64 list" where
  "values_of c opts = map (\<lambda>op. fst (strtoul 0 (snd op))) (filter (\<lambda>op. fst op = Short c) opts)"

lemma short_option_start:
  assumes "short_option strtod c arg s = Inr s'" and "c \<noteq> CHR ''b''"
  shows "starting_num_records (ycsb_config s') =
      (if c = CHR ''N'' then fst (strtoul 0 arg)
       else if c = CHR ''n'' \<and> \<not> starting_num_records_set s then fst (strtoul 0 arg) * 80 div 100
       else starting_num_records (ycsb_config s)) \<and>
    (starting_num_records_set s' \<longleftrightarrow> starting_num_records_set s \<or> c = CHR ''N'')"
  using assms(1) unfolding short_option_def if_not_P [OF assms(2)] Let_def
  by (elim if_InrE with_boolE with_numberE) (auto simp: set_ycsb_def set_tpcc_def split: prod.splits if_splits)

lemma set_bench_start:
  "set_bench b s = Inr s' \<Longrightarrow> starting_num_records (ycsb_config s') = starting_num_records (ycsb_config s) \<and>
     starting_num_records_set s' = starting_num_records_set s"
  unfolding set_bench_def by (elim if_InrE) (auto simp: ycsb_mix_def tpcc_mix_def set_ycsb_def set_tpcc_def)

lemma long_option_start:
  "long_option k arg s = Inr s' \<Longrightarrow> starting_num_records (ycsb_config s') = starting_num_records (ycsb_config s) \<and>
     starting_num_records_set s' = starting_num_records_set s"
  unfolding long_option_def by (elim if_InrE) (auto simp: set_tpcc_def)

lemma option_step_start:
  assumes "option_step strtod op s = Inr s'"
  shows "starting_num_records (ycsb_config s') =
      (if fst op = Short (CHR ''N'') then fst (strtoul 0 (snd op))
       else if fst op = Short (CHR ''n'') \<and> \<not> starting_num_records_set s then fst (strtoul 0 (snd op)) * 80 div 100
       else starting_num_records (ycsb_config s)) \<and>
    (starting_num_records_set s' \<longleftrightarrow> starting_num_records_set s \<or> fst op = Short (CHR ''N''))"
proof (cases "fst op")
  case (Short c)
  show ?thesis
  proof (cases "c = CHR ''b''")
    case True
    then show ?thesis using assms set_bench_start by (simp add: option_step_def Short short_option_bench)
  next
    case False
    then show ?thesis using assms short_option_start [OF _ False] by (simp add: option_step_def Short)
  qed
next
  case (Long k)
  then show ?thesis using assms long_option_start by (simp add: option_step_def)
qed

lemma parse_options_start:
  assumes "parse_options strtod opts s = Inr s'"
  shows "starting_num_records (ycsb_config s') =
      (if values_of (CHR ''N'') opts \<noteq> [] then last (values_of (CHR ''N'') opts)
       else if values_of (CHR ''n'') opts = [] \<or> starting_num_records_set s then starting_num_records (ycsb_config s)
       else last (values_of (CHR ''n'') opts) * 80 div 100)"
  using assms
proof (induction opts arbitrary: s)
  case (Cons op opts)
  then obtain s1 where s1: "option_step strtod op s = Inr s1" "parse_options strtod opts s1 = Inr s'"
    by (auto split: sum.splits)
  show ?case
    using Cons.IH [OF s1(2)] option_step_start [OF s1(1)] by (auto simp: values_of_def)
qed (simp add: values_of_def)

definition benchmark_ok :: "main_state \<Rightarrow> Benchmark \<Rightarrow> bool" where
  "benchmark_ok s b \<longleftrightarrow>
     (case b of
        EpicTpcc c \<Rightarrow> db s = ''epic'' \<and> totalWeight (t_txn_mix c) \<noteq> 0
      | GaccoTpcc c \<Rightarrow> db s = ''gacco'' \<and> totalWeight (t_txn_mix c) \<noteq> 0
      | EpicYcsb c \<Rightarrow> db s = ''epic'' \<and> ycsb_mix_total (y_txn_mix c) = 100
      | GaccoYcsb c \<Rightarrow> db s = ''gacco'' \<and> ycsb_mix_total (y_txn_mix c) = 100)"

lemma gacco_flags_mix: "t_txn_mix (gacco_flags s) = t_txn_mix (tpcc_config s)"
  by (simp add: gacco_flags_def Let_def)

lemma make_benchmark_ok:
  assumes "state_inv s"
  shows "\<exists>b. make_benchmark s = Inr (Some b) \<and> benchmark_ok s b"
proof -
  consider "bench s = ''tpcc''" "db s = ''epic''" | "bench s = ''tpcc''" "db s = ''gacco''"
    | "bench s = ''ycsb''" "db s = ''epic''" | "bench s = ''ycsb''" "db s = ''gacco''"
    using assms unfolding state_inv_def by blast
  then show ?thesis
    using assms by cases (simp_all add: make_benchmark_def benchmark_ok_def state_inv_def gacco_flags_mix)
qed

text \<open>C38: The command line. Every command line that is accepted reaches a benchmark of the chosen database, never the null
  pointer; its transaction mix is well formed (the YCSB mix sums to 100, the TPC-C weights are not all zero). The number of preloaded
  records is the last value of \<^verbatim>\<open>-N\<close> wherever it stands, otherwise four fifths of the last value of \<^verbatim>\<open>-n\<close>, otherwise the default. A
  request to recover is accepted only with a durable store, and then the store is opened for recovery. Once the options
  themselves are accepted, only that request can still be refused.\<close>

theorem command_line_wf:
  assumes parsed: "parse_options strtod opts main_start = Inr s"
  shows "case main_run strtod opts env of
           Inl err \<Rightarrow> recover_mode s \<and> durable_dir s = [] \<and> err = ''--recover requires --durable_store <dir>''
         | Inr (b, env') \<Rightarrow>
             (recover_mode s \<longrightarrow> durable_dir s \<noteq> [] \<and> recover_from env' = Some (durable_dir s)) \<and>
             (case b of None \<Rightarrow> False
              | Some (EpicTpcc c) \<Rightarrow> db s = ''epic'' \<and> totalWeight (t_txn_mix c) \<noteq> 0
              | Some (GaccoTpcc c) \<Rightarrow> db s = ''gacco'' \<and> totalWeight (t_txn_mix c) \<noteq> 0
              | Some (EpicYcsb c) \<Rightarrow> db s = ''epic'' \<and> ycsb_mix_total (y_txn_mix c) = 100
              | Some (GaccoYcsb c) \<Rightarrow> db s = ''gacco'' \<and> ycsb_mix_total (y_txn_mix c) = 100) \<and>
             starting_num_records (ycsb_config s) =
               (if values_of (CHR ''N'') opts \<noteq> [] then last (values_of (CHR ''N'') opts)
                else if values_of (CHR ''n'') opts = [] then 2500000
                else last (values_of (CHR ''n'') opts) * 80 div 100)"
proof -
  have inv: "state_inv s" by (rule parse_options_inv [OF parsed main_start_inv])
  have st: "starting_num_records (ycsb_config main_start) = 2500000" "\<not> starting_num_records_set main_start"
    by (simp_all add: main_start_def YcsbConfig_default_def)
  have start: "starting_num_records (ycsb_config s) =
      (if values_of (CHR ''N'') opts \<noteq> [] then last (values_of (CHR ''N'') opts)
       else if values_of (CHR ''n'') opts = [] then 2500000 else last (values_of (CHR ''n'') opts) * 80 div 100)"
    using parse_options_start [OF parsed] st by simp
  obtain b where b: "make_benchmark s = Inr (Some b)" "benchmark_ok s b" using make_benchmark_ok [OF inv] by blast
  show ?thesis
  proof (cases "durable_dir s = [] \<and> recover_mode s")
    case True
    then show ?thesis by (simp add: main_run_def parsed durable_setup_def)
  next
    case False
    then obtain env' where env': "durable_setup s env = Inr env'" "recover_mode s \<longrightarrow> recover_from env' = Some (durable_dir s)"
      by (cases "recover_mode s"; cases "durable_dir s = []") (auto simp: durable_setup_def)
    have run: "main_run strtod opts env = Inr (Some b, env')" by (simp add: main_run_def parsed env' b)
    have "recover_mode s \<longrightarrow> durable_dir s \<noteq> []" using False by blast
    then show ?thesis using b(2) env' start
      unfolding run benchmark_ok_def by (simp split: Benchmark.splits)
  qed
qed

lemma strtoul_examples: "strtoul 0 ''0x10'' = (16, [], False)" "strtoul 0 ''1000'' = (1000, [], False)"
  by (simp_all add: strtoul_def digit_val_def is_space_def of_char_def Let_def)

theorem command_line_wf_witness:
  "\<exists>s. parse_options (\<lambda>a. (0, a, False)) [(Short (CHR ''N''), ''0x10''), (Short (CHR ''n''), ''1000'')] main_start = Inr s \<and>
     (case main_run (\<lambda>a. (0, a, False)) [(Short (CHR ''N''), ''0x10''), (Short (CHR ''n''), ''1000'')]
        \<lparr>recover_from = None, durable_store = None\<rparr> of Inl err \<Rightarrow> recover_mode s
      | Inr r \<Rightarrow> fst r \<noteq> None \<and> starting_num_records (ycsb_config s) = 16)"
proof -
  let ?opts = "[(Short (CHR ''N''), ''0x10''), (Short (CHR ''n''), ''1000'')]"
  obtain s where s: "parse_options (\<lambda>a. (0, a, False)) ?opts main_start = Inr s"
    by (simp add: option_step_def short_option_def with_number_def strtoul_examples)
  have "values_of (CHR ''N'') ?opts = [16]" by (simp add: values_of_def strtoul_examples)
  then show ?thesis
    using command_line_wf [OF s, of "\<lparr>recover_from = None, durable_store = None\<rparr>"] s
    by (auto split: sum.splits prod.splits option.splits)
qed

end
