(* ===== verification/Serial_Index.thy ===== *)
theory Serial_Index
  imports Prelude
begin

text \<open>
  What the key index of an epoch promises (the rules in the head of \<^verbatim>\<open>benchmarks/epoch_timeline.cuh\<close>): the operations of an epoch
  run in serial order on a map from keys to records. An insert of an absent key creates a record with the next fresh id, an
  insert of a live key is a write to its record; a delete of a live key ends its record, a delete of an absent key does
  nothing. The theory is the specification that the two paths of the index refine, with the facts about
  the history of one key that their proofs share.
\<close>

definition kAbsent :: u32 where "kAbsent = 0xffffffff"

datatype index_op = Insert u32 | Delete u32 | Access u32

fun key_of :: "index_op \<Rightarrow> u32" where
  "key_of (Insert k) = k" | "key_of (Delete k) = k" | "key_of (Access k) = k"

text \<open>The live records, the keys of the records created so far and the ended records with their keys.\<close>

record live_index =
  live :: "u32 \<rightharpoonup> u32"
  minted :: "u32 list"
  ended :: "(u32 \<times> u32) list"

definition fresh_crid :: "u32 \<Rightarrow> live_index \<Rightarrow> u32" where
  "fresh_crid crid_begin s = crid_begin + of_nat (length (minted s))"

fun serial_step :: "u32 \<Rightarrow> index_op \<Rightarrow> live_index \<Rightarrow> live_index" where
  "serial_step crid_begin (Insert k) s =
     (case live s k of
        None \<Rightarrow> s\<lparr>live := (live s)(k \<mapsto> fresh_crid crid_begin s), minted := minted s @ [k]\<rparr>
      | Some c \<Rightarrow> s)"
| "serial_step crid_begin (Delete k) s =
     (case live s k of None \<Rightarrow> s | Some c \<Rightarrow> s\<lparr>live := (live s)(k := None), ended := ended s @ [(k, c)]\<rparr>)"
| "serial_step crid_begin (Access k) s = s"

text \<open>The record an operation is given: an insert the record it leaves live, any other the record it finds.\<close>

fun serial_rid :: "u32 \<Rightarrow> index_op \<Rightarrow> live_index \<Rightarrow> u32 option" where
  "serial_rid crid_begin (Insert k) s = live (serial_step crid_begin (Insert k) s) k"
| "serial_rid crid_begin (Delete k) s = live s k"
| "serial_rid crid_begin (Access k) s = live s k"

definition start_index :: "(u32 \<rightharpoonup> u32) \<Rightarrow> live_index" where
  "start_index m = \<lparr>live = m, minted = [], ended = []\<rparr>"

text \<open>The state before slot \<open>e\<close>.\<close>

definition at_slot :: "u32 \<Rightarrow> index_op list \<Rightarrow> (u32 \<rightharpoonup> u32) \<Rightarrow> nat \<Rightarrow> live_index" where
  "at_slot crid_begin xs m e = fold (serial_step crid_begin) (take e xs) (start_index m)"

definition rid_word :: "u32 option \<Rightarrow> u32" where
  "rid_word r = (case r of None \<Rightarrow> kAbsent | Some c \<Rightarrow> c)"

subsection \<open>Slots\<close>

lemma at_slot_0 [simp]: "at_slot b xs m 0 = start_index m"
  by (simp add: at_slot_def)

lemma at_slot_Suc: "e < length xs \<Longrightarrow> at_slot b xs m (Suc e) = serial_step b (xs ! e) (at_slot b xs m e)"
  by (simp add: at_slot_def take_Suc_conv_app_nth)

definition creates :: "u32 \<Rightarrow> index_op list \<Rightarrow> (u32 \<rightharpoonup> u32) \<Rightarrow> nat \<Rightarrow> bool" where
  "creates b xs m e \<longleftrightarrow> (\<exists>k. xs ! e = Insert k \<and> live (at_slot b xs m e) k = None)"

definition ends :: "u32 \<Rightarrow> index_op list \<Rightarrow> (u32 \<rightharpoonup> u32) \<Rightarrow> nat \<Rightarrow> bool" where
  "ends b xs m e \<longleftrightarrow> (\<exists>k. xs ! e = Delete k \<and> live (at_slot b xs m e) k \<noteq> None)"

lemma minted_at_slot: "e \<le> length xs \<Longrightarrow> minted (at_slot b xs m e) = map (\<lambda>i. key_of (xs ! i)) (filter (creates b xs m) [0..<e])"
proof (induction e)
  case (Suc e)
  then show ?case
    by (cases "xs ! e") (auto simp: at_slot_Suc creates_def split: option.splits)
qed (simp add: start_index_def)

lemma ended_at_slot:
  "e \<le> length xs \<Longrightarrow> ended (at_slot b xs m e) =
     map (\<lambda>i. (key_of (xs ! i), the (live (at_slot b xs m i) (key_of (xs ! i))))) (filter (ends b xs m) [0..<e])"
proof (induction e)
  case (Suc e)
  then show ?case
    by (cases "xs ! e") (auto simp: at_slot_Suc ends_def split: option.splits)
qed (simp add: start_index_def)

text \<open>The id of the record a creating insert makes counts the creating inserts before it.\<close>

definition slot_crid :: "u32 \<Rightarrow> index_op list \<Rightarrow> (u32 \<rightharpoonup> u32) \<Rightarrow> nat \<Rightarrow> u32" where
  "slot_crid b xs m e = b + of_nat (length (filter (creates b xs m) [0..<e]))"

lemma fresh_crid_slot: "e \<le> length xs \<Longrightarrow> fresh_crid b (at_slot b xs m e) = slot_crid b xs m e"
  by (simp add: fresh_crid_def slot_crid_def minted_at_slot)

subsection \<open>The history of one key\<close>

definition is_event :: "index_op list \<Rightarrow> u32 \<Rightarrow> nat \<Rightarrow> bool" where
  "is_event xs k e \<longleftrightarrow> xs ! e = Insert k \<or> xs ! e = Delete k"

definition key_events :: "index_op list \<Rightarrow> u32 \<Rightarrow> nat list" where
  "key_events xs k = filter (is_event xs k) [0..<length xs]"

text \<open>The record of the key after an event on it, and after any other operation.\<close>

lemma live_event:
  assumes "e < length xs"
  shows "live (at_slot b xs m (Suc e)) k =
     (if xs ! e = Delete k then None
      else if xs ! e = Insert k \<and> live (at_slot b xs m e) k = None then Some (slot_crid b xs m e)
      else live (at_slot b xs m e) k)"
  using assms fresh_crid_slot [of e xs b m] by (cases "xs ! e") (auto simp: at_slot_Suc split: option.splits)

text \<open>\<open>es\<close> are the events of \<open>k\<close> from a point on where its record is \<open>c\<close>, up to slot \<open>n\<close>.\<close>

fun follows :: "u32 \<Rightarrow> index_op list \<Rightarrow> (u32 \<rightharpoonup> u32) \<Rightarrow> u32 \<Rightarrow> nat \<Rightarrow> u32 option \<Rightarrow> nat list \<Rightarrow> bool" where
  "follows b xs m k n c [] \<longleftrightarrow> live (at_slot b xs m n) k = c"
| "follows b xs m k n c (e # es) \<longleftrightarrow> e < length xs \<and> is_event xs k e \<and> live (at_slot b xs m e) k = c \<and>
     follows b xs m k n (live (at_slot b xs m (Suc e)) k) es"

lemma follows_from:
  assumes "i \<le> n" and "n \<le> length xs"
  shows "follows b xs m k n (live (at_slot b xs m i) k) (filter (is_event xs k) [i..<n])"
  using assms(1)
proof (induction rule: inc_induct)
  case (step i)
  have i: "i < length xs" using step(2) assms(2) by simp
  have "[i..<n] = i # [Suc i..<n]" using step(2) by (rule upt_conv_Cons)
  moreover have "\<not> is_event xs k i \<Longrightarrow> live (at_slot b xs m (Suc i)) k = live (at_slot b xs m i) k"
    unfolding live_event [OF i] by (simp add: is_event_def)
  ultimately show ?case using step i by auto
qed simp

lemma follows_key_events: "follows b xs m k (length xs) (m k) (key_events xs k)"
  using follows_from [of 0 "length xs" xs b m k] by (simp add: key_events_def start_index_def)

lemma follows_before: "e \<le> length xs \<Longrightarrow> follows b xs m k e (m k) (filter (is_event xs k) [0..<e])"
  using follows_from [of 0 e xs b m k] by (simp add: start_index_def)

text \<open>Records keep away from the sentinel while the fresh ids do.\<close>

definition ids_ok :: "u32 \<Rightarrow> index_op list \<Rightarrow> (u32 \<rightharpoonup> u32) \<Rightarrow> bool" where
  "ids_ok b xs m \<longleftrightarrow> kAbsent \<notin> ran m \<and> unat b + length (minted (at_slot b xs m (length xs))) < 2 ^ 32"

lemma slot_crid_lt:
  assumes "ids_ok b xs m" and "e < length xs" and "creates b xs m e"
  shows "unat (slot_crid b xs m e) = unat b + length (filter (creates b xs m) [0..<e])"
    and "unat (slot_crid b xs m e) < unat b + length (filter (creates b xs m) [0..<length xs])"
    and "slot_crid b xs m e \<noteq> kAbsent"
proof -
  have "[0..<length xs] = [0..<e] @ e # [Suc e..<length xs]"
    using assms(2) by (metis upt_add_eq_append upt_conv_Cons le0 less_imp_add_positive less_imp_le_nat add_0)
  then have lt: "length (filter (creates b xs m) [0..<e]) < length (filter (creates b xs m) [0..<length xs])"
    using assms(3) by simp
  moreover have "unat b + length (filter (creates b xs m) [0..<length xs]) < 2 ^ 32"
    using assms(1) by (simp add: ids_ok_def minted_at_slot)
  ultimately show u: "unat (slot_crid b xs m e) = unat b + length (filter (creates b xs m) [0..<e])"
    by (simp add: slot_crid_def unat_word_ariths unat_of_nat mod_add_right_eq)
  then show l: "unat (slot_crid b xs m e) < unat b + length (filter (creates b xs m) [0..<length xs])" using lt by simp
  then have "unat (slot_crid b xs m e) < 2 ^ 32 - 1" using assms(1) by (simp add: ids_ok_def minted_at_slot)
  then show "slot_crid b xs m e \<noteq> kAbsent" by (auto simp: kAbsent_def)
qed

lemma live_not_absent:
  assumes "ids_ok b xs m" and "e \<le> length xs"
  shows "live (at_slot b xs m e) k \<noteq> Some kAbsent"
  using assms(2)
proof (induction e)
  case 0
  then show ?case using assms(1) by (auto simp: start_index_def ids_ok_def ran_def)
next
  case (Suc e)
  then have e: "e < length xs" by simp
  have "xs ! e = Insert k \<Longrightarrow> live (at_slot b xs m e) k = None \<Longrightarrow> slot_crid b xs m e \<noteq> kAbsent"
    using slot_crid_lt(3) [OF assms(1) e] by (auto simp: creates_def)
  then show ?case using Suc unfolding live_event [OF e] by auto
qed

lemma rid_word_absent:
  assumes "ids_ok b xs m" and "e \<le> length xs"
  shows "rid_word (live (at_slot b xs m e) k) = kAbsent \<longleftrightarrow> live (at_slot b xs m e) k = None"
  using live_not_absent [OF assms, of k] by (auto simp: rid_word_def split: option.splits)

end
