(* ===== verification/Epoch_Timeline.thy ===== *)
theory Epoch_Timeline
  imports Serial_Index
begin

text \<open>
  The timeline of an epoch (\<^verbatim>\<open>benchmarks/epoch_timeline.cuh\<close>) as the YCSB index instantiates it, with 32-bit keys and 32 position
  bits: the inserts and deletes of the epoch are packed, sorted by key and position and walked key by key, once to
  find the inserts that create a record and once to find the records that deletes end; an operation is resolved by a binary search
  for its key and a walk over the events before it. The orders in which the threads of the two walking kernels
  run are parameters. \<open>Timeline_Correct\<close> shows that all of it agrees with the serial run of \<open>Serial_Index\<close>.
\<close>

unbundle bit_operations_syntax

datatype event_type = kEvInsert | kEvDelete

definition kNoKey :: u32 where "kNoKey = - 1"

definition packEvent :: "u64 \<Rightarrow> u32 \<Rightarrow> u64" where
  "packEvent key pos = push_bit 32 key OR ucast pos"

definition eventKey :: "u64 \<Rightarrow> u64" where "eventKey packed = drop_bit 32 packed"

definition eventPos :: "u64 \<Rightarrow> u32" where "eventPos packed = ucast (packed AND (push_bit 32 1 - 1))"

text \<open>The input arrays, and one position of the sorted arrays.\<close>

record timeline_input =
  ti_ins_key :: "u32 list"
  ti_del_key :: "u32 list"
  ti_pos :: "u32 list"

record sorted_event =
  sv_packed :: u64
  sv_orig :: nat
  sv_type :: event_type
  sv_c0 :: u32
  sv_entry :: nat

subsection \<open>Resolving an operation\<close>

text \<open>The binary search of \<^verbatim>\<open>resolve\<close>.\<close>

function lower_search :: "sorted_event list \<Rightarrow> u64 \<Rightarrow> nat \<Rightarrow> nat \<Rightarrow> nat" where
  "lower_search srt probe lo hi =
     (if lo < hi
      then let mid = lo + (hi - lo) div 2
           in if sv_packed (srt ! mid) < probe then lower_search srt probe (mid + 1) hi
              else lower_search srt probe lo mid
      else lo)"
  by pat_completeness auto
termination
  by (relation "measure (\<lambda>(s, p, lo, hi). hi - lo)") auto

declare lower_search.simps [simp del]

text \<open>Its loop over the events of the key.\<close>

fun resolve_loop :: "u64 \<Rightarrow> u32 \<Rightarrow> nat \<Rightarrow> u32 list \<Rightarrow> u32 \<Rightarrow> sorted_event list \<Rightarrow> u32" where
  "resolve_loop key pos self_entry entry_crid state [] = state"
| "resolve_loop key pos self_entry entry_crid state (s # ss) =
     (if eventKey (sv_packed s) \<noteq> key then state
      else let p = eventPos (sv_packed s)
           in if p > pos \<or> p = pos \<and> self_entry \<le> sv_entry s then state
              else resolve_loop key pos self_entry entry_crid
                     (if sv_type s = kEvDelete then kAbsent
                      else if state = kAbsent then entry_crid ! sv_entry s else state) ss)"

definition timeline_resolve :: "sorted_event list \<Rightarrow> u32 list \<Rightarrow> u64 \<Rightarrow> u32 \<Rightarrow> nat \<Rightarrow> bool \<Rightarrow> u32 \<Rightarrow> u32" where
  "timeline_resolve srt entry_crid key pos self_entry is_insert fallback =
     (let n = length srt; lo = lower_search srt (packEvent key 0) 0 n
      in if n = 0 then fallback
         else if lo = n \<or> eventKey (sv_packed (srt ! lo)) \<noteq> key then fallback
         else let state = resolve_loop key pos self_entry entry_crid (sv_c0 (srt ! lo)) (drop lo srt)
              in if is_insert \<and> state = kAbsent then entry_crid ! self_entry else state)"

subsection \<open>Building the timeline\<close>

definition EntryIsEvent :: "timeline_input \<Rightarrow> nat \<Rightarrow> bool" where
  "EntryIsEvent inp e \<longleftrightarrow> ti_ins_key inp ! e \<noteq> kNoKey \<or> ti_del_key inp ! e \<noteq> kNoKey"

definition k_gather_events :: "timeline_input \<Rightarrow> nat \<Rightarrow> u32 \<times> event_type" where
  "k_gather_events inp e =
     (if ti_ins_key inp ! e \<noteq> kNoKey then (ti_ins_key inp ! e, kEvInsert) else (ti_del_key inp ! e, kEvDelete))"

definition k_pack_events :: "timeline_input \<Rightarrow> nat \<Rightarrow> u64" where
  "k_pack_events inp e = packEvent (ucast (fst (k_gather_events inp e))) (ti_pos inp ! e)"

definition k_permute_events :: "timeline_input \<Rightarrow> (u32 \<Rightarrow> u32) \<Rightarrow> nat list \<Rightarrow> u64 \<times> nat \<Rightarrow> sorted_event" where
  "k_permute_events inp lookup ev_entry pi =
     (let e = ev_entry ! snd pi
      in \<lparr>sv_packed = fst pi, sv_orig = snd pi, sv_type = snd (k_gather_events inp e),
          sv_c0 = lookup (fst (k_gather_events inp e)), sv_entry = e\<rparr>)"

text \<open>The walk of one key: the events whose life flag and whose delete flag are set.\<close>

fun walk :: "u64 \<Rightarrow> bool \<Rightarrow> sorted_event list \<Rightarrow> nat list \<times> nat list" where
  "walk key lv [] = ([], [])"
| "walk key lv (s # ss) =
     (if eventKey (sv_packed s) \<noteq> key then ([], [])
      else if sv_type s = kEvDelete
           then let (life, edel) = walk key False ss in (life, if lv then sv_orig s # edel else edel)
           else let (life, edel) = walk key True ss in (if lv then life else sv_orig s # life, edel))"

definition key_head :: "sorted_event list \<Rightarrow> nat \<Rightarrow> bool" where
  "key_head srt i \<longleftrightarrow> \<not> (0 < i \<and> eventKey (sv_packed (srt ! (i - 1))) = eventKey (sv_packed (srt ! i)))"

definition k_walk :: "sorted_event list \<Rightarrow> nat \<Rightarrow> nat list \<times> nat list" where
  "k_walk srt i =
     (if key_head srt i
      then walk (eventKey (sv_packed (srt ! i))) (sv_c0 (srt ! i) \<noteq> kAbsent) (drop i srt)
      else ([], []))"

definition set_flags :: "nat \<Rightarrow> nat list \<Rightarrow> bool list" where
  "set_flags n is = fold (\<lambda>i f. f[i := True]) is (replicate n False)"

definition k_scatter_minted :: "nat list \<Rightarrow> u32 \<Rightarrow> u32 list \<Rightarrow> u32 list" where
  "k_scatter_minted ins_entry crid_begin entry_crid =
     fold (\<lambda>(j, e) a. a[e := crid_begin + of_nat j]) (enumerate 0 ins_entry) entry_crid"

text \<open>The second walk, which stores the ended records and yields the final record of the key.\<close>

fun assign_loop :: "u64 \<Rightarrow> u32 \<Rightarrow> sorted_event list \<Rightarrow> u32 list \<Rightarrow> u32 list \<times> u32" where
  "assign_loop key state [] a = (a, state)"
| "assign_loop key state (s # ss) a =
     (if eventKey (sv_packed s) \<noteq> key then (a, state)
      else if sv_type s = kEvDelete
           then (if state \<noteq> kAbsent then assign_loop key kAbsent ss (a[sv_entry s := state]) else assign_loop key state ss a)
           else assign_loop key (if state = kAbsent then a ! sv_entry s else state) ss a)"

record key_final =
  fin_key :: u64
  fin_crid :: u32
  fin_erase :: bool
  fin_insert :: bool

definition k_assign :: "sorted_event list \<Rightarrow> nat \<Rightarrow> u32 list \<times> key_final list \<Rightarrow> u32 list \<times> key_final list" where
  "k_assign srt i s =
     (if key_head srt i
      then let key = eventKey (sv_packed (srt ! i)); start = sv_c0 (srt ! i);
               (a, state) = assign_loop key start (drop i srt) (fst s)
           in (a, (snd s)[i := \<lparr>fin_key = key, fin_crid = state, fin_erase = (start \<noteq> kAbsent \<and> state \<noteq> start),
                                fin_insert = (state \<noteq> kAbsent \<and> state \<noteq> start)\<rparr>])
      else (fst s, (snd s)[i := (snd s ! i)\<lparr>fin_erase := False, fin_insert := False\<rparr>]))"

record timeline =
  tl_sorted :: "sorted_event list"
  tl_entry_crid :: "u32 list"
  tl_minted_keys :: "u32 list"
  tl_ins_entry :: "nat list"
  tl_edel_keys :: "u32 list"
  tl_edel_crids :: "u32 list"
  tl_erase_keys :: "u32 list"
  tl_insert_keys :: "u32 list"
  tl_insert_crids :: "u32 list"
  tl_fin :: "key_final list"

definition ensure :: "nat \<Rightarrow> nat \<Rightarrow> nat \<Rightarrow> string + nat" where
  "ensure n_entries e_max max_pos =
     (if 2 ^ 32 \<le> max_pos then Inl ''EpochTimeline: serial position does not fit'' else Inr (min e_max n_entries))"

definition sort_events :: "timeline_input \<Rightarrow> (u32 \<Rightarrow> u32) \<Rightarrow> nat list \<Rightarrow> sorted_event list" where
  "sort_events inp lookup ev_entry =
     map (k_permute_events inp lookup ev_entry)
       (sort_key fst (zip (map (k_pack_events inp) ev_entry) [0..<length ev_entry]))"

text \<open>\<^verbatim>\<open>build\<close>; \<open>ord1\<close> and \<open>ord2\<close> are the orders of the threads of the walking kernels, and \<open>t\<close> holds the buffers as
  the last epoch left them.\<close>

definition build ::
  "nat list \<Rightarrow> nat list \<Rightarrow> nat \<Rightarrow> timeline_input \<Rightarrow> (u32 \<Rightarrow> u32) \<Rightarrow> u32 \<Rightarrow> timeline \<Rightarrow> string + timeline" where
  "build ord1 ord2 e_max inp lookup crid_begin t =
     (let ev_entry = filter (EntryIsEvent inp) [0..<length (ti_ins_key inp)]; n = length ev_entry
      in if e_max < n then Inl ''EpochTimeline: events exceed the capacity''
         else if n = 0
         then Inr (t\<lparr>tl_sorted := [], tl_minted_keys := [], tl_ins_entry := [], tl_edel_keys := [], tl_edel_crids := [],
                     tl_erase_keys := [], tl_insert_keys := [], tl_insert_crids := []\<rparr>)
         else let ev_key = map (fst \<circ> k_gather_events inp) ev_entry;
                  srt = sort_events inp lookup ev_entry;
                  life_ev = set_flags n (concat (map (fst \<circ> k_walk srt) ord1));
                  edel_ev = set_flags n (concat (map (snd \<circ> k_walk srt) ord1));
                  ins_entry = select_flagged ev_entry life_ev;
                  entry_crid1 = k_scatter_minted ins_entry crid_begin (tl_entry_crid t);
                  (entry_crid, fin) = fold (k_assign srt) ord2 (entry_crid1, tl_fin t);
                  ev_crid = map ((!) entry_crid) ev_entry;
                  fins = take n fin
              in Inr \<lparr>tl_sorted = srt, tl_entry_crid = entry_crid, tl_minted_keys = select_flagged ev_key life_ev,
                      tl_ins_entry = ins_entry, tl_edel_keys = select_flagged ev_key edel_ev,
                      tl_edel_crids = select_flagged ev_crid edel_ev,
                      tl_erase_keys = map (ucast \<circ> fin_key) (filter fin_erase fins),
                      tl_insert_keys = map (ucast \<circ> fin_key) (filter fin_insert fins),
                      tl_insert_crids = map fin_crid (filter fin_insert fins), tl_fin = fin\<rparr>)"

end
