(* ===== verification/Timeline_Correct.thy ===== *)
theory Timeline_Correct
  imports Epoch_Timeline
begin

text \<open>
  The timeline of \<open>Epoch_Timeline\<close> refines the serial run of \<open>Serial_Index\<close>: the sorted events of a key are its events in slot order, both walks
  follow the record of the key from event to event, and the outputs of all keys together are the records created and
  ended by the serial run.
\<close>

unbundle bit_operations_syntax

text \<open>The input arrays of the operations \<open>xs\<close>; an entry is its slot.\<close>

definition codes :: "index_op list \<Rightarrow> timeline_input \<Rightarrow> bool" where
  "codes xs inp \<longleftrightarrow>
     length (ti_ins_key inp) = length xs \<and>
     (\<forall>e < length xs. ti_pos inp ! e = of_nat e \<and>
        (case xs ! e of
           Insert k \<Rightarrow> k \<noteq> kNoKey \<and> ti_ins_key inp ! e = k \<and> ti_del_key inp ! e = kNoKey
         | Delete k \<Rightarrow> k \<noteq> kNoKey \<and> ti_ins_key inp ! e = kNoKey \<and> ti_del_key inp ! e = k
         | Access k \<Rightarrow> ti_ins_key inp ! e = kNoKey \<and> ti_del_key inp ! e = kNoKey))"

definition timeline_ok :: "u32 \<Rightarrow> index_op list \<Rightarrow> timeline_input \<Rightarrow> (u32 \<rightharpoonup> u32) \<Rightarrow> (u32 \<Rightarrow> u32) \<Rightarrow> bool" where
  "timeline_ok b xs inp m lookup \<longleftrightarrow>
     codes xs inp \<and> length xs < 2 ^ 32 \<and> ids_ok b xs m \<and> (\<forall>k. lookup k = rid_word (m k))"

subsection \<open>Packed events\<close>

lemma eventKey_pack: "eventKey (packEvent (ucast (k :: u32)) p) = ucast k"
  unfolding eventKey_def packEvent_def by (rule bit_word_eqI) (auto simp: bit_simps dest: bit_imp_le_length)

lemma eventPos_pack: "eventPos (packEvent (ucast (k :: u32)) p) = p"
proof -
  have e: "eventPos q = ucast (q AND mask 32)" for q by (simp add: eventPos_def mask_eq_exp_minus_1)
  show ?thesis unfolding e packEvent_def by (rule bit_word_eqI) (auto simp: bit_simps dest: bit_imp_le_length)
qed

lemma ucast_u64_inj: "(ucast (k :: u32) :: u64) = ucast k' \<longleftrightarrow> k = k'"
  by (metis unat_widen unsigned_word_eqI)

lemma unat_pack: "unat (packEvent (ucast (k :: u32)) p) = unat k * 2 ^ 32 + unat p"
proof -
  have "push_bit 32 (ucast k :: u64) OR ucast p = push_bit 32 (ucast k) + ucast p"
    by (rule disjunctive_add_eq_or [symmetric]) (rule bit_word_eqI, auto simp: bit_simps dest: bit_imp_le_length)
  also have "unat \<dots> = (unat k * 2 ^ 32 + unat p) mod 2 ^ 64"
    by (simp add: push_bit_eq_mult unat_word_ariths unat_widen mod_add_left_eq)
  finally show ?thesis using unat_u32_lt [of k] unat_u32_lt [of p] by (simp add: packEvent_def)
qed

lemma pack_less: "unat e < unat e' \<Longrightarrow> packEvent (ucast (k :: u32)) e < packEvent (ucast k) e'"
  by (simp add: word_less_nat_alt unat_pack)

subsection \<open>The sorted events\<close>

definition events :: "index_op list \<Rightarrow> nat list" where
  "events xs = filter (\<lambda>e. is_event xs (key_of (xs ! e)) e) [0..<length xs]"

definition op_type :: "index_op \<Rightarrow> event_type" where
  "op_type x = (case x of Insert k \<Rightarrow> kEvInsert | Delete k \<Rightarrow> kEvDelete | Access k \<Rightarrow> kEvDelete)"

lemma codes_entry:
  assumes "codes xs inp" and "e < length xs"
  shows "EntryIsEvent inp e \<longleftrightarrow> is_event xs (key_of (xs ! e)) e"
    and "EntryIsEvent inp e \<Longrightarrow> k_gather_events inp e = (key_of (xs ! e), op_type (xs ! e))"
    and "ti_pos inp ! e = of_nat e"
proof -
  have "ti_pos inp ! e = of_nat e \<and>
      (case xs ! e of
         Insert k \<Rightarrow> k \<noteq> kNoKey \<and> ti_ins_key inp ! e = k \<and> ti_del_key inp ! e = kNoKey
       | Delete k \<Rightarrow> k \<noteq> kNoKey \<and> ti_ins_key inp ! e = kNoKey \<and> ti_del_key inp ! e = k
       | Access k \<Rightarrow> ti_ins_key inp ! e = kNoKey \<and> ti_del_key inp ! e = kNoKey)"
    using assms unfolding codes_def by blast
  then show "EntryIsEvent inp e \<longleftrightarrow> is_event xs (key_of (xs ! e)) e"
    "EntryIsEvent inp e \<Longrightarrow> k_gather_events inp e = (key_of (xs ! e), op_type (xs ! e))" "ti_pos inp ! e = of_nat e"
    by (cases "xs ! e"; simp add: EntryIsEvent_def is_event_def k_gather_events_def op_type_def)+
qed

lemma ev_entry_events: "codes xs inp \<Longrightarrow> filter (EntryIsEvent inp) [0..<length (ti_ins_key inp)] = events xs"
  unfolding events_def by (auto simp: codes_def codes_entry(1) intro!: filter_cong)

lemma events_props: "distinct (events xs)" "sorted_wrt (<) (events xs)"
  "e \<in> set (events xs) \<longleftrightarrow> e < length xs \<and> is_event xs (key_of (xs ! e)) e"
  by (auto simp: events_def sorted_wrt_filter)

text \<open>What each position of the sorted arrays holds.\<close>

definition event_ok :: "index_op list \<Rightarrow> (u32 \<rightharpoonup> u32) \<Rightarrow> sorted_event \<Rightarrow> bool" where
  "event_ok xs m s \<longleftrightarrow>
     sv_orig s < length (events xs) \<and> events xs ! sv_orig s = sv_entry s \<and>
     sv_packed s = packEvent (ucast (key_of (xs ! sv_entry s))) (of_nat (sv_entry s)) \<and>
     sv_type s = op_type (xs ! sv_entry s) \<and> sv_c0 s = rid_word (m (key_of (xs ! sv_entry s)))"

lemma insort_key_map: "insort_key f (g x) (map g xs) = map g (insort_key (\<lambda>a. f (g a)) x xs)"
  by (induction xs) simp_all

lemma sort_key_map: "sort_key f (map g xs) = map g (sort_key (\<lambda>a. f (g a)) xs)"
  by (induction xs) (simp_all add: insort_key_map)

lemma sort_events_eq:
  "sort_events inp lookup ev =
     map (\<lambda>i. k_permute_events inp lookup ev (k_pack_events inp (ev ! i), i)) (sort_key (\<lambda>i. k_pack_events inp (ev ! i)) [0..<length ev])"
proof -
  have z: "zip (map (k_pack_events inp) ev) [0..<length ev] = map (\<lambda>i. (k_pack_events inp (ev ! i), i)) [0..<length ev]"
    by (rule nth_equalityI) simp_all
  show ?thesis unfolding sort_events_def z sort_key_map by (simp add: comp_def)
qed

lemma pack_event:
  assumes "codes xs inp" and "e \<in> set (events xs)"
  shows "k_gather_events inp e = (key_of (xs ! e), op_type (xs ! e))"
    and "k_pack_events inp e = packEvent (ucast (key_of (xs ! e))) (of_nat e)"
  using assms codes_entry [of xs inp e] by (simp_all add: events_props k_pack_events_def)

lemma sorted_events_ok:
  assumes "timeline_ok b xs inp m lookup"
  shows "\<forall>s \<in> set (sort_events inp lookup (events xs)). event_ok xs m s"
    and "sorted (map sv_packed (sort_events inp lookup (events xs)))"
    and "length (sort_events inp lookup (events xs)) = length (events xs)"
  using assms
  by (auto simp: sort_events_eq k_permute_events_def Let_def event_ok_def timeline_ok_def pack_event comp_def)

text \<open>The sorted events of a key are its events in slot order.\<close>

abbreviation key_run :: "u32 \<Rightarrow> sorted_event list \<Rightarrow> sorted_event list" where
  "key_run k srt \<equiv> filter (\<lambda>s. eventKey (sv_packed s) = ucast k) srt"

lemma key_run_entries:
  assumes "timeline_ok b xs inp m lookup"
  shows "map sv_entry (key_run k (sort_events inp lookup (events xs))) = key_events xs k"
proof -
  let ?ev = "events xs" and ?p = "\<lambda>i. k_pack_events inp (events xs ! i)"
  have c: "codes xs inp" and n: "length xs < 2 ^ 32" using assms by (auto simp: timeline_ok_def)
  have key: "eventKey (?p i) = ucast k \<longleftrightarrow> key_of (xs ! (?ev ! i)) = k" if "i < length ?ev" for i
    using pack_event [OF c nth_mem [OF that]] by (simp add: eventKey_pack ucast_u64_inj)
  let ?is = "filter (\<lambda>i. key_of (xs ! (?ev ! i)) = k) [0..<length ?ev]"
  have "map sv_entry (key_run k (sort_events inp lookup ?ev)) =
      map ((!) ?ev) (filter (\<lambda>i. eventKey (?p i) = ucast k) (sort_key ?p [0..<length ?ev]))"
    by (simp add: sort_events_eq filter_map comp_def k_permute_events_def Let_def)
  also have "filter (\<lambda>i. eventKey (?p i) = ucast k) (sort_key ?p [0..<length ?ev]) = sort_key ?p ?is"
    unfolding filter_sort by (rule arg_cong [where f = "sort_key ?p"], rule filter_cong) (auto simp: key)
  also have "sort_key ?p ?is = ?is"
  proof (rule sort_key_id_if_sorted)
    have mono: "?p i \<le> ?p j" if i: "i \<in> set ?is" and j: "j \<in> set ?is" and ij: "i < j" for i j
    proof -
      have e: "?ev ! i < ?ev ! j" "?ev ! j < length xs"
        using i j ij sorted_wrt_nth_less [OF events_props(2)] events_props(3) [of "?ev ! j" xs] by auto
      then have "packEvent (ucast k) (of_nat (?ev ! i)) < packEvent (ucast k) (of_nat (?ev ! j))"
        using n by (intro pack_less) (simp add: unat_of_nat_u32)
      then show ?thesis using i j pack_event(2) [OF c] nth_mem by auto
    qed
    have lt: "sorted_wrt (<) ?is" by (intro sorted_wrt_filter) simp
    show "sorted (map ?p ?is)" unfolding sorted_map by (rule sorted_wrt_mono_rel [OF _ lt]) (rule mono)
  qed
  also have "map ((!) ?ev) ?is = filter (\<lambda>e. key_of (xs ! e) = k) ?ev"
    using filter_map [of "\<lambda>e. key_of (xs ! e) = k" "(!) ?ev" "[0..<length ?ev]"] by (simp add: comp_def map_nth)
  also have "\<dots> = key_events xs k"
    unfolding events_def key_events_def filter_filter by (rule filter_cong) (auto simp: is_event_def)
  finally show ?thesis .
qed

subsection \<open>Runs of a key\<close>

lemma sorted_run_prefix:
  fixes f :: "'a \<Rightarrow> 'k::linorder"
  assumes "sorted (map f (x # xs))"
  shows "takeWhile (\<lambda>y. f y = f x) (x # xs) = filter (\<lambda>y. f y = f x) (x # xs)"
proof -
  have "takeWhile (\<lambda>y. f y = f x) ys = filter (\<lambda>y. f y = f x) ys" if "sorted (map f (x # ys))" for ys
    using that
  proof (induction ys)
    case (Cons y ys)
    show ?case
    proof (cases "f y = f x")
      case True
      then show ?thesis using Cons by simp
    next
      case False
      then have "f z \<noteq> f x" if "z \<in> set ys" for z using Cons.prems that by force
      then show ?thesis using False by (simp add: filter_empty_conv)
    qed
  qed simp
  then show ?thesis using assms by simp
qed

lemma head_run:
  fixes f :: "'a \<Rightarrow> 'k::linorder"
  assumes "sorted (map f xs)" and i: "i < length xs" and head: "i = 0 \<or> f (xs ! (i - 1)) \<noteq> f (xs ! i)"
  shows "takeWhile (\<lambda>y. f y = f (xs ! i)) (drop i xs) = filter (\<lambda>y. f y = f (xs ! i)) xs"
proof -
  have d: "drop i xs = xs ! i # drop (Suc i) xs" using i by (simp add: Cons_nth_drop_Suc)
  have "sorted (map f (drop i xs))" using assms(1) by (simp add: drop_map [symmetric] sorted_wrt_drop)
  then have 1: "takeWhile (\<lambda>y. f y = f (xs ! i)) (drop i xs) = filter (\<lambda>y. f y = f (xs ! i)) (drop i xs)"
    unfolding d by (rule sorted_run_prefix)
  have "f (xs ! j) \<noteq> f (xs ! i)" if "j < i" for j
  proof -
    have "f (xs ! j) \<le> f (xs ! (i - 1))" "f (xs ! (i - 1)) \<le> f (xs ! i)"
      using sorted_nth_mono [OF assms(1), of j "i - 1"] sorted_nth_mono [OF assms(1), of "i - 1" i] that i by auto
    then show ?thesis using head that by auto
  qed
  then have "filter (\<lambda>y. f y = f (xs ! i)) (take i xs) = []" using i by (auto simp: filter_empty_conv in_set_conv_nth)
  then have "filter (\<lambda>y. f y = f (xs ! i)) xs = filter (\<lambda>y. f y = f (xs ! i)) (drop i xs)"
    by (metis append_Nil append_take_drop_id filter_append)
  then show ?thesis using 1 by simp
qed

lemma head_exists:
  assumes "\<exists>x \<in> set xs. f x = k"
  shows "\<exists>i < length xs. f (xs ! i) = k \<and> (i = 0 \<or> f (xs ! (i - 1)) \<noteq> k)"
  using assms
proof (induction xs rule: rev_induct)
  case (snoc x xs)
  show ?case
  proof (cases "\<exists>x \<in> set xs. f x = k")
    case True
    then obtain i where "i < length xs" "f (xs ! i) = k" "i = 0 \<or> f (xs ! (i - 1)) \<noteq> k" using snoc.IH by blast
    then show ?thesis by (intro exI [of _ i]) (auto simp: nth_append)
  next
    case False
    then show ?thesis
      using snoc.prems by (intro exI [of _ "length xs"]) (cases "xs = []"; auto simp: nth_append)
  qed
qed simp

text \<open>The loops stop at the end of the run.\<close>

lemma loops_run:
  "walk K lv ss = walk K lv (takeWhile (\<lambda>s. eventKey (sv_packed s) = K) ss)"
  "assign_loop K st ss a = assign_loop K st (takeWhile (\<lambda>s. eventKey (sv_packed s) = K) ss) a"
  "resolve_loop K p e ec st ss = resolve_loop K p e ec st (takeWhile (\<lambda>s. eventKey (sv_packed s) = K) ss)"
proof -
  show "walk K lv ss = walk K lv (takeWhile (\<lambda>s. eventKey (sv_packed s) = K) ss)"
    by (induction ss arbitrary: lv) simp_all
  show "assign_loop K st ss a = assign_loop K st (takeWhile (\<lambda>s. eventKey (sv_packed s) = K) ss) a"
    by (induction ss arbitrary: st a) simp_all
  show "resolve_loop K p e ec st ss = resolve_loop K p e ec st (takeWhile (\<lambda>s. eventKey (sv_packed s) = K) ss)"
    by (induction ss arbitrary: st) (simp_all add: Let_def)
qed

lemma eventKey_mono: "v \<le> w \<Longrightarrow> eventKey v \<le> eventKey w"
  by (simp add: eventKey_def word_le_nat_alt drop_bit_eq_div unat_div div_le_mono)

lemma sorted_by_key: "sorted (map sv_packed srt) \<Longrightarrow> sorted (map (\<lambda>s. eventKey (sv_packed s)) srt)"
  by (induction srt) (auto intro: eventKey_mono)

lemma event_key: "event_ok xs m s \<Longrightarrow> eventKey (sv_packed s) = ucast (key_of (xs ! sv_entry s))"
  by (simp add: event_ok_def eventKey_pack)

lemma run_at_head:
  assumes ok: "timeline_ok b xs inp m lookup" and srt: "srt = sort_events inp lookup (events xs)"
    and i: "i < length srt" and head: "key_head srt i" and k: "k = key_of (xs ! sv_entry (srt ! i))"
  shows "takeWhile (\<lambda>s. eventKey (sv_packed s) = eventKey (sv_packed (srt ! i))) (drop i srt) = key_run k srt"
    and "eventKey (sv_packed (srt ! i)) = ucast k" and "sv_c0 (srt ! i) = rid_word (m k)"
proof -
  have e: "event_ok xs m (srt ! i)" using sorted_events_ok(1) [OF ok] i srt by (metis nth_mem)
  then show key: "eventKey (sv_packed (srt ! i)) = ucast k" by (simp add: event_key k)
  show "sv_c0 (srt ! i) = rid_word (m k)" using e by (simp add: event_ok_def k)
  have "sorted (map (\<lambda>s. eventKey (sv_packed s)) srt)" using sorted_by_key sorted_events_ok(2) [OF ok] srt by blast
  from head_run [OF this i] head
  show "takeWhile (\<lambda>s. eventKey (sv_packed s) = eventKey (sv_packed (srt ! i))) (drop i srt) = key_run k srt"
    unfolding key key_head_def by auto
qed

text \<open>Every event lies in the run of a thread that walks.\<close>

lemma event_has_head:
  assumes ok: "timeline_ok b xs inp m lookup" and srt: "srt = sort_events inp lookup (events xs)" and s: "s \<in> set srt"
    and k: "k = key_of (xs ! sv_entry s)"
  shows "\<exists>i < length srt. key_head srt i \<and> key_of (xs ! sv_entry (srt ! i)) = k"
proof -
  have key: "eventKey (sv_packed s') = ucast k \<longleftrightarrow> key_of (xs ! sv_entry s') = k" if "s' \<in> set srt" for s'
  proof -
    have "event_ok xs m s'" using sorted_events_ok(1) [OF ok] that srt by blast
    then show ?thesis by (simp add: event_key ucast_u64_inj)
  qed
  have "\<exists>x \<in> set srt. eventKey (sv_packed x) = ucast k" using s key k by blast
  then obtain i where "i < length srt" "eventKey (sv_packed (srt ! i)) = ucast k"
    "i = 0 \<or> eventKey (sv_packed (srt ! (i - 1))) \<noteq> ucast k" using head_exists [of srt "\<lambda>s. eventKey (sv_packed s)"] by blast
  then show ?thesis using key [of "srt ! i"] by (auto simp: key_head_def)
qed

subsection \<open>The first walk\<close>

lemma walk_follows:
  assumes "\<forall>s \<in> set ss. event_ok xs m s \<and> eventKey (sv_packed s) = K"
    and "follows b xs m k n c (map sv_entry ss)" and "n \<le> length xs"
  shows "walk K (c \<noteq> None) ss =
     (map sv_orig (filter (\<lambda>s. creates b xs m (sv_entry s)) ss), map sv_orig (filter (\<lambda>s. ends b xs m (sv_entry s)) ss))"
  using assms
proof (induction ss arbitrary: c)
  case (Cons s ss)
  let ?e = "sv_entry s"
  have e: "?e < length xs" "is_event xs k ?e" "live (at_slot b xs m ?e) k = c"
    "follows b xs m k n (live (at_slot b xs m (Suc ?e)) k) (map sv_entry ss)" using Cons.prems(2) by simp_all
  have s: "eventKey (sv_packed s) = K" using Cons.prems(1) by simp
  have ty: "sv_type s = op_type (xs ! ?e)" using Cons.prems(1) by (simp add: event_ok_def)
  note IH = Cons.IH [OF _ e(4) Cons.prems(3)]
  show ?case
  proof (cases "xs ! ?e = Delete k")
    case True
    then have "live (at_slot b xs m (Suc ?e)) k = None" by (simp add: live_event [OF e(1)])
    then show ?thesis using IH Cons.prems(1) s ty True e(3) by (auto simp: op_type_def creates_def ends_def)
  next
    case False
    then have i: "xs ! ?e = Insert k" using e(2) by (simp add: is_event_def)
    then have "live (at_slot b xs m (Suc ?e)) k \<noteq> None" by (simp add: live_event [OF e(1)])
    then show ?thesis using IH Cons.prems(1) s ty i e(3) by (auto simp: op_type_def creates_def ends_def)
  qed
qed simp

lemma k_walk_at_head:
  assumes ok: "timeline_ok b xs inp m lookup" and srt: "srt = sort_events inp lookup (events xs)"
    and i: "i < length srt" and head: "key_head srt i" and k: "k = key_of (xs ! sv_entry (srt ! i))"
  shows "k_walk srt i = (map sv_orig (filter (\<lambda>s. creates b xs m (sv_entry s)) (key_run k srt)),
                         map sv_orig (filter (\<lambda>s. ends b xs m (sv_entry s)) (key_run k srt)))"
proof -
  note run = run_at_head [OF ok srt i head k]
  have "kAbsent \<notin> ran m" using ok by (auto simp: timeline_ok_def ids_ok_def)
  then have c0: "(rid_word (m k) \<noteq> kAbsent) = (m k \<noteq> None)" by (auto simp: rid_word_def ran_def split: option.splits)
  have "k_walk srt i = walk (ucast k) (m k \<noteq> None) (key_run k srt)"
    using loops_run(1) [of "ucast k" "m k \<noteq> None" "drop i srt"] run(1) unfolding k_walk_def run(2,3) c0 by (simp add: head)
  also have "\<dots> = (map sv_orig (filter (\<lambda>s. creates b xs m (sv_entry s)) (key_run k srt)),
      map sv_orig (filter (\<lambda>s. ends b xs m (sv_entry s)) (key_run k srt)))"
    by (rule walk_follows [where k = k and n = "length xs"])
      (use sorted_events_ok(1) [OF ok] srt follows_key_events key_run_entries [OF ok] in auto)
  finally show ?thesis .
qed

lemma orig_ex:
  assumes "i < length (events xs)"
  shows "\<exists>s \<in> set (sort_events inp lookup (events xs)). sv_orig s = i"
  using assms by (auto simp: sort_events_eq k_permute_events_def Let_def)

lemma walk_marks:
  assumes ok: "timeline_ok b xs inp m lookup" and srt: "srt = sort_events inp lookup (events xs)"
    and ord: "set ord = {0..<length srt}"
  shows "set (concat (map (fst \<circ> k_walk srt) ord)) = {i. i < length (events xs) \<and> creates b xs m (events xs ! i)}" (is ?life)
    and "set (concat (map (snd \<circ> k_walk srt) ord)) = {i. i < length (events xs) \<and> ends b xs m (events xs ! i)}" (is ?edel)
proof -
  have ev: "event_ok xs m s" if "s \<in> set srt" for s using sorted_events_ok(1) [OF ok] that srt by blast
  have sub: "i < length (events xs) \<and> P (events xs ! i)"
    if "i \<in> set (map sv_orig (filter (\<lambda>s. P (sv_entry s)) (key_run k srt)))" for i P k
    using that ev by (auto simp: event_ok_def)
  have sup: "\<exists>h \<in> set ord. key_head srt h \<and>
      i \<in> set (map sv_orig (filter (\<lambda>s. P (sv_entry s)) (key_run (key_of (xs ! sv_entry (srt ! h))) srt)))"
    if i: "i < length (events xs)" "P (events xs ! i)" for i P
  proof -
    obtain s where s: "s \<in> set srt" "sv_orig s = i" using orig_ex [OF i(1)] srt by blast
    obtain h where h: "h < length srt" "key_head srt h" "key_of (xs ! sv_entry (srt ! h)) = key_of (xs ! sv_entry s)"
      using event_has_head [OF ok srt s(1) refl] by blast
    have "s \<in> set (key_run (key_of (xs ! sv_entry (srt ! h))) srt)" using s(1) ev [OF s(1)] by (simp add: event_key h(3))
    moreover have "P (sv_entry s)" using ev [OF s(1)] i(2) s(2) by (simp add: event_ok_def)
    ultimately show ?thesis using h ord s(2) by force
  qed
  have walk: "k_walk srt h = (if key_head srt h then
      (map sv_orig (filter (\<lambda>s. creates b xs m (sv_entry s)) (key_run (key_of (xs ! sv_entry (srt ! h))) srt)),
       map sv_orig (filter (\<lambda>s. ends b xs m (sv_entry s)) (key_run (key_of (xs ! sv_entry (srt ! h))) srt))) else ([], []))"
    if "h \<in> set ord" for h
    using that ord k_walk_at_head [OF ok srt, of h] by (simp add: k_walk_def)
  have gen: "set (concat (map g ord)) = {i. i < length (events xs) \<and> P (events xs ! i)}"
    if g: "\<And>h. h \<in> set ord \<Longrightarrow> g h = (if key_head srt h then
        map sv_orig (filter (\<lambda>s. P (sv_entry s)) (key_run (key_of (xs ! sv_entry (srt ! h))) srt)) else [])" for g :: "nat \<Rightarrow> nat list" and P
  proof (rule set_eqI)
    fix i
    have "i \<in> set (concat (map g ord)) \<longleftrightarrow> (\<exists>h \<in> set ord. i \<in> set (g h))" by simp
    also have "\<dots> \<longleftrightarrow> (\<exists>h \<in> set ord. key_head srt h \<and>
        i \<in> set (map sv_orig (filter (\<lambda>s. P (sv_entry s)) (key_run (key_of (xs ! sv_entry (srt ! h))) srt))))"
      by (rule bex_cong [OF refl]) (simp add: g)
    also have "\<dots> \<longleftrightarrow> i < length (events xs) \<and> P (events xs ! i)" using sub [of i P] sup [of i P] by blast
    finally show "i \<in> set (concat (map g ord)) \<longleftrightarrow> i \<in> {i. i < length (events xs) \<and> P (events xs ! i)}" by simp
  qed
  show ?life by (rule gen) (simp add: walk)
  show ?edel by (rule gen) (simp add: walk)
qed

lemma length_set_flags [simp]: "length (set_flags n is) = n"
proof -
  have "length (fold (\<lambda>i f. f[i := True]) is fs) = length fs" for fs by (induction "is" arbitrary: fs) simp_all
  then show ?thesis by (simp add: set_flags_def)
qed

lemma nth_set_flags: "i < n \<Longrightarrow> set_flags n is ! i \<longleftrightarrow> i \<in> set is"
proof -
  have "i < length fs \<Longrightarrow> fold (\<lambda>i f. f[i := True]) is fs ! i \<longleftrightarrow> fs ! i \<or> i \<in> set is" for fs
  proof (induction "is" arbitrary: fs)
    case (Cons a js)
    then show ?case by (cases "a = i") simp_all
  qed simp
  from this [of "replicate n False"] show "i < n \<Longrightarrow> set_flags n is ! i \<longleftrightarrow> i \<in> set is" by (simp add: set_flags_def)
qed

lemma select_flags:
  assumes "length fs = length ys" and "\<And>i. i < length ys \<Longrightarrow> fs ! i \<longleftrightarrow> P (ys ! i)"
  shows "select_flagged (map f ys) fs = map f (filter P ys)"
proof -
  have "fs = map P ys" using assms by (intro nth_equalityI) simp_all
  moreover have "select_flagged (map f ys) (map P ys) = map f (filter P ys)"
    by (induction ys) (auto simp: select_flagged_def)
  ultimately show ?thesis by simp
qed

lemma filter_events:
  "filter (creates b xs m) (events xs) = filter (creates b xs m) [0..<length xs]"
  "filter (ends b xs m) (events xs) = filter (ends b xs m) [0..<length xs]"
  unfolding events_def filter_filter by (auto simp: creates_def ends_def is_event_def intro!: filter_cong)

subsection \<open>Fresh ids\<close>

lemma scatter_minted_at:
  assumes "distinct es" and "j < length es" and "\<forall>e \<in> set es. e < length a"
  shows "k_scatter_minted es b a ! (es ! j) = b + of_nat j"
proof -
  have "fold (\<lambda>(j, e) a. a[e := b + of_nat j]) (enumerate i es) a ! (es ! j) = b + of_nat (i + j)" for i
    using assms
  proof (induction es arbitrary: i j a)
    case (Cons e es)
    show ?case
    proof (cases j)
      case 0
      have "e \<notin> set es" using Cons.prems by simp
      then have "fold (\<lambda>(j, e) a. a[e := b + of_nat j]) (enumerate (Suc i) es) c ! e = c ! e" for c i
        by (induction es arbitrary: c i) auto
      then show ?thesis using 0 Cons.prems by simp
    next
      case (Suc j')
      then show ?thesis using Cons.IH [of j' "a[e := b + of_nat i]" "Suc i"] Cons.prems by simp
    qed
  qed simp
  from this [of 0] show ?thesis by (simp add: k_scatter_minted_def)
qed

lemma length_scatter_minted [simp]: "length (k_scatter_minted es b a) = length a"
proof -
  have "length (fold (\<lambda>(j, e) a. a[e := b + of_nat j]) (enumerate i es) a) = length a" for i
    by (induction es arbitrary: i a) auto
  then show ?thesis by (simp add: k_scatter_minted_def)
qed

lemma filter_index:
  assumes "e < n" and "P e"
  shows "filter P [0..<n] ! length (filter P [0..<e]) = e" and "length (filter P [0..<e]) < length (filter P [0..<n])"
proof -
  have "[0..<n] = [0..<e] @ e # [Suc e..<n]" using assms(1) by (metis upt_add_eq_append upt_conv_Cons le0 less_imp_add_positive less_imp_le_nat add_0)
  then have "filter P [0..<n] = filter P [0..<e] @ e # filter P [Suc e..<n]" using assms(2) by simp
  then show "filter P [0..<n] ! length (filter P [0..<e]) = e" "length (filter P [0..<e]) < length (filter P [0..<n])" by simp_all
qed

text \<open>The ids of the created records, as the resolution and the second walk read them.\<close>

definition ids_at :: "u32 \<Rightarrow> index_op list \<Rightarrow> (u32 \<rightharpoonup> u32) \<Rightarrow> u32 list \<Rightarrow> bool" where
  "ids_at b xs m a \<longleftrightarrow> length xs \<le> length a \<and> (\<forall>e < length xs. creates b xs m e \<longrightarrow> a ! e = slot_crid b xs m e)"

lemma scatter_minted_ids:
  assumes "length xs \<le> length a"
  shows "ids_at b xs m (k_scatter_minted (filter (creates b xs m) [0..<length xs]) b a)"
proof -
  let ?es = "filter (creates b xs m) [0..<length xs]"
  have "k_scatter_minted ?es b a ! e = slot_crid b xs m e" if e: "e < length xs" "creates b xs m e" for e
    using scatter_minted_at [of ?es "length (filter (creates b xs m) [0..<e])" a b] filter_index [of e "length xs" "creates b xs m"] e assms
    by (auto simp: slot_crid_def)
  then show ?thesis using assms by (simp add: ids_at_def)
qed

subsection \<open>The second walk\<close>

definition ended_at :: "u32 \<Rightarrow> index_op list \<Rightarrow> (u32 \<rightharpoonup> u32) \<Rightarrow> nat \<Rightarrow> u32" where
  "ended_at b xs m e = rid_word (live (at_slot b xs m e) (key_of (xs ! e)))"

definition store_ended :: "u32 \<Rightarrow> index_op list \<Rightarrow> (u32 \<rightharpoonup> u32) \<Rightarrow> nat list \<Rightarrow> u32 list \<Rightarrow> u32 list" where
  "store_ended b xs m es a = fold (\<lambda>e a. a[e := ended_at b xs m e]) (filter (ends b xs m) es) a"

lemma ids_at_store:
  assumes a: "ids_at b xs m a" and e: "ends b xs m e"
  shows "ids_at b xs m (a[e := v])"
proof -
  have "a[e := v] ! e' = slot_crid b xs m e'" if e': "e' < length xs" "creates b xs m e'" for e'
  proof -
    have "e \<noteq> e'" using e' e by (auto simp: creates_def ends_def)
    then show ?thesis using a e' by (simp add: ids_at_def)
  qed
  then show ?thesis using a by (simp add: ids_at_def)
qed

lemma assign_follows:
  assumes "\<forall>s \<in> set ss. event_ok xs m s \<and> eventKey (sv_packed s) = K"
    and "follows b xs m k n c (map sv_entry ss)" and "n \<le> length xs" and ids: "ids_ok b xs m" and "ids_at b xs m a"
  shows "assign_loop K (rid_word c) ss a = (store_ended b xs m (map sv_entry ss) a, rid_word (live (at_slot b xs m n) k))"
  using assms(1,2,3,5)
proof (induction ss arbitrary: c a)
  case (Cons s ss)
  let ?e = "sv_entry s"
  have e: "?e < length xs" "is_event xs k ?e" "live (at_slot b xs m ?e) k = c"
    "follows b xs m k n (live (at_slot b xs m (Suc ?e)) k) (map sv_entry ss)" using Cons.prems(2) by simp_all
  have s: "eventKey (sv_packed s) = K" using Cons.prems(1) by simp
  have ty: "sv_type s = op_type (xs ! ?e)" using Cons.prems(1) by (simp add: event_ok_def)
  have c: "rid_word c = kAbsent \<longleftrightarrow> c = None" using rid_word_absent [OF ids, of ?e k] e by simp
  have IH: "assign_loop K (rid_word (live (at_slot b xs m (Suc ?e)) k)) ss a' =
      (store_ended b xs m (map sv_entry ss) a', rid_word (live (at_slot b xs m n) k))" if "ids_at b xs m a'" for a'
    using Cons.IH [OF _ e(4) Cons.prems(3) that] Cons.prems(1) by simp
  show ?case
  proof (cases "xs ! ?e = Delete k")
    case True
    then have nx: "rid_word (live (at_slot b xs m (Suc ?e)) k) = kAbsent" by (simp add: live_event [OF e(1)] rid_word_def)
    have en: "ends b xs m ?e \<longleftrightarrow> c \<noteq> None" using True e(3) by (simp add: ends_def)
    have "ended_at b xs m ?e = rid_word c" using True e(3) by (simp add: ended_at_def)
    then show ?thesis
      using IH [of a] IH [OF ids_at_store [OF Cons.prems(4)]] True en c Cons.prems(4) s ty
      by (auto simp: nx op_type_def store_ended_def)
  next
    case False
    then have i: "xs ! ?e = Insert k" using e(2) by (simp add: is_event_def)
    then have nx: "rid_word (live (at_slot b xs m (Suc ?e)) k) = (if c = None then a ! ?e else rid_word c)"
      using Cons.prems(4) e by (auto simp: live_event [OF e(1)] rid_word_def ids_at_def creates_def)
    have "\<not> ends b xs m ?e" using i by (simp add: ends_def)
    then show ?thesis using IH [OF Cons.prems(4)] s ty i by (simp add: nx c op_type_def store_ended_def)
  qed
qed (simp add: store_ended_def)

lemma length_store_ended [simp]: "length (store_ended b xs m es a) = length a"
proof -
  have "length (fold (\<lambda>e a. a[e := v e]) es a) = length a" for es and v :: "nat \<Rightarrow> u32" by (induction es arbitrary: a) simp_all
  then show ?thesis by (simp add: store_ended_def)
qed

lemma ids_at_store_ended: "ids_at b xs m a \<Longrightarrow> ids_at b xs m (store_ended b xs m es a)"
  unfolding store_ended_def by (induction es arbitrary: a) (simp_all add: ids_at_store)

lemma nth_store_ended:
  "e < length a \<Longrightarrow> store_ended b xs m es a ! e = (if e \<in> set es \<and> ends b xs m e then ended_at b xs m e else a ! e)"
  unfolding store_ended_def
proof (induction es arbitrary: a)
  case (Cons e' es)
  then show ?case by (cases "e' = e") simp_all
qed simp

text \<open>The final record of the key that thread \<open>i\<close> walks.\<close>

definition final_of :: "u32 \<Rightarrow> index_op list \<Rightarrow> (u32 \<rightharpoonup> u32) \<Rightarrow> u32 \<Rightarrow> key_final" where
  "final_of b xs m k =
     (let start = rid_word (m k); state = rid_word (live (at_slot b xs m (length xs)) k)
      in \<lparr>fin_key = ucast k, fin_crid = state, fin_erase = (start \<noteq> kAbsent \<and> state \<noteq> start),
          fin_insert = (state \<noteq> kAbsent \<and> state \<noteq> start)\<rparr>)"

definition fin_ok :: "u32 \<Rightarrow> index_op list \<Rightarrow> (u32 \<rightharpoonup> u32) \<Rightarrow> sorted_event list \<Rightarrow> nat \<Rightarrow> key_final \<Rightarrow> bool" where
  "fin_ok b xs m srt i f \<longleftrightarrow>
     (if key_head srt i then f = final_of b xs m (key_of (xs ! sv_entry (srt ! i))) else \<not> fin_erase f \<and> \<not> fin_insert f)"

lemma k_assign_at:
  assumes ok: "timeline_ok b xs inp m lookup" and srt: "srt = sort_events inp lookup (events xs)"
    and i: "i < length srt" and a: "ids_at b xs m a"
  shows "\<exists>f. fin_ok b xs m srt i f \<and>
     k_assign srt i (a, fin) = (if key_head srt i then store_ended b xs m (key_events xs (key_of (xs ! sv_entry (srt ! i)))) a else a, fin[i := f])"
proof (cases "key_head srt i")
  case True
  let ?k = "key_of (xs ! sv_entry (srt ! i))"
  note run = run_at_head [OF ok srt i True refl]
  have ids: "ids_ok b xs m" using ok by (simp add: timeline_ok_def)
  have "assign_loop (ucast ?k) (rid_word (m ?k)) (drop i srt) a = assign_loop (ucast ?k) (rid_word (m ?k)) (key_run ?k srt) a"
    using loops_run(2) [of "ucast ?k" "rid_word (m ?k)" "drop i srt" a] run(1) unfolding run(2) by simp
  also have "\<dots> = (store_ended b xs m (map sv_entry (key_run ?k srt)) a, rid_word (live (at_slot b xs m (length xs)) ?k))"
    by (rule assign_follows [OF _ _ le_refl ids a])
      (use sorted_events_ok(1) [OF ok] srt follows_key_events key_run_entries [OF ok] in auto)
  finally have "assign_loop (ucast ?k) (rid_word (m ?k)) (drop i srt) a =
      (store_ended b xs m (key_events xs ?k) a, rid_word (live (at_slot b xs m (length xs)) ?k))"
    by (simp add: srt key_run_entries [OF ok])
  then show ?thesis
    using True unfolding k_assign_def fin_ok_def run(2,3) by (simp add: final_of_def Let_def)
next
  case False
  then show ?thesis
    by (intro exI [of _ "(fin ! i)\<lparr>fin_erase := False, fin_insert := False\<rparr>"]) (simp add: k_assign_def fin_ok_def)
qed

lemma assign_all:
  assumes ok: "timeline_ok b xs inp m lookup" and srt: "srt = sort_events inp lookup (events xs)"
    and ord: "\<forall>i \<in> set ord. i < length srt" and a: "ids_at b xs m a" and fin: "length srt \<le> length fin"
    and r: "fold (k_assign srt) ord (a, fin) = (a', fin')"
  shows "ids_at b xs m a' \<and> length a' = length a \<and> length fin' = length fin \<and>
    (\<forall>e < length xs. ends b xs m e \<and> (a ! e = ended_at b xs m e \<or>
        (\<exists>i \<in> set ord. key_head srt i \<and> e \<in> set (key_events xs (key_of (xs ! sv_entry (srt ! i)))))) \<longrightarrow> a' ! e = ended_at b xs m e) \<and>
    (\<forall>i < length srt. i \<in> set ord \<or> fin_ok b xs m srt i (fin ! i) \<longrightarrow> fin_ok b xs m srt i (fin' ! i))"
  using ord a fin r
proof (induction ord arbitrary: a fin)
  case (Cons i ord)
  have i: "i < length srt" using Cons.prems(1) by simp
  let ?a = "if key_head srt i then store_ended b xs m (key_events xs (key_of (xs ! sv_entry (srt ! i)))) a else a"
  obtain f where f: "fin_ok b xs m srt i f" "k_assign srt i (a, fin) = (?a, fin[i := f])"
    using k_assign_at [OF ok srt i Cons.prems(2)] by blast
  have a1: "ids_at b xs m ?a" using Cons.prems(2) by (simp add: ids_at_store_ended)
  have r1: "fold (k_assign srt) ord (?a, fin[i := f]) = (a', fin')" using Cons.prems(4) f(2) by simp
  have len: "length xs \<le> length a" using Cons.prems(2) by (simp add: ids_at_def)
  have ord: "\<forall>i \<in> set ord. i < length srt" and fin: "length srt \<le> length (fin[i := f])" using Cons.prems(1,3) by simp_all
  note IH = Cons.IH [OF ord a1 fin r1]
  have la: "length a' = length a" using IH by simp
  have I: "ids_at b xs m a'" "length fin' = length fin"
    "\<And>e. e < length xs \<Longrightarrow> ends b xs m e \<Longrightarrow> ?a ! e = ended_at b xs m e \<or>
        (\<exists>i \<in> set ord. key_head srt i \<and> e \<in> set (key_events xs (key_of (xs ! sv_entry (srt ! i))))) \<Longrightarrow> a' ! e = ended_at b xs m e"
    "\<And>j. j < length srt \<Longrightarrow> j \<in> set ord \<or> fin_ok b xs m srt j (fin[i := f] ! j) \<Longrightarrow> fin_ok b xs m srt j (fin' ! j)"
    using IH unfolding length_list_update by blast+
  have "?a ! e = ended_at b xs m e"
    if "e < length xs" "ends b xs m e"
      "a ! e = ended_at b xs m e \<or> key_head srt i \<and> e \<in> set (key_events xs (key_of (xs ! sv_entry (srt ! i))))" for e
    using that len by (auto simp: nth_store_ended)
  moreover have "fin_ok b xs m srt j (fin[i := f] ! j)" if "j < length srt" "j = i \<or> fin_ok b xs m srt j (fin ! j)" for j
    using that f(1) Cons.prems(3) by (cases "i = j") auto
  ultimately show ?case using I la by (metis set_ConsD list.set_intros)
qed simp

subsection \<open>The whole build\<close>

lemma events_covered:
  assumes ok: "timeline_ok b xs inp m lookup" and srt: "srt = sort_events inp lookup (events xs)" and e: "e \<in> set (events xs)"
  shows "\<exists>i < length srt. key_head srt i \<and> key_of (xs ! sv_entry (srt ! i)) = key_of (xs ! e) \<and>
           e \<in> set (key_events xs (key_of (xs ! e)))"
proof -
  obtain j where j: "j < length (events xs)" "events xs ! j = e" using e by (metis in_set_conv_nth)
  obtain s where s: "s \<in> set srt" "sv_orig s = j" using orig_ex [OF j(1)] srt by blast
  have "sv_entry s = e" using sorted_events_ok(1) [OF ok] s srt j by (auto simp: event_ok_def)
  then show ?thesis using event_has_head [OF ok srt s(1) refl] e by (auto simp: key_events_def events_props)
qed

text \<open>What the buffers of a built timeline hold.\<close>

definition built :: "u32 \<Rightarrow> index_op list \<Rightarrow> timeline_input \<Rightarrow> (u32 \<rightharpoonup> u32) \<Rightarrow> (u32 \<Rightarrow> u32) \<Rightarrow> timeline \<Rightarrow> bool" where
  "built b xs inp m lookup t \<longleftrightarrow>
     tl_sorted t = sort_events inp lookup (events xs) \<and> ids_at b xs m (tl_entry_crid t) \<and>
     tl_minted_keys t = minted (at_slot b xs m (length xs)) \<and>
     zip (tl_edel_keys t) (tl_edel_crids t) = ended (at_slot b xs m (length xs)) \<and>
     length (tl_edel_keys t) = length (tl_edel_crids t) \<and>
     (\<exists>fins. tl_erase_keys t = map (ucast \<circ> fin_key) (filter fin_erase fins) \<and>
        tl_insert_keys t = map (ucast \<circ> fin_key) (filter fin_insert fins) \<and>
        tl_insert_crids t = map fin_crid (filter fin_insert fins) \<and> length fins = length (events xs) \<and>
        (\<forall>i < length fins. fin_ok b xs m (tl_sorted t) i (fins ! i)))"

lemma ended_at_crid:
  assumes "ids_ok b xs m" and "e < length xs" and "ends b xs m e"
  shows "the (live (at_slot b xs m e) (key_of (xs ! e))) = ended_at b xs m e"
  using assms by (auto simp: ended_at_def ends_def rid_word_def)

lemma build_spec:
  assumes ok: "timeline_ok b xs inp m lookup" and cap: "length xs \<le> e_max"
    and ord: "set ord1 = {0..<length (events xs)}" "set ord2 = {0..<length (events xs)}"
    and bufs: "length xs \<le> length (tl_entry_crid t)" "length xs \<le> length (tl_fin t)"
  shows "\<exists>t'. build ord1 ord2 e_max inp lookup b t = Inr t' \<and> built b xs inp m lookup t' \<and>
           length (tl_entry_crid t') = length (tl_entry_crid t) \<and> length (tl_fin t') = length (tl_fin t)"
proof -
  define srt where "srt = sort_events inp lookup (events xs)"
  let ?ev = "events xs" and ?n = "length (events xs)"
  let ?cr = "creates b xs m" and ?en = "ends b xs m" and ?last = "at_slot b xs m (length xs)"
  have c: "codes xs inp" and ids: "ids_ok b xs m" using ok by (auto simp: timeline_ok_def)
  have ls: "length srt = ?n" by (simp add: srt_def sorted_events_ok(3) [OF ok])
  have le: "?n \<le> length xs" using length_filter_le [of _ "[0..<length xs]"] by (simp add: events_def)
  define life where "life = set_flags ?n (concat (map (fst \<circ> k_walk srt) ord1))"
  define edel where "edel = set_flags ?n (concat (map (snd \<circ> k_walk srt) ord1))"
  note marks = walk_marks [OF ok srt_def, unfolded ls, OF ord(1)]
  have fl: "life ! i \<longleftrightarrow> ?cr (?ev ! i)" "edel ! i \<longleftrightarrow> ?en (?ev ! i)" if "i < ?n" for i
    using that marks by (simp_all add: life_def edel_def nth_set_flags)
  have ll: "length life = ?n" "length edel = ?n" by (simp_all add: life_def edel_def)
  have sel_cr: "select_flagged (map f ?ev) life = map f (filter ?cr ?ev)" for f :: "nat \<Rightarrow> 'a"
    by (rule select_flags) (simp_all add: ll fl)
  have sel_en: "select_flagged (map f ?ev) edel = map f (filter ?en ?ev)" for f :: "nat \<Rightarrow> u32"
    by (rule select_flags) (simp_all add: ll fl)
  have key: "map (fst \<circ> k_gather_events inp) ?ev = map (\<lambda>e. key_of (xs ! e)) ?ev" using pack_event(1) [OF c] by simp
  have keys: "select_flagged (map (fst \<circ> k_gather_events inp) ?ev) life = minted ?last"
    "select_flagged (map (fst \<circ> k_gather_events inp) ?ev) edel = map fst (ended ?last)"
    unfolding key by (simp_all add: select_flags ll fl filter_events minted_at_slot ended_at_slot comp_def)
  have ins: "select_flagged ?ev life = filter ?cr [0..<length xs]"
    using select_flags [of life ?ev ?cr id] by (simp add: ll fl filter_events)
  define a1 where "a1 = k_scatter_minted (filter ?cr [0..<length xs]) b (tl_entry_crid t)"
  have a1: "ids_at b xs m a1" unfolding a1_def by (rule scatter_minted_ids [OF bufs(1)])
  obtain a' fin' where r: "fold (k_assign srt) ord2 (a1, tl_fin t) = (a', fin')" by (metis surj_pair)
  have ord2: "\<forall>i \<in> set ord2. i < length srt" using ord(2) ls by simp
  have len: "length srt \<le> length (tl_fin t)" using ls le bufs(2) by simp
  note all = assign_all [OF ok srt_def ord2 a1 len r]
  then have la: "length a' = length (tl_entry_crid t)" by (simp add: a1_def)
  have crids: "select_flagged (map ((!) a') ?ev) edel = map snd (ended ?last)"
  proof -
    have "a' ! e = ended_at b xs m e" if "e < length xs" "?en e" for e
    proof -
      have "e \<in> set ?ev" using that by (auto simp: events_props ends_def is_event_def)
      from events_covered [OF ok srt_def this] that show ?thesis using all ord(2) ls by (metis atLeastLessThan_iff le0)
    qed
    then show ?thesis
      unfolding sel_en filter_events using ended_at_crid [OF ids] by (auto simp: ended_at_slot intro!: map_cong)
  qed
  show ?thesis
  proof (cases "?n = 0")
    case True
    then have "\<not> ?cr e" "\<not> ?en e" if "e < length xs" for e
      using that events_props(3) [of e xs] by (auto simp: creates_def ends_def is_event_def)
    then have "minted ?last = []" "ended ?last = []" "ids_at b xs m (tl_entry_crid t)"
      using bufs by (auto simp: minted_at_slot ended_at_slot ids_at_def filter_empty_conv)
    then show ?thesis
      using True by (simp add: build_def ev_entry_events [OF c] built_def sort_events_def Let_def)
  next
    case False
    have "fin_ok b xs m srt i (take ?n fin' ! i)" if "i < ?n" for i using all that ord(2) ls by simp
    moreover have "?n \<le> length fin'" using all len ls by simp
    moreover have "\<not> e_max < ?n" using cap le by simp
    ultimately show ?thesis
      using False all la keys crids
      by (auto simp: build_def ev_entry_events [OF c] Let_def built_def ins r zip_map_fst_snd simp flip: srt_def life_def edel_def a1_def
          intro!: exI [of _ "take ?n fin'"])
  qed
qed

subsection \<open>Resolution\<close>

lemma lower_search_spec:
  assumes "sorted (map sv_packed srt)" and "lo \<le> hi" and "hi \<le> length srt"
    and "\<And>i. i < lo \<Longrightarrow> sv_packed (srt ! i) < probe" and "\<And>i. hi \<le> i \<Longrightarrow> i < length srt \<Longrightarrow> probe \<le> sv_packed (srt ! i)"
  shows "lower_search srt probe lo hi \<le> length srt \<and> (\<forall>i < lower_search srt probe lo hi. sv_packed (srt ! i) < probe) \<and>
    (\<forall>i. lower_search srt probe lo hi \<le> i \<and> i < length srt \<longrightarrow> probe \<le> sv_packed (srt ! i))"
  using assms
proof (induction srt probe lo hi rule: lower_search.induct)
  case (1 srt probe lo hi)
  define mid where "mid = lo + (hi - lo) div 2"
  have mono: "sv_packed (srt ! i) \<le> sv_packed (srt ! j)" if "i \<le> j" "j < length srt" for i j
    using sorted_nth_mono [OF 1(3), of i j] that by simp
  show ?case
  proof (cases "lo < hi")
    case False
    then have "lower_search srt probe lo hi = lo" by (subst lower_search.simps) simp
    then show ?thesis using 1(4-7) False by simp
  next
    case True
    then have mid: "lo \<le> mid" "mid < hi" "mid < length srt" using 1(5) by (simp_all add: mid_def)
    show ?thesis
    proof (cases "sv_packed (srt ! mid) < probe")
      case True
      have below: "sv_packed (srt ! i) < probe" if "i < mid + 1" for i using mono [of i mid] mid that True by (simp add: order.strict_trans1)
      have eq: "lower_search srt probe lo hi = lower_search srt probe (mid + 1) hi"
        by (subst lower_search.simps) (simp only: \<open>lo < hi\<close> True mid_def [symmetric] if_True Let_def)
      show ?thesis unfolding eq
        by (rule 1(1) [OF \<open>lo < hi\<close> mid_def True 1(3)]) (use mid 1(5,7) below in auto)
    next
      case False
      have above: "probe \<le> sv_packed (srt ! i)" if "mid \<le> i" "i < length srt" for i using mono [of mid i] that False by simp
      have eq: "lower_search srt probe lo hi = lower_search srt probe lo mid"
        by (subst lower_search.simps) (simp only: \<open>lo < hi\<close> False mid_def [symmetric] if_True if_False Let_def)
      show ?thesis unfolding eq
        by (rule 1(2) [OF \<open>lo < hi\<close> mid_def False 1(3)]) (use mid 1(6) above in auto)
    qed
  qed
qed

lemma resolve_follows:
  assumes "\<forall>s \<in> set ss. event_ok xs m s \<and> eventKey (sv_packed s) = ucast k"
    and "follows b xs m k e0 c (takeWhile (\<lambda>e. e < e0) (map sv_entry ss))"
    and n: "e0 \<le> length xs" "length xs < 2 ^ 32" and ids: "ids_ok b xs m" "ids_at b xs m a"
    and "\<forall>s \<in> set ss. sv_entry s < length xs"
  shows "resolve_loop (ucast k) (of_nat e0) e0 a (rid_word c) ss = rid_word (live (at_slot b xs m e0) k)"
  using assms(1,2,7)
proof (induction ss arbitrary: c)
  case (Cons s ss)
  let ?e = "sv_entry s"
  have s: "eventKey (sv_packed s) = ucast k" "event_ok xs m s" "?e < length xs" using Cons.prems by auto
  have p: "eventPos (sv_packed s) = of_nat ?e" using s(2) by (simp add: event_ok_def eventPos_pack)
  have brk: "of_nat ?e > (of_nat e0 :: u32) \<or> (of_nat ?e :: u32) = of_nat e0 \<and> e0 \<le> ?e \<longleftrightarrow> e0 \<le> ?e"
    using n s(3) by (auto simp: word_less_nat_alt unat_of_nat_u32 of_nat_u32_inj)
  have step: "resolve_loop (ucast k) (of_nat e0) e0 a (rid_word c) (s # ss) =
      (if e0 \<le> ?e then rid_word c
       else resolve_loop (ucast k) (of_nat e0) e0 a
              (if sv_type s = kEvDelete then kAbsent else if rid_word c = kAbsent then a ! ?e else rid_word c) ss)"
    by (simp only: resolve_loop.simps s(1) p brk Let_def simp_thms if_False)
  show ?case
  proof (cases "e0 \<le> ?e")
    case True
    then show ?thesis using Cons.prems(2) unfolding step by simp
  next
    case False
    have e: "is_event xs k ?e" "live (at_slot b xs m ?e) k = c"
      "follows b xs m k e0 (live (at_slot b xs m (Suc ?e)) k) (takeWhile (\<lambda>e. e < e0) (map sv_entry ss))"
      using Cons.prems(2) False by simp_all
    have ty: "sv_type s = op_type (xs ! ?e)" using s(2) by (simp add: event_ok_def)
    have c: "rid_word c = kAbsent \<longleftrightarrow> c = None" using rid_word_absent [OF ids(1), of ?e k] e s(3) by simp
    have "rid_word (live (at_slot b xs m (Suc ?e)) k) =
        (if sv_type s = kEvDelete then kAbsent else if rid_word c = kAbsent then a ! ?e else rid_word c)"
      using e s(3) ids(2) c ty unfolding live_event [OF s(3)]
      by (auto simp: is_event_def op_type_def rid_word_def ids_at_def creates_def split: option.splits)
    then show ?thesis using Cons.IH [OF _ e(3)] Cons.prems(1,3) False unfolding step by simp
  qed
qed simp

lemma search_finds_head:
  assumes ok: "timeline_ok b xs inp m lookup" and srt: "srt = sort_events inp lookup (events xs)"
    and lo: "lo = lower_search srt (packEvent (ucast k) 0) 0 (length srt)"
  shows "if key_events xs k = [] then lo = length srt \<or> eventKey (sv_packed (srt ! lo)) \<noteq> ucast k
         else lo < length srt \<and> key_head srt lo \<and> key_of (xs ! sv_entry (srt ! lo)) = k"
proof -
  let ?probe = "packEvent (ucast k) 0"
  have ev: "event_ok xs m (srt ! i)" if "i < length srt" for i using sorted_events_ok(1) [OF ok] srt that by (metis nth_mem)
  have S: "lo \<le> length srt" "\<And>i. i < lo \<Longrightarrow> sv_packed (srt ! i) < ?probe"
    "\<And>i. lo \<le> i \<Longrightarrow> i < length srt \<Longrightarrow> ?probe \<le> sv_packed (srt ! i)"
    using lower_search_spec [of srt 0 "length srt" ?probe] sorted_events_ok(2) [OF ok] srt unfolding lo by auto
  have key: "eventKey (sv_packed (srt ! i)) = ucast k \<longleftrightarrow> key_of (xs ! sv_entry (srt ! i)) = k" if "i < length srt" for i
    using event_key [OF ev [OF that]] by (simp add: ucast_u64_inj)
  have run: "map sv_entry (key_run k srt) = key_events xs k" by (simp add: srt key_run_entries [OF ok])
  show ?thesis
  proof (cases "key_events xs k = []")
    case True
    then have "key_run k srt = []" using run by simp
    then have "\<forall>s \<in> set srt. eventKey (sv_packed s) \<noteq> ucast k" by (simp add: filter_empty_conv)
    then show ?thesis using True S(1) by (metis le_neq_implies_less nth_mem)
  next
    case False
    then have "key_run k srt \<noteq> []" using run by auto
    then have "\<exists>s \<in> set srt. eventKey (sv_packed s) = ucast k" by (simp add: filter_empty_conv)
    then obtain h where h: "h < length srt" "eventKey (sv_packed (srt ! h)) = ucast k"
      "h = 0 \<or> eventKey (sv_packed (srt ! (h - 1))) \<noteq> ucast k" using head_exists [of srt "\<lambda>s. eventKey (sv_packed s)"] by blast
    have "sv_packed (srt ! h) = packEvent (ucast k) (of_nat (sv_entry (srt ! h)))"
      using ev [OF h(1)] key [OF h(1)] h(2) by (simp add: event_ok_def)
    then have "?probe \<le> sv_packed (srt ! h)" by (simp add: word_le_nat_alt unat_pack)
    then have "lo \<le> h" using S(2) [of h] by (cases "h < lo") auto
    moreover have "\<not> lo < h"
    proof
      assume lt: "lo < h"
      then have "eventKey ?probe \<le> eventKey (sv_packed (srt ! lo))" "eventKey (sv_packed (srt ! lo)) \<le> eventKey (sv_packed (srt ! (h - 1)))"
        "eventKey (sv_packed (srt ! (h - 1))) \<le> eventKey (sv_packed (srt ! h))"
        using S(3) [of lo] h(1) sorted_nth_mono [OF sorted_events_ok(2) [OF ok]] unfolding srt [symmetric]
        by (auto intro!: eventKey_mono)
      then show False using h(2,3) lt by (auto simp: eventKey_pack)
    qed
    ultimately have "lo = h" by simp
    then show ?thesis using h key [OF h(1)] False by (auto simp: key_head_def)
  qed
qed

lemma resolve_spec:
  assumes ok: "timeline_ok b xs inp m lookup" and t: "built b xs inp m lookup t" and e: "e < length xs" and k: "k = key_of (xs ! e)"
  shows "timeline_resolve (tl_sorted t) (tl_entry_crid t) (ucast k) (of_nat e) e (\<exists>k. xs ! e = Insert k) (rid_word (m k)) =
           rid_word (serial_rid b (xs ! e) (at_slot b xs m e))"
proof -
  define srt where "srt = sort_events inp lookup (events xs)"
  have srt: "tl_sorted t = srt" and ids_at: "ids_at b xs m (tl_entry_crid t)" using t by (simp_all add: built_def srt_def)
  have ids: "ids_ok b xs m" and n: "length xs < 2 ^ 32" using ok by (simp_all add: timeline_ok_def)
  let ?lo = "lower_search srt (packEvent (ucast k) 0) 0 (length srt)" and ?l = "live (at_slot b xs m e) k"
  have fol: "follows b xs m k e (m k) (filter (is_event xs k) [0..<e])" using follows_before e by simp
  note find = search_finds_head [OF ok srt_def refl, of k]
  show ?thesis
  proof (cases "key_events xs k = []")
    case True
    have "\<not> is_event xs k e'" if "e' < length xs" for e' using True that by (auto simp: key_events_def filter_empty_conv)
    then have "filter (is_event xs k) [0..<e] = []" and acc: "xs ! e = Access k"
      using e k by (auto simp: filter_empty_conv is_event_def) (cases "xs ! e"; auto simp: is_event_def)
    then have "?l = m k" using fol by simp
    then show ?thesis using True find acc by (auto simp: timeline_resolve_def Let_def srt)
  next
    case False
    then have lo: "?lo < length srt" "key_head srt ?lo" "key_of (xs ! sv_entry (srt ! ?lo)) = k" using find by simp_all
    note run = run_at_head [OF ok srt_def lo(1,2) lo(3) [symmetric]]
    have "[0..<length xs] = [0..<e] @ [e..<length xs]" using e by (metis le0 less_imp_le_nat upt_add_eq_append le_add_diff_inverse)
    then have "key_events xs k = filter (is_event xs k) [0..<e] @ filter (is_event xs k) [e..<length xs]" by (simp add: key_events_def)
    moreover have "takeWhile (\<lambda>e'. e' < e) ys = []" if "\<forall>y \<in> set ys. \<not> y < e" for ys using that by (cases ys) auto
    then have "takeWhile (\<lambda>e'. e' < e) (filter (is_event xs k) [e..<length xs]) = []" by simp
    ultimately have tw: "takeWhile (\<lambda>e'. e' < e) (key_events xs k) = filter (is_event xs k) [0..<e]"
      using takeWhile_append2 [of "filter (is_event xs k) [0..<e]" "\<lambda>e'. e' < e"] by simp
    have st: "resolve_loop (ucast k) (of_nat e) e (tl_entry_crid t) (rid_word (m k)) (drop ?lo srt) = rid_word ?l"
    proof -
      have "resolve_loop (ucast k) (of_nat e) e (tl_entry_crid t) (rid_word (m k)) (drop ?lo srt) =
          resolve_loop (ucast k) (of_nat e) e (tl_entry_crid t) (rid_word (m k)) (key_run k srt)"
        using loops_run(3) [of "ucast k" _ _ _ _ "drop ?lo srt"] run(1) unfolding run(2) by simp
      also have "\<dots> = rid_word ?l"
      proof (rule resolve_follows [OF _ _ _ n ids ids_at])
        show "\<forall>s \<in> set (key_run k srt). event_ok xs m s \<and> eventKey (sv_packed s) = ucast k"
          using sorted_events_ok(1) [OF ok] srt_def by auto
        have entries: "map sv_entry (key_run k srt) = key_events xs k" by (simp add: srt_def key_run_entries [OF ok])
        then show "follows b xs m k e (m k) (takeWhile (\<lambda>e'. e' < e) (map sv_entry (key_run k srt)))" using tw fol by simp
        have "set (map sv_entry (key_run k srt)) \<subseteq> {..<length xs}" unfolding entries by (auto simp: key_events_def)
        then show "\<forall>s \<in> set (key_run k srt). sv_entry s < length xs" by auto
      qed (use e in simp)
      finally show ?thesis .
    qed
    have "srt \<noteq> []" using lo(1) by auto
    then have res: "timeline_resolve srt (tl_entry_crid t) (ucast k) (of_nat e) e (\<exists>k. xs ! e = Insert k) (rid_word (m k)) =
        (if (\<exists>k. xs ! e = Insert k) \<and> rid_word ?l = kAbsent then tl_entry_crid t ! e else rid_word ?l)"
      using lo(1) run(2,3) st by (simp add: timeline_resolve_def Let_def)
    show ?thesis
    proof (cases "xs ! e")
      case (Insert k')
      then have i: "xs ! e = Insert k" using k by simp
      have "creates b xs m e \<longleftrightarrow> ?l = None" using i by (simp add: creates_def)
      then show ?thesis
        using i ids_at e rid_word_absent [OF ids, of e k] fresh_crid_slot [of e xs b m]
        unfolding srt res by (auto simp: ids_at_def rid_word_def split: option.splits)
    qed (use k res srt in simp_all)
  qed
qed

subsection \<open>The update of the index\<close>

lemma fin_key_final [simp]: "(ucast (fin_key (final_of b xs m k)) :: u32) = k"
  by (simp add: final_of_def Let_def) (rule bit_word_eqI; simp add: bit_simps)

lemma distinct_map_filter_nth:
  assumes "\<And>i j. i < length ys \<Longrightarrow> j < length ys \<Longrightarrow> P (ys ! i) \<Longrightarrow> P (ys ! j) \<Longrightarrow> f (ys ! i) = f (ys ! j) \<Longrightarrow> i = j"
  shows "distinct (map f (filter P ys))"
  using assms
proof (induction ys)
  case (Cons y ys)
  have "distinct (map f (filter P ys))"
    by (rule Cons.IH) (use Cons.prems [of "Suc _" "Suc _"] in auto)
  moreover have "f y \<notin> f ` set (filter P ys)" if "P y"
  proof
    assume "f y \<in> f ` set (filter P ys)"
    then obtain j where "j < length ys" "P (ys ! j)" "f y = f (ys ! j)" by (auto simp: in_set_conv_nth)
    then show False using Cons.prems [of 0 "Suc j"] that by simp
  qed
  ultimately show ?case by auto
qed simp

lemma heads_distinct:
  assumes ok: "timeline_ok b xs inp m lookup" and srt: "srt = sort_events inp lookup (events xs)"
    and i: "i < length srt" "key_head srt i" and j: "j < length srt" "key_head srt j"
    and eq: "key_of (xs ! sv_entry (srt ! i)) = key_of (xs ! sv_entry (srt ! j))"
  shows "i = j"
proof -
  have mono: "eventKey (sv_packed (srt ! i)) \<le> eventKey (sv_packed (srt ! j))" if "i \<le> j" "j < length srt" for i j
    using sorted_nth_mono [OF sorted_events_ok(2) [OF ok]] that unfolding srt [symmetric] by (auto intro!: eventKey_mono)
  have key: "eventKey (sv_packed (srt ! i)) = ucast (key_of (xs ! sv_entry (srt ! i)))" if "i < length srt" for i
    using sorted_events_ok(1) [OF ok] that srt by (metis event_key nth_mem)
  have "\<not> i < j" if ij: "i < length srt" "j < length srt" "key_head srt j" "key_of (xs ! sv_entry (srt ! i)) = key_of (xs ! sv_entry (srt ! j))" for i j
  proof
    assume "i < j"
    then have "eventKey (sv_packed (srt ! i)) \<le> eventKey (sv_packed (srt ! (j - 1)))"
      "eventKey (sv_packed (srt ! (j - 1))) \<le> eventKey (sv_packed (srt ! j))" "0 < j"
      using mono [of i "j - 1"] mono [of "j - 1" j] ij by auto
    then show False using ij key [OF ij(1)] key [OF ij(2)] by (simp add: key_head_def)
  qed
  from this [of i j] this [of j i] show ?thesis using i j eq by simp
qed

text \<open>The finals that are flagged are those of the keys with events.\<close>

lemma finals:
  assumes ok: "timeline_ok b xs inp m lookup" and srt: "srt = sort_events inp lookup (events xs)"
    and fins: "length fins = length srt" "\<forall>i < length fins. fin_ok b xs m srt i (fins ! i)"
    and P: "\<And>f. P f \<Longrightarrow> fin_erase f \<or> fin_insert f"
  shows "set (filter P fins) = {final_of b xs m k |k. key_events xs k \<noteq> [] \<and> P (final_of b xs m k)}"
    and "distinct (map (ucast \<circ> fin_key :: _ \<Rightarrow> u32) (filter P fins))"
proof -
  let ?k = "\<lambda>i. key_of (xs ! sv_entry (srt ! i))"
  have at: "fins ! i = final_of b xs m (?k i)" "key_head srt i" if "i < length srt" "P (fins ! i)" for i
    using fins that P [of "fins ! i"] by (auto simp: fin_ok_def split: if_splits)
  have head: "fins ! i = final_of b xs m (?k i)" if "i < length srt" "key_head srt i" for i
    using fins that by (simp add: fin_ok_def)
  have ev: "key_events xs (?k i) \<noteq> []" if "i < length srt" for i
  proof -
    have "event_ok xs m (srt ! i)" using sorted_events_ok(1) [OF ok] srt that by (metis nth_mem)
    then have "srt ! i \<in> set (key_run (?k i) srt)" using that by (simp add: event_key)
    then show ?thesis using key_run_entries [OF ok, of "?k i"] srt by (metis empty_iff list.map_disc_iff list.set(1))
  qed
  have ex: "\<exists>i < length srt. key_head srt i \<and> ?k i = k" if k: "key_events xs k \<noteq> []" for k
  proof -
    obtain e where "e \<in> set (key_events xs k)" using k by (metis list.set_intros(1) neq_Nil_conv)
    then have "e \<in> set (events xs)" "key_of (xs ! e) = k" by (auto simp: key_events_def events_props is_event_def)
    then show ?thesis using events_covered [OF ok srt] by blast
  qed
  show "set (filter P fins) = {final_of b xs m k |k. key_events xs k \<noteq> [] \<and> P (final_of b xs m k)}"
  proof (intro set_eqI iffI)
    fix f assume "f \<in> set (filter P fins)"
    then obtain i where "i < length srt" "f = fins ! i" "P f" using fins(1) by (auto simp: in_set_conv_nth)
    then show "f \<in> {final_of b xs m k |k. key_events xs k \<noteq> [] \<and> P (final_of b xs m k)}" using at(1) [of i] ev [of i] by (metis (mono_tags, lifting) mem_Collect_eq)
  next
    fix f assume "f \<in> {final_of b xs m k |k. key_events xs k \<noteq> [] \<and> P (final_of b xs m k)}"
    then obtain k where k: "f = final_of b xs m k" "key_events xs k \<noteq> []" "P f" by auto
    obtain i where "i < length srt" "key_head srt i" "?k i = k" using ex [OF k(2)] by blast
    then show "f \<in> set (filter P fins)" using head [of i] k fins(1) by (auto simp: in_set_conv_nth)
  qed
  have "i = j" if "i < length fins" "j < length fins" "P (fins ! i)" "P (fins ! j)"
      "(ucast (fin_key (fins ! i)) :: u32) = ucast (fin_key (fins ! j))" for i j
    using that at [of i] at [of j] fins(1) heads_distinct [OF ok srt, of i j] by simp
  then show "distinct (map (ucast \<circ> fin_key :: _ \<Rightarrow> u32) (filter P fins))"
    by (intro distinct_map_filter_nth) auto
qed

lemma rid_word_same:
  assumes "ids_ok b xs m"
  shows "rid_word (m k) = rid_word (live (at_slot b xs m (length xs)) k) \<longleftrightarrow> m k = live (at_slot b xs m (length xs)) k"
    and "rid_word (m k) = kAbsent \<longleftrightarrow> m k = None"
  using live_not_absent [OF assms, of 0 k] live_not_absent [OF assms, of "length xs" k]
  by (auto simp: rid_word_def start_index_def split: option.splits)

lemma live_no_events: "key_events xs k = [] \<Longrightarrow> live (at_slot b xs m (length xs)) k = m k"
  using follows_key_events [of b xs m k] by simp

text \<open>The keys erased from the index are those whose record of the start is gone, the keys inserted those that end with
  another record; erasing the ones and inserting the others makes the index hold the records live at the end of the epoch.\<close>

lemma index_update:
  assumes ok: "timeline_ok b xs inp m lookup" and t: "built b xs inp m lookup t"
  defines "l \<equiv> live (at_slot b xs m (length xs))"
  shows "set (tl_erase_keys t) = {k. m k \<noteq> None \<and> l k \<noteq> m k}" and "set (tl_insert_keys t) = {k. l k \<noteq> None \<and> l k \<noteq> m k}"
    and "distinct (tl_insert_keys t)" and "length (tl_insert_crids t) = length (tl_insert_keys t)"
    and "k \<in> set (tl_insert_keys t) \<Longrightarrow> map_of (zip (tl_insert_keys t) (tl_insert_crids t)) k = l k"
proof -
  define srt where "srt = sort_events inp lookup (events xs)"
  have ids: "ids_ok b xs m" using ok by (simp add: timeline_ok_def)
  obtain fins where fins: "tl_erase_keys t = map (ucast \<circ> fin_key) (filter fin_erase fins)"
      "tl_insert_keys t = map (ucast \<circ> fin_key) (filter fin_insert fins)" "tl_insert_crids t = map fin_crid (filter fin_insert fins)"
      "length fins = length srt" "\<forall>i < length fins. fin_ok b xs m srt i (fins ! i)"
    using t by (auto simp: built_def srt_def sorted_events_ok(3) [OF ok])
  note F = finals [OF ok srt_def fins(4,5)]
  have flags: "fin_erase (final_of b xs m k) \<longleftrightarrow> m k \<noteq> None \<and> l k \<noteq> m k" "fin_insert (final_of b xs m k) \<longleftrightarrow> l k \<noteq> None \<and> l k \<noteq> m k"
      "l k \<noteq> m k \<Longrightarrow> key_events xs k \<noteq> []" for k
    using rid_word_same [OF ids, of k] rid_word_absent [OF ids, of "length xs" k] live_no_events [of xs k b m]
    by (auto simp: final_of_def Let_def l_def)
  have keys: "(ucast \<circ> fin_key) ` {final_of b xs m k |k. key_events xs k \<noteq> [] \<and> Q (final_of b xs m k)} =
      {k :: u32. key_events xs k \<noteq> [] \<and> Q (final_of b xs m k)}" for Q by (auto simp: image_iff) (metis fin_key_final)
  show "set (tl_erase_keys t) = {k. m k \<noteq> None \<and> l k \<noteq> m k}"
    using F(1) [of fin_erase] keys [of fin_erase] flags unfolding fins(1) by auto
  show ins: "set (tl_insert_keys t) = {k. l k \<noteq> None \<and> l k \<noteq> m k}"
    using F(1) [of fin_insert] keys [of fin_insert] flags unfolding fins(2) by auto
  show d: "distinct (tl_insert_keys t)" unfolding fins(2) by (rule F(2)) simp
  show "length (tl_insert_crids t) = length (tl_insert_keys t)" by (simp add: fins)
  show "map_of (zip (tl_insert_keys t) (tl_insert_crids t)) k = l k" if k: "k \<in> set (tl_insert_keys t)"
  proof -
    have "final_of b xs m k \<in> set (filter fin_insert fins)" using k ins F(1) [of fin_insert] flags(2,3) [of k] by auto
    then have "(k, fin_crid (final_of b xs m k)) \<in> set (zip (tl_insert_keys t) (tl_insert_crids t))"
      unfolding fins(2,3) zip_map_map zip_same_conv_map by (force simp: image_iff)
    moreover have "fin_crid (final_of b xs m k) = the (l k)" using k ins by (auto simp: final_of_def Let_def rid_word_def l_def)
    ultimately show ?thesis using d k ins by (auto simp: map_of_zip_is_Some fins(2,3) intro!: map_of_is_SomeI)
  qed
qed

end
