(* ===== verification/Shadow_Index.thy ===== *)
theory Shadow_Index
  imports Serial_Index
begin

text \<open>
  The durable shadow of the key index (\<^verbatim>\<open>benchmarks/ycsb_cpu_shadow_index.cpp\<close>): a log of the keys of created records, a
  log of the ended records, and twelve maps from keys to records, one per thread, that a recovering process fills from the
  initial population and the two logs. The inserts are all applied before the deletes; the lemmas show
  that this gives the records of the serial run in which they interleave, at the cursors of any earlier epoch.
  The environment hook of the validation build that drops a log entry is not modelled.
\<close>

definition kShards :: nat where "kShards = 12"

definition shardForKey :: "u32 \<Rightarrow> nat" where
  "shardForKey key = unat (key mod of_nat kShards)"

datatype shadow_error = SmokeCheckFailed u32 | OutsideArray

text \<open>The state; an array is \<open>None\<close> where the pointer is null.\<close>

record shadow_index =
  shards :: "(u32 \<rightharpoonup> u32) list"
  free_start_prev1 :: u32
  free_start_prev2 :: u32
  h_insert_keys :: "u32 list"
  h_delete_keys :: "u32 list"
  h_delete_crids :: "u32 list"
  durable_insert_keys :: "u32 list option"
  durable_delete_keys :: "u32 list option"
  durable_delete_crids :: "u32 list option"

definition words :: "nat \<Rightarrow> u32 list" where "words n = replicate n 0"

text \<open>The constructor; the arrays of a recovering process hold what the file holds, \<open>file\<close> gives the contents.\<close>

definition shadow_new :: "bool \<Rightarrow> nat \<Rightarrow> nat \<Rightarrow> nat \<Rightarrow> nat \<Rightarrow> (nat \<Rightarrow> nat \<Rightarrow> u32 list) \<Rightarrow> shadow_index" where
  "shadow_new durable num_records starting num_slots num_deletes file =
     \<lparr>shards = replicate kShards Map.empty, free_start_prev1 = 0, free_start_prev2 = 0,
      h_insert_keys = words num_slots,
      h_delete_keys = (if 0 < num_deletes then words num_slots else []),
      h_delete_crids = (if 0 < num_deletes then words num_slots else []),
      durable_insert_keys = (if durable \<and> starting < num_records then Some (file 0 (num_records - starting)) else None),
      durable_delete_keys = (if 0 < num_deletes \<and> durable then Some (file 1 num_records) else None),
      durable_delete_crids = (if 0 < num_deletes \<and> durable then Some (file 2 num_records) else None)\<rparr>"

text \<open>The loop of one thread of \<^verbatim>\<open>loadInitialData\<close>; the counter does not wrap while the initial population is at
  most \<open>2 ^ 32 - 12\<close>.\<close>

function load_loop :: "nat \<Rightarrow> nat \<Rightarrow> (u32 \<rightharpoonup> u32) \<Rightarrow> (u32 \<rightharpoonup> u32)" where
  "load_loop starting k shard =
     (if k < starting
      then load_loop starting (k + kShards)
             (case shard (of_nat k) of None \<Rightarrow> shard(of_nat k \<mapsto> of_nat k) | Some c \<Rightarrow> shard)
      else shard)"
  by pat_completeness auto
termination
  by (relation "measure (\<lambda>(n, k, s). n - k)") (auto simp: kShards_def)

declare load_loop.simps [simp del]

definition smoke_samples :: "nat list" where "smoke_samples = [0, 1, 100, 10000]"

definition shadow_find :: "shadow_index \<Rightarrow> u32 \<Rightarrow> u32 option" where
  "shadow_find s k = (shards s ! shardForKey k) k"

definition shadow_load :: "nat \<Rightarrow> shadow_index \<Rightarrow> shadow_error + shadow_index" where
  "shadow_load starting s =
     (let s' = s\<lparr>shards := map (\<lambda>tid. load_loop starting tid (shards s ! tid)) [0..<kShards]\<rparr>
      in case filter (\<lambda>k. k < starting \<and> shadow_find s' (of_nat k) \<noteq> Some (of_nat k)) smoke_samples of
           [] \<Rightarrow> Inr s' | k # _ \<Rightarrow> Inl (SmokeCheckFailed (of_nat k)))"

text \<open>A copy of the first \<open>n\<close> words of a host buffer into an array.\<close>

definition append_log :: "u32 list \<Rightarrow> nat \<Rightarrow> nat \<Rightarrow> u32 list option \<Rightarrow> shadow_error + u32 list option" where
  "append_log buf n off log =
     (case log of None \<Rightarrow> Inr None
      | Some a \<Rightarrow> if n \<le> length buf \<and> off + n \<le> length a
                  then Inr (Some (take off a @ take n buf @ drop (off + n) a)) else Inl OutsideArray)"

definition mirrorEpoch :: "nat \<Rightarrow> nat \<Rightarrow> shadow_index \<Rightarrow> shadow_error + shadow_index" where
  "mirrorEpoch num_inserts old_free_start s =
     (if num_inserts = 0 then Inr s
      else case append_log (h_insert_keys s) num_inserts old_free_start (durable_insert_keys s) of
             Inl er \<Rightarrow> Inl er | Inr a \<Rightarrow> Inr (s\<lparr>durable_insert_keys := a\<rparr>))"

definition mirrorEpochDeletes :: "nat \<Rightarrow> nat \<Rightarrow> shadow_index \<Rightarrow> shadow_error + shadow_index" where
  "mirrorEpochDeletes num_deletes old_delete_count s =
     (if num_deletes = 0 then Inr s
      else case append_log (h_delete_keys s) num_deletes old_delete_count (durable_delete_keys s) of
             Inl er \<Rightarrow> Inl er
           | Inr ks \<Rightarrow> (case append_log (h_delete_crids s) num_deletes old_delete_count (durable_delete_crids s) of
               Inl er \<Rightarrow> Inl er | Inr cs \<Rightarrow> Inr (s\<lparr>durable_delete_keys := ks, durable_delete_crids := cs\<rparr>)))"

text \<open>The loops of one thread over the logs.\<close>

definition insert_loop :: "u32 \<Rightarrow> u32 list \<Rightarrow> nat \<Rightarrow> nat \<Rightarrow> (u32 \<rightharpoonup> u32) \<Rightarrow> (u32 \<rightharpoonup> u32)" where
  "insert_loop starting keys cnt tid shard =
     fold (\<lambda>j m. let key = keys ! j in if shardForKey key = tid then m(key \<mapsto> starting + of_nat j) else m) [0..<cnt] shard"

definition delete_loop :: "u32 list \<Rightarrow> u32 list \<Rightarrow> nat \<Rightarrow> nat \<Rightarrow> (u32 \<rightharpoonup> u32) \<Rightarrow> (u32 \<rightharpoonup> u32)" where
  "delete_loop keys crids cnt tid shard =
     fold (\<lambda>j m. let key = keys ! j
                 in if shardForKey key = tid \<and> m key = Some (crids ! j) then m(key := None) else m) [0..<cnt] shard"

definition reconstructInsertsFromDurable :: "nat \<Rightarrow> nat \<Rightarrow> shadow_index \<Rightarrow> shadow_error + shadow_index" where
  "reconstructInsertsFromDurable starting cnt s =
     (case durable_insert_keys s of None \<Rightarrow> Inr s
      | Some a \<Rightarrow> if cnt = 0 then Inr s
                  else if length a < cnt then Inl OutsideArray
                  else Inr (s\<lparr>shards := map (\<lambda>tid. insert_loop (of_nat starting) a cnt tid (shards s ! tid)) [0..<kShards]\<rparr>))"

definition applyDeletesFromDurable :: "nat \<Rightarrow> shadow_index \<Rightarrow> shadow_error + shadow_index" where
  "applyDeletesFromDurable cnt s =
     (case (durable_delete_keys s, durable_delete_crids s) of
        (Some ks, Some cs) \<Rightarrow>
          if cnt = 0 then Inr s
          else if length ks < cnt \<or> length cs < cnt then Inl OutsideArray
          else Inr (s\<lparr>shards := map (\<lambda>tid. delete_loop ks cs cnt tid (shards s ! tid)) [0..<kShards]\<rparr>)
      | _ \<Rightarrow> Inr s)"

definition shiftSnapshotsAtEpochStart :: "u32 \<Rightarrow> shadow_index \<Rightarrow> shadow_index" where
  "shiftSnapshotsAtEpochStart free_start s = s\<lparr>free_start_prev2 := free_start_prev1 s, free_start_prev1 := free_start\<rparr>"

definition eraseStragglers :: "u32 \<Rightarrow> shadow_index \<Rightarrow> shadow_index" where
  "eraseStragglers max_crid s =
     s\<lparr>shards := map (\<lambda>shard k. case shard k of None \<Rightarrow> None | Some c \<Rightarrow> if max_crid \<le> c then None else Some c) (shards s)\<rparr>"

definition syncSnapshotsToRollback :: "u32 \<Rightarrow> shadow_index \<Rightarrow> shadow_index" where
  "syncSnapshotsToRollback target s = s\<lparr>free_start_prev1 := target, free_start_prev2 := target\<rparr>"

text \<open>How an epoch is logged at the end of \<^verbatim>\<open>indexTxns\<close> (\<^verbatim>\<open>ycsb_gpu_index.cu\<close>): the keys \<open>ks\<close> of the created records and the ended
  records \<open>es\<close> are copied to the host buffers and appended to the logs at the two cursors.\<close>

definition host_copy :: "u32 list \<Rightarrow> u32 list \<Rightarrow> shadow_error + u32 list" where
  "host_copy xs buf = (if length xs \<le> length buf then Inr (xs @ drop (length xs) buf) else Inl OutsideArray)"

definition mirror_inserts :: "u32 list \<Rightarrow> nat \<Rightarrow> shadow_index \<Rightarrow> shadow_error + shadow_index" where
  "mirror_inserts ks old_free_start s =
     (if ks = [] then Inr s
      else case host_copy ks (h_insert_keys s) of Inl er \<Rightarrow> Inl er
           | Inr buf \<Rightarrow> mirrorEpoch (length ks) old_free_start (s\<lparr>h_insert_keys := buf\<rparr>))"

definition mirror_deletes :: "u32 list \<Rightarrow> u32 list \<Rightarrow> nat \<Rightarrow> shadow_index \<Rightarrow> shadow_error + shadow_index" where
  "mirror_deletes dks dcs delete_count s =
     (if dks = [] then Inr s
      else case (host_copy dks (h_delete_keys s), host_copy dcs (h_delete_crids s)) of
             (Inr kb, Inr cb) \<Rightarrow> mirrorEpochDeletes (length dks) delete_count (s\<lparr>h_delete_keys := kb, h_delete_crids := cb\<rparr>)
           | _ \<Rightarrow> Inl OutsideArray)"

definition mirror_logs :: "u32 list \<Rightarrow> u32 list \<Rightarrow> u32 list \<Rightarrow> nat \<Rightarrow> nat \<Rightarrow> shadow_index \<Rightarrow> shadow_error + shadow_index" where
  "mirror_logs ks dks dcs old_free_start delete_count s =
     (case mirror_inserts ks old_free_start s of Inl er \<Rightarrow> Inl er | Inr s' \<Rightarrow> mirror_deletes dks dcs delete_count s')"

text \<open>A process that recovers (\<^verbatim>\<open>ycsb.cpp\<close>): a new shadow over the files of the old one, the initial population, and the logs up
  to the cursors of the epoch it goes back to.\<close>

definition restart_shadow :: "nat \<Rightarrow> nat \<Rightarrow> nat \<Rightarrow> nat \<Rightarrow> shadow_index \<Rightarrow> shadow_index" where
  "restart_shadow num_records starting num_slots num_deletes s =
     shadow_new True num_records starting num_slots num_deletes
       (\<lambda>i n. case [durable_insert_keys s, durable_delete_keys s, durable_delete_crids s] ! i of Some a \<Rightarrow> a | None \<Rightarrow> words n)"

definition recover_shadow :: "nat \<Rightarrow> nat \<Rightarrow> nat \<Rightarrow> shadow_index \<Rightarrow> shadow_error + shadow_index" where
  "recover_shadow starting f_e2 d_e2 s =
     (case shadow_load starting s of Inl er \<Rightarrow> Inl er
      | Inr s1 \<Rightarrow> (case reconstructInsertsFromDurable starting f_e2 s1 of Inl er \<Rightarrow> Inl er
          | Inr s2 \<Rightarrow> applyDeletesFromDurable d_e2 s2))"

subsection \<open>The shards hold one map\<close>

text \<open>A loop over log entries that changes the map only at the key of the entry can be split over the shards.\<close>

lemma fold_shard:
  assumes "\<And>j m m'. m k = m' k \<Longrightarrow> f j m k = g j m' k"
  shows "m k = m' k \<Longrightarrow> fold f js m k = fold g js m' k"
proof (induction js arbitrary: m m')
  case (Cons j js)
  then show ?case using Cons.IH [of "f j m" "g j m'"] assms [of m m' j] by simp
qed simp

lemma shardForKey_lt [simp]: "shardForKey k < kShards"
  using unat_mod_distrib [of k "of_nat kShards"] by (simp add: shardForKey_def kShards_def)

definition replay_inserts :: "u32 \<Rightarrow> u32 list \<Rightarrow> (u32 \<rightharpoonup> u32) \<Rightarrow> (u32 \<rightharpoonup> u32)" where
  "replay_inserts b ks m = fold (\<lambda>j m. m(ks ! j \<mapsto> b + of_nat j)) [0..<length ks] m"

definition replay_deletes :: "(u32 \<times> u32) list \<Rightarrow> (u32 \<rightharpoonup> u32) \<Rightarrow> (u32 \<rightharpoonup> u32)" where
  "replay_deletes es m = fold (\<lambda>(k, c) m. if m k = Some c then m(k := None) else m) es m"

lemma shard_nth [simp]: "(map f [0..<kShards] ! shardForKey k) k' = f (shardForKey k) k'"
  by simp

lemma insert_loop_replay:
  assumes "n \<le> length a" and "m k = m' k"
  shows "insert_loop b a n (shardForKey k) m k = replay_inserts b (take n a) m' k"
proof -
  have "insert_loop b a n (shardForKey k) m k = fold (\<lambda>j m. m(a ! j \<mapsto> b + of_nat j)) [0..<n] m' k"
    unfolding insert_loop_def by (rule fold_shard) (auto simp: Let_def assms(2))
  also have "\<dots> = replay_inserts b (take n a) m' k"
  proof -
    have "fold (\<lambda>j m. m(a ! j \<mapsto> b + of_nat j)) [0..<n] m' = fold (\<lambda>j m. m(take n a ! j \<mapsto> b + of_nat j)) [0..<n] m'"
      by (rule fold_cong) simp_all
    then show ?thesis using assms(1) by (simp add: replay_inserts_def min_absorb2)
  qed
  finally show ?thesis .
qed

lemma delete_loop_replay:
  assumes "n \<le> length ks" "n \<le> length cs" and "m k = m' k"
  shows "delete_loop ks cs n (shardForKey k) m k = replay_deletes (zip (take n ks) (take n cs)) m' k"
proof -
  have "delete_loop ks cs n (shardForKey k) m k =
      fold (\<lambda>j m. case (ks ! j, cs ! j) of (k, c) \<Rightarrow> if m k = Some c then m(k := None) else m) [0..<n] m' k"
    unfolding delete_loop_def by (rule fold_shard) (auto simp: Let_def assms(3))
  moreover have "zip (take n ks) (take n cs) = map (\<lambda>j. (ks ! j, cs ! j)) [0..<n]"
    using assms(1,2) by (intro nth_equalityI) auto
  ultimately show ?thesis by (simp add: replay_deletes_def fold_map comp_def)
qed

lemma load_loop_at:
  "load_loop n k sh x = (if sh x = None \<and> (\<exists>i. k + i * kShards < n \<and> x = of_nat (k + i * kShards)) then Some x else sh x)"
proof (induction n k sh rule: load_loop.induct)
  case (1 n k sh)
  have ex: "(\<exists>i. k + i * kShards < n \<and> x = of_nat (k + i * kShards)) \<longleftrightarrow>
      k < n \<and> (x = of_nat k \<or> (\<exists>i. k + kShards + i * kShards < n \<and> x = of_nat (k + kShards + i * kShards)))"
    (is "(\<exists>i. ?P k i) \<longleftrightarrow> k < n \<and> (_ \<or> (\<exists>i. ?P (k + kShards) i))")
  proof
    assume "\<exists>i. ?P k i"
    then obtain i where i: "?P k i" by blast
    show "k < n \<and> (x = of_nat k \<or> (\<exists>i. ?P (k + kShards) i))"
    proof (cases i)
      case (Suc j)
      then have "?P (k + kShards) j" using i by (simp add: algebra_simps)
      then show ?thesis using i by auto
    qed (use i in auto)
  next
    assume r: "k < n \<and> (x = of_nat k \<or> (\<exists>i. ?P (k + kShards) i))"
    then show "\<exists>i. ?P k i"
    proof (cases "x = of_nat k")
      case True
      then show ?thesis using r by (intro exI [of _ 0]) simp
    next
      case False
      then obtain i where "?P (k + kShards) i" using r by blast
      then show ?thesis by (intro exI [of _ "Suc i"]) (simp add: algebra_simps)
    qed
  qed
  show ?case
  proof (cases "k < n")
    case True
    then show ?thesis unfolding load_loop.simps [of n k sh] using 1 [OF True] unfolding ex by (auto split: option.splits)
  next
    case False
    then show ?thesis unfolding load_loop.simps [of n k sh] ex by simp
  qed
qed

definition initial_keys :: "nat \<Rightarrow> u32 \<rightharpoonup> u32" where
  "initial_keys starting k = (if unat k < starting then Some k else None)"

lemma load_loop_shard:
  assumes "n \<le> 2 ^ 32"
  shows "load_loop n (shardForKey k) Map.empty k = initial_keys n k"
proof -
  have "unat k = shardForKey k + (unat k div kShards) * kShards"
    using unat_mod_distrib [of k "of_nat kShards"] by (simp add: shardForKey_def kShards_def)
  moreover have "unat k = j" if "k = of_nat j" "j < n" for j using that assms by (simp add: unat_of_nat)
  moreover have "k = of_nat (unat k)" by simp
  ultimately have "(\<exists>i. shardForKey k + i * kShards < n \<and> k = of_nat (shardForKey k + i * kShards)) \<longleftrightarrow> unat k < n" by metis
  then show ?thesis unfolding load_loop_at initial_keys_def by simp
qed

subsection \<open>The logs replay the serial run\<close>

lemma replay_inserts_snoc: "replay_inserts b (ks @ [k]) m = (replay_inserts b ks m)(k \<mapsto> b + of_nat (length ks))"
proof -
  have "fold (\<lambda>j m. m((ks @ [k]) ! j \<mapsto> b + of_nat j)) [0..<length ks] m = fold (\<lambda>j m. m(ks ! j \<mapsto> b + of_nat j)) [0..<length ks] m"
    by (rule fold_cong) (simp_all add: nth_append)
  then show ?thesis by (simp add: replay_inserts_def)
qed

lemma replay_deletes_upd: "c \<notin> snd ` set es \<Longrightarrow> replay_deletes es (m(k \<mapsto> c)) = (replay_deletes es m)(k \<mapsto> c)"
proof (induction es arbitrary: m)
  case (Cons e es)
  let ?del = "\<lambda>(k, c) m. if m k = Some c then m(k := None) else m"
  have "?del e (m(k \<mapsto> c)) = (?del e m)(k \<mapsto> c)" using Cons.prems by (auto simp: fun_eq_iff split: prod.splits)
  then show ?case using Cons.IH [of "?del e m"] Cons.prems unfolding replay_deletes_def by simp
qed (simp add: replay_deletes_def)

text \<open>The two logs give the live records; no record is live under two keys or ends twice, and all ids are below the next one.\<close>

definition log_inv :: "u32 \<Rightarrow> (u32 \<rightharpoonup> u32) \<Rightarrow> live_index \<Rightarrow> bool" where
  "log_inv b m0 s \<longleftrightarrow>
     live s = replay_deletes (ended s) (replay_inserts b (minted s) m0) \<and>
     (\<forall>c \<in> ran (live s) \<union> snd ` set (ended s). unat c < unat b + length (minted s)) \<and>
     inj_on (live s) (dom (live s)) \<and> distinct (map snd (ended s)) \<and> ran (live s) \<inter> snd ` set (ended s) = {}"

lemma log_inv_start:
  assumes "\<forall>c \<in> ran m0. unat c < unat b" and "inj_on m0 (dom m0)"
  shows "log_inv b m0 (start_index m0)"
  using assms by (simp add: log_inv_def start_index_def replay_deletes_def replay_inserts_def)

lemma log_inv_step:
  assumes inv: "log_inv b m0 s" and fit: "unat b + length (minted s) < 2 ^ 32"
  shows "log_inv b m0 (serial_step b x s)"
proof (cases x)
  case (Insert k)
  show ?thesis
  proof (cases "live s k")
    case None
    let ?c = "fresh_crid b s"
    have c: "unat ?c = unat b + length (minted s)" using fit by (simp add: fresh_crid_def unat_word_ariths unat_of_nat)
    have old: "unat c < unat ?c" if "c \<in> ran (live s) \<union> snd ` set (ended s)" for c using inv c that by (simp add: log_inv_def)
    have new: "?c \<notin> ran (live s)" "?c \<notin> snd ` set (ended s)" using old by blast+
    have "inj_on ((live s)(k \<mapsto> ?c)) (dom ((live s)(k \<mapsto> ?c)))"
      using inv new(1) by (auto simp: log_inv_def inj_on_def dom_def ran_def)
    moreover have "replay_deletes (ended s) ((replay_inserts b (minted s) m0)(k \<mapsto> ?c)) = (live s)(k \<mapsto> ?c)"
      using inv new(2) by (simp add: log_inv_def replay_deletes_upd)
    moreover have "ran ((live s)(k \<mapsto> ?c)) = insert ?c (ran (live s))" using None by (rule ran_map_upd)
    moreover have "\<forall>c \<in> insert ?c (ran (live s)) \<union> snd ` set (ended s). unat c < unat b + length (minted s @ [k])"
      using old c by (auto simp: less_Suc_eq)
    moreover have "insert ?c (ran (live s)) \<inter> snd ` set (ended s) = {}" using inv new(2) unfolding log_inv_def by blast
    moreover have "distinct (map snd (ended s))" using inv unfolding log_inv_def by blast
    ultimately show ?thesis
      using None Insert unfolding log_inv_def by (simp add: replay_inserts_snoc flip: fresh_crid_def)
  qed (use inv Insert in simp)
next
  case (Delete k)
  show ?thesis
  proof (cases "live s k")
    case (Some c)
    have r: "ran ((live s)(k := None)) \<subseteq> ran (live s)" "c \<notin> ran ((live s)(k := None))" "c \<in> ran (live s)"
      using inv Some by (auto simp: log_inv_def ran_def inj_on_def dom_def)
    then have c: "c \<notin> snd ` set (ended s)" using inv unfolding log_inv_def by blast
    have "inj_on ((live s)(k := None)) (dom ((live s)(k := None)))" using inv unfolding log_inv_def by (auto simp: inj_on_def)
    moreover have "\<forall>d \<in> ran ((live s)(k := None)) \<union> snd ` set (ended s @ [(k, c)]). unat d < unat b + length (minted s)"
    proof -
      have "ran ((live s)(k := None)) \<union> snd ` set (ended s @ [(k, c)]) \<subseteq> ran (live s) \<union> snd ` set (ended s)" using r(1,3) by auto
      then show ?thesis using inv unfolding log_inv_def by blast
    qed
    moreover have "ran ((live s)(k := None)) \<inter> snd ` set (ended s @ [(k, c)]) = {}"
    proof -
      have "ran (live s) \<inter> snd ` set (ended s) = {}" using inv unfolding log_inv_def by blast
      then show ?thesis using r(1,2) by auto
    qed
    moreover have "distinct (map snd (ended s @ [(k, c)]))" using inv c unfolding log_inv_def by simp
    moreover have "replay_deletes (ended s @ [(k, c)]) (replay_inserts b (minted s) m0) = (live s)(k := None)"
      using inv Some by (simp add: log_inv_def replay_deletes_def)
    ultimately show ?thesis using Some Delete unfolding log_inv_def by simp
  qed (use inv Delete in simp)
qed (use inv in simp)

lemma minted_grows: "length (minted s) \<le> length (minted (fold (serial_step b) xs s))"
proof (induction xs arbitrary: s)
  case (Cons x xs)
  have "length (minted s) \<le> length (minted (serial_step b x s))" by (cases x) (auto split: option.splits)
  then show ?case using Cons [of "serial_step b x s"] by simp
qed simp

lemma log_inv_run:
  "log_inv b m0 s \<Longrightarrow> unat b + length (minted (fold (serial_step b) xs s)) < 2 ^ 32 \<Longrightarrow> log_inv b m0 (fold (serial_step b) xs s)"
proof (induction xs arbitrary: s)
  case (Cons x xs)
  have "length (minted s) \<le> length (minted (fold (serial_step b) (x # xs) s))" by (rule minted_grows)
  then show ?case using Cons.IH [OF log_inv_step [OF Cons.prems(1)]] Cons.prems(2) by simp
qed simp

text \<open>The delete log is no longer than the records there are.\<close>

lemma ended_bound:
  assumes "log_inv b m0 s" and "unat b + length (minted s) < 2 ^ 32"
  shows "length (ended s) \<le> unat b + length (minted s)"
proof -
  have "unat ` snd ` set (ended s) \<subseteq> {..<unat b + length (minted s)}" using assms(1) by (auto simp: log_inv_def)
  then have "card (unat ` snd ` set (ended s)) \<le> unat b + length (minted s)" using card_mono [of "{..<unat b + length (minted s)}"] by simp
  moreover have "card (unat ` snd ` set (ended s)) = card (snd ` set (ended s))" by (rule card_image) (metis inj_onI word_unat_eq_iff)
  moreover have "card (snd ` set (ended s)) = length (ended s)" using assms(1) distinct_card [of "map snd (ended s)"] by (simp add: log_inv_def)
  ultimately show ?thesis by simp
qed

subsection \<open>Epochs\<close>

text \<open>An epoch that starts from the live records with the next fresh id continues the run.\<close>

lemma epoch_continues:
  fixes b s
  defines "t \<equiv> \<lambda>xs. fold (serial_step (fresh_crid b s)) xs (start_index (live s))"
  shows "fold (serial_step b) xs s = \<lparr>live = live (t xs), minted = minted s @ minted (t xs), ended = ended s @ ended (t xs)\<rparr>"
proof (induction xs rule: rev_induct)
  case Nil
  then show ?case by (simp add: t_def start_index_def)
next
  case (snoc x xs)
  have "t (xs @ [x]) = serial_step (fresh_crid b s) x (t xs)" by (simp add: t_def)
  then show ?case using snoc by (cases x) (auto simp: fresh_crid_def add.assoc split: option.splits)
qed

subsection \<open>What the logs hold\<close>

definition log_prefix :: "'a list \<Rightarrow> 'a list option \<Rightarrow> bool" where
  "log_prefix xs log \<longleftrightarrow> (case log of None \<Rightarrow> xs = [] | Some a \<Rightarrow> take (length xs) a = xs)"

definition logs_hold :: "u32 list \<Rightarrow> (u32 \<times> u32) list \<Rightarrow> shadow_index \<Rightarrow> bool" where
  "logs_hold ks es s \<longleftrightarrow> log_prefix ks (durable_insert_keys s) \<and>
     log_prefix (map fst es) (durable_delete_keys s) \<and> log_prefix (map snd es) (durable_delete_crids s)"

text \<open>The sizes of the arrays of a durable shadow.\<close>

definition shadow_wf :: "nat \<Rightarrow> nat \<Rightarrow> nat \<Rightarrow> bool \<Rightarrow> shadow_index \<Rightarrow> bool" where
  "shadow_wf num_records starting num_slots deletes s \<longleftrightarrow>
     length (h_insert_keys s) = num_slots \<and>
     (deletes \<longrightarrow> length (h_delete_keys s) = num_slots \<and> length (h_delete_crids s) = num_slots) \<and>
     map_option length (durable_insert_keys s) = (if starting < num_records then Some (num_records - starting) else None) \<and>
     map_option length (durable_delete_keys s) = (if deletes then Some num_records else None) \<and>
     map_option length (durable_delete_crids s) = (if deletes then Some num_records else None)"

lemma take_prefix: "take (length xs) a = xs \<longleftrightarrow> (\<exists>r. a = xs @ r)"
  by (metis append_eq_conv_conj append_take_drop_id)

lemma log_prefix_append: "log_prefix (xs @ ys) log \<Longrightarrow> log_prefix xs log"
  by (auto simp: log_prefix_def take_prefix simp del: length_append split: option.splits)

lemma append_log_prefix:
  assumes "log_prefix xs log" and "map_option length log = Some n" and "length xs + length ys \<le> n" and "take (length ys) buf = ys"
  shows "\<exists>log'. append_log buf (length ys) (length xs) log = Inr log' \<and> log_prefix (xs @ ys) log' \<and> map_option length log' = Some n"
proof -
  obtain r where "log = Some (xs @ r)" "length xs + length r = n" using assms(1,2) by (auto simp: log_prefix_def take_prefix)
  moreover obtain r' where "buf = ys @ r'" using assms(4) by (auto simp: take_prefix)
  ultimately show ?thesis using assms(3) by (simp add: append_log_def log_prefix_def)
qed

lemma logs_hold_append: "logs_hold (ks @ ks') (es @ es') s \<Longrightarrow> logs_hold ks es s"
  by (auto simp: logs_hold_def intro: log_prefix_append)

lemma mirror_logs_ok:
  assumes hold: "logs_hold ks es s" and wf: "shadow_wf nr st ns del s"
    and room: "length (ks @ ks') \<le> nr - st" "length (es @ es') \<le> nr" "length ks' \<le> ns" "length es' \<le> ns" and del: "es' = [] \<or> del"
  shows "\<exists>s'. mirror_logs ks' (map fst es') (map snd es') (length ks) (length es) s = Inr s' \<and>
           logs_hold (ks @ ks') (es @ es') s' \<and> shadow_wf nr st ns del s'"
proof -
  have "\<exists>s'. mirror_inserts ks' (length ks) s = Inr s' \<and> logs_hold (ks @ ks') es s' \<and> shadow_wf nr st ns del s'"
  proof (cases "ks' = []")
    case False
    then have "map_option length (durable_insert_keys s) = Some (nr - st)" using wf room(1) by (auto simp: shadow_wf_def split: if_splits)
    from append_log_prefix [OF _ this, of ks ks' "ks' @ drop (length ks') (h_insert_keys s)"] show ?thesis
      using hold wf room(1,3) False by (auto simp: mirror_inserts_def mirrorEpoch_def host_copy_def logs_hold_def shadow_wf_def)
  qed (use hold wf in \<open>simp add: mirror_inserts_def\<close>)
  then obtain s1 where s1: "mirror_inserts ks' (length ks) s = Inr s1" "logs_hold (ks @ ks') es s1" "shadow_wf nr st ns del s1" by blast
  have "\<exists>s'. mirror_deletes (map fst es') (map snd es') (length es) s1 = Inr s' \<and> logs_hold (ks @ ks') (es @ es') s' \<and> shadow_wf nr st ns del s'"
  proof (cases "es' = []")
    case False
    then have l: "map_option length (durable_delete_keys s1) = Some nr" "map_option length (durable_delete_crids s1) = Some nr"
        "length (h_delete_keys s1) = ns" "length (h_delete_crids s1) = ns"
      using s1(3) del by (auto simp: shadow_wf_def)
    obtain kl cl where
      "append_log (map fst es' @ drop (length es') (h_delete_keys s1)) (length es') (length es) (durable_delete_keys s1) = Inr kl"
      "log_prefix (map fst (es @ es')) kl" "map_option length kl = Some nr"
      "append_log (map snd es' @ drop (length es') (h_delete_crids s1)) (length es') (length es) (durable_delete_crids s1) = Inr cl"
      "log_prefix (map snd (es @ es')) cl" "map_option length cl = Some nr"
      using append_log_prefix [OF _ l(1), of "map fst es" "map fst es'" "map fst es' @ drop (length es') (h_delete_keys s1)"]
        append_log_prefix [OF _ l(2), of "map snd es" "map snd es'" "map snd es' @ drop (length es') (h_delete_crids s1)"] s1(2) room(2)
      by (auto simp: logs_hold_def)
    then show ?thesis using s1(2,3) False room(4) l(3,4) del
      by (auto simp: mirror_deletes_def mirrorEpochDeletes_def host_copy_def logs_hold_def shadow_wf_def)
  qed (use s1 in \<open>simp add: mirror_deletes_def\<close>)
  then show ?thesis using s1(1) by (auto simp: mirror_logs_def)
qed

subsection \<open>Recovery\<close>

lemma shadow_load_ok:
  assumes "shards s = replicate kShards Map.empty" and "st \<le> 2 ^ 32"
  shows "\<exists>s'. shadow_load st s = Inr s' \<and> shadow_find s' = initial_keys st \<and> s' = s\<lparr>shards := shards s'\<rparr>"
proof -
  define s' where "s' = s\<lparr>shards := map (\<lambda>tid. load_loop st tid (shards s ! tid)) [0..<kShards]\<rparr>"
  have f: "shadow_find s' = initial_keys st"
    using assms by (auto simp: fun_eq_iff shadow_find_def s'_def load_loop_shard)
  have "shadow_find s' (of_nat k) = Some (of_nat k)" if "k < st" for k
    using that assms(2) by (simp add: f initial_keys_def unat_of_nat)
  then have "filter (\<lambda>k. k < st \<and> shadow_find s' (of_nat k) \<noteq> Some (of_nat k)) smoke_samples = []" by (auto simp: filter_empty_conv)
  then have "shadow_load st s = Inr s'" by (simp add: shadow_load_def Let_def flip: s'_def)
  then show ?thesis using f by (simp add: s'_def)
qed

lemma reconstruct_ok:
  assumes "log_prefix ks (durable_insert_keys s)"
  shows "\<exists>s'. reconstructInsertsFromDurable st (length ks) s = Inr s' \<and>
    shadow_find s' = replay_inserts (of_nat st) ks (shadow_find s) \<and> s' = s\<lparr>shards := shards s'\<rparr>"
proof (cases "ks = []")
  case True
  then show ?thesis by (auto simp: reconstructInsertsFromDurable_def replay_inserts_def split: option.splits)
next
  case False
  then obtain r where "durable_insert_keys s = Some (ks @ r)" using assms by (auto simp: log_prefix_def take_prefix split: option.splits)
  moreover have "insert_loop (of_nat st) (ks @ r) (length ks) (shardForKey k) (shards s ! shardForKey k) k =
      replay_inserts (of_nat st) ks (shadow_find s) k" for k
    using insert_loop_replay [of "length ks" "ks @ r" "shards s ! shardForKey k" k "shadow_find s"] by (simp add: shadow_find_def)
  ultimately show ?thesis using False by (auto simp: reconstructInsertsFromDurable_def fun_eq_iff shadow_find_def)
qed

lemma apply_deletes_ok:
  assumes "log_prefix (map fst es) (durable_delete_keys s)" "log_prefix (map snd es) (durable_delete_crids s)"
  shows "\<exists>s'. applyDeletesFromDurable (length es) s = Inr s' \<and> shadow_find s' = replay_deletes es (shadow_find s)"
proof (cases "es = []")
  case True
  then show ?thesis by (auto simp: applyDeletesFromDurable_def replay_deletes_def split: option.splits)
next
  case False
  then obtain r r' where d: "durable_delete_keys s = Some (map fst es @ r)" "durable_delete_crids s = Some (map snd es @ r')"
    using assms by (auto simp: log_prefix_def take_prefix simp del: length_map split: option.splits)
  have "delete_loop (map fst es @ r) (map snd es @ r') (length es) (shardForKey k) (shards s ! shardForKey k) k =
      replay_deletes es (shadow_find s) k" for k
    using delete_loop_replay [of "length es" "map fst es @ r" "map snd es @ r'" "shards s ! shardForKey k" k "shadow_find s"]
    by (simp add: shadow_find_def zip_map_fst_snd)
  then show ?thesis using False d by (auto simp: applyDeletesFromDurable_def fun_eq_iff shadow_find_def)
qed

lemma recover_shadow_ok:
  assumes hold: "logs_hold ks es s" and fresh: "shards s = replicate kShards Map.empty" and st: "st \<le> 2 ^ 32"
  shows "\<exists>s'. recover_shadow st (length ks) (length es) s = Inr s' \<and>
           shadow_find s' = replay_deletes es (replay_inserts (of_nat st) ks (initial_keys st))"
proof -
  obtain s1 where s1: "shadow_load st s = Inr s1" "shadow_find s1 = initial_keys st" "s1 = s\<lparr>shards := shards s1\<rparr>"
    using shadow_load_ok [OF fresh st] by blast
  have "durable_insert_keys s1 = durable_insert_keys s" using arg_cong [OF s1(3), of durable_insert_keys] by simp
  then obtain s2 where s2: "reconstructInsertsFromDurable st (length ks) s1 = Inr s2"
      "shadow_find s2 = replay_inserts (of_nat st) ks (initial_keys st)" "s2 = s1\<lparr>shards := shards s2\<rparr>"
    using reconstruct_ok [of ks s1 st] hold s1(2) by (auto simp: logs_hold_def)
  have "durable_delete_keys s2 = durable_delete_keys s" "durable_delete_crids s2 = durable_delete_crids s"
    using arg_cong [OF s2(3), of durable_delete_keys] arg_cong [OF s1(3), of durable_delete_keys]
      arg_cong [OF s2(3), of durable_delete_crids] arg_cong [OF s1(3), of durable_delete_crids] by simp_all
  then show ?thesis using apply_deletes_ok [of es s2] hold s1 s2(1,2) by (auto simp: recover_shadow_def logs_hold_def)
qed

end
