(* ===== verification/Key_Index.thy ===== *)
theory Key_Index
  imports Timeline_Correct Shadow_Index Ycsb_Txn
begin

text \<open>
  The key index of the YCSB benchmark (\<^verbatim>\<open>benchmarks/ycsb_gpu_index.cu\<close>, with \<^verbatim>\<open>insertFresh\<close> and \<^verbatim>\<open>eraseTentative\<close> of
  \<^verbatim>\<open>epoch_timeline.cuh\<close>): the operations of an epoch are resolved from keys to records. An epoch in which every
  inserted key is new and inserted once takes a fast path that inserts all keys at once and finds the deletes by an atomic minimum per
  record; any other epoch goes through the timeline. The hash map of the library cuco is a parameter, and so are the orders in
  which the threads of the kernels run. The hooks of the validation build are not modelled.
\<close>

subsection \<open>The hash map\<close>

record 'm static_map =
  map_new :: 'm
  map_find :: "'m \<Rightarrow> u32 \<Rightarrow> u32 option"
  map_insert :: "'m \<Rightarrow> (u32 \<times> u32) list \<Rightarrow> 'm"
  map_erase :: "'m \<Rightarrow> u32 list \<Rightarrow> 'm"
  map_size :: "'m \<Rightarrow> nat"

text \<open>A bulk lookup of a key: the record or the empty value sentinel.\<close>

definition look :: "('m, 'z) static_map_scheme \<Rightarrow> 'm \<Rightarrow> u32 \<Rightarrow> u32" where
  "look M m k = rid_word (map_find M m k)"

definition insertFresh ::
  "('m, 'z) static_map_scheme \<Rightarrow> bool \<Rightarrow> u32 list \<Rightarrow> u32 list \<Rightarrow> u32 \<Rightarrow> 'm \<Rightarrow> bool \<times> 'm" where
  "insertFresh M map_has_erased keys crids crid_begin m =
     (if map_has_erased \<and> (\<exists>k \<in> set keys. look M m k \<noteq> kAbsent) then (False, m)
      else let before = map_size M m; m' = map_insert M m (zip keys crids)
           in (if \<not> map_has_erased then map_size M m' - before = length keys
               else map (look M m') keys = map (\<lambda>j. crid_begin + of_nat j) [0..<length keys], m'))"

definition eraseTentative :: "('m, 'z) static_map_scheme \<Rightarrow> u32 list \<Rightarrow> u32 \<Rightarrow> 'm \<Rightarrow> nat \<times> 'm" where
  "eraseTentative M keys crid_begin m =
     (let er = filter (\<lambda>k. look M m k - crid_begin < of_nat (length keys)) keys
      in (length er, if er = [] then m else map_erase M m er))"

subsection \<open>Kernels\<close>

text \<open>Slot \<open>e\<close> is operation \<open>e mod 10\<close> of transaction \<open>e div 10\<close>.\<close>

definition slot_op :: "YcsbTxn list \<Rightarrow> nat \<Rightarrow> YcsbOpType" where "slot_op txns e = txn_ops (txns ! (e div 10)) ! (e mod 10)"
definition slot_key :: "YcsbTxn list \<Rightarrow> nat \<Rightarrow> u32" where "slot_key txns e = txn_keys (txns ! (e div 10)) ! (e mod 10)"

definition k_extract_ops :: "YcsbTxn list \<Rightarrow> timeline_input" where
  "k_extract_ops txns =
     \<lparr>ti_ins_key = map (\<lambda>e. if slot_op txns e = INSERT then slot_key txns e else kAbsent) [0..<10 * length txns],
      ti_del_key = map (\<lambda>e. if slot_op txns e = DELETE then slot_key txns e else kAbsent) [0..<10 * length txns],
      ti_pos = map of_nat [0..<10 * length txns]\<rparr>"

definition fastLookup :: "(u32 \<Rightarrow> u32) \<Rightarrow> u32 \<Rightarrow> nat \<Rightarrow> u32 \<Rightarrow> u32 \<Rightarrow> nat list \<Rightarrow> u32" where
  "fastLookup index_view key slot minted_begin num_minted ins_slot =
     (let rid = index_view key
      in if rid \<noteq> kAbsent \<and> rid - minted_begin < num_minted \<and> slot < ins_slot ! unat (rid - minted_begin) then kAbsent else rid)"

text \<open>\<open>ord\<close> is the order in which the slots are visited; the minimum is atomic.\<close>

definition k_record_deletes ::
  "nat list \<Rightarrow> YcsbTxn list \<Rightarrow> (u32 \<Rightarrow> u32) \<Rightarrow> u32 \<Rightarrow> u32 \<Rightarrow> nat list \<Rightarrow> u32 list \<Rightarrow> u32 list" where
  "k_record_deletes ord txns index_view minted_begin num_minted ins_slot del_pos =
     fold (\<lambda>slot dp.
       if slot_op txns slot \<noteq> DELETE then dp
       else let rid = fastLookup index_view (slot_key txns slot) slot minted_begin num_minted ins_slot
            in if rid \<noteq> kAbsent then dp[unat rid := min (dp ! unat rid) (of_nat slot)] else dp) ord del_pos"

text \<open>What the index kernels write for a transaction whose operations resolve to \<open>rid\<close>.\<close>

definition index_param :: "YcsbTxn \<Rightarrow> (nat \<Rightarrow> u32) \<Rightarrow> YcsbTxnParam" where
  "index_param txn rid =
     \<lparr>record_ids = map rid [0..<10], field_ids = map (\<lambda>i. txn_fields txn ! i) [0..<10],
      ops = map (\<lambda>i. if rid i = kAbsent then NOOP else txn_ops txn ! i) [0..<10]\<rparr>"

definition indexYcsbKernel ::
  "YcsbTxn list \<Rightarrow> (u32 \<Rightarrow> u32) \<Rightarrow> u32 \<Rightarrow> u32 \<Rightarrow> nat list \<Rightarrow> u32 list option \<Rightarrow> YcsbTxnParam list" where
  "indexYcsbKernel txns index_view minted_begin num_minted ins_slot del_pos =
     map (\<lambda>tid. index_param (txns ! tid) (\<lambda>i.
       let slot = tid * 10 + i;
           rid = fastLookup index_view (txn_keys (txns ! tid) ! i) slot minted_begin num_minted ins_slot
       in case del_pos of None \<Rightarrow> rid
          | Some dp \<Rightarrow> if rid \<noteq> kAbsent \<and> dp ! unat rid < of_nat slot then kAbsent else rid)) [0..<length txns]"

definition indexYcsbTimelineKernel :: "YcsbTxn list \<Rightarrow> (u32 \<Rightarrow> u32) \<Rightarrow> timeline \<Rightarrow> YcsbTxnParam list" where
  "indexYcsbTimelineKernel txns index_view tml =
     map (\<lambda>tid. index_param (txns ! tid) (\<lambda>i.
       let key = txn_keys (txns ! tid) ! i; slot = tid * 10 + i
       in timeline_resolve (tl_sorted tml) (tl_entry_crid tml) (ucast key) (of_nat slot) slot
            (txn_ops (txns ! tid) ! i = INSERT) (index_view key))) [0..<length txns]"

definition effective :: "YcsbTxn list \<Rightarrow> YcsbTxnParam list \<Rightarrow> u32 list \<Rightarrow> nat \<Rightarrow> bool" where
  "effective txns params del_pos slot \<longleftrightarrow>
     (let rid = record_ids (params ! (slot div 10)) ! (slot mod 10)
      in slot_op txns slot = DELETE \<and> rid \<noteq> kAbsent \<and> del_pos ! unat rid = of_nat slot)"

definition k_effective_deletes ::
  "YcsbTxn list \<Rightarrow> YcsbTxnParam list \<Rightarrow> u32 list \<Rightarrow> u32 list \<Rightarrow> u32 list \<Rightarrow> u32 list \<times> u32 list \<times> bool list" where
  "k_effective_deletes txns params del_pos keys crids =
     (let eff = effective txns params del_pos; slots = [0..<10 * length txns]
      in (map (\<lambda>e. if eff e then slot_key txns e else keys ! e) slots,
          map (\<lambda>e. if eff e then record_ids (params ! (e div 10)) ! (e mod 10) else crids ! e) slots, map eff slots))"

definition k_reset_positions :: "u32 list \<Rightarrow> u32 list \<Rightarrow> u32 list" where
  "k_reset_positions crids del_pos = fold (\<lambda>c dp. dp[unat c := kAbsent]) crids del_pos"

subsection \<open>The index\<close>

record index_config =
  cfg_num_records :: nat
  cfg_starting :: nat
  cfg_num_txns :: nat
  cfg_num_deletes :: nat

definition num_slots :: "index_config \<Rightarrow> nat" where "num_slots cfg = 10 * cfg_num_txns cfg"

record 'm key_index =
  ix_map :: 'm
  ix_has_erased :: bool
  ix_free_rows :: "u32 list"
  ix_free_start :: nat
  ix_delete_count :: nat
  ix_minted_begin :: u32
  ix_num_minted :: nat
  ix_num_deletes :: nat
  ix_edel_crid :: "u32 list"
  ix_edel_out :: "u32 list"
  ix_del_pos :: "u32 list option"
  ix_timeline :: "timeline option"
  ix_shadow :: shadow_index

record schedule =
  o_deletes :: "nat \<Rightarrow> nat list"
  o_walk :: "nat \<Rightarrow> nat list"
  o_assign :: "nat \<Rightarrow> nat list"

datatype index_error = WrongDevice | OutOfFreeRows | TimelineFailed string | ShadowFailed shadow_error

definition free_row_sequence :: "index_config \<Rightarrow> u32 list" where
  "free_row_sequence cfg = map (\<lambda>j. of_nat (cfg_starting cfg) + of_nat j) [0..<cfg_num_records cfg - cfg_starting cfg]"

text \<open>The buffers of a timeline as \<^verbatim>\<open>ensure\<close> allocates them; \<^verbatim>\<open>build\<close> reads no buffer before it writes it.\<close>

definition empty_timeline :: "nat \<Rightarrow> timeline" where
  "empty_timeline n =
     \<lparr>tl_sorted = [], tl_entry_crid = words n, tl_minted_keys = [], tl_ins_entry = [], tl_edel_keys = [], tl_edel_crids = [],
      tl_erase_keys = [], tl_insert_keys = [], tl_insert_crids = [],
      tl_fin = replicate n \<lparr>fin_key = 0, fin_crid = 0, fin_erase = False, fin_insert = False\<rparr>\<rparr>"

definition ensureTimeline :: "index_config \<Rightarrow> 'm key_index \<Rightarrow> index_error + 'm key_index" where
  "ensureTimeline cfg st =
     (case ix_timeline st of Some t \<Rightarrow> Inr st
      | None \<Rightarrow> (case ensure (num_slots cfg) (num_slots cfg) (num_slots cfg - 1) of
          Inl er \<Rightarrow> Inl (TimelineFailed er) | Inr n \<Rightarrow> Inr (st\<lparr>ix_timeline := Some (empty_timeline (num_slots cfg))\<rparr>)))"

definition index_new :: "('m, 'z) static_map_scheme \<Rightarrow> index_config \<Rightarrow> shadow_index \<Rightarrow> index_error + 'm key_index" where
  "index_new M cfg sh =
     (let st = \<lparr>ix_map = map_new M, ix_has_erased = False, ix_free_rows = words (cfg_num_records cfg - cfg_starting cfg),
                ix_free_start = 0, ix_delete_count = 0, ix_minted_begin = 0, ix_num_minted = 0, ix_num_deletes = 0,
                ix_edel_crid = words (num_slots cfg), ix_edel_out = [], ix_del_pos = None, ix_timeline = None, ix_shadow = sh\<rparr>
      in if 0 < cfg_num_deletes cfg then ensureTimeline cfg st else Inr st)"

definition index_load :: "('m, 'z) static_map_scheme \<Rightarrow> index_config \<Rightarrow> 'm key_index \<Rightarrow> 'm key_index" where
  "index_load M cfg st =
     (let d_keys = map of_nat [0..<cfg_starting cfg]; d_values = map of_nat [0..<cfg_starting cfg]
      in st\<lparr>ix_map := map_insert M (ix_map st) (zip d_keys d_values), ix_free_rows := free_row_sequence cfg\<rparr>)"

definition ensureDelPos :: "index_config \<Rightarrow> 'm key_index \<Rightarrow> u32 list" where
  "ensureDelPos cfg st = (case ix_del_pos st of Some dp \<Rightarrow> dp | None \<Rightarrow> replicate (cfg_num_records cfg) kAbsent)"

definition checkFreeRows :: "index_config \<Rightarrow> 'm key_index \<Rightarrow> nat \<Rightarrow> bool" where
  "checkFreeRows cfg st want \<longleftrightarrow>
     (let free_total = cfg_num_records cfg - cfg_starting cfg;
          have_rows = (if ix_free_start st < free_total then free_total - ix_free_start st else 0)
      in want \<le> have_rows)"

text \<open>\<^verbatim>\<open>resolveThroughTimeline\<close>; the keys of the created records and the ended records stay in the timeline.\<close>

definition resolveThroughTimeline ::
  "('m, 'z) static_map_scheme \<Rightarrow> index_config \<Rightarrow> schedule \<Rightarrow> YcsbTxn list \<Rightarrow> 'm key_index \<Rightarrow>
   index_error + 'm key_index \<times> timeline \<times> YcsbTxnParam list" where
  "resolveThroughTimeline M cfg sch txns st =
     (case ensureTimeline cfg st of Inl er \<Rightarrow> Inl er
      | Inr st1 \<Rightarrow>
          let inp = k_extract_ops txns;
              n = length (filter (EntryIsEvent inp) [0..<length (ti_ins_key inp)])
          in case build (o_walk sch n) (o_assign sch n) (num_slots cfg) inp (look M (ix_map st1)) (ix_minted_begin st1)
                    (the (ix_timeline st1)) of
               Inl er \<Rightarrow> Inl (TimelineFailed er)
             | Inr tml \<Rightarrow>
                 let num_minted = length (tl_minted_keys tml)
                 in if \<not> checkFreeRows cfg st1 num_minted then Inl OutOfFreeRows
                    else let params = indexYcsbTimelineKernel txns (look M (ix_map st1)) tml;
                             m1 = (if tl_erase_keys tml \<noteq> [] then map_erase M (ix_map st1) (tl_erase_keys tml) else ix_map st1);
                             m2 = (if tl_insert_keys tml \<noteq> [] then map_insert M m1 (zip (tl_insert_keys tml) (tl_insert_crids tml)) else m1)
                         in Inr (st1\<lparr>ix_map := m2, ix_has_erased := (tl_erase_keys tml \<noteq> [] \<or> ix_has_erased st1),
                                     ix_num_minted := num_minted, ix_num_deletes := length (tl_edel_keys tml),
                                     ix_edel_out := tl_edel_crids tml, ix_timeline := Some tml\<rparr>, tml, params))"

text \<open>The fast path after its inserts were accepted; the result carries the keys of the ended records.\<close>

definition resolve_fast ::
  "('m, 'z) static_map_scheme \<Rightarrow> index_config \<Rightarrow> schedule \<Rightarrow> YcsbTxn list \<Rightarrow> nat list \<Rightarrow> 'm key_index \<Rightarrow>
   'm key_index \<times> u32 list \<times> YcsbTxnParam list" where
  "resolve_fast M cfg sch txns ins_slot st =
     (let n = 10 * length txns; v = look M (ix_map st); b = ix_minted_begin st; k = of_nat (ix_num_minted st)
      in if 0 < cfg_num_deletes cfg
         then let dp = k_record_deletes (o_deletes sch n) txns v b k ins_slot (ensureDelPos cfg st);
                  params = indexYcsbKernel txns v b k ins_slot (Some dp);
                  (keys, crids, flags) = k_effective_deletes txns params dp (ti_del_key (k_extract_ops txns)) (ix_edel_crid st);
                  edel_keys = select_flagged keys flags; edel_crids = select_flagged crids flags;
                  st' = st\<lparr>ix_edel_crid := crids, ix_num_deletes := length edel_keys, ix_edel_out := edel_crids,
                           ix_del_pos := Some dp\<rparr>
              in if edel_keys \<noteq> []
                 then (st'\<lparr>ix_del_pos := Some (k_reset_positions edel_crids dp),
                           ix_map := map_erase M (ix_map st) edel_keys, ix_has_erased := True\<rparr>, edel_keys, params)
                 else (st', edel_keys, params)
         else (st, [], indexYcsbKernel txns v b k ins_slot None))"

text \<open>\<^verbatim>\<open>indexTxns\<close>; \<open>on_gpu\<close> tells whether both transaction arrays are on the device.\<close>

definition index_resolve ::
  "('m, 'z) static_map_scheme \<Rightarrow> index_config \<Rightarrow> schedule \<Rightarrow> YcsbTxn list \<Rightarrow> 'm key_index \<Rightarrow>
   index_error + 'm key_index \<times> u32 list \<times> u32 list \<times> YcsbTxnParam list" where
  "index_resolve M cfg sch txns st =
     (let inserts = ti_ins_key (k_extract_ops txns);
          keys = filter (\<lambda>k. k \<noteq> kAbsent) inserts;
          ins_slot = filter (\<lambda>e. inserts ! e \<noteq> kAbsent) [0..<length inserts];
          n = length keys
      in if \<not> checkFreeRows cfg st n then Inl OutOfFreeRows
         else let (fresh, m) = (if n = 0 then (True, ix_map st)
                                else insertFresh M (ix_has_erased st) keys (take n (drop (ix_free_start st) (ix_free_rows st)))
                                       (ix_minted_begin st) (ix_map st))
              in if fresh
                 then let (st', dks, params) = resolve_fast M cfg sch txns ins_slot (st\<lparr>ix_map := m, ix_num_minted := n\<rparr>)
                      in Inr (st', keys, dks, params)
                 else let (n_erase, m') = eraseTentative M keys (ix_minted_begin st) m
                      in case resolveThroughTimeline M cfg sch txns
                                (st\<lparr>ix_map := m', ix_has_erased := (0 < n_erase \<or> ix_has_erased st)\<rparr>) of
                           Inl er \<Rightarrow> Inl er
                         | Inr (st', tml, params) \<Rightarrow> Inr (st', tl_minted_keys tml, tl_edel_keys tml, params))"

definition indexTxns ::
  "('m, 'z) static_map_scheme \<Rightarrow> index_config \<Rightarrow> schedule \<Rightarrow> bool \<Rightarrow> YcsbTxn list \<Rightarrow> 'm key_index \<Rightarrow>
   index_error + 'm key_index \<times> YcsbTxnParam list" where
  "indexTxns M cfg sch on_gpu txns st =
     (if \<not> on_gpu then Inl WrongDevice
      else let st0 = st\<lparr>ix_shadow := shiftSnapshotsAtEpochStart (of_nat (ix_free_start st)) (ix_shadow st),
                        ix_num_deletes := 0, ix_num_minted := 0,
                        ix_minted_begin := of_nat (cfg_starting cfg) + of_nat (ix_free_start st)\<rparr>
           in case index_resolve M cfg sch txns st0 of Inl er \<Rightarrow> Inl er
              | Inr (st1, minted_keys, dks, params) \<Rightarrow>
                  let take_n = ix_num_minted st1
                  in case mirror_logs (take take_n minted_keys) dks (take (ix_num_deletes st1) (ix_edel_out st1))
                            (ix_free_start st1) (ix_delete_count st1) (ix_shadow st1) of
                       Inl er \<Rightarrow> Inl (ShadowFailed er)
                     | Inr sh \<Rightarrow> Inr (st1\<lparr>ix_shadow := sh, ix_free_start := ix_free_start st1 + take_n,
                                         ix_delete_count := ix_delete_count st1 + ix_num_deletes st1\<rparr>, params))"

text \<open>\<^verbatim>\<open>rebuildCucoFromShadow\<close>. The entries of a shard come in the order of its hash map, a parameter; they are uploaded in batches.\<close>

definition kBatch :: nat where "kBatch = 2 ^ 20"

definition push_entry :: "('m, 'z) static_map_scheme \<Rightarrow> u32 \<times> u32 \<Rightarrow> (u32 \<times> u32) list \<times> 'm \<Rightarrow> (u32 \<times> u32) list \<times> 'm" where
  "push_entry M kv s =
     (let batch = fst s @ [kv] in if length batch = kBatch then ([], map_insert M (snd s) batch) else (batch, snd s))"

definition flush_batch :: "('m, 'z) static_map_scheme \<Rightarrow> (u32 \<times> u32) list \<times> 'm \<Rightarrow> 'm" where
  "flush_batch M s = (if fst s = [] then snd s else map_insert M (snd s) (fst s))"

definition rebuildCucoFromShadow ::
  "('m, 'z) static_map_scheme \<Rightarrow> index_config \<Rightarrow> ((u32 \<rightharpoonup> u32) \<Rightarrow> (u32 \<times> u32) list) \<Rightarrow> nat \<Rightarrow> nat \<Rightarrow> 'm key_index \<Rightarrow> 'm key_index" where
  "rebuildCucoFromShadow M cfg entries current_free_start current_delete_count st =
     (let max_crid = of_nat (cfg_starting cfg + current_free_start);
          sh = eraseStragglers max_crid (ix_shadow st);
          uploaded = fold (push_entry M) (concat (map entries (shards sh))) ([], map_new M)
      in st\<lparr>ix_map := flush_batch M uploaded, ix_has_erased := False,
            ix_free_start := current_free_start, ix_delete_count := current_delete_count, ix_num_deletes := 0,
            ix_free_rows := free_row_sequence cfg,
            ix_shadow := syncSnapshotsToRollback (of_nat current_free_start) sh\<rparr>)"

text \<open>The start of a process and of a recovering process (\<^verbatim>\<open>ycsb.cpp\<close>).\<close>

definition start_process ::
  "('m, 'z) static_map_scheme \<Rightarrow> index_config \<Rightarrow> (nat \<Rightarrow> nat \<Rightarrow> u32 list) \<Rightarrow> index_error + 'm key_index" where
  "start_process M cfg file =
     (case shadow_load (cfg_starting cfg)
             (shadow_new True (cfg_num_records cfg) (cfg_starting cfg) (num_slots cfg) (cfg_num_deletes cfg) file) of
        Inl er \<Rightarrow> Inl (ShadowFailed er)
      | Inr sh \<Rightarrow> (case index_new M cfg sh of Inl er \<Rightarrow> Inl er | Inr st \<Rightarrow> Inr (index_load M cfg st)))"

definition recover_process ::
  "('m, 'z) static_map_scheme \<Rightarrow> index_config \<Rightarrow> ((u32 \<rightharpoonup> u32) \<Rightarrow> (u32 \<times> u32) list) \<Rightarrow> nat \<Rightarrow> nat \<Rightarrow> shadow_index \<Rightarrow>
   index_error + 'm key_index" where
  "recover_process M cfg entries f_e2 d_e2 old =
     (case recover_shadow (cfg_starting cfg) f_e2 d_e2
             (restart_shadow (cfg_num_records cfg) (cfg_starting cfg) (num_slots cfg) (cfg_num_deletes cfg) old) of
        Inl er \<Rightarrow> Inl (ShadowFailed er)
      | Inr sh \<Rightarrow> (case index_new M cfg sh of Inl er \<Rightarrow> Inl er
          | Inr st \<Rightarrow> Inr (rebuildCucoFromShadow M cfg entries f_e2 d_e2 (index_load M cfg st))))"

fun index_run ::
  "('m, 'z) static_map_scheme \<Rightarrow> index_config \<Rightarrow> schedule \<Rightarrow> YcsbTxn list list \<Rightarrow> 'm key_index \<Rightarrow>
   index_error + 'm key_index \<times> YcsbTxnParam list list" where
  "index_run M cfg sch [] st = Inr (st, [])"
| "index_run M cfg sch (txns # rest) st =
     (case indexTxns M cfg sch True txns st of Inl er \<Rightarrow> Inl er
      | Inr (st1, ps) \<Rightarrow> (case index_run M cfg sch rest st1 of Inl er \<Rightarrow> Inl er | Inr (st2, pss) \<Rightarrow> Inr (st2, ps # pss)))"

end
