(* ===== verification/Fast_Path.thy ===== *)
theory Fast_Path
  imports Key_Index
begin

text \<open>
  The fast path of the key index: when every inserted key is new and inserted once, the lookups with the position checks of
  the kernels find the records of the serial run, and the atomic minimum finds the deletes that end a record.
\<close>

subsection \<open>The operations of an epoch\<close>

fun op_of :: "YcsbOpType \<Rightarrow> u32 \<Rightarrow> index_op" where
  "op_of INSERT k = Insert k" | "op_of DELETE k = Delete k" | "op_of op k = Access k"

definition epoch_ops :: "YcsbTxn list \<Rightarrow> index_op list" where
  "epoch_ops txns = map (\<lambda>e. op_of (slot_op txns e) (slot_key txns e)) [0..<10 * length txns]"

lemma op_of_simps [simp]:
  "op_of x k = Insert k' \<longleftrightarrow> x = INSERT \<and> k = k'" "op_of x k = Delete k' \<longleftrightarrow> x = DELETE \<and> k = k'"
  "op_of x k = Access k' \<longleftrightarrow> x \<noteq> INSERT \<and> x \<noteq> DELETE \<and> k = k'" "key_of (op_of x k) = k"
  by (cases x; auto)+

lemma length_epoch_ops [simp]: "length (epoch_ops txns) = 10 * length txns"
  by (simp add: epoch_ops_def)

lemma nth_epoch_ops [simp]: "e < 10 * length txns \<Longrightarrow> epoch_ops txns ! e = op_of (slot_op txns e) (slot_key txns e)"
  by (simp add: epoch_ops_def)

lemma slot_of [simp]: "i < 10 \<Longrightarrow> slot_op txns (tid * 10 + i) = txn_ops (txns ! tid) ! i"
  "i < 10 \<Longrightarrow> slot_key txns (tid * 10 + i) = txn_keys (txns ! tid) ! i"
  by (simp_all add: slot_op_def slot_key_def)

lemma codes_epoch:
  assumes "\<forall>e < 10 * length txns. slot_key txns e \<noteq> kNoKey"
  shows "codes (epoch_ops txns) (k_extract_ops txns)"
  using assms by (auto simp: codes_def k_extract_ops_def kAbsent_def kNoKey_def split: index_op.splits)

subsection \<open>Epochs without repeated inserts\<close>

definition once :: "index_op list \<Rightarrow> (u32 \<rightharpoonup> u32) \<Rightarrow> bool" where
  "once xs m \<longleftrightarrow> (\<forall>e < length xs. \<forall>k. xs ! e = Insert k \<longrightarrow> m k = None \<and> (\<forall>e' < length xs. xs ! e' = Insert k \<longrightarrow> e' = e))"

definition seen :: "index_op list \<Rightarrow> (u32 \<rightharpoonup> u32) \<Rightarrow> nat \<Rightarrow> u32 \<Rightarrow> bool" where
  "seen xs m e k \<longleftrightarrow> m k \<noteq> None \<or> (\<exists>i < e. xs ! i = Insert k)"

definition gone :: "index_op list \<Rightarrow> (u32 \<rightharpoonup> u32) \<Rightarrow> nat \<Rightarrow> u32 \<Rightarrow> bool" where
  "gone xs m e k \<longleftrightarrow> (\<exists>i < e. xs ! i = Delete k \<and> seen xs m i k)"

text \<open>\<open>F\<close> is the index with the records of the epoch inserted.\<close>

definition holds_epoch :: "u32 \<Rightarrow> index_op list \<Rightarrow> (u32 \<rightharpoonup> u32) \<Rightarrow> (u32 \<rightharpoonup> u32) \<Rightarrow> bool" where
  "holds_epoch b xs m F \<longleftrightarrow>
     (\<forall>k. m k \<noteq> None \<longrightarrow> F k = m k) \<and> (\<forall>e < length xs. \<forall>k. xs ! e = Insert k \<longrightarrow> F k = Some (slot_crid b xs m e)) \<and>
     (\<forall>k. m k = None \<longrightarrow> (\<forall>e < length xs. xs ! e \<noteq> Insert k) \<longrightarrow> F k = None)"

lemma seen_Suc: "seen xs m (Suc e) k \<longleftrightarrow> seen xs m e k \<or> xs ! e = Insert k"
  by (auto simp: seen_def less_Suc_eq)

lemma gone_Suc: "gone xs m (Suc e) k \<longleftrightarrow> gone xs m e k \<or> xs ! e = Delete k \<and> seen xs m e k"
  by (auto simp: gone_def less_Suc_eq)

lemma not_seen_before:
  assumes "once xs m" and "e < length xs" and "xs ! e = Insert k" and "i \<le> e"
  shows "\<not> seen xs m i k"
proof -
  have "i' = e" if "i' < i" "xs ! i' = Insert k" for i' using assms that unfolding once_def by (meson less_le_trans order_less_trans)
  then show ?thesis using assms unfolding seen_def once_def by (metis less_le_not_le)
qed

lemma fast_live:
  assumes o: "once xs m" and F: "holds_epoch b xs m F"
  shows "e \<le> length xs \<Longrightarrow> live (at_slot b xs m e) k = (if seen xs m e k \<and> \<not> gone xs m e k then F k else None)"
proof (induction e)
  case 0
  then show ?case using F by (simp add: start_index_def seen_def gone_def holds_epoch_def)
next
  case (Suc e)
  then have e: "e < length xs" and IH: "live (at_slot b xs m e) k = (if seen xs m e k \<and> \<not> gone xs m e k then F k else None)" by simp_all
  show ?case
  proof (cases "xs ! e = Insert k")
    case True
    have ns: "\<not> seen xs m i k" if "i \<le> e" for i using not_seen_before [OF o e True that] .
    have "\<not> gone xs m e k" using ns by (auto simp: gone_def)
    moreover have "F k = Some (slot_crid b xs m e)" using F e True by (simp add: holds_epoch_def)
    ultimately show ?thesis unfolding live_event [OF e] IH using True ns [of e] by (simp add: seen_Suc gone_Suc)
  next
    case False
    then show ?thesis unfolding live_event [OF e] IH by (auto simp: seen_Suc gone_Suc)
  qed
qed

lemma once_creates:
  assumes o: "once xs m" and F: "holds_epoch b xs m F" and e: "e < length xs"
  shows "creates b xs m e \<longleftrightarrow> (\<exists>k. xs ! e = Insert k)"
proof -
  have "live (at_slot b xs m e) k = None" if "xs ! e = Insert k" for k
    using fast_live [OF o F, of e k] not_seen_before [OF o e that, of e] e by simp
  then show ?thesis by (auto simp: creates_def)
qed

text \<open>The record an operation is given.\<close>

definition fast_rid :: "index_op list \<Rightarrow> (u32 \<rightharpoonup> u32) \<Rightarrow> (u32 \<rightharpoonup> u32) \<Rightarrow> nat \<Rightarrow> u32 option" where
  "fast_rid xs m F e = (let k = key_of (xs ! e) in if seen xs m (Suc e) k \<and> \<not> gone xs m e k then F k else None)"

lemma serial_rid_fast:
  assumes o: "once xs m" and F: "holds_epoch b xs m F" and e: "e < length xs"
  shows "serial_rid b (xs ! e) (at_slot b xs m e) = fast_rid xs m F e"
proof (cases "xs ! e")
  case (Insert k)
  have ns: "\<not> seen xs m i k" if "i \<le> e" for i using not_seen_before [OF o e Insert that] .
  then have "\<not> gone xs m e k" "\<not> gone xs m (Suc e) k" using Insert by (auto simp: gone_def less_Suc_eq)
  moreover have "serial_rid b (xs ! e) (at_slot b xs m e) = live (at_slot b xs m (Suc e)) k" using Insert by (simp add: at_slot_Suc [OF e])
  ultimately show ?thesis using fast_live [OF o F, of "Suc e" k] e Insert by (simp add: fast_rid_def)
next
  case (Delete k)
  then show ?thesis using fast_live [OF o F, of e k] e by (simp add: fast_rid_def seen_Suc)
next
  case (Access k)
  then show ?thesis using fast_live [OF o F, of e k] e by (simp add: fast_rid_def seen_Suc)
qed

lemma holds_epoch_ex: "once xs m \<Longrightarrow> \<exists>F. holds_epoch b xs m F"
proof -
  assume o: "once xs m"
  let ?P = "\<lambda>k e. e < length xs \<and> xs ! e = Insert k"
  define F where "F k = (if m k \<noteq> None then m k else if \<exists>e. ?P k e then Some (slot_crid b xs m (THE e. ?P k e)) else None)" for k
  have "(THE e. ?P k e) = e" if "?P k e" for k e using that o unfolding once_def by (intro the_equality) blast+
  then have "holds_epoch b xs m F" using o unfolding holds_epoch_def F_def once_def by (auto; metis)
  then show ?thesis by blast
qed

definition insert_slots :: "index_op list \<Rightarrow> nat list" where
  "insert_slots xs = filter (\<lambda>e. \<exists>k. xs ! e = Insert k) [0..<length xs]"

lemma filter_creates_once: "once xs m \<Longrightarrow> e \<le> length xs \<Longrightarrow> filter (creates b xs m) [0..<e] = filter (\<lambda>e. \<exists>k. xs ! e = Insert k) [0..<e]"
  using holds_epoch_ex [of xs m b] once_creates by (intro filter_cong) auto

lemma slot_crid_once:
  assumes "once xs m" and "j < length (insert_slots xs)"
  shows "slot_crid b xs m (insert_slots xs ! j) = b + of_nat j"
proof -
  let ?P = "\<lambda>e. \<exists>k. xs ! e = Insert k"
  let ?e = "insert_slots xs ! j"
  have e: "?e < length xs" "?P ?e" using nth_mem [OF assms(2)] by (auto simp: insert_slots_def)
  then have i: "insert_slots xs ! length (filter ?P [0..<?e]) = ?e" "length (filter ?P [0..<?e]) < length (insert_slots xs)"
    using filter_index [of ?e "length xs" ?P] by (simp_all add: insert_slots_def)
  have "distinct (insert_slots xs)" by (simp add: insert_slots_def)
  then have "length (filter ?P [0..<?e]) = j" using i assms(2) by (simp add: nth_eq_iff_index_eq)
  then show ?thesis using filter_creates_once [OF assms(1), of ?e b] e(1) by (simp add: slot_crid_def)
qed

text \<open>The keys of the inserts, the slots and the ids that the fast path gives them.\<close>

definition insert_keys :: "index_op list \<Rightarrow> u32 list" where
  "insert_keys xs = map (\<lambda>e. key_of (xs ! e)) (insert_slots xs)"

lemma once_iff: "once xs m \<longleftrightarrow> distinct (insert_keys xs) \<and> (\<forall>k \<in> set (insert_keys xs). m k = None)"
proof -
  have slots: "e \<in> set (insert_slots xs) \<longleftrightarrow> e < length xs \<and> (\<exists>k. xs ! e = Insert k)" for e by (auto simp: insert_slots_def)
  have "distinct (insert_keys xs) \<longleftrightarrow> inj_on (\<lambda>e. key_of (xs ! e)) (set (insert_slots xs))"
    by (simp add: insert_keys_def distinct_map insert_slots_def)
  moreover have "inj_on (\<lambda>e. key_of (xs ! e)) (set (insert_slots xs)) \<longleftrightarrow>
      (\<forall>e < length xs. \<forall>k. xs ! e = Insert k \<longrightarrow> (\<forall>e' < length xs. xs ! e' = Insert k \<longrightarrow> e' = e))"
    (is "?l \<longleftrightarrow> ?r")
  proof
    assume l: ?l
    show ?r
    proof (intro allI impI)
      fix e k e' assume "e < length xs" "xs ! e = Insert k" "e' < length xs" "xs ! e' = Insert k"
      then show "e' = e" using inj_onD [OF l, of e' e] by (auto simp: slots)
    qed
  next
    assume r: ?r
    show ?l
    proof (rule inj_onI)
      fix e e' assume "e \<in> set (insert_slots xs)" "e' \<in> set (insert_slots xs)" "key_of (xs ! e) = key_of (xs ! e')"
      then show "e = e'" using r unfolding slots by fastforce
    qed
  qed
  moreover have "(\<forall>k \<in> set (insert_keys xs). m k = None) \<longleftrightarrow> (\<forall>e < length xs. \<forall>k. xs ! e = Insert k \<longrightarrow> m k = None)"
  proof -
    have "(\<forall>k \<in> set (insert_keys xs). m k = None) \<longleftrightarrow> (\<forall>e. e < length xs \<and> (\<exists>k. xs ! e = Insert k) \<longrightarrow> m (key_of (xs ! e)) = None)"
      by (auto simp: insert_keys_def slots)
    also have "\<dots> \<longleftrightarrow> (\<forall>e < length xs. \<forall>k. xs ! e = Insert k \<longrightarrow> m k = None)" by auto
    finally show ?thesis .
  qed
  ultimately show ?thesis unfolding once_def by blast
qed

lemma holds_epoch_inserted:
  assumes o: "once xs m" and F: "F = m ++ map_of (zip (insert_keys xs) (map (\<lambda>j. b + of_nat j) [0..<length (insert_keys xs)]))"
  shows "holds_epoch b xs m F"
proof -
  let ?ks = "insert_keys xs" and ?I = "insert_slots xs"
  let ?kv = "zip ?ks (map (\<lambda>j. b + of_nat j) [0..<length ?ks])"
  have d: "distinct ?ks" "\<forall>k \<in> set ?ks. m k = None" using o by (simp_all add: once_iff)
  have at: "map_of ?kv (?ks ! j) = Some (b + of_nat j)" if "j < length ?ks" for j
    using that d(1) map_of_zip_nth [of ?ks "map (\<lambda>j. b + of_nat j) [0..<length ?ks]" j] by simp
  have no: "map_of ?kv k = None \<longleftrightarrow> k \<notin> set ?ks" for k by (simp add: map_of_zip_is_None)
  have "F k = Some (slot_crid b xs m e)" if "e < length xs" "xs ! e = Insert k" for e k
  proof -
    have "e \<in> set ?I" using that by (auto simp: insert_slots_def)
    then obtain j where j: "j < length ?I" "?I ! j = e" by (auto simp: in_set_conv_nth)
    then have "?ks ! j = k" using that by (simp add: insert_keys_def)
    then show ?thesis using at [of j] j slot_crid_once [OF o j(1), of b] by (simp add: F insert_keys_def)
  qed
  moreover have "F k = m k" if "m k \<noteq> None" for k proof -
    have "k \<notin> set ?ks" using that d(2) by auto
    then have "map_of ?kv k = None" by (simp only: no not_False_eq_True)
    then show ?thesis unfolding F map_add_def by (simp only: option.case)
  qed
  moreover have "F k = None" if "m k = None" "\<forall>e < length xs. xs ! e \<noteq> Insert k" for k
  proof -
    have "k \<notin> set ?ks" using that(2) by (auto simp: insert_keys_def insert_slots_def)
    then have "map_of ?kv k = None" by (simp only: no not_False_eq_True)
    then show ?thesis unfolding F map_add_def that(1) by (simp only: option.case)
  qed
  ultimately show ?thesis unfolding holds_epoch_def by blast
qed

text \<open>What the compactions of the insert keys and slots give.\<close>

lemma compaction:
  assumes "\<forall>e < 10 * length txns. slot_key txns e \<noteq> kAbsent"
  defines "ins \<equiv> ti_ins_key (k_extract_ops txns)"
  shows "filter (\<lambda>k. k \<noteq> kAbsent) ins = insert_keys (epoch_ops txns)"
    and "filter (\<lambda>e. ins ! e \<noteq> kAbsent) [0..<length ins] = insert_slots (epoch_ops txns)"
proof -
  let ?f = "\<lambda>e. if slot_op txns e = INSERT then slot_key txns e else kAbsent"
  have P: "?f e \<noteq> kAbsent \<longleftrightarrow> (\<exists>k. epoch_ops txns ! e = Insert k)" if "e \<in> set [0..<10 * length txns]" for e
    using assms(1) that by auto
  have l: "filter (\<lambda>e. ?f e \<noteq> kAbsent) [0..<10 * length txns] = insert_slots (epoch_ops txns)"
    unfolding insert_slots_def length_epoch_ops by (rule filter_cong [OF refl P])
  have "filter (\<lambda>e. ins ! e \<noteq> kAbsent) [0..<length ins] = filter (\<lambda>e. ?f e \<noteq> kAbsent) [0..<10 * length txns]"
    unfolding ins_def k_extract_ops_def by (intro filter_cong) auto
  then show "filter (\<lambda>e. ins ! e \<noteq> kAbsent) [0..<length ins] = insert_slots (epoch_ops txns)" using l by simp
  have "filter (\<lambda>k. k \<noteq> kAbsent) ins = map ?f (filter (\<lambda>e. ?f e \<noteq> kAbsent) [0..<10 * length txns])"
    unfolding ins_def k_extract_ops_def by (simp add: filter_map comp_def)
  then have "filter (\<lambda>k. k \<noteq> kAbsent) ins = map ?f (insert_slots (epoch_ops txns))" using l by simp
  also have "\<dots> = insert_keys (epoch_ops txns)" unfolding insert_keys_def by (rule map_cong) (auto simp: insert_slots_def)
  finally show "filter (\<lambda>k. k \<noteq> kAbsent) ins = insert_keys (epoch_ops txns)" .
qed

subsection \<open>The kernels of the fast path\<close>

text \<open>\<open>N\<close> is the number of records there can be.\<close>

definition fast_ok :: "u32 \<Rightarrow> nat \<Rightarrow> index_op list \<Rightarrow> (u32 \<rightharpoonup> u32) \<Rightarrow> (u32 \<rightharpoonup> u32) \<Rightarrow> bool" where
  "fast_ok b N xs m F \<longleftrightarrow> once xs m \<and> holds_epoch b xs m F \<and> (\<forall>c \<in> ran m. unat c < unat b) \<and> inj_on m (dom m) \<and>
     unat b + length (insert_slots xs) \<le> N \<and> N < 2 ^ 32 \<and> length xs < 2 ^ 32"

lemma fast_cases:
  assumes ok: "fast_ok b N xs m F" and F: "F k = Some c"
  shows "m k = Some c \<and> unat c < unat b \<or>
    m k = None \<and> (\<exists>j < length (insert_slots xs). xs ! (insert_slots xs ! j) = Insert k \<and> unat c = unat b + j)"
proof (cases "m k")
  case None
  then obtain e where e: "e < length xs" "xs ! e = Insert k" using ok F unfolding fast_ok_def holds_epoch_def by (metis option.distinct(1))
  then have "e \<in> set (insert_slots xs)" by (auto simp: insert_slots_def)
  then obtain j where j: "j < length (insert_slots xs)" "insert_slots xs ! j = e" by (auto simp: in_set_conv_nth)
  have "once xs m" "F k = Some (slot_crid b xs m e)" using ok e by (simp_all add: fast_ok_def holds_epoch_def)
  then have "c = b + of_nat j" using slot_crid_once [OF _ j(1), of m b] j(2) F by simp
  then have "unat c = unat b + j" using ok j(1) by (simp add: fast_ok_def unat_word_ariths unat_of_nat)
  then show ?thesis using None j e(2) by blast
next
  case (Some c')
  then have "F k = m k" using ok by (simp add: fast_ok_def holds_epoch_def)
  then show ?thesis using Some F ok by (auto simp: fast_ok_def ran_def)
qed

lemma fast_range:
  assumes ok: "fast_ok b N xs m F" and F: "F k = Some c"
  shows "unat c < N" and "c \<noteq> kAbsent"
proof -
  show l: "unat c < N" using fast_cases [OF ok F] ok by (auto simp: fast_ok_def)
  show "c \<noteq> kAbsent" using l ok by (auto simp: fast_ok_def kAbsent_def)
qed

lemma fast_inj:
  assumes ok: "fast_ok b N xs m F" and F: "F k = Some c" "F k' = Some c"
  shows "k = k'"
proof -
  have "m k = Some c \<and> m k' = Some c \<or>
    (\<exists>j < length (insert_slots xs). xs ! (insert_slots xs ! j) = Insert k \<and> xs ! (insert_slots xs ! j) = Insert k')"
    using fast_cases [OF ok F(1)] fast_cases [OF ok F(2)] by auto
  then show ?thesis
  proof
    assume "m k = Some c \<and> m k' = Some c"
    moreover have "inj_on m (dom m)" using ok by (simp add: fast_ok_def)
    ultimately show ?thesis using inj_onD [of m "dom m" k k'] by (simp add: domIff)
  qed auto
qed

lemma fastLookup_seen:
  assumes ok: "fast_ok b N xs m F" and e: "e < length xs"
  shows "fastLookup (\<lambda>k. rid_word (F k)) k e b (of_nat (length (insert_slots xs))) (insert_slots xs) =
    (if seen xs m (Suc e) k then rid_word (F k) else kAbsent)"
proof (cases "F k")
  case None
  then show ?thesis by (simp add: fastLookup_def rid_word_def)
next
  case (Some c)
  note c = fast_range [OF ok Some]
  let ?I = "insert_slots xs"
  have n: "unat (of_nat (length ?I) :: u32) = length ?I" using ok by (simp add: fast_ok_def unat_of_nat)
  from fast_cases [OF ok Some] show ?thesis
  proof
    assume m: "m k = Some c \<and> unat c < unat b"
    then have "unat (c - b) = 2 ^ 32 + unat c - unat b" by (simp add: unat_sub_if_size word_size)
    moreover have "unat b + length ?I < 2 ^ 32" using ok by (simp add: fast_ok_def)
    ultimately have "\<not> c - b < of_nat (length ?I)" by (simp add: word_less_nat_alt n)
    then show ?thesis using m by (simp add: fastLookup_def Some rid_word_def seen_def)
  next
    assume "m k = None \<and> (\<exists>j < length ?I. xs ! (?I ! j) = Insert k \<and> unat c = unat b + j)"
    then obtain j where j: "j < length ?I" "xs ! (?I ! j) = Insert k" "unat c = unat b + j" and m: "m k = None" by blast
    have "unat (c - b) = j" using j(3) by (simp add: unat_sub word_le_nat_alt)
    then have cb: "c - b < of_nat (length ?I)" "unat (c - b) = j" using j(1) by (simp_all add: word_less_nat_alt n)
    have o: "once xs m" and lt: "?I ! j < length xs" using ok nth_mem [OF j(1)] by (auto simp: fast_ok_def insert_slots_def)
    have "seen xs m (Suc e) k \<longleftrightarrow> \<not> e < ?I ! j"
    proof
      assume "seen xs m (Suc e) k"
      then obtain i where i: "i < Suc e" "xs ! i = Insert k" using m by (auto simp: seen_def)
      then have "i = ?I ! j" using o lt j(2) e unfolding once_def by (meson less_le_trans Suc_leI)
      then show "\<not> e < ?I ! j" using i(1) by simp
    next
      assume "\<not> e < ?I ! j"
      then show "seen xs m (Suc e) k" using j(2) by (auto simp: seen_def)
    qed
    then show ?thesis using cb c(2) by (simp add: fastLookup_def Some rid_word_def)
  qed
qed

text \<open>The atomic minimum.\<close>

lemma fold_min_at:
  fixes f :: "nat \<Rightarrow> nat option" and dp :: "u32 list"
  shows "x < length dp \<Longrightarrow>
    v \<le> fold (\<lambda>e dp. case f e of None \<Rightarrow> dp | Some y \<Rightarrow> dp[y := min (dp ! y) (of_nat e)]) es dp ! x \<longleftrightarrow>
    v \<le> dp ! x \<and> (\<forall>e \<in> set es. f e = Some x \<longrightarrow> v \<le> of_nat e)"
proof (induction es arbitrary: dp)
  case (Cons e es)
  let ?dp = "case f e of None \<Rightarrow> dp | Some y \<Rightarrow> dp[y := min (dp ! y) (of_nat e)]"
  have "x < length ?dp" using Cons.prems by (simp split: option.splits)
  moreover have "v \<le> ?dp ! x \<longleftrightarrow> v \<le> dp ! x \<and> (f e = Some x \<longrightarrow> v \<le> of_nat e)"
    using Cons.prems by (cases "f e"; cases "the (f e) = x") auto
  ultimately show ?case using Cons.IH [of ?dp] by auto
qed simp

lemma length_fold_min [simp]:
  "length (fold (\<lambda>e dp. case f e of None \<Rightarrow> dp | Some y \<Rightarrow> dp[y := g dp y e]) es dp) = length dp"
  by (induction es arbitrary: dp) (auto split: option.splits)

text \<open>The record that the delete of a slot is recorded for.\<close>

definition deleted_rid :: "index_op list \<Rightarrow> (u32 \<rightharpoonup> u32) \<Rightarrow> (u32 \<rightharpoonup> u32) \<Rightarrow> nat \<Rightarrow> nat option" where
  "deleted_rid xs m F e =
     (case xs ! e of Delete k \<Rightarrow> if seen xs m e k then map_option unat (F k) else None | _ \<Rightarrow> None)"

lemma record_deletes_fold:
  assumes ok: "fast_ok b N (epoch_ops txns) m F" and ord: "set ord = {0..<10 * length txns}"
  defines "xs \<equiv> epoch_ops txns"
  shows "k_record_deletes ord txns (\<lambda>k. rid_word (F k)) b (of_nat (length (insert_slots xs))) (insert_slots xs) dp =
    fold (\<lambda>e dp. case deleted_rid xs m F e of None \<Rightarrow> dp | Some y \<Rightarrow> dp[y := min (dp ! y) (of_nat e)]) ord dp"
  unfolding k_record_deletes_def
proof (rule fold_cong [OF refl refl], rule ext)
  fix e dp assume "e \<in> set ord"
  then have e: "e < length xs" using ord by (simp add: xs_def)
  let ?k = "slot_key txns e"
  note look = fastLookup_seen [OF ok, folded xs_def, OF e, of ?k]
  have r: "rid_word (F ?k) = kAbsent \<longleftrightarrow> F ?k = None" "F ?k = Some c \<Longrightarrow> rid_word (F ?k) = c" for c
    using fast_range(2) [OF ok, of ?k] by (auto simp: rid_word_def split: option.splits)
  have "xs ! e = op_of (slot_op txns e) ?k" using e by (simp add: xs_def)
  then have "deleted_rid xs m F e =
      (if slot_op txns e = DELETE \<and> seen xs m (Suc e) ?k then map_option unat (F ?k) else None)"
    by (cases "slot_op txns e") (simp_all add: deleted_rid_def seen_Suc)
  then show "(if slot_op txns e \<noteq> DELETE then dp
       else let rid = fastLookup (\<lambda>k. rid_word (F k)) ?k e b (of_nat (length (insert_slots xs))) (insert_slots xs)
            in if rid \<noteq> kAbsent then dp[unat rid := min (dp ! unat rid) (of_nat e)] else dp) =
      (case deleted_rid xs m F e of None \<Rightarrow> dp | Some y \<Rightarrow> dp[y := min (dp ! y) (of_nat e)])"
    unfolding look using r by (cases "F ?k") (auto simp: Let_def)
qed

lemma of_nat_less_u32: "i < 2 ^ 32 \<Longrightarrow> j < 2 ^ 32 \<Longrightarrow> (of_nat i :: u32) < of_nat j \<longleftrightarrow> i < j"
  by (simp add: word_less_nat_alt unat_of_nat)

lemma recorded_gone:
  assumes ok: "fast_ok b N xs m F" and ord: "set ord = {0..<length xs}" and F: "F k = Some c" and e: "e \<le> length xs"
  defines "dp \<equiv> fold (\<lambda>e dp. case deleted_rid xs m F e of None \<Rightarrow> dp | Some y \<Rightarrow> dp[y := min (dp ! y) (of_nat e)]) ord (replicate N kAbsent)"
  shows "dp ! unat c < of_nat e \<longleftrightarrow> gone xs m e k"
proof -
  have len: "length xs < 2 ^ 32" using ok by (simp add: fast_ok_def)
  have c: "unat c < N" using fast_range [OF ok F] by simp
  have "kAbsent = - 1" by (simp add: kAbsent_def)
  then have "of_nat e \<le> kAbsent" by (metis word_order.extremum)
  then have "of_nat e \<le> dp ! unat c \<longleftrightarrow> (\<forall>i < length xs. deleted_rid xs m F i = Some (unat c) \<longrightarrow> of_nat e \<le> (of_nat i :: u32))"
    using fold_min_at [of "unat c" "replicate N kAbsent" "of_nat e" "deleted_rid xs m F" ord] c ord by (simp add: dp_def Ball_def)
  then have "dp ! unat c < of_nat e \<longleftrightarrow> (\<exists>i < length xs. deleted_rid xs m F i = Some (unat c) \<and> (of_nat i :: u32) < of_nat e)"
    by (meson linorder_not_le)
  also have "\<dots> \<longleftrightarrow> (\<exists>i < e. deleted_rid xs m F i = Some (unat c))"
  proof -
    have lt: "(of_nat i :: u32) < of_nat e \<longleftrightarrow> i < e" if "i < length xs" for i using that e len by (intro of_nat_less_u32) simp_all
    have "(\<exists>i < length xs. deleted_rid xs m F i = Some (unat c) \<and> (of_nat i :: u32) < of_nat e) \<longleftrightarrow>
        (\<exists>i < length xs. deleted_rid xs m F i = Some (unat c) \<and> i < e)" by (rule ex_cong1) (use lt in blast)
    also have "\<dots> \<longleftrightarrow> (\<exists>i < e. deleted_rid xs m F i = Some (unat c))" using e by (meson less_le_trans)
    finally show ?thesis .
  qed
  also have "\<dots> \<longleftrightarrow> (\<exists>i < e. xs ! i = Delete k \<and> seen xs m i k)"
  proof -
    have "deleted_rid xs m F i = Some (unat c) \<longleftrightarrow> xs ! i = Delete k \<and> seen xs m i k" for i
    proof (cases "xs ! i")
      case (Delete k')
      have "map_option unat (F k') = Some (unat c) \<longleftrightarrow> k' = k"
      proof
        assume "map_option unat (F k') = Some (unat c)"
        then have "F k' = Some c" by (auto simp: word_unat_eq_iff)
        then show "k' = k" using fast_inj [OF ok F] by blast
      qed (use F in simp)
      then show ?thesis using Delete by (auto simp: deleted_rid_def)
    qed (simp_all add: deleted_rid_def)
    then show ?thesis by simp
  qed
  finally show ?thesis by (simp add: gone_def)
qed

text \<open>The kernels resolve every operation as the serial run does.\<close>

lemma index_kernel_fast:
  assumes ok: "fast_ok b N (epoch_ops txns) m F" and ord: "set ord = {0..<10 * length txns}"
    and dp: "case dps of None \<Rightarrow> \<forall>e < 10 * length txns. slot_op txns e \<noteq> DELETE
      | Some dp \<Rightarrow> dp = k_record_deletes ord txns (\<lambda>k. rid_word (F k)) b (of_nat (length (insert_slots (epoch_ops txns))))
                      (insert_slots (epoch_ops txns)) (replicate N kAbsent)"
  defines "xs \<equiv> epoch_ops txns"
  shows "indexYcsbKernel txns (\<lambda>k. rid_word (F k)) b (of_nat (length (insert_slots xs))) (insert_slots xs) dps =
    map (\<lambda>tid. index_param (txns ! tid) (\<lambda>i. rid_word (fast_rid xs m F (tid * 10 + i)))) [0..<length txns]"
proof -
  have lookup: "(case dps of None \<Rightarrow> rid | Some dp \<Rightarrow> if rid \<noteq> kAbsent \<and> dp ! unat rid < of_nat e then kAbsent else rid) =
      rid_word (fast_rid xs m F e)"
    if e: "e < length xs" and k: "k = key_of (xs ! e)" and rid: "rid = (if seen xs m (Suc e) k then rid_word (F k) else kAbsent)" for e k rid
  proof (cases "seen xs m (Suc e) k \<and> F k \<noteq> None")
    case False
    then show ?thesis using k rid by (auto simp: fast_rid_def rid_word_def Let_def split: option.splits if_splits)
  next
    case True
    then obtain c where c: "F k = Some c" "rid = c" using rid by (auto simp: rid_word_def)
    show ?thesis
    proof (cases dps)
      case None
      then have "\<not> gone xs m e k" using dp e by (auto simp: gone_def xs_def)
      then show ?thesis using None True c k by (simp add: fast_rid_def rid_word_def)
    next
      case (Some d)
      then have "d ! unat c < of_nat e \<longleftrightarrow> gone xs m e k"
        using dp recorded_gone [OF ok _ c(1), folded xs_def, of ord e] e ord record_deletes_fold [OF ok ord, folded xs_def]
        by (simp add: xs_def)
      then show ?thesis using Some True c k fast_range(2) [OF ok c(1)] by (auto simp: fast_rid_def rid_word_def)
    qed
  qed
  have "index_param (txns ! tid) (\<lambda>i.
       let slot = tid * 10 + i;
           rid = fastLookup (\<lambda>k. rid_word (F k)) (txn_keys (txns ! tid) ! i) slot b (of_nat (length (insert_slots xs))) (insert_slots xs)
       in case dps of None \<Rightarrow> rid
          | Some dp \<Rightarrow> if rid \<noteq> kAbsent \<and> dp ! unat rid < of_nat slot then kAbsent else rid) =
      index_param (txns ! tid) (\<lambda>i. rid_word (fast_rid xs m F (tid * 10 + i)))" if tid: "tid < length txns" for tid
  proof -
    have "(case dps of None \<Rightarrow> rid | Some dp \<Rightarrow> if rid \<noteq> kAbsent \<and> dp ! unat rid < of_nat (tid * 10 + i) then kAbsent else rid) =
        rid_word (fast_rid xs m F (tid * 10 + i))"
      if i: "i < 10" and rid: "rid = fastLookup (\<lambda>k. rid_word (F k)) (txn_keys (txns ! tid) ! i) (tid * 10 + i) b
        (of_nat (length (insert_slots xs))) (insert_slots xs)" for i rid
    proof (rule lookup)
      show e: "tid * 10 + i < length xs" using tid i by (simp add: xs_def)
      show "txn_keys (txns ! tid) ! i = key_of (xs ! (tid * 10 + i))" using e i by (simp add: xs_def)
      show "rid = (if seen xs m (Suc (tid * 10 + i)) (txn_keys (txns ! tid) ! i) then rid_word (F (txn_keys (txns ! tid) ! i)) else kAbsent)"
        unfolding rid using fastLookup_seen [OF ok, folded xs_def, OF e] .
    qed
    then show ?thesis by (simp add: index_param_def Let_def)
  qed
  then show ?thesis unfolding indexYcsbKernel_def by (intro map_cong refl) auto
qed

subsection \<open>The effective deletes\<close>

definition fast_params :: "YcsbTxn list \<Rightarrow> (u32 \<rightharpoonup> u32) \<Rightarrow> (u32 \<rightharpoonup> u32) \<Rightarrow> YcsbTxnParam list" where
  "fast_params txns m F = map (\<lambda>tid. index_param (txns ! tid) (\<lambda>i. rid_word (fast_rid (epoch_ops txns) m F (tid * 10 + i)))) [0..<length txns]"

lemma fast_params_rid:
  "e < 10 * length txns \<Longrightarrow> record_ids (fast_params txns m F ! (e div 10)) ! (e mod 10) = rid_word (fast_rid (epoch_ops txns) m F e)"
  by (simp add: fast_params_def index_param_def)

lemma effective_ends:
  assumes ok: "fast_ok b N (epoch_ops txns) m F" and ord: "set ord = {0..<10 * length txns}" and e: "e < 10 * length txns"
    and dp: "dp = k_record_deletes ord txns (\<lambda>k. rid_word (F k)) b (of_nat (length (insert_slots (epoch_ops txns))))
      (insert_slots (epoch_ops txns)) (replicate N kAbsent)"
  shows "effective txns (fast_params txns m F) dp e \<longleftrightarrow> ends b (epoch_ops txns) m e"
    and "ends b (epoch_ops txns) m e \<Longrightarrow> rid_word (fast_rid (epoch_ops txns) m F e) = the (live (at_slot b (epoch_ops txns) m e) (slot_key txns e))"
proof -
  let ?xs = "epoch_ops txns" and ?k = "slot_key txns e"
  have o: "once ?xs m" "holds_epoch b ?xs m F" and len: "length ?xs < 2 ^ 32" using ok by (simp_all add: fast_ok_def)
  have el: "e < length ?xs" using e by simp
  have live: "slot_op txns e = DELETE \<Longrightarrow> live (at_slot b ?xs m e) ?k = fast_rid ?xs m F e"
    using fast_live [OF o, of e ?k] e by (simp add: fast_rid_def seen_Suc Let_def)
  have gone: "F ?k = Some c \<Longrightarrow> i \<le> length ?xs \<Longrightarrow> dp ! unat c < of_nat i \<longleftrightarrow> gone ?xs m i ?k" for c i
    using recorded_gone [OF ok _ _, of ord ?k c i] record_deletes_fold [OF ok ord] ord dp by simp
  have at: "dp ! unat c = of_nat e" if "slot_op txns e = DELETE" "fast_rid ?xs m F e = Some c" for c
  proof -
    have c: "seen ?xs m e ?k" "\<not> gone ?xs m e ?k" "F ?k = Some c"
      using that e by (auto simp: fast_rid_def seen_Suc Let_def split: if_splits)
    then have "gone ?xs m (Suc e) ?k" using that(1) e by (simp add: gone_Suc)
    then have "dp ! unat c < of_nat (Suc e)" "\<not> dp ! unat c < of_nat e" using gone [OF c(3)] c(2) el by (simp_all del: of_nat_Suc)
    then have "unat (dp ! unat c) = e"
      using len el by (simp add: word_less_nat_alt unat_of_nat del: of_nat_Suc)
    then show ?thesis by auto
  qed
  have rid: "fast_rid ?xs m F e \<noteq> Some kAbsent"
    using fast_range(2) [OF ok, of ?k] e by (auto simp: fast_rid_def Let_def split: if_splits)
  have "effective txns (fast_params txns m F) dp e \<longleftrightarrow> slot_op txns e = DELETE \<and> fast_rid ?xs m F e \<noteq> None"
    using at rid by (auto simp: effective_def Let_def fast_params_rid [OF e] rid_word_def split: option.splits)
  also have "\<dots> \<longleftrightarrow> ends b ?xs m e" using live e by (cases "fast_rid ?xs m F e") (auto simp: ends_def)
  finally show "effective txns (fast_params txns m F) dp e \<longleftrightarrow> ends b ?xs m e" .
  show "rid_word (fast_rid ?xs m F e) = the (live (at_slot b ?xs m e) ?k)" if "ends b ?xs m e"
    using that live e by (auto simp: ends_def rid_word_def)
qed

lemma effective_lists:
  assumes ok: "fast_ok b N (epoch_ops txns) m F" and ord: "set ord = {0..<10 * length txns}"
    and dp: "dp = k_record_deletes ord txns (\<lambda>k. rid_word (F k)) b (of_nat (length (insert_slots (epoch_ops txns))))
      (insert_slots (epoch_ops txns)) (replicate N kAbsent)"
    and eff: "k_effective_deletes txns (fast_params txns m F) dp keys crids = (keys', crids', flags)"
  shows "zip (select_flagged keys' flags) (select_flagged crids' flags) = ended (at_slot b (epoch_ops txns) m (10 * length txns))"
    and "length (select_flagged crids' flags) = length (select_flagged keys' flags)"
proof -
  let ?xs = "epoch_ops txns"
  let ?es = "filter (ends b ?xs m) [0..<10 * length txns]" and ?eff = "effective txns (fast_params txns m F) dp"
  have flt: "filter ?eff [0..<10 * length txns] = ?es" by (rule filter_cong) (auto simp: effective_ends(1) [OF ok ord _ dp])
  have sel: "select_flagged (map f ys) (map ?eff ys) = map f (filter ?eff ys)" for f :: "nat \<Rightarrow> u32" and ys
    by (induction ys) (auto simp: select_flagged_def)
  have "select_flagged keys' flags = map (\<lambda>e. if ?eff e then slot_key txns e else keys ! e) ?es"
    using eff by (auto simp: k_effective_deletes_def Let_def sel flt)
  also have "\<dots> = map (\<lambda>e. slot_key txns e) ?es" by (rule map_cong) (auto simp: effective_ends(1) [OF ok ord _ dp])
  finally have k: "select_flagged keys' flags = map (\<lambda>e. slot_key txns e) ?es" .
  have "select_flagged crids' flags =
      map (\<lambda>e. if ?eff e then record_ids (fast_params txns m F ! (e div 10)) ! (e mod 10) else crids ! e) ?es"
    using eff by (auto simp: k_effective_deletes_def Let_def sel flt)
  also have "\<dots> = map (\<lambda>e. the (live (at_slot b ?xs m e) (slot_key txns e))) ?es"
    by (rule map_cong) (auto simp: effective_ends [OF ok ord _ dp] fast_params_rid)
  finally have c: "select_flagged crids' flags = map (\<lambda>e. the (live (at_slot b ?xs m e) (slot_key txns e))) ?es" .
  have "ended (at_slot b ?xs m (10 * length txns)) =
      map (\<lambda>e. (slot_key txns e, the (live (at_slot b ?xs m e) (slot_key txns e)))) ?es"
    using ended_at_slot [of "10 * length txns" ?xs b m] by simp
  then show "zip (select_flagged keys' flags) (select_flagged crids' flags) = ended (at_slot b ?xs m (10 * length txns))"
    by (simp add: k c zip_map_map zip_same_conv_map)
  show "length (select_flagged crids' flags) = length (select_flagged keys' flags)" by (simp add: k c)
qed

text \<open>The index without the ended keys holds the live records.\<close>

lemma fast_erase:
  assumes ok: "fast_ok b N xs m F"
  shows "live (at_slot b xs m (length xs)) k = (if k \<in> fst ` set (ended (at_slot b xs m (length xs))) then None else F k)"
proof -
  have o: "once xs m" "holds_epoch b xs m F" using ok by (simp_all add: fast_ok_def)
  have "k \<in> fst ` set (ended (at_slot b xs m (length xs))) \<longleftrightarrow> (\<exists>e < length xs. xs ! e = Delete k \<and> live (at_slot b xs m e) k \<noteq> None)"
    unfolding ended_at_slot [OF order_refl] by (auto simp: ends_def image_iff)
  also have "\<dots> \<longleftrightarrow> F k \<noteq> None \<and> gone xs m (length xs) k"
  proof
    assume "\<exists>e < length xs. xs ! e = Delete k \<and> live (at_slot b xs m e) k \<noteq> None"
    then show "F k \<noteq> None \<and> gone xs m (length xs) k" using fast_live [OF o] by (auto simp: gone_def split: if_splits)
  next
    assume "F k \<noteq> None \<and> gone xs m (length xs) k"
    then have F: "F k \<noteq> None" and ex: "\<exists>e. e < length xs \<and> xs ! e = Delete k \<and> seen xs m e k" by (auto simp: gone_def)
    define e where "e = (LEAST e. e < length xs \<and> xs ! e = Delete k \<and> seen xs m e k)"
    have e: "e < length xs \<and> xs ! e = Delete k \<and> seen xs m e k" unfolding e_def using ex by (rule LeastI_ex)
    have "\<not> gone xs m e k" using not_less_Least [of _ "\<lambda>e. e < length xs \<and> xs ! e = Delete k \<and> seen xs m e k"] e
      unfolding gone_def e_def [symmetric] by auto
    then show "\<exists>e < length xs. xs ! e = Delete k \<and> live (at_slot b xs m e) k \<noteq> None" using fast_live [OF o, of e k] e F by auto
  qed
  finally have en: "k \<in> fst ` set (ended (at_slot b xs m (length xs))) \<longleftrightarrow> F k \<noteq> None \<and> gone xs m (length xs) k" .
  have "\<not> seen xs m (length xs) k \<Longrightarrow> F k = None" using o(2) by (auto simp: seen_def holds_epoch_def)
  then show ?thesis unfolding fast_live [OF o order_refl] en by auto
qed

text \<open>The positions of the ended records are cleared again, which leaves the array as it was before the epoch.\<close>

lemma gone_ended:
  assumes ok: "fast_ok b N xs m F" and g: "gone xs m (length xs) k" and F: "F k = Some c"
  shows "(k, c) \<in> set (ended (at_slot b xs m (length xs)))"
proof -
  have o: "once xs m" "holds_epoch b xs m F" using ok by (simp_all add: fast_ok_def)
  have "seen xs m (length xs) k" using g by (auto simp: gone_def seen_def)
  then have "k \<in> fst ` set (ended (at_slot b xs m (length xs)))"
    using fast_erase [OF ok, of k] fast_live [OF o order_refl, of k] g F by (auto split: if_splits)
  then obtain e where e: "e < length xs" "xs ! e = Delete k" "live (at_slot b xs m e) k \<noteq> None"
    unfolding ended_at_slot [OF order_refl] by (auto simp: ends_def)
  then have "live (at_slot b xs m e) k = Some c" using fast_live [OF o, of e k] F by (auto split: if_splits)
  then show ?thesis unfolding ended_at_slot [OF order_refl] using e by (force simp: ends_def image_iff)
qed

lemma reset_at:
  "x < length dp \<Longrightarrow> k_reset_positions cs dp ! x = (if x \<in> unat ` set cs then kAbsent else dp ! x)"
  "length (k_reset_positions cs dp) = length dp"
  unfolding k_reset_positions_def by (induction cs arbitrary: dp) (auto simp: nth_list_update)

lemma positions_reset:
  assumes ok: "fast_ok b N (epoch_ops txns) m F" and ord: "set ord = {0..<10 * length txns}"
    and dp: "dp = k_record_deletes ord txns (\<lambda>k. rid_word (F k)) b (of_nat (length (insert_slots (epoch_ops txns))))
      (insert_slots (epoch_ops txns)) (replicate N kAbsent)"
    and cs: "cs = map snd (ended (at_slot b (epoch_ops txns) m (10 * length txns)))"
  shows "k_reset_positions cs dp = replicate N kAbsent"
proof (rule nth_equalityI)
  let ?xs = "epoch_ops txns"
  have len: "length dp = N" using record_deletes_fold [OF ok ord] by (simp add: dp)
  then show "length (k_reset_positions cs dp) = length (replicate N kAbsent)" by (simp add: reset_at(2))
  fix x assume "x < length (k_reset_positions cs dp)"
  then have x: "x < N" by (simp add: reset_at(2) len)
  have "dp ! x = kAbsent" if no: "x \<notin> unat ` set cs"
  proof -
    have "deleted_rid ?xs m F e \<noteq> Some x" if e: "e \<in> set ord" for e
    proof
      assume "deleted_rid ?xs m F e = Some x"
      then obtain k c where k: "?xs ! e = Delete k" "seen ?xs m e k" "F k = Some c" "unat c = x"
        by (auto simp: deleted_rid_def split: index_op.splits if_splits)
      then have "gone ?xs m (length ?xs) k" using e ord unfolding gone_def by auto
      from gone_ended [OF ok this k(3)] show False using no k(4) by (force simp: cs)
    qed
    then have "kAbsent \<le> dp ! x"
      using fold_min_at [of x "replicate N kAbsent" kAbsent "deleted_rid ?xs m F" ord] x record_deletes_fold [OF ok ord] by (simp add: dp)
    moreover have "kAbsent = - 1" by (simp add: kAbsent_def)
    then have "dp ! x \<le> kAbsent" by (metis word_order.extremum)
    ultimately show ?thesis by simp
  qed
  then show "k_reset_positions cs dp ! x = replicate N kAbsent ! x" using x by (simp add: reset_at(1) len)
qed

end
