(* ===== verification/Index_Epoch.thy ===== *)
theory Index_Epoch
  imports Fast_Path
begin

text \<open>
  The epochs of the key index: over a hash map with the documented behaviour of the library, \<^verbatim>\<open>indexTxns\<close> gives every operation
  the record of the serial run, on both paths and for all orders of the threads, and a recovering process rebuilds
  the index of an earlier epoch from the logs.
\<close>

subsection \<open>What the hash map is relied on for\<close>

definition kErased :: u32 where "kErased = 0xfffffffe"

text \<open>\<open>single\<close>: no key has two entries. \<open>clean\<close>: no slot was erased since the map was made. An insert of new keys enters them. A clean map
  keeps the entry of a key that is inserted again; after an erase it may enter the key twice, and erasing a key
  as often as it was entered removes it (the comment on \<^verbatim>\<open>insertFresh\<close>).\<close>

definition enters :: "('m, 'z) static_map_scheme \<Rightarrow> nat \<Rightarrow> 'm \<Rightarrow> (u32 \<times> u32) list \<Rightarrow> bool" where
  "enters M cap m kvs \<longleftrightarrow> card (dom (map_find M m)) + length kvs \<le> cap \<and> (\<forall>k \<in> fst ` set kvs. k < kErased)"

definition insert_new :: "('m, 'z) static_map_scheme \<Rightarrow> nat \<Rightarrow> ('m \<Rightarrow> bool) \<Rightarrow> ('m \<Rightarrow> bool) \<Rightarrow> bool" where
  "insert_new M cap single clean \<longleftrightarrow>
     (\<forall>m kvs. single m \<longrightarrow> enters M cap m kvs \<longrightarrow> distinct (map fst kvs) \<longrightarrow> fst ` set kvs \<inter> dom (map_find M m) = {} \<longrightarrow>
        map_find M (map_insert M m kvs) = map_find M m ++ map_of kvs \<and> single (map_insert M m kvs) \<and>
        (clean m \<longrightarrow> clean (map_insert M m kvs)))"

definition insert_clean :: "('m, 'z) static_map_scheme \<Rightarrow> nat \<Rightarrow> ('m \<Rightarrow> bool) \<Rightarrow> ('m \<Rightarrow> bool) \<Rightarrow> bool" where
  "insert_clean M cap single clean \<longleftrightarrow>
     (\<forall>m kvs. single m \<longrightarrow> clean m \<longrightarrow> enters M cap m kvs \<longrightarrow>
        (let m' = map_insert M m kvs; new = fst ` set kvs - dom (map_find M m)
         in single m' \<and> clean m' \<and> map_size M m' = map_size M m + card new \<and>
            (\<forall>k. k \<notin> new \<longrightarrow> map_find M m' k = map_find M m k) \<and>
            (\<forall>k \<in> new. \<exists>v. (k, v) \<in> set kvs \<and> map_find M m' k = Some v)))"

definition insert_twice :: "('m, 'z) static_map_scheme \<Rightarrow> nat \<Rightarrow> ('m \<Rightarrow> bool) \<Rightarrow> bool" where
  "insert_twice M cap single \<longleftrightarrow>
     (\<forall>m kvs. single m \<longrightarrow> enters M cap m kvs \<longrightarrow> fst ` set kvs \<inter> dom (map_find M m) = {} \<longrightarrow>
        (let m' = map_insert M m kvs; m'' = map_erase M m' (map fst kvs)
         in (\<forall>k \<in> fst ` set kvs. \<exists>v. (k, v) \<in> set kvs \<and> map_find M m' k = Some v) \<and>
            single m'' \<and> map_find M m'' = map_find M m))"

definition erase_keys :: "('m, 'z) static_map_scheme \<Rightarrow> ('m \<Rightarrow> bool) \<Rightarrow> bool" where
  "erase_keys M single \<longleftrightarrow>
     (\<forall>m ks. single m \<longrightarrow> single (map_erase M m ks) \<and> map_find M (map_erase M m ks) = map_find M m |` (- set ks))"

definition cuco_ok :: "('m, 'z) static_map_scheme \<Rightarrow> nat \<Rightarrow> ('m \<Rightarrow> bool) \<Rightarrow> ('m \<Rightarrow> bool) \<Rightarrow> bool" where
  "cuco_ok M cap single clean \<longleftrightarrow>
     single (map_new M) \<and> clean (map_new M) \<and> map_find M (map_new M) = Map.empty \<and>
     insert_new M cap single clean \<and> insert_clean M cap single clean \<and> insert_twice M cap single \<and> erase_keys M single"

lemma cuco_insert:
  assumes "cuco_ok M cap single clean" and "single m" and "enters M cap m kvs"
    and "distinct (map fst kvs)" and "fst ` set kvs \<inter> dom (map_find M m) = {}"
  shows "map_find M (map_insert M m kvs) = map_find M m ++ map_of kvs" and "single (map_insert M m kvs)"
    and "clean m \<Longrightarrow> clean (map_insert M m kvs)"
  using assms unfolding cuco_ok_def insert_new_def by blast+

lemma cuco_erase:
  assumes "cuco_ok M cap single clean" and "single m"
  shows "single (map_erase M m ks)" and "map_find M (map_erase M m ks) = map_find M m |` (- set ks)"
  using assms unfolding cuco_ok_def erase_keys_def by blast+

lemma cuco_insert_clean:
  assumes M: "cuco_ok M cap single clean" and m: "single m" "clean m" "enters M cap m kvs"
  defines "m' \<equiv> map_insert M m kvs" and "new \<equiv> fst ` set kvs - dom (map_find M m)"
  shows "single m'" and "clean m'" and "map_size M m' = map_size M m + card new"
    and "k \<notin> new \<Longrightarrow> map_find M m' k = map_find M m k" and "k \<in> new \<Longrightarrow> \<exists>v. (k, v) \<in> set kvs \<and> map_find M m' k = Some v"
proof -
  have "insert_clean M cap single clean" using M by (simp add: cuco_ok_def)
  note law = this [unfolded insert_clean_def Let_def, rule_format, OF m, folded m'_def new_def]
  show "single m'" "clean m'" "map_size M m' = map_size M m + card new" using law by simp_all
  show "k \<notin> new \<Longrightarrow> map_find M m' k = map_find M m k" "k \<in> new \<Longrightarrow> \<exists>v. (k, v) \<in> set kvs \<and> map_find M m' k = Some v"
    using law by simp_all
qed

lemma cuco_insert_twice:
  assumes M: "cuco_ok M cap single clean" and m: "single m" "enters M cap m kvs" "fst ` set kvs \<inter> dom (map_find M m) = {}"
  defines "m' \<equiv> map_insert M m kvs"
  shows "k \<in> fst ` set kvs \<Longrightarrow> \<exists>v. (k, v) \<in> set kvs \<and> map_find M m' k = Some v"
    and "single (map_erase M m' (map fst kvs))" and "map_find M (map_erase M m' (map fst kvs)) = map_find M m"
proof -
  have "insert_twice M cap single" using M by (simp add: cuco_ok_def)
  note law = this [unfolded insert_twice_def Let_def, rule_format, OF m, folded m'_def]
  show "single (map_erase M m' (map fst kvs))" "map_find M (map_erase M m' (map fst kvs)) = map_find M m" using law by simp_all
  show "k \<in> fst ` set kvs \<Longrightarrow> \<exists>v. (k, v) \<in> set kvs \<and> map_find M m' k = Some v" using law by blast
qed

subsection \<open>The tentative insert\<close>

text \<open>The situation of an epoch: \<open>keys\<close> are inserted with the ids from \<open>b\<close> on.\<close>

definition tentative :: "u32 \<Rightarrow> u32 list \<Rightarrow> (u32 \<rightharpoonup> u32) \<Rightarrow> bool" where
  "tentative b keys mm \<longleftrightarrow> unat b + length keys < 2 ^ 32 \<and> (\<forall>c \<in> ran mm. unat c < unat b)"

definition id_range :: "u32 \<Rightarrow> nat \<Rightarrow> u32 list" where
  "id_range b n = map (\<lambda>j. b + of_nat j) [0..<n]"

lemma tentative_id:
  assumes "tentative b keys mm" and "j < length keys"
  shows "unat (b + of_nat j) = unat b + j" and "b + of_nat j \<noteq> kAbsent" and "b + of_nat j - b < of_nat (length keys)"
proof -
  show u: "unat (b + of_nat j) = unat b + j" using assms by (simp add: tentative_def unat_word_ariths unat_of_nat)
  then show "b + of_nat j \<noteq> kAbsent" using assms by (auto simp: tentative_def kAbsent_def)
  show "b + of_nat j - b < of_nat (length keys)" using assms by (simp add: tentative_def word_less_nat_alt unat_of_nat)
qed

lemma old_not_tentative:
  assumes "tentative b keys mm"
  shows "\<not> rid_word (mm k) - b < of_nat (length keys)" and "rid_word (mm k) = kAbsent \<longleftrightarrow> mm k = None"
proof -
  have lt: "unat b + length keys < 2 ^ 32" using assms by (simp add: tentative_def)
  then have n: "unat (of_nat (length keys) :: u32) = length keys" by (simp add: unat_of_nat)
  have "\<not> c - b < of_nat (length keys)" if "unat c < unat b" for c
    using that lt by (simp add: word_less_nat_alt n unat_sub_if_size word_size)
  moreover have "\<not> kAbsent - b < of_nat (length keys)"
    using lt by (simp add: word_less_nat_alt n unat_sub_if_size word_size kAbsent_def)
  ultimately show "\<not> rid_word (mm k) - b < of_nat (length keys)"
    using assms by (auto simp: rid_word_def tentative_def ran_def split: option.splits)
  have "unat kAbsent = 2 ^ 32 - 1" by (simp add: kAbsent_def)
  then have "mm k \<noteq> Some kAbsent" using assms unsigned_less [of b] by (fastforce simp: tentative_def ran_def)
  then show "rid_word (mm k) = kAbsent \<longleftrightarrow> mm k = None" by (auto simp: rid_word_def split: option.splits)
qed

lemma zip_ids: "map fst (zip keys (id_range b (length keys))) = keys" "fst ` set (zip keys (id_range b (length keys))) = set keys"
  "(k, v) \<in> set (zip keys (id_range b (length keys))) \<longleftrightarrow> (\<exists>j < length keys. k = keys ! j \<and> v = b + of_nat j)"
proof -
  show f: "map fst (zip keys (id_range b (length keys))) = keys" by (simp add: id_range_def)
  then show "fst ` set (zip keys (id_range b (length keys))) = set keys" by (metis list.set_map)
  show "(k, v) \<in> set (zip keys (id_range b (length keys))) \<longleftrightarrow> (\<exists>j < length keys. k = keys ! j \<and> v = b + of_nat j)"
    by (auto simp: set_zip id_range_def)
qed

lemma insertFresh_accepts:
  assumes M: "cuco_ok M cap single clean" and m: "single m" "\<not> er \<Longrightarrow> clean m" and t: "tentative b keys (map_find M m)"
    and room: "card (dom (map_find M m)) + length keys \<le> cap" and keys: "\<forall>k \<in> set keys. k < kErased"
    and new: "distinct keys" "\<forall>k \<in> set keys. map_find M m k = None"
  shows "\<exists>m'. insertFresh M er keys (id_range b (length keys)) b m = (True, m') \<and> single m' \<and> (\<not> er \<longrightarrow> clean m') \<and>
    map_find M m' = map_find M m ++ map_of (zip keys (id_range b (length keys)))"
proof -
  let ?kvs = "zip keys (id_range b (length keys))"
  define m' where "m' = map_insert M m ?kvs"
  have len: "length ?kvs = length keys" by (simp add: id_range_def)
  have e: "enters M cap m ?kvs" unfolding enters_def len zip_ids(2) using room keys by simp
  have dis: "fst ` set ?kvs \<inter> dom (map_find M m) = {}" unfolding zip_ids(2) using new(2) by auto
  note ins = cuco_insert [OF M m(1) e _ dis, unfolded zip_ids(1), OF new(1), folded m'_def]
  have no: "\<not> (\<exists>k \<in> set keys. look M m k \<noteq> kAbsent)" using new(2) by (simp add: look_def rid_word_def)
  have size: "map_size M m' = map_size M m + length keys" if "\<not> er"
  proof -
    have "map_size M m' = map_size M m + card (set keys - dom (map_find M m))"
      using cuco_insert_clean(3) [OF M m(1) m(2) [OF that] e] unfolding m'_def zip_ids(2) .
    moreover have "set keys - dom (map_find M m) = set keys" using new(2) by auto
    ultimately show ?thesis using new(1) by (simp add: distinct_card)
  qed
  have "map (look M m') keys = map (\<lambda>j. b + of_nat j) [0..<length keys]"
  proof (rule nth_equalityI)
    fix j assume "j < length (map (look M m') keys)"
    then have j: "j < length keys" by simp
    then have "map_of ?kvs (keys ! j) = Some (b + of_nat j)" using map_of_zip_nth [of keys "id_range b (length keys)" j] new(1) by (simp add: id_range_def)
    then show "map (look M m') keys ! j = map (\<lambda>j. b + of_nat j) [0..<length keys] ! j" using j by (simp add: look_def ins(1) rid_word_def)
  qed simp
  then have "insertFresh M er keys (id_range b (length keys)) b m = (True, m')"
    using no size by (auto simp: insertFresh_def Let_def simp flip: m'_def)
  then show ?thesis using ins m(2) by auto
qed

text \<open>A rejected insert is undone.\<close>

definition undone :: "('m, 'z) static_map_scheme \<Rightarrow> ('m \<Rightarrow> bool) \<Rightarrow> ('m \<Rightarrow> bool) \<Rightarrow> bool \<Rightarrow> (u32 \<rightharpoonup> u32) \<Rightarrow> nat \<times> 'm \<Rightarrow> bool" where
  "undone M single clean er mm r \<longleftrightarrow>
     single (snd r) \<and> map_find M (snd r) = mm \<and> (\<not> (0 < fst r \<or> er) \<longrightarrow> clean (snd r))"

lemma reject_clean:
  assumes M: "cuco_ok M cap single clean" and m: "single m" "clean m" and t: "tentative b keys (map_find M m)"
    and e: "enters M cap m (zip keys (id_range b (length keys)))"
    and old: "\<not> (distinct keys \<and> (\<forall>k \<in> set keys. map_find M m k = None))"
  shows "\<exists>m'. insertFresh M False keys (id_range b (length keys)) b m = (False, m') \<and>
    undone M single clean False (map_find M m) (eraseTentative M keys b m')"
proof -
  let ?kvs = "zip keys (id_range b (length keys))" and ?mm = "map_find M m"
  define m' where "m' = map_insert M m ?kvs"
  note law = cuco_insert_clean [OF M m e, unfolded zip_ids(2), folded m'_def]
  have "card (set keys - dom ?mm) \<noteq> length keys"
  proof
    assume c: "card (set keys - dom ?mm) = length keys"
    moreover have "card (set keys - dom ?mm) \<le> card (set keys)" "card (set keys) \<le> length keys" by (simp_all add: card_mono card_length)
    ultimately have d: "distinct keys" "card (set keys - dom ?mm) = card (set keys)" by (simp_all add: card_distinct)
    then have "set keys - dom ?mm = set keys" by (intro card_subset_eq) auto
    then show False using old d(1) by auto
  qed
  then have rej: "insertFresh M False keys (id_range b (length keys)) b m = (False, m')"
    by (simp add: insertFresh_def Let_def law(3) flip: m'_def)
  have tent: "look M m' k - b < of_nat (length keys) \<longleftrightarrow> ?mm k = None" if k: "k \<in> set keys" for k
  proof (cases "?mm k = None")
    case True
    then have "k \<in> set keys - dom ?mm" using k by auto
    then obtain v where "(k, v) \<in> set ?kvs" "map_find M m' k = Some v" using law(5) by blast
    then show ?thesis using True tentative_id(3) [OF t] by (auto simp: look_def rid_word_def zip_ids(3))
  next
    case False
    then show ?thesis using law(4) [of k] old_not_tentative(1) [OF t, of k] by (auto simp: look_def domIff)
  qed
  let ?er = "filter (\<lambda>k. look M m' k - b < of_nat (length keys)) keys"
  have er: "set ?er = set keys - dom ?mm" using tent by auto
  have "map_find M m' |` (- set ?er) = ?mm" unfolding er using law(4) by (auto simp: restrict_map_def fun_eq_iff domIff)
  moreover have "?er = [] \<Longrightarrow> map_find M m' = ?mm" using er law(4) by (auto simp: fun_eq_iff)
  ultimately have "undone M single clean False ?mm (eraseTentative M keys b m')"
    using cuco_erase [OF M law(1), of ?er] law(1,2) by (auto simp: undone_def eraseTentative_def Let_def)
  then show ?thesis using rej by blast
qed

lemma reject_erased:
  assumes M: "cuco_ok M cap single clean" and m: "single m" and t: "tentative b keys (map_find M m)"
    and e: "enters M cap m (zip keys (id_range b (length keys)))"
    and old: "\<not> (distinct keys \<and> (\<forall>k \<in> set keys. map_find M m k = None))"
  shows "\<exists>m'. insertFresh M True keys (id_range b (length keys)) b m = (False, m') \<and>
    undone M single clean True (map_find M m) (eraseTentative M keys b m')"
proof (cases "\<forall>k \<in> set keys. map_find M m k = None")
  case False
  then have "insertFresh M True keys (id_range b (length keys)) b m = (False, m)"
    using old_not_tentative(2) [OF t] by (auto simp: insertFresh_def look_def)
  moreover have "filter (\<lambda>k. look M m k - b < of_nat (length keys)) keys = []"
    using old_not_tentative(1) [OF t] by (simp add: look_def filter_empty_conv)
  ultimately show ?thesis using m by (simp add: undone_def eraseTentative_def)
next
  case True
  let ?kvs = "zip keys (id_range b (length keys))"
  define m' where "m' = map_insert M m ?kvs"
  have dis: "fst ` set ?kvs \<inter> dom (map_find M m) = {}" unfolding zip_ids(2) using True by auto
  note law = cuco_insert_twice [OF M m e dis, unfolded zip_ids(1,2), folded m'_def]
  have "map (look M m') keys \<noteq> map (\<lambda>j. b + of_nat j) [0..<length keys]"
  proof
    assume eq: "map (look M m') keys = map (\<lambda>j. b + of_nat j) [0..<length keys]"
    have "unat (look M m' (keys ! j)) = unat b + j" if "j < length keys" for j
      using arg_cong [OF eq, of "\<lambda>xs. xs ! j"] that tentative_id(1) [OF t that] by simp
    then have "distinct keys" unfolding distinct_conv_nth by (metis add_left_cancel)
    then show False using old True by blast
  qed
  then have rej: "insertFresh M True keys (id_range b (length keys)) b m = (False, m')"
    using True by (simp add: insertFresh_def Let_def look_def rid_word_def flip: m'_def)
  have "look M m' k - b < of_nat (length keys)" if "k \<in> set keys" for k
    using law(1) [OF that] tentative_id(3) [OF t] by (auto simp: look_def rid_word_def zip_ids(3))
  then have "filter (\<lambda>k. look M m' k - b < of_nat (length keys)) keys = keys" by simp
  moreover have "keys \<noteq> []" using old by auto
  ultimately show ?thesis using rej law(2,3) by (simp add: undone_def eraseTentative_def)
qed

lemma insertFresh_rejects:
  assumes "cuco_ok M cap single clean" and "single m" and "\<not> er \<Longrightarrow> clean m" and "tentative b keys (map_find M m)"
    and "card (dom (map_find M m)) + length keys \<le> cap" and "\<forall>k \<in> set keys. k < kErased"
    and "\<not> (distinct keys \<and> (\<forall>k \<in> set keys. map_find M m k = None))"
  shows "\<exists>m'. insertFresh M er keys (id_range b (length keys)) b m = (False, m') \<and>
    undone M single clean er (map_find M m) (eraseTentative M keys b m')"
proof -
  have e: "enters M cap m (zip keys (id_range b (length keys)))"
    using assms(5,6) unfolding enters_def zip_ids(2) by (simp add: id_range_def)
  show ?thesis
    using reject_clean [OF assms(1,2) _ assms(4) e assms(7)] reject_erased [OF assms(1,2,4) e assms(7)] assms(3) by (cases er) auto
qed

subsection \<open>The state between epochs\<close>

definition index_cfg_ok :: "index_config \<Rightarrow> nat \<Rightarrow> bool" where
  "index_cfg_ok cfg cap \<longleftrightarrow> cfg_starting cfg \<le> cfg_num_records cfg \<and> cfg_num_records cfg < 2 ^ 32 - 12 \<and>
     cfg_num_records cfg \<le> cap \<and> num_slots cfg < 2 ^ 32"

definition txns_ok :: "index_config \<Rightarrow> YcsbTxn list \<Rightarrow> bool" where
  "txns_ok cfg txns \<longleftrightarrow> length txns = cfg_num_txns cfg \<and> (\<forall>e < 10 * length txns. slot_key txns e < kErased) \<and>
     (cfg_num_deletes cfg = 0 \<longrightarrow> (\<forall>e < 10 * length txns. slot_op txns e \<noteq> DELETE))"

definition schedule_ok :: "schedule \<Rightarrow> bool" where
  "schedule_ok sch \<longleftrightarrow> (\<forall>n. set (o_deletes sch n) = {0..<n} \<and> set (o_walk sch n) = {0..<n} \<and> set (o_assign sch n) = {0..<n})"

definition buffers_ok :: "index_config \<Rightarrow> 'm key_index \<Rightarrow> bool" where
  "buffers_ok cfg st \<longleftrightarrow> (\<forall>dp. ix_del_pos st = Some dp \<longrightarrow> dp = replicate (cfg_num_records cfg) kAbsent) \<and>
     (\<forall>t. ix_timeline st = Some t \<longrightarrow> num_slots cfg \<le> length (tl_entry_crid t) \<and> num_slots cfg \<le> length (tl_fin t))"

text \<open>The index holds the live records of the run so far, the cursors and the logs its history.\<close>

definition index_inv :: "('m, 'z) static_map_scheme \<Rightarrow> index_config \<Rightarrow> ('m \<Rightarrow> bool) \<Rightarrow> ('m \<Rightarrow> bool) \<Rightarrow> live_index \<Rightarrow> 'm key_index \<Rightarrow> bool" where
  "index_inv M cfg single clean s st \<longleftrightarrow>
     single (ix_map st) \<and> (\<not> ix_has_erased st \<longrightarrow> clean (ix_map st)) \<and> map_find M (ix_map st) = live s \<and>
     ix_free_rows st = free_row_sequence cfg \<and> ix_free_start st = length (minted s) \<and> ix_delete_count st = length (ended s) \<and>
     buffers_ok cfg st \<and> logs_hold (minted s) (ended s) (ix_shadow st) \<and>
     shadow_wf (cfg_num_records cfg) (cfg_starting cfg) (num_slots cfg) (0 < cfg_num_deletes cfg) (ix_shadow st) \<and>
     log_inv (of_nat (cfg_starting cfg)) (initial_keys (cfg_starting cfg)) s \<and>
     length (minted s) \<le> cfg_num_records cfg - cfg_starting cfg \<and> (\<forall>k \<in> dom (live s). k < kErased)"

text \<open>What an epoch gives the executors.\<close>

definition serial_params :: "u32 \<Rightarrow> YcsbTxn list \<Rightarrow> (u32 \<rightharpoonup> u32) \<Rightarrow> YcsbTxnParam list" where
  "serial_params b txns m =
     map (\<lambda>tid. index_param (txns ! tid) (\<lambda>i.
       rid_word (serial_rid b (epoch_ops txns ! (tid * 10 + i)) (at_slot b (epoch_ops txns) m (tid * 10 + i))))) [0..<length txns]"

lemma index_param_cong: "(\<And>i. i < 10 \<Longrightarrow> f i = g i) \<Longrightarrow> index_param t f = index_param t g"
  by (simp add: index_param_def)

definition resolved ::
  "('m, 'z) static_map_scheme \<Rightarrow> index_config \<Rightarrow> ('m \<Rightarrow> bool) \<Rightarrow> ('m \<Rightarrow> bool) \<Rightarrow> u32 \<Rightarrow> YcsbTxn list \<Rightarrow> (u32 \<rightharpoonup> u32) \<Rightarrow>
   'm key_index \<Rightarrow> 'm key_index \<times> u32 list \<times> u32 list \<times> YcsbTxnParam list \<Rightarrow> bool" where
  "resolved M cfg single clean b txns m st r \<longleftrightarrow>
     (case r of (st1, ks, dks, params) \<Rightarrow>
        let t = at_slot b (epoch_ops txns) m (10 * length txns)
        in single (ix_map st1) \<and> (\<not> ix_has_erased st1 \<longrightarrow> clean (ix_map st1)) \<and> map_find M (ix_map st1) = live t \<and>
           ks = minted t \<and> ix_num_minted st1 = length (minted t) \<and> dks = map fst (ended t) \<and>
           ix_num_deletes st1 = length (ended t) \<and> take (ix_num_deletes st1) (ix_edel_out st1) = map snd (ended t) \<and>
           buffers_ok cfg st1 \<and> ix_free_rows st1 = ix_free_rows st \<and> ix_free_start st1 = ix_free_start st \<and>
           ix_delete_count st1 = ix_delete_count st \<and> ix_shadow st1 = ix_shadow st \<and> params = serial_params b txns m)"

lemma resolved_base:
  "resolved M cfg single clean b txns m st r \<Longrightarrow> ix_free_rows st' = ix_free_rows st \<Longrightarrow> ix_free_start st' = ix_free_start st \<Longrightarrow>
   ix_delete_count st' = ix_delete_count st \<Longrightarrow> ix_shadow st' = ix_shadow st \<Longrightarrow> resolved M cfg single clean b txns m st' r"
  by (simp add: resolved_def)

lemma fast_params_serial:
  assumes "fast_ok b N (epoch_ops txns) m F"
  shows "fast_params txns m F = serial_params b txns m"
  unfolding fast_params_def serial_params_def
proof (intro map_cong refl index_param_cong)
  fix tid i assume "tid \<in> set [0..<length txns]" "i < (10 :: nat)"
  then have "tid * 10 + i < length (epoch_ops txns)" by simp
  from serial_rid_fast [OF _ _ this, of m b F] assms
  show "rid_word (fast_rid (epoch_ops txns) m F (tid * 10 + i)) =
      rid_word (serial_rid b (epoch_ops txns ! (tid * 10 + i)) (at_slot b (epoch_ops txns) m (tid * 10 + i)))" by (simp add: fast_ok_def)
qed

lemma restrict_all [simp]: "m |` UNIV = m"
  by (simp add: fun_eq_iff)

lemma resolve_fast_ok:
  assumes M: "cuco_ok M cap single clean" and tx: "txns_ok cfg txns" and sch: "schedule_ok sch"
    and ok: "fast_ok b (cfg_num_records cfg) (epoch_ops txns) m F"
    and st: "single (ix_map st)" "\<not> ix_has_erased st \<longrightarrow> clean (ix_map st)" "map_find M (ix_map st) = F" "buffers_ok cfg st"
      "ix_minted_begin st = b" "ix_num_minted st = length (insert_slots (epoch_ops txns))" "ix_num_deletes st = 0"
    and ks: "ks = insert_keys (epoch_ops txns)"
    and res: "resolve_fast M cfg sch txns (insert_slots (epoch_ops txns)) st = (st1, dks, params)"
  shows "resolved M cfg single clean b txns m st (st1, ks, dks, params)"
proof -
  let ?xs = "epoch_ops txns" and ?N = "cfg_num_records cfg"
  let ?t = "at_slot b ?xs m (10 * length txns)"
  have look: "look M (ix_map st) = (\<lambda>k. rid_word (F k))" by (simp add: look_def st(3) fun_eq_iff)
  have dp0: "ensureDelPos cfg st = replicate ?N kAbsent" using st(4) by (auto simp: ensureDelPos_def buffers_ok_def split: option.splits)
  have o: "once ?xs m" using ok by (simp add: fast_ok_def)
  have minted: "minted ?t = ks"
    using minted_at_slot [of "10 * length txns" ?xs b m] filter_creates_once [OF o, of "10 * length txns" b]
    by (simp add: ks insert_keys_def insert_slots_def)
  have live: "live ?t = F |` (- set (map fst (ended ?t)))"
    using fast_erase [OF ok] by (auto simp: fun_eq_iff restrict_map_def)
  show ?thesis
  proof (cases "0 < cfg_num_deletes cfg")
    case False
    then have no: "\<forall>e < 10 * length txns. slot_op txns e \<noteq> DELETE" using tx by (simp add: txns_ok_def)
    have "filter (ends b ?xs m) [0..<10 * length txns] = []" using no by (auto simp: filter_empty_conv ends_def)
    then have ended: "ended ?t = []" using ended_at_slot [of "10 * length txns" ?xs b m] by simp
    have "params = fast_params txns m F" "st1 = st" "dks = []"
      using res False index_kernel_fast [OF ok, of "[0..<10 * length txns]" None] no look st(5,6)
      by (simp_all add: resolve_fast_def Let_def fast_params_def)
    then show ?thesis using st minted live ended by (simp add: resolved_def Let_def fast_params_serial [OF ok] ks insert_keys_def)
  next
    case True
    have ord: "set (o_deletes sch (10 * length txns)) = {0..<10 * length txns}" using sch by (simp add: schedule_ok_def)
    define dp where "dp = k_record_deletes (o_deletes sch (10 * length txns)) txns (\<lambda>k. rid_word (F k)) b (of_nat (length (insert_slots ?xs)))
      (insert_slots ?xs) (replicate ?N kAbsent)"
    have par: "indexYcsbKernel txns (\<lambda>k. rid_word (F k)) b (of_nat (length (insert_slots ?xs))) (insert_slots ?xs) (Some dp) = fast_params txns m F"
      using index_kernel_fast [OF ok ord, of "Some dp"] by (simp add: dp_def fast_params_def)
    obtain keys' crids' flags where eff: "k_effective_deletes txns (fast_params txns m F) dp (ti_del_key (k_extract_ops txns)) (ix_edel_crid st) =
        (keys', crids', flags)" by (metis prod_cases3)
    note lists = effective_lists [OF ok ord dp_def eff]
    have k: "select_flagged keys' flags = map fst (ended ?t)" and c: "select_flagged crids' flags = map snd (ended ?t)"
      using lists by (simp_all flip: lists(1))
    note reset = positions_reset [OF ok ord dp_def refl]
    have res': "(if map fst (ended ?t) \<noteq> []
        then (st\<lparr>ix_edel_crid := crids', ix_num_deletes := length (ended ?t), ix_edel_out := map snd (ended ?t),
                 ix_del_pos := Some (replicate ?N kAbsent), ix_map := map_erase M (ix_map st) (map fst (ended ?t)), ix_has_erased := True\<rparr>,
              map fst (ended ?t), fast_params txns m F)
        else (st\<lparr>ix_edel_crid := crids', ix_num_deletes := 0, ix_edel_out := [], ix_del_pos := Some dp\<rparr>, [], fast_params txns m F)) =
        (st1, dks, params)"
      using res True unfolding resolve_fast_def Let_def look st(5,6) dp0 dp_def [symmetric] par eff prod.case k c reset
      by (auto split: if_splits)
    show ?thesis
    proof (cases "ended ?t = []")
      case True
      then have "dp = replicate ?N kAbsent" using reset by (simp add: k_reset_positions_def)
      then show ?thesis using res' True st minted live
        by (auto simp: resolved_def Let_def fast_params_serial [OF ok] ks insert_keys_def buffers_ok_def)
    next
      case False
      then show ?thesis using res' st minted live cuco_erase [OF M st(1), of "map fst (ended ?t)"]
        by (auto simp: resolved_def Let_def fast_params_serial [OF ok] ks insert_keys_def buffers_ok_def)
    qed
  qed
qed

subsection \<open>The path through the timeline\<close>

lemma timeline_params:
  assumes tok: "timeline_ok b (epoch_ops txns) inp m lookup" and t: "built b (epoch_ops txns) inp m lookup tml"
    and look: "lookup = (\<lambda>k. rid_word (m k))"
  shows "indexYcsbTimelineKernel txns lookup tml = serial_params b txns m"
  unfolding indexYcsbTimelineKernel_def serial_params_def Let_def
proof (intro map_cong refl index_param_cong)
  fix tid i assume "tid \<in> set [0..<length txns]" "i < (10 :: nat)"
  then have e: "tid * 10 + i < length (epoch_ops txns)" and i: "i < 10" by simp_all
  have "txn_ops (txns ! tid) ! i = INSERT \<longleftrightarrow> (\<exists>k. epoch_ops txns ! (tid * 10 + i) = Insert k)"
    "key_of (epoch_ops txns ! (tid * 10 + i)) = txn_keys (txns ! tid) ! i" using e i by simp_all
  then show "timeline_resolve (tl_sorted tml) (tl_entry_crid tml) (ucast (txn_keys (txns ! tid) ! i)) (of_nat (tid * 10 + i)) (tid * 10 + i)
        (txn_ops (txns ! tid) ! i = INSERT) (lookup (txn_keys (txns ! tid) ! i)) =
      rid_word (serial_rid b (epoch_ops txns ! (tid * 10 + i)) (at_slot b (epoch_ops txns) m (tid * 10 + i)))"
    using resolve_spec [OF tok t e refl] by (simp add: look)
qed

lemma ended_keys: "length ks = length cs \<Longrightarrow> zip ks cs = es \<Longrightarrow> ks = map fst es \<and> cs = map snd es"
  by auto

lemma free_rows: "checkFreeRows cfg st n \<longleftrightarrow> n \<le> cfg_num_records cfg - cfg_starting cfg - ix_free_start st"
  by (auto simp: checkFreeRows_def Let_def)

lemma live_minted:
  assumes "e \<le> length xs"
  shows "live (at_slot b xs m e) k = None \<or> live (at_slot b xs m e) k = m k \<or> k \<in> set (minted (at_slot b xs m e))"
  using assms
proof (induction e)
  case 0
  then show ?case by (simp add: start_index_def)
next
  case (Suc e)
  then have e: "e < length xs" and IH: "live (at_slot b xs m e) k = None \<or> live (at_slot b xs m e) k = m k \<or> k \<in> set (minted (at_slot b xs m e))"
    by simp_all
  show ?case using IH unfolding at_slot_Suc [OF e] by (cases "xs ! e") (auto split: option.splits)
qed

text \<open>The bulk update at the end of the epoch.\<close>

lemma timeline_update:
  assumes M: "cuco_ok M cap single clean" and tok: "timeline_ok b xs inp m lookup" and t: "built b xs inp m lookup tml"
    and keys: "\<forall>e < length xs. key_of (xs ! e) < kErased"
    and cap: "card (dom m) + length (minted (at_slot b xs m (length xs))) \<le> cap" and fin: "finite (dom m)"
    and m0: "single m0" "map_find M m0 = m"
  defines "m1 \<equiv> (if tl_erase_keys tml \<noteq> [] then map_erase M m0 (tl_erase_keys tml) else m0)"
  defines "m2 \<equiv> (if tl_insert_keys tml \<noteq> [] then map_insert M m1 (zip (tl_insert_keys tml) (tl_insert_crids tml)) else m1)"
  shows "single m2" and "map_find M m2 = live (at_slot b xs m (length xs))" and "tl_erase_keys tml = [] \<Longrightarrow> clean m0 \<Longrightarrow> clean m2"
proof -
  let ?t = "at_slot b xs m (length xs)"
  let ?kvs = "zip (tl_insert_keys tml) (tl_insert_crids tml)"
  note upd = index_update [OF tok t]
  have m1: "single m1" "map_find M m1 = m |` (- set (tl_erase_keys tml))" "tl_erase_keys tml = [] \<Longrightarrow> m1 = m0"
    using cuco_erase [OF M m0(1)] m0 by (auto simp: m1_def)
  have fst: "map fst ?kvs = tl_insert_keys tml" "length ?kvs = length (tl_insert_keys tml)" by (simp_all add: upd(4))
  then have sets: "fst ` set ?kvs = set (tl_insert_keys tml)" by (metis list.set_map)
  have sub: "set (tl_insert_keys tml) \<subseteq> set (minted ?t)" unfolding upd(2) using live_minted [OF order_refl, of b xs m] by (metis (mono_tags, lifting) mem_Collect_eq subsetI)
  have "set (minted ?t) \<subseteq> {k. k < kErased}" unfolding minted_at_slot [OF order_refl] using keys by auto
  then have small: "\<forall>k \<in> set (tl_insert_keys tml). k < kErased" using sub by blast
  have "length (tl_insert_keys tml) \<le> length (minted ?t)"
    using card_mono [OF _ sub] card_length [of "minted ?t"] distinct_card [OF upd(3)] by simp
  moreover have "card (dom (map_find M m1)) \<le> card (dom m)" unfolding m1(2) using fin by (intro card_mono) auto
  ultimately have e: "enters M cap m1 ?kvs" unfolding enters_def fst(2) sets using cap small by simp
  have dis: "fst ` set ?kvs \<inter> dom (map_find M m1) = {}" unfolding sets m1(2) upd(1,2) by (auto simp: restrict_map_def split: if_splits)
  note ins = cuco_insert [OF M m1(1) e _ dis, unfolded fst(1), OF upd(3)]
  have "(m |` (- set (tl_erase_keys tml)) ++ map_of ?kvs) k = live ?t k" for k
  proof (cases "k \<in> set (tl_insert_keys tml)")
    case True
    then show ?thesis using upd(5) [OF True] upd(2) by (auto simp: map_add_def split: option.splits)
  next
    case False
    then have "map_of ?kvs k = None" by (metis fst(1) list.set_map map_of_eq_None_iff)
    then show ?thesis using False unfolding map_add_def upd(1,2) by (auto simp: restrict_map_def)
  qed
  then have f: "m |` (- set (tl_erase_keys tml)) ++ map_of ?kvs = live ?t" by blast
  show "single m2" using ins(2) m1(1) by (simp add: m2_def)
  show "map_find M m2 = live ?t" using ins(1) m1(2) f by (cases "tl_insert_keys tml = []") (simp_all add: m2_def)
  show "clean m2" if "tl_erase_keys tml = []" "clean m0" using ins(3) m1(3) that by (simp add: m2_def)
qed

lemma resolve_timeline_ok:
  assumes M: "cuco_ok M cap single clean" and cfg: "index_cfg_ok cfg cap" and tx: "txns_ok cfg txns" and sch: "schedule_ok sch"
    and ids: "ids_ok b (epoch_ops txns) m" and st: "single (ix_map st)" "\<not> ix_has_erased st \<longrightarrow> clean (ix_map st)"
      "map_find M (ix_map st) = m" "buffers_ok cfg st" "ix_minted_begin st = b"
    and room: "checkFreeRows cfg st (length (minted (at_slot b (epoch_ops txns) m (10 * length txns))))"
    and cap: "card (dom m) + length (minted (at_slot b (epoch_ops txns) m (10 * length txns))) \<le> cap" and fin: "finite (dom m)"
  shows "\<exists>st1 tml params. resolveThroughTimeline M cfg sch txns st = Inr (st1, tml, params) \<and>
    resolved M cfg single clean b txns m st (st1, tl_minted_keys tml, tl_edel_keys tml, params)"
proof -
  let ?xs = "epoch_ops txns" and ?inp = "k_extract_ops txns"
  let ?t = "at_slot b ?xs m (10 * length txns)" and ?look = "\<lambda>k. rid_word (m k)"
  have len: "length ?xs = num_slots cfg" using tx by (simp add: txns_ok_def num_slots_def)
  have keys: "\<forall>e < 10 * length txns. slot_key txns e \<noteq> kNoKey" using tx by (auto simp: txns_ok_def kErased_def kNoKey_def)
  have tok: "timeline_ok b ?xs ?inp m ?look"
    using codes_epoch [OF keys] ids cfg len by (simp add: timeline_ok_def index_cfg_ok_def)
  obtain st0 t0 where st0: "ensureTimeline cfg st = Inr st0" "st0 = st\<lparr>ix_timeline := Some t0\<rparr>"
    "num_slots cfg \<le> length (tl_entry_crid t0)" "num_slots cfg \<le> length (tl_fin t0)"
  proof (cases "ix_timeline st")
    case None
    have "num_slots cfg < 2 ^ 32" using cfg by (simp add: index_cfg_ok_def)
    then have "\<not> 2 ^ 32 \<le> num_slots cfg - 1" by linarith
    then show thesis using None by (intro that) (auto simp: ensureTimeline_def ensure_def empty_timeline_def words_def)
  next
    case (Some t)
    then show thesis using st(4) by (intro that [of st t]) (auto simp: ensureTimeline_def buffers_ok_def)
  qed
  let ?n = "length (filter (EntryIsEvent ?inp) [0..<length (ti_ins_key ?inp)])"
  have n: "?n = length (events ?xs)" using ev_entry_events [OF codes_epoch [OF keys]] by simp
  obtain tml where b: "build (o_walk sch ?n) (o_assign sch ?n) (num_slots cfg) ?inp ?look b t0 = Inr tml" and t: "built b ?xs ?inp m ?look tml"
      and bl: "length (tl_entry_crid tml) = length (tl_entry_crid t0)" "length (tl_fin tml) = length (tl_fin t0)"
    using build_spec [OF tok, of "num_slots cfg" "o_walk sch ?n" "o_assign sch ?n" t0] len sch st0(3,4) unfolding n by (auto simp: schedule_ok_def)
  have look: "look M (ix_map st) = ?look" by (simp add: look_def st(3) fun_eq_iff)
  have mint: "tl_minted_keys tml = minted ?t" and en: "tl_edel_keys tml = map fst (ended ?t)" "tl_edel_crids tml = map snd (ended ?t)"
    using t ended_keys [of "tl_edel_keys tml" "tl_edel_crids tml" "ended ?t"] by (auto simp: built_def)
  have room': "checkFreeRows cfg st0 (length (tl_minted_keys tml))" using room mint st0(2) by (simp add: free_rows)
  have small: "\<forall>e < length ?xs. key_of (?xs ! e) < kErased" using tx by (simp add: txns_ok_def)
  have cap': "card (dom m) + length (minted (at_slot b ?xs m (length ?xs))) \<le> cap" using cap by simp
  note upd = timeline_update [OF M tok t small cap' fin st(1,3)]
  have "resolveThroughTimeline M cfg sch txns st = Inr (st0\<lparr>
      ix_map := (if tl_insert_keys tml \<noteq> [] then map_insert M (if tl_erase_keys tml \<noteq> [] then map_erase M (ix_map st) (tl_erase_keys tml) else ix_map st)
         (zip (tl_insert_keys tml) (tl_insert_crids tml)) else (if tl_erase_keys tml \<noteq> [] then map_erase M (ix_map st) (tl_erase_keys tml) else ix_map st)),
      ix_has_erased := (tl_erase_keys tml \<noteq> [] \<or> ix_has_erased st), ix_num_minted := length (minted ?t), ix_num_deletes := length (ended ?t),
      ix_edel_out := map snd (ended ?t), ix_timeline := Some tml\<rparr>, tml, serial_params b txns m)" (is "_ = Inr (?st1, _, _)")
  proof -
    have f: "ix_minted_begin st0 = b" "the (ix_timeline st0) = t0" "ix_map st0 = ix_map st" "ix_has_erased st0 = ix_has_erased st"
      using st0(2) st(5) by simp_all
    show ?thesis unfolding resolveThroughTimeline_def st0(1) sum.case Let_def look f b
      using room' timeline_params [OF tok t refl] by (simp add: mint en)
  qed
  moreover have "resolved M cfg single clean b txns m st (?st1, tl_minted_keys tml, tl_edel_keys tml, serial_params b txns m)"
    using upd st(2,4) st0 bl mint en unfolding resolved_def Let_def by (auto simp: buffers_ok_def)
  ultimately show ?thesis by blast
qed

subsection \<open>An epoch\<close>

text \<open>The index at the start of an epoch: \<open>m\<close> are the live records, \<open>b\<close> the next id.\<close>

definition epoch_start :: "index_config \<Rightarrow> u32 \<Rightarrow> (u32 \<rightharpoonup> u32) \<Rightarrow> nat \<Rightarrow> bool" where
  "epoch_start cfg b m free_start \<longleftrightarrow> unat b = cfg_starting cfg + free_start \<and> free_start \<le> cfg_num_records cfg - cfg_starting cfg \<and>
     (\<forall>c \<in> ran m. unat c < unat b) \<and> inj_on m (dom m)"

lemma live_card:
  assumes "\<forall>c \<in> ran m. unat c < unat b" and "inj_on m (dom (m :: u32 \<rightharpoonup> u32))"
  shows "card (dom m) \<le> unat b" and "finite (dom m)"
proof -
  have "inj_on (\<lambda>k. unat (the (m k))) (dom m)"
  proof (rule inj_onI)
    fix k k' assume "k \<in> dom m" "k' \<in> dom m" "unat (the (m k)) = unat (the (m k'))"
    then have "m k = m k'" by (auto simp: word_unat_eq_iff)
    then show "k = k'" using assms(2) \<open>k \<in> dom m\<close> \<open>k' \<in> dom m\<close> by (simp add: inj_onD)
  qed
  moreover have "(\<lambda>k. unat (the (m k))) ` dom m \<subseteq> {..<unat b}" using assms(1) by (auto simp: ran_def)
  ultimately have "card (dom m) \<le> card {..<unat b}" by (metis card_inj_on_le finite_lessThan)
  then show "card (dom m) \<le> unat b" by simp
  show "finite (dom m)" by simp
qed

lemma minted_le_inserts: "length (minted (at_slot b xs m (length xs))) \<le> length (insert_keys xs)"
proof -
  have "set (filter (creates b xs m) [0..<length xs]) \<subseteq> set (insert_slots xs)" by (auto simp: creates_def insert_slots_def)
  then have "card (set (filter (creates b xs m) [0..<length xs])) \<le> card (set (insert_slots xs))" by (intro card_mono) auto
  moreover have "distinct (filter (creates b xs m) [0..<length xs])" "distinct (insert_slots xs)" by (simp_all add: insert_slots_def)
  ultimately show ?thesis unfolding minted_at_slot [OF order_refl] insert_keys_def by (simp only: length_map distinct_card)
qed

lemma free_row_ids:
  assumes "free_start + n \<le> cfg_num_records cfg - cfg_starting cfg" and "b = of_nat (cfg_starting cfg) + of_nat free_start"
  shows "take n (drop free_start (free_row_sequence cfg)) = id_range b n"
  using assms by (intro nth_equalityI) (auto simp: free_row_sequence_def id_range_def add.assoc)

lemma index_resolve_ok:
  assumes M: "cuco_ok M cap single clean" and cfg: "index_cfg_ok cfg cap" and tx: "txns_ok cfg txns" and sch: "schedule_ok sch"
    and start: "epoch_start cfg b m (ix_free_start st)" and b: "b = of_nat (cfg_starting cfg) + of_nat (ix_free_start st)"
    and st: "single (ix_map st)" "\<not> ix_has_erased st \<longrightarrow> clean (ix_map st)" "map_find M (ix_map st) = m" "buffers_ok cfg st"
      "ix_minted_begin st = b" "ix_num_deletes st = 0" "ix_free_rows st = free_row_sequence cfg"
    and n: "length (insert_keys (epoch_ops txns)) \<le> cfg_num_records cfg - cfg_starting cfg - ix_free_start st"
  shows "\<exists>r. index_resolve M cfg sch txns st = Inr r \<and> resolved M cfg single clean b txns m st r"
proof -
  let ?xs = "epoch_ops txns"
  let ?keys = "insert_keys ?xs" and ?n = "length (insert_keys ?xs)" and ?N = "cfg_num_records cfg"
  have "\<forall>e < 10 * length txns. slot_key txns e \<noteq> kAbsent" using tx by (auto simp: txns_ok_def kErased_def kAbsent_def)
  note comp = compaction [OF this]
  have ub: "unat b + ?n \<le> ?N" and old: "\<forall>c \<in> ran m. unat c < unat b" and inj: "inj_on m (dom m)"
    using start n cfg by (auto simp: epoch_start_def index_cfg_ok_def)
  have N: "?N < 2 ^ 32" "?N \<le> cap" "length ?xs < 2 ^ 32" using cfg tx by (auto simp: index_cfg_ok_def txns_ok_def num_slots_def)
  have tent: "tentative b ?keys m" using ub N old by (simp add: tentative_def)
  have card: "card (dom m) + ?n \<le> cap" using live_card(1) [OF old inj] ub N by simp
  have small: "\<forall>k \<in> set ?keys. k < kErased" using tx by (auto simp: insert_keys_def insert_slots_def txns_ok_def)
  have mint: "length (minted (at_slot b ?xs m (10 * length txns))) \<le> ?n" using minted_le_inserts [of b ?xs m] by simp
  have "kAbsent \<notin> ran m" using old_not_tentative(2) [OF tent] by (fastforce simp: ran_def rid_word_def split: option.splits)
  then have ids: "ids_ok b ?xs m" using mint ub N by (simp add: ids_ok_def)
  have rows: "take ?n (drop (ix_free_start st) (ix_free_rows st)) = id_range b ?n"
  proof -
    have "ix_free_start st \<le> cfg_num_records cfg - cfg_starting cfg" using start by (simp add: epoch_start_def)
    then have "ix_free_start st + ?n \<le> cfg_num_records cfg - cfg_starting cfg" using n by linarith
    then show ?thesis unfolding st(7) by (rule free_row_ids [OF _ b])
  qed
  define r0 where "r0 = (if ?n = 0 then (True, ix_map st) else insertFresh M (ix_has_erased st) ?keys (id_range b ?n) b (ix_map st))"
  have body: "index_resolve M cfg sch txns st = (case r0 of (fresh, m') \<Rightarrow>
      if fresh then case resolve_fast M cfg sch txns (insert_slots ?xs) (st\<lparr>ix_map := m', ix_num_minted := ?n\<rparr>) of
          (st', dks, params) \<Rightarrow> Inr (st', ?keys, dks, params)
      else case eraseTentative M ?keys b m' of (ne, m'') \<Rightarrow>
          case resolveThroughTimeline M cfg sch txns (st\<lparr>ix_map := m'', ix_has_erased := (0 < ne \<or> ix_has_erased st)\<rparr>) of
            Inl er \<Rightarrow> Inl er | Inr (st', tml, params) \<Rightarrow> Inr (st', tl_minted_keys tml, tl_edel_keys tml, params))"
    using n unfolding index_resolve_def Let_def comp rows st(5) r0_def free_rows by simp
  show ?thesis
  proof (cases "once ?xs m")
    case True
    then have new: "distinct ?keys" "\<forall>k \<in> set ?keys. map_find M (ix_map st) k = None" by (simp_all add: once_iff st(3))
    define F where "F = m ++ map_of (zip ?keys (id_range b ?n))"
    obtain m' where m': "r0 = (True, m')" "single m'" "\<not> ix_has_erased st \<longrightarrow> clean m'" "map_find M m' = F"
    proof (cases "?n = 0")
      case True
      then show thesis using st by (intro that [of "ix_map st"]) (simp_all add: r0_def F_def)
    next
      case False
      show thesis using insertFresh_accepts [OF M st(1) _ _ _ small new, of "ix_has_erased st" b] st tent card False that
        by (auto simp: r0_def F_def)
    qed
    have ok: "fast_ok b ?N ?xs m F"
      using True holds_epoch_inserted [OF True, of F b] old inj ub N by (simp add: fast_ok_def F_def id_range_def insert_keys_def)
    obtain st1 dks params where res: "resolve_fast M cfg sch txns (insert_slots ?xs) (st\<lparr>ix_map := m', ix_num_minted := ?n\<rparr>) = (st1, dks, params)"
      by (metis prod_cases3)
    have "resolved M cfg single clean b txns m (st\<lparr>ix_map := m', ix_num_minted := ?n\<rparr>) (st1, ?keys, dks, params)"
      using st m' by (intro resolve_fast_ok [OF M tx sch ok _ _ _ _ _ _ _ refl res]) (simp_all add: buffers_ok_def insert_keys_def)
    then have "resolved M cfg single clean b txns m st (st1, ?keys, dks, params)" by (rule resolved_base) simp_all
    then show ?thesis using res m'(1) unfolding body by simp
  next
    case False
    then have new: "\<not> (distinct ?keys \<and> (\<forall>k \<in> set ?keys. map_find M (ix_map st) k = None))" by (simp add: once_iff st(3))
    then have "?n \<noteq> 0" by auto
    then obtain m' where m': "r0 = (False, m')" "undone M single clean (ix_has_erased st) m (eraseTentative M ?keys b m')"
      using insertFresh_rejects [OF M st(1) _ _ _ small new, of "ix_has_erased st" b] st tent card by (auto simp: r0_def)
    obtain ne m'' where e: "eraseTentative M ?keys b m' = (ne, m'')" by force
    let ?st = "st\<lparr>ix_map := m'', ix_has_erased := (0 < ne \<or> ix_has_erased st)\<rparr>"
    obtain st1 tml params where r: "resolveThroughTimeline M cfg sch txns ?st = Inr (st1, tml, params)"
      "resolved M cfg single clean b txns m ?st (st1, tl_minted_keys tml, tl_edel_keys tml, params)"
    proof -
      have "\<exists>st1 tml params. resolveThroughTimeline M cfg sch txns ?st = Inr (st1, tml, params) \<and>
        resolved M cfg single clean b txns m ?st (st1, tl_minted_keys tml, tl_edel_keys tml, params)"
      using m'(2) e st n mint card live_card(2) [OF old inj]
      by (intro resolve_timeline_ok [OF M cfg tx sch ids]) (auto simp: undone_def buffers_ok_def free_rows)
      then show thesis using that by blast
    qed
    have "resolved M cfg single clean b txns m st (st1, tl_minted_keys tml, tl_edel_keys tml, params)" using r(2) by (rule resolved_base) simp_all
    then show ?thesis using m'(1) e r(1) unfolding body by simp
  qed
qed

lemma no_deletes_ended:
  assumes "txns_ok cfg txns" and "cfg_num_deletes cfg = 0"
  shows "ended (at_slot b (epoch_ops txns) m (10 * length txns)) = []"
proof -
  have "filter (ends b (epoch_ops txns) m) [0..<10 * length txns] = []"
    using assms by (auto simp: filter_empty_conv ends_def txns_ok_def)
  then show ?thesis using ended_at_slot [of "10 * length txns" "epoch_ops txns" b m] by simp
qed

text \<open>The run so far and the operations of the epoch.\<close>

definition run_epoch :: "index_config \<Rightarrow> YcsbTxn list \<Rightarrow> live_index \<Rightarrow> live_index" where
  "run_epoch cfg txns s = fold (serial_step (of_nat (cfg_starting cfg))) (epoch_ops txns) s"

lemma index_inv_start:
  assumes cfg: "index_cfg_ok cfg cap" and inv: "index_inv M cfg single clean s st"
  defines "b \<equiv> fresh_crid (of_nat (cfg_starting cfg)) s"
  shows "epoch_start cfg b (live s) (ix_free_start st)" and "b = of_nat (cfg_starting cfg) + of_nat (ix_free_start st)"
    and "unat (of_nat (cfg_starting cfg) :: u32) = cfg_starting cfg"
proof -
  have f: "ix_free_start st = length (minted s)" "length (minted s) \<le> cfg_num_records cfg - cfg_starting cfg"
    "log_inv (of_nat (cfg_starting cfg)) (initial_keys (cfg_starting cfg)) s" using inv by (simp_all add: index_inv_def)
  have c: "cfg_starting cfg \<le> cfg_num_records cfg" "cfg_num_records cfg < 2 ^ 32" using cfg by (auto simp: index_cfg_ok_def)
  then show u: "unat (of_nat (cfg_starting cfg) :: u32) = cfg_starting cfg" by (simp add: unat_of_nat)
  have "length (minted s) < 2 ^ 32" "cfg_starting cfg + length (minted s) < 2 ^ 32" using c f(2) by linarith+
  then have ub: "unat b = cfg_starting cfg + length (minted s)" using u by (simp add: b_def fresh_crid_def unat_word_ariths unat_of_nat)
  show "b = of_nat (cfg_starting cfg) + of_nat (ix_free_start st)" by (simp add: b_def fresh_crid_def f(1))
  show "epoch_start cfg b (live s) (ix_free_start st)" using f ub u unfolding epoch_start_def log_inv_def by auto
qed

lemma index_epoch:
  assumes M: "cuco_ok M cap single clean" and cfg: "index_cfg_ok cfg cap" and tx: "txns_ok cfg txns" and sch: "schedule_ok sch"
    and inv: "index_inv M cfg single clean s st"
    and n: "length (insert_keys (epoch_ops txns)) \<le> cfg_num_records cfg - cfg_starting cfg - length (minted s)"
  shows "\<exists>st'. indexTxns M cfg sch True txns st =
      Inr (st', serial_params (fresh_crid (of_nat (cfg_starting cfg)) s) txns (live s)) \<and> index_inv M cfg single clean (run_epoch cfg txns s) st'"
proof -
  let ?b0 = "of_nat (cfg_starting cfg) :: u32" and ?xs = "epoch_ops txns"
  define b where "b = fresh_crid ?b0 s"
  define t where "t = at_slot b ?xs (live s) (10 * length txns)"
  note start = index_inv_start [OF cfg inv, folded b_def]
  have run: "run_epoch cfg txns s = \<lparr>live = live t, minted = minted s @ minted t, ended = ended s @ ended t\<rparr>"
    unfolding run_epoch_def epoch_continues [of ?b0 ?xs s] t_def b_def at_slot_def by simp
  have mint: "length (minted t) \<le> length (insert_keys ?xs)" using minted_le_inserts [of b ?xs "live s"] by (simp add: t_def)
  have fs: "ix_free_start st = length (minted s)" "length (minted s) \<le> cfg_num_records cfg - cfg_starting cfg"
    "ix_delete_count st = length (ended s)" "logs_hold (minted s) (ended s) (ix_shadow st)"
    "shadow_wf (cfg_num_records cfg) (cfg_starting cfg) (num_slots cfg) (0 < cfg_num_deletes cfg) (ix_shadow st)"
    "log_inv ?b0 (initial_keys (cfg_starting cfg)) s" "ix_free_rows st = free_row_sequence cfg" using inv by (simp_all add: index_inv_def)
  have total: "length (minted s @ minted t) \<le> cfg_num_records cfg - cfg_starting cfg" using n mint fs(2) by simp
  have N: "cfg_starting cfg \<le> cfg_num_records cfg" "cfg_num_records cfg < 2 ^ 32" using cfg by (auto simp: index_cfg_ok_def)
  have bound: "unat ?b0 + length (minted s @ minted t) \<le> cfg_num_records cfg" using total N(1) start(3) by linarith
  have log: "log_inv ?b0 (initial_keys (cfg_starting cfg)) (run_epoch cfg txns s)"
    using log_inv_run [OF fs(6), of ?xs] bound N(2) run unfolding run_epoch_def by simp
  have dels: "length (ended s @ ended t) \<le> cfg_num_records cfg" using ended_bound [OF log] bound N(2) run by simp
  have slots: "length (minted t) \<le> num_slots cfg" "length (ended t) \<le> num_slots cfg"
    using tx minted_at_slot [of "10 * length txns" ?xs b "live s"] ended_at_slot [of "10 * length txns" ?xs b "live s"]
      length_filter_le [of "creates b ?xs (live s)" "[0..<10 * length txns]"] length_filter_le [of "ends b ?xs (live s)" "[0..<10 * length txns]"]
    by (simp_all add: t_def txns_ok_def num_slots_def)
  let ?st0 = "st\<lparr>ix_shadow := shiftSnapshotsAtEpochStart (of_nat (ix_free_start st)) (ix_shadow st), ix_num_deletes := 0, ix_num_minted := 0,
    ix_minted_begin := ?b0 + of_nat (ix_free_start st)\<rparr>"
  obtain r where r: "index_resolve M cfg sch txns ?st0 = Inr r" "resolved M cfg single clean b txns (live s) ?st0 r"
    using index_resolve_ok [OF M cfg tx sch, of b "live s" ?st0] start inv n by (auto simp: index_inv_def buffers_ok_def)
  obtain st1 ks dks params where rr: "r = (st1, ks, dks, params)" by (metis prod_cases4)
  note res = r(2) [unfolded rr resolved_def prod.case Let_def, folded t_def]
  have sh: "logs_hold (minted s) (ended s) (ix_shadow st1)"
      "shadow_wf (cfg_num_records cfg) (cfg_starting cfg) (num_slots cfg) (0 < cfg_num_deletes cfg) (ix_shadow st1)"
    using res fs(4,5) by (simp_all add: shiftSnapshotsAtEpochStart_def logs_hold_def shadow_wf_def)
  have "ended t = [] \<or> 0 < cfg_num_deletes cfg" using no_deletes_ended [OF tx] by (auto simp: t_def)
  from mirror_logs_ok [OF sh total dels slots this] obtain sh' where sh': "mirror_logs (minted t) (map fst (ended t)) (map snd (ended t))
      (length (minted s)) (length (ended s)) (ix_shadow st1) = Inr sh'" "logs_hold (minted s @ minted t) (ended s @ ended t) sh'"
      "shadow_wf (cfg_num_records cfg) (cfg_starting cfg) (num_slots cfg) (0 < cfg_num_deletes cfg) sh'" by blast
  have "\<forall>k \<in> dom (live s). k < kErased" using inv by (simp add: index_inv_def)
  moreover have "k < kErased" if "k \<in> set (minted t)" for k
    using that tx minted_at_slot [of "10 * length txns" ?xs b "live s"] by (auto simp: t_def txns_ok_def)
  moreover have "live t k = None \<or> live t k = live s k \<or> k \<in> set (minted t)" for k
    using live_minted [of "10 * length txns" ?xs b "live s" k] by (simp add: t_def)
  ultimately have small: "\<forall>k \<in> dom (live t). k < kErased" by (metis domIff)
  let ?st' = "st1\<lparr>ix_shadow := sh', ix_free_start := length (minted s) + length (minted t), ix_delete_count := length (ended s) + length (ended t)\<rparr>"
  have "indexTxns M cfg sch True txns st = Inr (?st', serial_params b txns (live s))"
    using r(1) res sh'(1) fs(1,3) unfolding rr by (auto simp: indexTxns_def Let_def)
  moreover have "index_inv M cfg single clean (run_epoch cfg txns s) ?st'"
    using res sh'(2,3) log total fs(7) small unfolding index_inv_def run by (auto simp: buffers_ok_def)
  ultimately show ?thesis unfolding b_def by blast
qed

lemma index_epoch_full:
  assumes tx: "txns_ok cfg txns" and inv: "index_inv M cfg single clean s st"
    and n: "cfg_num_records cfg - cfg_starting cfg - length (minted s) < length (insert_keys (epoch_ops txns))"
  shows "indexTxns M cfg sch True txns st = Inl OutOfFreeRows"
proof -
  have "\<forall>e < 10 * length txns. slot_key txns e \<noteq> kAbsent" using tx by (auto simp: txns_ok_def kErased_def kAbsent_def)
  note comp = compaction [OF this]
  have fs: "ix_free_start st = length (minted s)" using inv by (simp add: index_inv_def)
  show ?thesis using n unfolding indexTxns_def index_resolve_def Let_def comp free_rows by (simp add: fs)
qed

end
