(* ===== verification/Index_Run.thy ===== *)
theory Index_Run
  imports Index_Epoch
begin

text \<open>
  Runs of the key index: all epochs from the start of a process, and a process that recovers from the logs of an earlier one.
\<close>

subsection \<open>The start\<close>

lemma initial_pairs:
  assumes "n \<le> 2 ^ 32"
  shows "map_of (zip (map of_nat [0..<n]) (map of_nat [0..<n])) = initial_keys n"
    and "distinct (map (of_nat :: nat \<Rightarrow> u32) [0..<n])"
proof -
  let ?ks = "map (of_nat :: nat \<Rightarrow> u32) [0..<n]"
  have inj: "inj_on (of_nat :: nat \<Rightarrow> u32) {0..<n}"
  proof (rule inj_onI)
    fix i j assume "i \<in> {0..<n}" "j \<in> {0..<n}" "(of_nat i :: u32) = of_nat j"
    then have "unat (of_nat i :: u32) = unat (of_nat j :: u32)" "i < 2 ^ 32" "j < 2 ^ 32" using assms by simp_all
    then show "i = j" by (simp add: unat_of_nat)
  qed
  then show d: "distinct ?ks" by (simp add: distinct_map)
  show "map_of (zip ?ks ?ks) = initial_keys n"
  proof
    fix k :: u32
    show "map_of (zip ?ks ?ks) k = initial_keys n k"
    proof (cases "unat k < n")
      case True
      then have "(k, k) \<in> set (zip ?ks ?ks)" unfolding set_zip by (auto intro!: exI [of _ "unat k"])
      then show ?thesis using True d by (simp add: initial_keys_def map_of_is_SomeI)
    next
      case False
      then have "k \<notin> set ?ks" using assms by (auto simp: unat_of_nat)
      then have "map_of (zip ?ks ?ks) k = None" by (metis length_map map_of_zip_is_None)
      then show ?thesis using False by (simp add: initial_keys_def)
    qed
  qed
qed

lemma initial_log_inv: "n < 2 ^ 32 \<Longrightarrow> log_inv (of_nat n) (initial_keys n) (start_index (initial_keys n))"
  by (rule log_inv_start) (auto simp: initial_keys_def ran_def inj_on_def dom_def unat_of_nat)

lemma index_new_ok:
  assumes cfg: "index_cfg_ok cfg cap"
  shows "\<exists>st. index_new M cfg sh = Inr st \<and> buffers_ok cfg st \<and> ix_map st = map_new M \<and> \<not> ix_has_erased st \<and> ix_shadow st = sh \<and>
    ix_free_start st = 0 \<and> ix_delete_count st = 0"
proof -
  have "num_slots cfg < 2 ^ 32" using cfg by (simp add: index_cfg_ok_def)
  then have "\<not> 2 ^ 32 \<le> num_slots cfg - 1" by linarith
  then show ?thesis
    by (simp add: index_new_def Let_def ensureTimeline_def ensure_def buffers_ok_def empty_timeline_def words_def)
qed

lemma index_load_ok:
  assumes M: "cuco_ok M cap single clean" and cfg: "index_cfg_ok cfg cap" and st: "ix_map st = map_new M"
  shows "single (ix_map (index_load M cfg st))" and "clean (ix_map (index_load M cfg st))"
    and "map_find M (ix_map (index_load M cfg st)) = initial_keys (cfg_starting cfg)"
proof -
  let ?n = "cfg_starting cfg"
  let ?kvs = "zip (map of_nat [0..<?n]) (map of_nat [0..<?n]) :: (u32 \<times> u32) list"
  have n: "?n < 2 ^ 32 - 12" "?n \<le> cap" using cfg by (auto simp: index_cfg_ok_def)
  have new: "single (map_new M)" "clean (map_new M)" "map_find M (map_new M) = Map.empty" using M by (simp_all add: cuco_ok_def)
  have fst: "map fst ?kvs = map of_nat [0..<?n]" by simp
  then have sets: "fst ` set ?kvs = of_nat ` {0..<?n}" by (metis list.set_map set_upt)
  have "\<forall>k \<in> fst ` set ?kvs. k < kErased" unfolding sets using n(1) by (auto simp: word_less_nat_alt unat_of_nat kErased_def)
  then have e: "enters M cap (map_new M) ?kvs" using n(2) by (simp add: enters_def new(3))
  have d: "distinct (map fst ?kvs)" unfolding fst using initial_pairs(2) [of ?n] n(1) by simp
  note ins = cuco_insert [OF M new(1) e d]
  show "single (ix_map (index_load M cfg st))" "clean (ix_map (index_load M cfg st))"
    using ins(2,3) new(2,3) st by (simp_all add: index_load_def Let_def)
  show "map_find M (ix_map (index_load M cfg st)) = initial_keys ?n"
    using ins(1) new(3) st initial_pairs(1) [of ?n] n(1) by (simp add: index_load_def Let_def)
qed

definition files_ok :: "(nat \<Rightarrow> nat \<Rightarrow> u32 list) \<Rightarrow> bool" where
  "files_ok file \<longleftrightarrow> (\<forall>i n. length (file i n) = n)"

lemma shadow_new_wf:
  "files_ok file \<Longrightarrow> shadow_wf nr st ns (0 < nd) (shadow_new True nr st ns nd file)"
  by (simp add: shadow_wf_def shadow_new_def files_ok_def words_def)

lemma logs_hold_empty: "logs_hold [] [] s"
  by (simp add: logs_hold_def log_prefix_def split: option.splits)

lemma shadow_load_fields:
  assumes "s' = s\<lparr>shards := shards s'\<rparr>"
  shows "shadow_wf nr st ns d s' = shadow_wf nr st ns d s" and "logs_hold ks es s' = logs_hold ks es s"
  by (subst assms, simp add: shadow_wf_def) (subst assms, simp add: logs_hold_def)

definition serial_start :: "index_config \<Rightarrow> live_index" where
  "serial_start cfg = start_index (initial_keys (cfg_starting cfg))"

lemma start_process_ok:
  assumes M: "cuco_ok M cap single clean" and cfg: "index_cfg_ok cfg cap" and fl: "files_ok file"
  shows "\<exists>st. start_process M cfg file = Inr st \<and> index_inv M cfg single clean (serial_start cfg) st"
proof -
  let ?sh0 = "shadow_new True (cfg_num_records cfg) (cfg_starting cfg) (num_slots cfg) (cfg_num_deletes cfg) file"
  have n: "cfg_starting cfg < 2 ^ 32" using cfg by (auto simp: index_cfg_ok_def)
  obtain sh where sh: "shadow_load (cfg_starting cfg) ?sh0 = Inr sh" "sh = ?sh0\<lparr>shards := shards sh\<rparr>"
    using shadow_load_ok [of ?sh0 "cfg_starting cfg"] n by (auto simp: shadow_new_def)
  obtain st where st: "index_new M cfg sh = Inr st" "buffers_ok cfg st" "ix_map st = map_new M" "\<not> ix_has_erased st" "ix_shadow st = sh"
      "ix_free_start st = 0" "ix_delete_count st = 0" using index_new_ok [OF cfg] by blast
  note load = index_load_ok [OF M cfg st(3)]
  have "cfg_starting cfg < 2 ^ 32 - 12" using cfg by (auto simp: index_cfg_ok_def)
  then have small: "\<forall>k \<in> dom (initial_keys (cfg_starting cfg)). k < kErased"
    by (auto simp: initial_keys_def word_less_nat_alt kErased_def split: if_splits)
  have "index_inv M cfg single clean (serial_start cfg) (index_load M cfg st)"
    unfolding index_inv_def serial_start_def using load small st(2,4-7) initial_log_inv [OF n] shadow_new_wf [OF fl]
    by (simp add: start_index_def index_load_def Let_def buffers_ok_def logs_hold_empty shadow_load_fields(1) [OF sh(2)])
  then show ?thesis using sh(1) st(1) by (simp add: start_process_def)
qed

subsection \<open>All epochs\<close>

text \<open>The state of the serial run after the first \<open>i\<close> epochs, and what the index gives the executors in epoch \<open>i\<close>.\<close>

definition serial_after :: "index_config \<Rightarrow> YcsbTxn list list \<Rightarrow> live_index \<Rightarrow> nat \<Rightarrow> live_index" where
  "serial_after cfg txnss s i = fold (run_epoch cfg) (take i txnss) s"

definition epoch_params :: "index_config \<Rightarrow> YcsbTxn list list \<Rightarrow> live_index \<Rightarrow> nat \<Rightarrow> YcsbTxnParam list" where
  "epoch_params cfg txnss s i =
     serial_params (fresh_crid (of_nat (cfg_starting cfg)) (serial_after cfg txnss s i)) (txnss ! i) (live (serial_after cfg txnss s i))"

definition epoch_inserts :: "YcsbTxn list \<Rightarrow> nat" where
  "epoch_inserts txns = length (filter (\<lambda>e. slot_op txns e = INSERT) [0..<10 * length txns])"

lemma epoch_inserts_keys: "epoch_inserts txns = length (insert_keys (epoch_ops txns))"
  unfolding epoch_inserts_def insert_keys_def insert_slots_def length_epoch_ops length_map
  by (intro arg_cong [of _ _ length] filter_cong) auto

lemma run_minted: "length (minted (run_epoch cfg txns s)) \<le> length (minted s) + epoch_inserts txns"
  using minted_le_inserts [of "fresh_crid (of_nat (cfg_starting cfg)) s" "epoch_ops txns" "live s"]
  unfolding run_epoch_def epoch_continues [of "of_nat (cfg_starting cfg)" "epoch_ops txns" s] epoch_inserts_keys by (simp add: at_slot_def)

lemma index_run_ok:
  assumes M: "cuco_ok M cap single clean" and cfg: "index_cfg_ok cfg cap" and sch: "schedule_ok sch"
  shows "\<forall>txns \<in> set txnss. txns_ok cfg txns \<Longrightarrow> index_inv M cfg single clean s st \<Longrightarrow>
    length (minted s) + sum_list (map epoch_inserts txnss) \<le> cfg_num_records cfg - cfg_starting cfg \<Longrightarrow>
    \<exists>st'. index_run M cfg sch txnss st = Inr (st', map (epoch_params cfg txnss s) [0..<length txnss]) \<and>
      index_inv M cfg single clean (serial_after cfg txnss s (length txnss)) st'"
proof (induction txnss arbitrary: s st)
  case Nil
  then show ?case by (simp add: serial_after_def)
next
  case (Cons txns rest)
  let ?s1 = "run_epoch cfg txns s"
  have n: "length (insert_keys (epoch_ops txns)) \<le> cfg_num_records cfg - cfg_starting cfg - length (minted s)"
    using Cons.prems(3) by (simp add: epoch_inserts_keys)
  obtain st1 where st1: "indexTxns M cfg sch True txns st = Inr (st1, serial_params (fresh_crid (of_nat (cfg_starting cfg)) s) txns (live s))"
      "index_inv M cfg single clean ?s1 st1"
    using index_epoch [OF M cfg _ sch Cons.prems(2) n] Cons.prems(1) by auto
  have "length (minted ?s1) + sum_list (map epoch_inserts rest) \<le> cfg_num_records cfg - cfg_starting cfg"
    using Cons.prems(3) run_minted [of cfg txns s] by simp
  then obtain st' where st': "index_run M cfg sch rest st1 = Inr (st', map (epoch_params cfg rest ?s1) [0..<length rest])"
      "index_inv M cfg single clean (serial_after cfg rest ?s1 (length rest)) st'"
    using Cons.IH [OF _ st1(2)] Cons.prems(1) by auto
  have "map (epoch_params cfg (txns # rest) s) [0..<length (txns # rest)] =
      serial_params (fresh_crid (of_nat (cfg_starting cfg)) s) txns (live s) # map (epoch_params cfg rest ?s1) [0..<length rest]"
    by (intro nth_equalityI) (auto simp: epoch_params_def serial_after_def nth_Cons split: nat.splits simp del: upt_Suc)
  then show ?case using st1(1) st' by (simp add: serial_after_def)
qed

subsection \<open>The upload of the shards\<close>

definition entries_ok :: "((u32 \<rightharpoonup> u32) \<Rightarrow> (u32 \<times> u32) list) \<Rightarrow> bool" where
  "entries_ok entries \<longleftrightarrow> (\<forall>m. set (entries m) = {(k, v). m k = Some v} \<and> distinct (map fst (entries m)))"

definition shards_ok :: "shadow_index \<Rightarrow> bool" where
  "shards_ok s \<longleftrightarrow> length (shards s) = kShards \<and> (\<forall>i < kShards. \<forall>k. (shards s ! i) k \<noteq> None \<longrightarrow> shardForKey k = i)"

lemma shard_entries:
  assumes e: "entries_ok entries" and s: "shards_ok s"
  shows "distinct (map fst (concat (map entries (shards s))))" and "map_of (concat (map entries (shards s))) = shadow_find s"
proof -
  let ?es = "concat (map entries (shards s))"
  have mem: "(k, v) \<in> set (entries m) \<longleftrightarrow> m k = Some v" and d: "distinct (map fst (entries m))" for m k v using e by (auto simp: entries_ok_def)
  have own: "shardForKey k = i" if "i < kShards" "k \<in> set (map fst (entries (shards s ! i)))" for i k
    using that s mem by (fastforce simp: shards_ok_def)
  have "distinct (concat (map (\<lambda>i. map fst (entries (shards s ! i))) [0..<n]))" if "n \<le> kShards" for n
    using that
  proof (induction n)
    case (Suc n)
    have "shardForKey k < n" if k: "k \<in> set (concat (map (\<lambda>i. map fst (entries (shards s ! i))) [0..<n]))" for k
    proof -
      obtain i where "i < n" "k \<in> set (map fst (entries (shards s ! i)))" using k by force
      then show ?thesis using own [of i k] Suc.prems by simp
    qed
    moreover have "shardForKey k = n" if "k \<in> set (map fst (entries (shards s ! n)))" for k using own [OF _ that] Suc.prems by simp
    ultimately have "set (concat (map (\<lambda>i. map fst (entries (shards s ! i))) [0..<n])) \<inter> set (map fst (entries (shards s ! n))) = {}"
      by (metis disjoint_iff less_irrefl)
    then show ?case using Suc.IH Suc.prems d [of "shards s ! n"] by simp
  qed simp
  moreover have sh: "shards s = map (\<lambda>i. shards s ! i) [0..<kShards]" using s map_nth [of "shards s"] by (simp add: shards_ok_def)
  ultimately have "distinct (concat (map (\<lambda>i. map fst (entries (shards s ! i))) [0..<kShards]))" by blast
  moreover have "map fst ?es = concat (map (\<lambda>i. map fst (entries (shards s ! i))) [0..<kShards])"
    by (subst sh) (simp add: map_concat comp_def)
  ultimately show dist: "distinct (map fst ?es)" by simp
  have in_es: "(k, v) \<in> set ?es \<longleftrightarrow> (\<exists>i < kShards. (shards s ! i) k = Some v)" for k v
  proof -
    have "(k, v) \<in> set ?es \<longleftrightarrow> (\<exists>sh \<in> set (shards s). sh k = Some v)" by (auto simp: mem)
    also have "\<dots> \<longleftrightarrow> (\<exists>i < length (shards s). (shards s ! i) k = Some v)" by (metis in_set_conv_nth)
    finally show ?thesis using s by (simp add: shards_ok_def)
  qed
  have "(\<exists>i < kShards. (shards s ! i) k = Some v) \<longleftrightarrow> shadow_find s k = Some v" for k v
  proof
    assume "\<exists>i < kShards. (shards s ! i) k = Some v"
    then obtain i where i: "i < kShards" "(shards s ! i) k = Some v" by blast
    then have "shardForKey k = i" using s unfolding shards_ok_def by blast
    then show "shadow_find s k = Some v" using i(2) by (simp add: shadow_find_def)
  next
    assume "shadow_find s k = Some v"
    then show "\<exists>i < kShards. (shards s ! i) k = Some v" by (intro exI [of _ "shardForKey k"]) (simp add: shadow_find_def)
  qed
  then have eq: "map_of ?es k = Some v \<longleftrightarrow> shadow_find s k = Some v" for k v unfolding map_of_eq_Some_iff [OF dist] in_es .
  show "map_of ?es = shadow_find s"
  proof
    fix k
    show "map_of ?es k = shadow_find s k" using eq [of k] by (metis option.exhaust)
  qed
qed

text \<open>The map during the upload of \<open>xs\<close>, with the entries still to be flushed.\<close>

definition uploading :: "('m, 'z) static_map_scheme \<Rightarrow> ('m \<Rightarrow> bool) \<Rightarrow> ('m \<Rightarrow> bool) \<Rightarrow> (u32 \<times> u32) list \<Rightarrow> (u32 \<times> u32) list \<times> 'm \<Rightarrow> bool" where
  "uploading M single clean xs s \<longleftrightarrow>
     single (snd s) \<and> clean (snd s) \<and> (\<exists>ys. xs = ys @ fst s \<and> map_find M (snd s) = map_of ys)"

lemma upload_batch:
  assumes M: "cuco_ok M cap single clean" and m: "single m" "clean m" "map_find M m = map_of ys"
    and xs: "distinct (map fst (ys @ zs))" "\<forall>k \<in> fst ` set (ys @ zs). k < kErased" "length (ys @ zs) \<le> cap"
  shows "single (map_insert M m zs)" and "clean (map_insert M m zs)" and "map_find M (map_insert M m zs) = map_of (ys @ zs)"
proof -
  have dom: "dom (map_find M m) = fst ` set ys" by (simp add: m(3) dom_map_of_conv_image_fst)
  then have "card (dom (map_find M m)) \<le> length ys" using card_length [of "map fst ys"] by simp
  then have e: "enters M cap m zs" using xs(2,3) by (simp add: enters_def)
  have dis: "fst ` set zs \<inter> dom (map_find M m) = {}" unfolding dom using xs(1) by auto
  note ins = cuco_insert [OF M m(1) e _ dis]
  show "single (map_insert M m zs)" "clean (map_insert M m zs)" using ins(2,3) m(2) xs(1) by simp_all
  have "map_of ys ++ map_of zs = map_of zs ++ map_of ys"
    using dis unfolding dom by (intro map_add_comm) (auto simp: dom_map_of_conv_image_fst)
  then show "map_find M (map_insert M m zs) = map_of (ys @ zs)" using ins(1) xs(1) m(3) by simp
qed

lemma upload_fold:
  assumes M: "cuco_ok M cap single clean"
    and xs: "distinct (map fst xs)" "\<forall>k \<in> fst ` set xs. k < kErased" "length xs \<le> cap"
  shows "uploading M single clean xs (fold (push_entry M) xs ([], map_new M))"
  using xs
proof (induction xs rule: rev_induct)
  case Nil
  then show ?case using M by (simp add: uploading_def cuco_ok_def)
next
  case (snoc kv xs)
  then obtain ys p m where s: "fold (push_entry M) xs ([], map_new M) = (p, m)" and u: "xs = ys @ p" "single m" "clean m" "map_find M m = map_of ys"
    unfolding uploading_def by (cases "fold (push_entry M) xs ([], map_new M)") auto
  have "single (map_insert M m (p @ [kv]))" "clean (map_insert M m (p @ [kv]))" "map_find M (map_insert M m (p @ [kv])) = map_of (ys @ p @ [kv])"
    using upload_batch [OF M u(2-4), of "p @ [kv]"] snoc.prems u(1) by simp_all
  then have "uploading M single clean (ys @ p @ [kv]) (push_entry M kv (p, m))" using u(2-4) by (auto simp: uploading_def push_entry_def Let_def)
  moreover have "fold (push_entry M) (xs @ [kv]) ([], map_new M) = push_entry M kv (p, m)" by (simp add: s)
  ultimately show ?case by (simp add: u(1))
qed

lemma upload_ok:
  assumes M: "cuco_ok M cap single clean"
    and xs: "distinct (map fst xs)" "\<forall>k \<in> fst ` set xs. k < kErased" "length xs \<le> cap"
  defines "m \<equiv> flush_batch M (fold (push_entry M) xs ([], map_new M))"
  shows "single m" and "clean m" and "map_find M m = map_of xs"
proof -
  obtain ys p m0 where s: "fold (push_entry M) xs ([], map_new M) = (p, m0)" and u: "xs = ys @ p" "single m0" "clean m0" "map_find M m0 = map_of ys"
    using upload_fold [OF M xs] unfolding uploading_def by (cases "fold (push_entry M) xs ([], map_new M)") auto
  have "m = flush_batch M (p, m0)" by (simp add: m_def s)
  moreover have "single (flush_batch M (p, m0)) \<and> clean (flush_batch M (p, m0)) \<and> map_find M (flush_batch M (p, m0)) = map_of (ys @ p)"
    using upload_batch [OF M u(2-4), of p] xs u by (auto simp: flush_batch_def)
  ultimately have "single m \<and> clean m \<and> map_find M m = map_of xs" by (simp add: u(1))
  then show "single m" "clean m" "map_find M m = map_of xs" by simp_all
qed

subsection \<open>Recovery\<close>

lemma load_loop_own:
  assumes "n \<le> 2 ^ 32" and "tid < kShards" and "load_loop n tid Map.empty k \<noteq> None"
  shows "shardForKey k = tid"
proof -
  obtain i where i: "tid + i * kShards < n" "k = of_nat (tid + i * kShards)" using assms(3) unfolding load_loop_at by (auto split: if_splits)
  then have "unat k = tid + i * kShards" using assms(1) by (simp add: unat_of_nat del: of_nat_add of_nat_mult)
  then show ?thesis using assms(2) unat_mod_distrib [of k "of_nat kShards"] by (simp add: shardForKey_def kShards_def)
qed

lemma insert_loop_own: "insert_loop b a n tid sh k \<noteq> None \<Longrightarrow> sh k \<noteq> None \<or> shardForKey k = tid"
  unfolding insert_loop_def by (induction n arbitrary: sh) (auto simp: Let_def split: if_splits)

lemma delete_loop_own: "delete_loop ks cs n tid sh k \<noteq> None \<Longrightarrow> sh k \<noteq> None"
  unfolding delete_loop_def by (induction n arbitrary: sh) (auto simp: Let_def split: if_splits)

lemma recover_shadow_shards:
  assumes "recover_shadow n f d s = Inr s'" and "shards s = replicate kShards Map.empty" and "n \<le> 2 ^ 32"
  shows "shards_ok s'" and "s' = s\<lparr>shards := shards s'\<rparr>"
proof -
  obtain s1 s2 where s1: "shadow_load n s = Inr s1" and s2: "reconstructInsertsFromDurable n f s1 = Inr s2"
      and s3: "applyDeletesFromDurable d s2 = Inr s'"
    using assms(1) by (auto simp: recover_shadow_def split: sum.splits)
  have 1: "s1 = s\<lparr>shards := shards s1\<rparr>" "shards s1 = map (\<lambda>tid. load_loop n tid Map.empty) [0..<kShards]"
    using s1 assms(2) by (auto simp: shadow_load_def Let_def split: list.splits)
  have o1: "shards_ok s1" unfolding shards_ok_def 1(2) using load_loop_own [OF assms(3)] by auto
  have 2: "s2 = s1\<lparr>shards := shards s2\<rparr>" "shards_ok s2"
    using s2 o1 insert_loop_own unfolding shards_ok_def reconstructInsertsFromDurable_def
    by (auto split: option.splits if_splits) blast
  have "s' = s2\<lparr>shards := shards s'\<rparr> \<and> shards_ok s'"
    using s3 2(2) delete_loop_own unfolding shards_ok_def applyDeletesFromDurable_def
    by (auto split: option.splits if_splits) blast
  moreover obtain x1 x2 where "s1 = s\<lparr>shards := x1\<rparr>" "s2 = s1\<lparr>shards := x2\<rparr>" using 1(1) 2(1) by blast
  ultimately obtain x3 where "s' = s\<lparr>shards := x3\<rparr>" "shards_ok s'" by auto
  then show "shards_ok s'" "s' = s\<lparr>shards := shards s'\<rparr>" by simp_all
qed

lemma stragglers_none:
  assumes "shards_ok s" and "\<And>k c. shadow_find s k = Some c \<Longrightarrow> c < mx"
  shows "eraseStragglers mx s = s"
proof -
  have "(case (shards s ! i) k of None \<Rightarrow> None | Some c \<Rightarrow> if mx \<le> c then None else Some c) = (shards s ! i) k" if i: "i < kShards" for i k
  proof (cases "(shards s ! i) k")
    case (Some c)
    then have "shardForKey k = i" using assms(1) i unfolding shards_ok_def by blast
    then have "c < mx" using assms(2) [of k c] Some by (simp add: shadow_find_def)
    then show ?thesis using Some by simp
  qed simp
  then have "map (\<lambda>shard k. case shard k of None \<Rightarrow> None | Some c \<Rightarrow> if mx \<le> c then None else Some c) (shards s) = shards s"
    using assms(1) by (intro nth_equalityI) (auto simp: shards_ok_def)
  then show ?thesis by (simp add: eraseStragglers_def)
qed

text \<open>The files that a crash leaves: as long as before, and unchanged below the cursors.\<close>

definition torn_log :: "nat \<Rightarrow> u32 list option \<Rightarrow> u32 list option \<Rightarrow> bool" where
  "torn_log n log log' \<longleftrightarrow> rel_option (\<lambda>a a'. length a = length a' \<and> take n a = take n a') log log'"

definition torn_files :: "nat \<Rightarrow> nat \<Rightarrow> shadow_index \<Rightarrow> shadow_index \<Rightarrow> bool" where
  "torn_files f d s s' \<longleftrightarrow> torn_log f (durable_insert_keys s) (durable_insert_keys s') \<and>
     torn_log d (durable_delete_keys s) (durable_delete_keys s') \<and> torn_log d (durable_delete_crids s) (durable_delete_crids s')"

lemma torn_prefix:
  assumes "torn_log n log log'"
  shows "map_option length log' = map_option length log" and "length xs = n \<Longrightarrow> log_prefix xs log \<Longrightarrow> log_prefix xs log'"
  using assms by (auto simp: torn_log_def log_prefix_def option_rel_Some1 option_rel_Some2 elim!: option.rel_cases)

lemma restart_ok:
  assumes wf: "shadow_wf nr st ns (0 < nd) s" and hold: "logs_hold ks es s" and torn: "torn_files (length ks) (length es) s s'"
  shows "shadow_wf nr st ns (0 < nd) (restart_shadow nr st ns nd s')" and "logs_hold ks es (restart_shadow nr st ns nd s')"
    and "shards (restart_shadow nr st ns nd s') = replicate kShards Map.empty"
proof -
  let ?r = "restart_shadow nr st ns nd s'"
  have t: "map_option length (durable_insert_keys s') = map_option length (durable_insert_keys s)"
    "map_option length (durable_delete_keys s') = map_option length (durable_delete_keys s)"
    "map_option length (durable_delete_crids s') = map_option length (durable_delete_crids s)"
    using torn torn_prefix(1) by (auto simp: torn_files_def)
  have same: "durable_insert_keys ?r = durable_insert_keys s'" "durable_delete_keys ?r = durable_delete_keys s'"
    "durable_delete_crids ?r = durable_delete_crids s'"
    using wf t by (auto simp: restart_shadow_def shadow_new_def shadow_wf_def split: option.splits if_splits)
  show "shadow_wf nr st ns (0 < nd) ?r" using wf t same
    by (simp add: shadow_wf_def) (simp add: restart_shadow_def shadow_new_def words_def)
  show "logs_hold ks es ?r" using hold torn same torn_prefix(2) by (auto simp: logs_hold_def torn_files_def)
  show "shards ?r = replicate kShards Map.empty" by (simp add: restart_shadow_def shadow_new_def)
qed

lemma recover_process_ok:
  assumes M: "cuco_ok M cap single clean" and cfg: "index_cfg_ok cfg cap" and en: "entries_ok entries"
    and inv: "index_inv M' cfg single' clean' s st"
    and hold: "logs_hold (minted s) (ended s) old" and torn: "torn_files (length (minted s)) (length (ended s)) old old'"
    and wf: "shadow_wf (cfg_num_records cfg) (cfg_starting cfg) (num_slots cfg) (0 < cfg_num_deletes cfg) old"
  shows "\<exists>st'. recover_process M cfg entries (length (minted s)) (length (ended s)) old' = Inr st' \<and> index_inv M cfg single clean s st'"
proof -
  let ?n = "cfg_starting cfg" and ?b0 = "of_nat (cfg_starting cfg) :: u32"
  let ?r = "restart_shadow (cfg_num_records cfg) ?n (num_slots cfg) (cfg_num_deletes cfg) old'"
  note r = restart_ok [OF wf hold torn]
  have n: "?n \<le> 2 ^ 32" "?n \<le> cfg_num_records cfg" "cfg_num_records cfg < 2 ^ 32" "cfg_num_records cfg \<le> cap" using cfg by (auto simp: index_cfg_ok_def)
  have f: "length (minted s) \<le> cfg_num_records cfg - ?n" "log_inv ?b0 (initial_keys ?n) s" "\<forall>k \<in> dom (live s). k < kErased"
    using inv by (simp_all add: index_inv_def)
  have u: "unat ?b0 = ?n" "unat (of_nat (?n + length (minted s)) :: u32) = ?n + length (minted s)" using n f(1) by (simp_all add: unat_of_nat del: of_nat_add)
  obtain sh where sh: "recover_shadow ?n (length (minted s)) (length (ended s)) ?r = Inr sh" "shadow_find sh = live s"
    using recover_shadow_ok [OF r(2,3) n(1)] f(2) unfolding log_inv_def by auto
  note shp = recover_shadow_shards [OF sh(1) r(3) n(1)]
  obtain st0 where st0: "index_new M cfg sh = Inr st0" "buffers_ok cfg st0" "ix_shadow st0 = sh" using index_new_ok [OF cfg] by blast
  have ran: "\<forall>c \<in> ran (live s). unat c < unat (of_nat (?n + length (minted s)) :: u32)" and inj: "inj_on (live s) (dom (live s))"
    using f(2) u unfolding log_inv_def by auto
  have er: "eraseStragglers (of_nat (?n + length (minted s))) sh = sh"
    using ran sh(2) by (intro stragglers_none [OF shp(1)]) (auto simp: word_less_nat_alt ran_def simp del: of_nat_add)
  let ?es = "concat (map entries (shards sh))"
  note es = shard_entries [OF en shp(1)]
  have dom: "fst ` set ?es = dom (live s)" using es(2) sh(2) by (metis dom_map_of_conv_image_fst)
  have "length ?es = card (dom (live s))" using distinct_card [OF es(1)] dom by simp
  then have len: "length ?es \<le> cap" using live_card(1) [OF ran inj] u n f(1) by simp
  note up = upload_ok [OF M es(1) _ len, unfolded dom, OF f(3)]
  let ?st = "rebuildCucoFromShadow M cfg entries (length (minted s)) (length (ended s)) (index_load M cfg st0)"
  have sync: "logs_hold (minted s) (ended s) (syncSnapshotsToRollback x sh)"
      "shadow_wf (cfg_num_records cfg) ?n (num_slots cfg) (0 < cfg_num_deletes cfg) (syncSnapshotsToRollback x sh)" for x
    using r(1,2) unfolding shadow_load_fields [OF shp(2), symmetric] by (simp_all add: syncSnapshotsToRollback_def logs_hold_def shadow_wf_def)
  have "index_inv M cfg single clean s ?st"
    using up st0(2,3) er es(2) sh(2) f sync
    by (simp add: index_inv_def rebuildCucoFromShadow_def Let_def index_load_def buffers_ok_def del: of_nat_add)
  then show ?thesis using sh(1) st0(1) by (simp add: recover_process_def)
qed

subsection \<open>Runs and crashes\<close>

lemma serial_after_add:
  "serial_after cfg (drop n txnss) (serial_after cfg txnss s n) i = serial_after cfg txnss s (n + i)"
  by (simp add: serial_after_def take_add)

lemma epoch_params_add:
  "epoch_params cfg (drop n txnss) (serial_after cfg txnss s n) i = epoch_params cfg txnss s (n + i)" if "n \<le> length txnss"
  using that by (simp add: epoch_params_def serial_after_add)

lemma serial_after_grows: "\<exists>ks es. minted (serial_after cfg txnss s n) = minted s @ ks \<and> ended (serial_after cfg txnss s n) = ended s @ es"
proof (induction n arbitrary: s txnss)
  case 0
  then show ?case by (simp add: serial_after_def)
next
  case (Suc n)
  show ?case
  proof (cases txnss)
    case (Cons txns rest)
    have "\<exists>ks es. minted (run_epoch cfg txns s) = minted s @ ks \<and> ended (run_epoch cfg txns s) = ended s @ es"
      unfolding run_epoch_def epoch_continues [of "of_nat (cfg_starting cfg)" "epoch_ops txns" s] by simp
    then show ?thesis using Suc [of rest "run_epoch cfg txns s"] by (auto simp: Cons serial_after_def)
  qed (simp add: serial_after_def)
qed

lemma serial_after_minted:
  "length (minted (serial_after cfg txnss s n)) \<le> length (minted s) + sum_list (map epoch_inserts (take n txnss))"
proof (induction n arbitrary: s txnss)
  case (Suc n)
  then show ?case
  proof (cases txnss)
    case (Cons txns rest)
    then show ?thesis using Suc [of rest "run_epoch cfg txns s"] run_minted [of cfg txns s] by (simp add: serial_after_def)
  qed (simp add: serial_after_def)
qed (simp add: serial_after_def)

text \<open>The index over all epochs of a process.\<close>

definition epochs_ok :: "index_config \<Rightarrow> YcsbTxn list list \<Rightarrow> bool" where
  "epochs_ok cfg txnss \<longleftrightarrow> (\<forall>txns \<in> set txnss. txns_ok cfg txns) \<and>
     sum_list (map epoch_inserts txnss) \<le> cfg_num_records cfg - cfg_starting cfg"

lemma index_run_from_start:
  assumes M: "cuco_ok M cap single clean" and cfg: "index_cfg_ok cfg cap" and sch: "schedule_ok sch" and fl: "files_ok file"
    and ep: "epochs_ok cfg txnss"
  shows "\<exists>st st'. start_process M cfg file = Inr st \<and>
    index_run M cfg sch txnss st = Inr (st', map (epoch_params cfg txnss (serial_start cfg)) [0..<length txnss]) \<and>
    index_inv M cfg single clean (serial_after cfg txnss (serial_start cfg) (length txnss)) st'"
proof -
  obtain st where "start_process M cfg file = Inr st" "index_inv M cfg single clean (serial_start cfg) st"
    using start_process_ok [OF M cfg fl] by blast
  moreover have "minted (serial_start cfg) = []" by (simp add: serial_start_def start_index_def)
  ultimately show ?thesis using index_run_ok [OF M cfg sch, of txnss "serial_start cfg" st] ep by (auto simp: epochs_ok_def)
qed

lemma index_recover_replay:
  assumes M: "cuco_ok M cap single clean" and cfg: "index_cfg_ok cfg cap" and sch: "schedule_ok sch" and fl: "files_ok file"
    and ep: "epochs_ok cfg txnss" and en: "entries_ok entries" and n: "n \<le> length txnss"
    and inv: "index_inv M cfg single clean (serial_after cfg txnss (serial_start cfg) (length txnss)) st1"
    and torn: "torn_files (length (minted (serial_after cfg txnss (serial_start cfg) n))) (length (ended (serial_after cfg txnss (serial_start cfg) n)))
      (ix_shadow st1) old"
  shows "\<exists>st2 st3. recover_process M cfg entries (length (minted (serial_after cfg txnss (serial_start cfg) n)))
        (length (ended (serial_after cfg txnss (serial_start cfg) n))) old = Inr st2 \<and>
      map_find M (ix_map st2) = live (serial_after cfg txnss (serial_start cfg) n) \<and>
      index_run M cfg sch (drop n txnss) st2 = Inr (st3, drop n (map (epoch_params cfg txnss (serial_start cfg)) [0..<length txnss])) \<and>
      map_find M (ix_map st3) = map_find M (ix_map st1)"
proof -
  let ?start = "serial_start cfg"
  let ?s = "serial_after cfg txnss ?start n"
  have e: "\<forall>txns \<in> set (take n txnss). txns_ok cfg txns" "\<forall>txns \<in> set (drop n txnss). txns_ok cfg txns"
    using ep by (auto simp: epochs_ok_def dest: in_set_takeD in_set_dropD)
  have sum: "sum_list (map epoch_inserts (take n txnss)) + sum_list (map epoch_inserts (drop n txnss)) \<le> cfg_num_records cfg - cfg_starting cfg"
    using ep by (simp add: epochs_ok_def flip: sum_list_append map_append)
  have m0: "minted ?start = []" by (simp add: serial_start_def start_index_def)
  have "epochs_ok cfg (take n txnss)" using e(1) sum by (simp add: epochs_ok_def)
  from index_run_from_start [OF M cfg sch fl this] obtain stn where invn: "index_inv M cfg single clean ?s stn"
    using n by (auto simp: serial_after_def)
  obtain ks es where ext: "minted (serial_after cfg txnss ?start (length txnss)) = minted ?s @ ks"
      "ended (serial_after cfg txnss ?start (length txnss)) = ended ?s @ es"
    using serial_after_grows [of cfg "drop n txnss" ?s "length txnss - n"] n by (auto simp: serial_after_add)
  have hold: "logs_hold (minted ?s) (ended ?s) (ix_shadow st1)"
    using inv ext by (auto simp: index_inv_def intro: logs_hold_append)
  have wf: "shadow_wf (cfg_num_records cfg) (cfg_starting cfg) (num_slots cfg) (0 < cfg_num_deletes cfg) (ix_shadow st1)"
    using inv by (simp add: index_inv_def)
  obtain st2 where st2: "recover_process M cfg entries (length (minted ?s)) (length (ended ?s)) old = Inr st2" "index_inv M cfg single clean ?s st2"
    using recover_process_ok [OF M cfg en invn hold torn wf] by blast
  have "length (minted ?s) + sum_list (map epoch_inserts (drop n txnss)) \<le> cfg_num_records cfg - cfg_starting cfg"
    using serial_after_minted [of cfg txnss ?start n] m0 sum by simp
  from index_run_ok [OF M cfg sch e(2) st2(2) this] obtain st3 where
    st3: "index_run M cfg sch (drop n txnss) st2 = Inr (st3, map (epoch_params cfg (drop n txnss) ?s) [0..<length (drop n txnss)])"
      "index_inv M cfg single clean (serial_after cfg (drop n txnss) ?s (length (drop n txnss))) st3" by blast
  have "map (epoch_params cfg (drop n txnss) ?s) [0..<length (drop n txnss)] = drop n (map (epoch_params cfg txnss ?start) [0..<length txnss])"
    using n by (intro nth_equalityI) (auto simp: epoch_params_add)
  moreover have "map_find M (ix_map st3) = map_find M (ix_map st1)"
    using st3(2) inv n by (simp add: index_inv_def serial_after_add)
  ultimately show ?thesis using st2 st3(1) by (auto simp: index_inv_def)
qed

end
