(* ===== verification/Index_Serial.thy ===== *)
theory Index_Serial
  imports Index_Run
begin

text \<open>
  The theorems about the key index, with a hash map and a walk over a shard that have the assumed behaviour.
\<close>

subsection \<open>A hash map with the assumed behaviour\<close>

fun enter_all :: "(u32 \<times> u32) list \<Rightarrow> (u32 \<times> u32) list \<Rightarrow> (u32 \<times> u32) list" where
  "enter_all m [] = m"
| "enter_all m (kv # kvs) = enter_all (if fst kv \<in> fst ` set m then m else m @ [kv]) kvs"

definition list_map :: "(u32 \<times> u32) list static_map" where
  "list_map = \<lparr>map_new = [], map_find = map_of, map_insert = enter_all,
     map_erase = (\<lambda>m ks. filter (\<lambda>kv. fst kv \<notin> set ks) m), map_size = length\<rparr>"

definition list_single :: "(u32 \<times> u32) list \<Rightarrow> bool" where "list_single m = distinct (map fst m)"

lemma enter_all_new:
  "distinct (map fst m) \<Longrightarrow> \<exists>new. enter_all m kvs = m @ new \<and> set new \<subseteq> set kvs \<and> distinct (map fst (m @ new)) \<and>
     fst ` set new = fst ` set kvs - fst ` set m"
proof (induction kvs arbitrary: m)
  case (Cons kv kvs)
  show ?case
  proof (cases "fst kv \<in> fst ` set m")
    case True
    then show ?thesis using Cons.IH [OF Cons.prems] by auto
  next
    case False
    then have "distinct (map fst (m @ [kv]))" using Cons.prems by auto
    from Cons.IH [OF this] obtain new where "enter_all (m @ [kv]) kvs = m @ kv # new" "set new \<subseteq> set kvs"
        "distinct (map fst (m @ kv # new))" "fst ` set new = fst ` set kvs - fst ` set (m @ [kv])" by auto
    then show ?thesis using False by (intro exI [of _ "kv # new"]) auto
  qed
qed simp

lemma enter_all_fresh: "distinct (map fst kvs) \<Longrightarrow> fst ` set kvs \<inter> fst ` set m = {} \<Longrightarrow> enter_all m kvs = m @ kvs"
  by (induction kvs arbitrary: m) auto

lemma filter_keys_map_of: "map_of (filter (\<lambda>kv. fst kv \<notin> K) m) = map_of m |` (- K)"
  by (induction m) (auto simp: fun_eq_iff restrict_map_def)

lemma list_map_ok: "cuco_ok list_map cap list_single (\<lambda>m. True)"
  unfolding cuco_ok_def
proof (intro conjI)
  show "list_single (map_new list_map)" "map_find list_map (map_new list_map) = Map.empty" by (simp_all add: list_map_def list_single_def)
  show "insert_new list_map cap list_single (\<lambda>m. True)"
    unfolding insert_new_def
  proof (intro allI impI)
    fix m kvs :: "(u32 \<times> u32) list"
    assume a: "list_single m" "distinct (map fst kvs)" "fst ` set kvs \<inter> dom (map_find list_map m) = {}"
    then have dis: "fst ` set kvs \<inter> fst ` set m = {}" by (simp add: list_map_def dom_map_of_conv_image_fst)
    have "map_of m ++ map_of kvs = map_of kvs ++ map_of m" using dis by (intro map_add_comm) (auto simp: dom_map_of_conv_image_fst)
    then show "map_find list_map (map_insert list_map m kvs) = map_find list_map m ++ map_of kvs \<and>
        list_single (map_insert list_map m kvs) \<and> (True \<longrightarrow> True)"
      using a dis enter_all_fresh [OF a(2) dis] by (auto simp: list_map_def list_single_def)
  qed
  show "insert_clean list_map cap list_single (\<lambda>m. True)"
    unfolding insert_clean_def Let_def
  proof (intro allI impI)
    fix m kvs :: "(u32 \<times> u32) list" assume "list_single m"
    then obtain new where n: "enter_all m kvs = m @ new" "set new \<subseteq> set kvs" "distinct (map fst (m @ new))" "fst ` set new = fst ` set kvs - fst ` set m"
      using enter_all_new [of m kvs] unfolding list_single_def by blast
    have len: "length new = card (fst ` set kvs - fst ` set m)" using n(3,4) distinct_card [of "map fst new"] by simp
    have "map_of (m @ new) k = map_of m k" if "k \<notin> fst ` set new" for k
    proof -
      have "map_of new k = None" using that by (simp add: map_of_eq_None_iff)
      then show ?thesis by (cases "map_of m k") (simp_all add: map_add_def)
    qed
    moreover have "\<exists>v. (k, v) \<in> set kvs \<and> map_of (m @ new) k = Some v" if k: "k \<in> fst ` set new" for k
    proof -
      obtain v where v: "(k, v) \<in> set new" using k by auto
      then have "map_of (m @ new) k = Some v" using n(3) by (intro map_of_is_SomeI) simp_all
      then show ?thesis using v n(2) by blast
    qed
    ultimately show "list_single (map_insert list_map m kvs) \<and> True \<and>
        map_size list_map (map_insert list_map m kvs) = map_size list_map m + card (fst ` set kvs - dom (map_find list_map m)) \<and>
        (\<forall>k. k \<notin> fst ` set kvs - dom (map_find list_map m) \<longrightarrow> map_find list_map (map_insert list_map m kvs) k = map_find list_map m k) \<and>
        (\<forall>k \<in> fst ` set kvs - dom (map_find list_map m). \<exists>v. (k, v) \<in> set kvs \<and> map_find list_map (map_insert list_map m kvs) k = Some v)"
      using n len by (simp add: list_map_def list_single_def dom_map_of_conv_image_fst)
  qed
  show "insert_twice list_map cap list_single"
    unfolding insert_twice_def Let_def
  proof (intro allI impI)
    fix m kvs :: "(u32 \<times> u32) list" assume a: "list_single m" "fst ` set kvs \<inter> dom (map_find list_map m) = {}"
    then have dis: "fst ` set kvs \<inter> fst ` set m = {}" by (simp add: list_map_def dom_map_of_conv_image_fst)
    obtain new where n: "enter_all m kvs = m @ new" "set new \<subseteq> set kvs" "distinct (map fst (m @ new))" "fst ` set new = fst ` set kvs - fst ` set m"
      using enter_all_new [of m kvs] a(1) unfolding list_single_def by blast
    have "filter (\<lambda>kv. fst kv \<notin> set (map fst kvs)) (m @ new) = m"
    proof -
      have "filter (\<lambda>kv. fst kv \<notin> set (map fst kvs)) m = m" using dis by (intro filter_True) auto
      moreover have "filter (\<lambda>kv. fst kv \<notin> set (map fst kvs)) new = []" using n(2) by (intro filter_False) auto
      ultimately show ?thesis by simp
    qed
    moreover have "\<exists>v. (k, v) \<in> set kvs \<and> map_of (m @ new) k = Some v" if k: "k \<in> fst ` set kvs" for k
    proof -
      have "k \<in> fst ` set new" using n(4) dis k by auto
      then obtain v where v: "(k, v) \<in> set new" by auto
      then have "map_of (m @ new) k = Some v" using n(3) by (intro map_of_is_SomeI) simp_all
      then show ?thesis using v n(2) by blast
    qed
    ultimately show "(\<forall>k \<in> fst ` set kvs. \<exists>v. (k, v) \<in> set kvs \<and> map_find list_map (map_insert list_map m kvs) k = Some v) \<and>
        list_single (map_erase list_map (map_insert list_map m kvs) (map fst kvs)) \<and>
        map_find list_map (map_erase list_map (map_insert list_map m kvs) (map fst kvs)) = map_find list_map m"
      using a(1) n(1) by (simp add: list_map_def)
  qed
  show "erase_keys list_map list_single"
    by (auto simp: erase_keys_def list_map_def list_single_def filter_keys_map_of distinct_map inj_on_def)
qed simp

text \<open>A walk over a shard in the order of the keys.\<close>

definition key_order :: "(u32 \<rightharpoonup> u32) \<Rightarrow> (u32 \<times> u32) list" where
  "key_order m = map (\<lambda>k. (k, the (m k))) (filter (\<lambda>k. m k \<noteq> None) (map of_nat [0..<2 ^ 32]))"

lemma key_order_ok: "entries_ok key_order"
  unfolding entries_ok_def
proof (intro allI conjI)
  fix m :: "u32 \<rightharpoonup> u32"
  have all: "k \<in> set (map of_nat [0..<2 ^ 32])" for k :: u32
  proof -
    have "k = of_nat (unat k)" "unat k < 2 ^ 32" using unsigned_less [of k] by simp_all
    then show ?thesis unfolding set_map set_upt by (metis atLeastLessThan_iff imageI le0)
  qed
  show "set (key_order m) = {(k, v). m k = Some v}" unfolding key_order_def set_map [of "\<lambda>k. (k, the (m k))"] set_filter using all by auto
  have "map fst (key_order m) = filter (\<lambda>k. m k \<noteq> None) (map of_nat [0..<2 ^ 32])" unfolding key_order_def map_map comp_def fst_conv by (simp only: list.map_ident)
  then show "distinct (map fst (key_order m))" using distinct_filter [OF initial_pairs(2) [of "2 ^ 32"]] by simp
qed

subsection \<open>Sample epochs\<close>

definition sample_config :: index_config where
  "sample_config = \<lparr>cfg_num_records = 9, cfg_starting = 2, cfg_num_txns = 1, cfg_num_deletes = 1\<rparr>"

definition sample_epochs :: "YcsbTxn list list" where
  "sample_epochs =
     [[\<lparr>txn_keys = [7, 7, 7, 7, 0, 0, 1, 7, 9, 8], txn_fields = replicate 10 0,
        txn_ops = [INSERT, DELETE, INSERT, READ, DELETE, READ, READ, INSERT, DELETE, READ]\<rparr>],
      [\<lparr>txn_keys = [7, 0, 0, 5, 5, 1, 1, 7, 9, 8], txn_fields = replicate 10 0,
        txn_ops = [READ, READ, INSERT, READ, INSERT, DELETE, UPDATE, DELETE, READ, READ]\<rparr>]]"

definition sample_schedule :: schedule where
  "sample_schedule = \<lparr>o_deletes = (\<lambda>n. rev [0..<n]), o_walk = (\<lambda>n. [0..<n]), o_assign = (\<lambda>n. rev [0..<n])\<rparr>"

lemma sample_ok:
  "index_cfg_ok sample_config 9" "schedule_ok sample_schedule" "files_ok (\<lambda>i n. replicate n 0)" "epochs_ok sample_config sample_epochs"
proof -
  show "index_cfg_ok sample_config 9" by (simp add: index_cfg_ok_def sample_config_def num_slots_def)
  show "schedule_ok sample_schedule" by (auto simp: schedule_ok_def sample_schedule_def)
  show "files_ok (\<lambda>i n. replicate n 0)" by (simp add: files_ok_def)
  show "epochs_ok sample_config sample_epochs" by code_simp
qed

subsection \<open>The index is serial\<close>

text \<open>C4: The key index of the YCSB benchmark. Over a hash map with the documented behaviour of the library, and for all orders in
  which the threads of the kernels run, a process that starts on the initial population and indexes its epochs one after the other
  gives every operation the record that the serial run of all operations in slot order gives it (or turns it into a NOOP where
  the serial run finds none), on the fast path and through the timeline; at the end of the last epoch the hash map holds exactly the live records
  of the serial run, the cursors count its created and ended records, and the logs were written inside their arrays. An
  epoch with more inserts than free rows then stops with an error.\<close>

theorem index_serial:
  assumes "cuco_ok M cap single clean" and "index_cfg_ok cfg cap" and "schedule_ok sch" and "files_ok file" and "epochs_ok cfg txnss"
  shows "\<exists>st st'. start_process M cfg file = Inr st \<and>
    index_run M cfg sch txnss st = Inr (st', map (epoch_params cfg txnss (serial_start cfg)) [0..<length txnss]) \<and>
    map_find M (ix_map st') = live (serial_after cfg txnss (serial_start cfg) (length txnss)) \<and>
    ix_free_start st' = length (minted (serial_after cfg txnss (serial_start cfg) (length txnss))) \<and>
    ix_delete_count st' = length (ended (serial_after cfg txnss (serial_start cfg) (length txnss))) \<and>
    (\<forall>txns. txns_ok cfg txns \<and> cfg_num_records cfg - cfg_starting cfg - ix_free_start st' < epoch_inserts txns \<longrightarrow>
       indexTxns M cfg sch True txns st' = Inl OutOfFreeRows)"
proof -
  obtain st st' where "start_process M cfg file = Inr st"
      "index_run M cfg sch txnss st = Inr (st', map (epoch_params cfg txnss (serial_start cfg)) [0..<length txnss])"
      and inv: "index_inv M cfg single clean (serial_after cfg txnss (serial_start cfg) (length txnss)) st'"
    using index_run_from_start [OF assms] by blast
  moreover have "map_find M (ix_map st') = live (serial_after cfg txnss (serial_start cfg) (length txnss)) \<and>
      ix_free_start st' = length (minted (serial_after cfg txnss (serial_start cfg) (length txnss))) \<and>
      ix_delete_count st' = length (ended (serial_after cfg txnss (serial_start cfg) (length txnss)))" using inv by (simp add: index_inv_def)
  ultimately show ?thesis using index_epoch_full [OF _ inv] by (auto simp: epoch_inserts_keys)
qed

lemma sample_params:
  "map (map record_ids) (map (epoch_params sample_config sample_epochs (serial_start sample_config)) [0..<length sample_epochs]) =
     [[[2, 2, 3, 3, 0, kAbsent, 1, 3, kAbsent, kAbsent]], [[3, kAbsent, 4, kAbsent, 5, 1, kAbsent, 3, kAbsent, kAbsent]]]"
  by code_simp

theorem index_serial_witness:
  "\<exists>st st' ps. start_process list_map sample_config (\<lambda>i n. replicate n 0) = Inr st \<and>
     index_run list_map sample_config sample_schedule sample_epochs st = Inr (st', ps) \<and>
     map (map record_ids) ps = [[[2, 2, 3, 3, 0, kAbsent, 1, 3, kAbsent, kAbsent]], [[3, kAbsent, 4, kAbsent, 5, 1, kAbsent, 3, kAbsent, kAbsent]]]"
proof -
  obtain st st' where "start_process list_map sample_config (\<lambda>i n. replicate n 0) = Inr st"
      "index_run list_map sample_config sample_schedule sample_epochs st =
        Inr (st', map (epoch_params sample_config sample_epochs (serial_start sample_config)) [0..<length sample_epochs])"
    using index_serial [OF list_map_ok sample_ok] by blast
  then show ?thesis using sample_params by (intro exI conjI)
qed

text \<open>C5: Recovery of the key index. However the process dies after its epochs, as long as the files of the three logs keep their
  lengths and what was below the cursors of some earlier epoch, a new process that loads the initial population, replays
  the insert log and then the delete log up to these cursors and uploads the shards to a new hash map has exactly the records that
  were live at the end of that epoch, although the two logs do not record how inserts and deletes interleaved; and indexing
  the later epochs again gives every operation the same record as the first time and ends with the same hash map.\<close>

theorem index_recovery:
  assumes "cuco_ok M cap single clean" and "index_cfg_ok cfg cap" and "schedule_ok sch" and "files_ok file" and "epochs_ok cfg txnss"
    and "entries_ok entries" and "n \<le> length txnss"
  defines "s \<equiv> serial_after cfg txnss (serial_start cfg) n"
  shows "\<exists>st st1 ps. start_process M cfg file = Inr st \<and> index_run M cfg sch txnss st = Inr (st1, ps) \<and>
    (\<forall>old. torn_files (length (minted s)) (length (ended s)) (ix_shadow st1) old \<longrightarrow>
       (\<exists>st2 st3. recover_process M cfg entries (length (minted s)) (length (ended s)) old = Inr st2 \<and>
          map_find M (ix_map st2) = live s \<and> index_run M cfg sch (drop n txnss) st2 = Inr (st3, drop n ps) \<and>
          map_find M (ix_map st3) = map_find M (ix_map st1)))"
proof -
  obtain st st1 where "start_process M cfg file = Inr st"
      "index_run M cfg sch txnss st = Inr (st1, map (epoch_params cfg txnss (serial_start cfg)) [0..<length txnss])"
      and inv: "index_inv M cfg single clean (serial_after cfg txnss (serial_start cfg) (length txnss)) st1"
    using index_run_from_start [OF assms(1-5)] by blast
  then show ?thesis using index_recover_replay [OF assms(1-7) inv] unfolding s_def by blast
qed

lemma sample_history:
  "minted (serial_after sample_config sample_epochs (serial_start sample_config) 1) = [7, 7]"
  "ended (serial_after sample_config sample_epochs (serial_start sample_config) 1) = [(7, 2), (0, 0)]"
  "map (live (serial_after sample_config sample_epochs (serial_start sample_config) 1)) [0, 1, 5, 7] = [None, Some 1, None, Some 3]"
  by code_simp+

theorem index_recovery_witness:
  "\<exists>st st1 ps st2 st3. start_process list_map sample_config (\<lambda>i n. replicate n 0) = Inr st \<and>
     index_run list_map sample_config sample_schedule sample_epochs st = Inr (st1, ps) \<and>
     recover_process list_map sample_config key_order 2 2 (ix_shadow st1) = Inr st2 \<and>
     map (map_find list_map (ix_map st2)) [0, 1, 5, 7] = [None, Some 1, None, Some 3] \<and>
     index_run list_map sample_config sample_schedule (drop 1 sample_epochs) st2 = Inr (st3, drop 1 ps)"
proof -
  let ?s = "serial_after sample_config sample_epochs (serial_start sample_config) 1"
  have n: "1 \<le> length sample_epochs" by (simp add: sample_epochs_def)
  have torn: "torn_files f d sh sh" for f d sh by (simp add: torn_files_def torn_log_def option.rel_refl)
  have len: "length (minted ?s) = 2" "length (ended ?s) = 2" unfolding sample_history by simp_all
  from index_recovery [OF list_map_ok sample_ok key_order_ok n, unfolded len] torn
  obtain st st1 ps st2 st3 where "start_process list_map sample_config (\<lambda>i n. replicate n 0) = Inr st"
     "index_run list_map sample_config sample_schedule sample_epochs st = Inr (st1, ps)"
     "recover_process list_map sample_config key_order 2 2 (ix_shadow st1) = Inr st2" "map_find list_map (ix_map st2) = live ?s"
     "index_run list_map sample_config sample_schedule (drop 1 sample_epochs) st2 = Inr (st3, drop 1 ps)" by blast
  then show ?thesis using sample_history(3) by metis
qed

end
