(* ===== verification/Spec2Isabelle.thy ===== *)
theory Spec2Isabelle
  imports Warp_Execution Epoch_Cycle Sg_Kernels Sg_Buffers Txn_Bridge Host_Index Aux_Index Gacco_Memory Options Index_Serial
begin

text \<open>
  A verification of EGAD, a GPU transaction engine that executes epochs of deterministic transactions over
  a primary store in host memory with a cache of records in device memory.

  \<^bold>\<open>How the program works.\<close> An epoch takes an array of transactions. The \<^emph>\<open>key index\<close> resolves
  their keys to record ids (CRIDs), creating and ending records in serial order. The \<^emph>\<open>submitter\<close> then turns them into an array
  of operations, one word each (record, transaction, read or write, offset of the plan word). The \<^emph>\<open>stager\<close> brings
  the records the operations touch into the cache, evicting others, and rewrites record ids (CRIDs) to cache slots
  (GRIDs). The \<^emph>\<open>planner\<close> sorts the operations by record and gives each a location: the epoch-start slot
  (record A), the final slot (record B) or a version slot. The \<^emph>\<open>executor\<close> threads then run concurrently; a reader
  spins until the tag of its slot is the epoch. After the epoch the dirty slots are \<^emph>\<open>flushed\<close> to the Primary Store,
  overlapped with the next epoch, and a \<^emph>\<open>marker\<close> in a durable file records from which epoch a crashed process can
  be recovered. \<^emph>\<open>Bridges\<close> move transaction arrays between host and device; \<^emph>\<open>host indices\<close> map keys to rows. GaccO is
  a baseline engine with its own planner and locks.

  \<^bold>\<open>Theories and sources\<close> (paths under \<^verbatim>\<open>src/EGAD\<close>; the names of the definitions are those of the code).
  \<^item> \<open>Prelude\<close>: word types, \<open>load\<close> and \<open>store\<close> on arrays indexed by words, scans, run lengths, the
    collection \<open>word_bounds\<close>.
  \<^item> \<open>Op_Encoding\<close>, \<open>Planner\<close>: \<^verbatim>\<open>execution_planner.h\<close>, \<^verbatim>\<open>gpu_execution_planner.cu\<close>. The plan sends a read where
    the last write of its record before it goes; the first reads get record A, the last write record B.
  \<^item> \<open>Storage\<close>: \<^verbatim>\<open>storage.h\<close>, \<^verbatim>\<open>gpu_storage.cuh\<close>, with one \<open>memory\<close> record for records, version slots and dirty flags.
    The warp-cooperative accesses agree with the single-thread ones; a record B write disturbs no record A read.
  \<^item> \<open>Execution\<close>: the interleaving of all accesses of an epoch, word by word, as the step relation \<open>exec_step\<close>, over any
    plan that meets the locale \<open>plan_contract\<close>. It imposes no program order, which is safe for
    safety: every finished read returns what the serial order gives, and the final slots hold the last writes.
  \<^item> \<open>Ycsb_Txn\<close>, \<open>Submitter\<close>: \<^verbatim>\<open>benchmarks/ycsb_txn.h\<close>, \<^verbatim>\<open>ycsb_gpu_submitter.cu\<close>. The operation array is the
    serial list of operations; no two operations of a transaction share a plan word.
  \<^item> \<open>Warp_Execution\<close>: \<^verbatim>\<open>benchmarks/ycsb_gpu_executor.cu\<close>. The launch of the execution kernels as the step relation \<open>kernel_step\<close>: blocks
    start when the device has room, warps draw pieces from the counters and run their accesses in program order. The pieces run
    exactly the submitted operations, and the kernel can always go on until all of them are finished.
  \<^item> \<open>Device_Ring\<close>, \<open>Crid_Grid\<close>, \<open>Eviction\<close>: \<^verbatim>\<open>util_device_ring.cuh\<close>, \<^verbatim>\<open>benchmarks/crid_grid_index.cu\<close>,
    \<^verbatim>\<open>reclaim_flags.cuh\<close> and the eviction kernels. The ring pop is a queue pop (locale \<open>grant_queue\<close>),
    the index is a coherent map between CRIDs and GRIDs (locale \<open>cache_index\<close>), victims are cached and not needed.
  \<^item> \<open>Scatter_Gather\<close>, \<open>Sg_Kernels\<close>, \<open>Sg_Buffers\<close>: \<^verbatim>\<open>scatter_gather.cu\<close> as transfers of records, as kernels on
    words, and as a machine of buffer capacities. Pipelines equal a single pass, kernels refine the record transfers, buffers
    are never overrun in chunked mode, a writeback cut at any store leaves in every slot the old tag or the complete new version.
  \<^item> \<open>Stager\<close>, \<open>Staging\<close>, \<open>Flush\<close>, \<open>Async_Flush\<close>: \<^verbatim>\<open>benchmarks/ycsb_hybrid_stager.cu\<close> and \<^verbatim>\<open>flush_handle.h\<close>. Staging succeeds
    whenever the records fit into the cache and, after epoch 1, into the key buffer sized in epoch 1, with the right contents; the flush writes exactly the dirty slots; the overlapped flush ends
    in the same store as the synchronous one and does not disturb the preparation of the next epoch.
  \<^item> \<open>Recovery_Marker\<close>, \<open>Recovery\<close>, \<open>Epoch_Cycle\<close>: \<^verbatim>\<open>benchmarks/recovery_meta.h\<close>, \<^verbatim>\<open>ycsb_recovery.cpp\<close> and the order of drain, marker
    update and flush in \<^verbatim>\<open>ycsb.cpp\<close>. The marker is a crash-atomic cell (locale \<open>crash_atomic_cell\<close>); the step relation
    \<open>pipeline_step\<close> lands the stores of a flush one by one, and from each of its reachable states recovery
    restores the store of the epoch the marker names; one epoch of writes and flush meets what that relation assumes.
  \<^item> \<open>Device_Memory\<close>, \<open>Txn_Array\<close>, \<open>Txn_Bridge\<close>: \<^verbatim>\<open>util_memory\<close>, \<^verbatim>\<open>util_gpu_transfer.cu\<close>, \<^verbatim>\<open>txn.h\<close>, \<^verbatim>\<open>gpu_txn.cuh\<close>,
    \<^verbatim>\<open>txn_bridge.h\<close>. Blocks of bytes, streams with pending copies; transfers deliver the source transactions whatever the
    progress of the copy engine.
  \<^item> \<open>Durable_Store\<close>: \<^verbatim>\<open>MallocDurable\<close>. When the system calls succeed, a recovering process reads the bytes the region was created with (zeros, or
    for a pinned region the former file) with the writes applied.
  \<^item> \<open>Host_Index\<close>, \<open>Endianness\<close>, \<open>Aux_Index\<close>: \<^verbatim>\<open>hashtable_index.h\<close>, \<^verbatim>\<open>std_map_index.h\<close>, \<^verbatim>\<open>std_unordered_map_index.h\<close>,
    \<^verbatim>\<open>util_endianness.h\<close>, \<^verbatim>\<open>cpu_auxiliary_range_index.h\<close>. One locale \<open>row_index\<close> with an interpretation for each index; the
    auxiliary index is an ordered map over a parameter for the Masstree, whose hypotheses are its byte order.
  \<^item> \<open>Planner_Memory\<close>: the constructor and \<^verbatim>\<open>Initialize\<close> of \<^verbatim>\<open>gpu_execution_planner.cu\<close> over \<^verbatim>\<open>gpu_allocator.cu\<close>. The arrays of the
    planner hold every epoch the submitter can produce.
  \<^item> \<open>Gacco_Plan\<close>, \<open>Gacco_Locks\<close>, \<open>Gacco_Handover\<close>, \<open>Gacco_Memory\<close>: \<^verbatim>\<open>gacco/gpu_execution_planner.cu\<close>, the submitter and the lock protocol of its YCSB
    benchmark. Pieces of a record enter one at a time in submission order, and, if there is a spare entry behind the accesses, some piece can step until all
    have finished; the handover of a lock stays inside the access array except when the number of transactions is a multiple of 16.
  \<^item> \<open>Serial_Index\<close>, \<open>Epoch_Timeline\<close>, \<open>Timeline_Correct\<close>, \<open>Shadow_Index\<close>, \<open>Key_Index\<close>, \<open>Fast_Path\<close>, \<open>Index_Epoch\<close>, \<open>Index_Run\<close>, \<open>Index_Serial\<close>:
    \<^verbatim>\<open>benchmarks/epoch_timeline.cuh\<close>, \<^verbatim>\<open>ycsb_gpu_index.cu\<close>, \<^verbatim>\<open>ycsb_cpu_shadow_index.cpp\<close>. \<open>Serial_Index\<close> is the specification, a serial run of the
    operations on a map; \<open>Epoch_Timeline\<close>, \<open>Shadow_Index\<close> and \<open>Key_Index\<close> model the code, over a parameter for the hash map whose hypotheses
    (\<open>cuco_ok\<close>) are its documented behaviour. Both paths of the index give each operation the record of the serial run, and a
    process that recovers from the two logs has the index of the epoch it goes back to.
  \<^item> \<open>Options\<close>: \<^verbatim>\<open>main.cpp\<close> with \<^verbatim>\<open>ycsb_config.h\<close> and \<^verbatim>\<open>tpcc_config.h\<close>. The loop over the options as a fold of
    \<open>option_step\<close> over the local variables of \<^verbatim>\<open>main\<close>; every accepted command line gives a well-formed configuration.

  \<^bold>\<open>Conventions.\<close> 32- and 64-bit integers are words; host sizes that cannot wrap are \<open>nat\<close>. Errors and
  out-of-range accesses are values of a sum or option type. Orders in which concurrent threads append to a list, lanes
  of a warp run, copies proceed and stores land are parameters or choices of a step relation, so the theorems hold for all of
  them. Loops are recursive functions with termination proofs; only reading an iterator to its end (\<open>drain\<close> in
  \<open>Host_Index\<close>) takes fuel, and the theorem states that the number of entries is enough. The pipeline assumes fewer than
  \<open>2 ^ 32 - 1\<close> epochs.

  \<^bold>\<open>Not modelled.\<close> The TPC-C benchmark (a second client with a stager per table), the drivers, timing,
  logging and thread placement, random workload generation (floating point), memory statistics, the \<^verbatim>\<open>catch\<close> of the flush worker (an
  exception there is logged and the rest of the flush left out), the hooks,
  hashes and checks of the validation build, tests and third-party code. CUDA, CUB and the C++
  library are modelled by their documented behaviour; memory accesses are sequentially consistent apart from the pending copies
  of streams.
\<close>

end
